(* ===== verification/Prelude.thy ===== *)
theory Prelude
  imports Main "HOL-Library.Word"
begin

text \<open>
  Shared vocabulary of the development: the machine integer types of the C sources, the
  outcome of a kernel routine (it returns, it reaches a \<^verbatim>\<open>for(;;) hlt\<close> loop, or one of its
  memory accesses raises a page fault), the \<^verbatim>\<open>for\<close> loop over such outcomes with its
  total-correctness rule, and the arithmetic of 4 KB frames on 32-bit words.
\<close>

unbundle bit_operations_syntax

type_synonym u8 = "8 word"
type_synonym u16 = "16 word"
type_synonym u32 = "32 word"
type_synonym u64 = "64 word"

named_theorems frame_simps "arithmetic of page frames, table indexes and page offsets"
named_theorems machine_simps "how machine operations change the fields of the state"

subsection \<open>Outcomes\<close>

text \<open>
  \<open>Ret a s\<close>: the routine returned \<open>a\<close> in state \<open>s\<close>. \<open>Hang s\<close>: it entered an endless
  \<^verbatim>\<open>for (;;) hlt\<close> loop. \<open>Trap a s\<close>: the MMU refused the access to address \<open>a\<close>.
\<close>

datatype ('a, 's) outcome = Ret 'a 's | Hang 's | Trap u32 's

fun obind :: "('a, 's) outcome \<Rightarrow> ('a \<Rightarrow> 's \<Rightarrow> ('b, 's) outcome) \<Rightarrow> ('b, 's) outcome" where
  "obind (Ret a s) f = f a s"
| "obind (Hang s) f = Hang s"
| "obind (Trap v s) f = Trap v s"

fun returns :: "('a, 's) outcome \<Rightarrow> bool" where
  "returns (Ret a s) = True"
| "returns (Hang s) = False"
| "returns (Trap v s) = False"

fun final_state :: "('a, 's) outcome \<Rightarrow> 's" where
  "final_state (Ret a s) = s"
| "final_state (Hang s) = s"
| "final_state (Trap v s) = s"

lemma obind_Ret_iff:
  "obind m f = Ret b t \<longleftrightarrow> (\<exists>a s. m = Ret a s \<and> f a s = Ret b t)"
  by (cases m) auto

lemma obind_assoc: "obind (obind m f) g = obind m (\<lambda>a s. obind (f a s) g)"
  by (cases m) auto

text \<open>
  \<^verbatim>\<open>for (i = 0; i < n; i++) body(i)\<close> is \<open>foreach [0..<n] body\<close>: the loop stops at the
  first iteration that does not return.
\<close>

primrec foreach :: "'i list \<Rightarrow> ('i \<Rightarrow> 's \<Rightarrow> (unit, 's) outcome) \<Rightarrow> 's \<Rightarrow> (unit, 's) outcome" where
  "foreach [] body s = Ret () s"
| "foreach (i # is) body s = obind (body i s) (\<lambda>_ t. foreach is body t)"

lemma foreach_append:
  "foreach (xs @ ys) body s = obind (foreach xs body s) (\<lambda>_ t. foreach ys body t)"
  by (induction xs arbitrary: s) (auto simp: obind_assoc)

text \<open>The loop rule: an invariant that every iteration keeps, each iteration returning.\<close>

lemma foreach_upt_rule:
  assumes "P 0 s"
    and "\<And>i s. i < n \<Longrightarrow> P i s \<Longrightarrow> \<exists>t. body i s = Ret () t \<and> P (Suc i) t"
  shows "\<exists>t. foreach [0..<n] body s = Ret () t \<and> P n t"
  using assms(2)
proof (induction n)
  case 0
  with assms(1) show ?case by simp
next
  case (Suc n)
  then obtain t where t: "foreach [0..<n] body s = Ret () t" "P n t"
    by (metis less_Suc_eq)
  moreover from Suc.prems t(2) obtain u where "body n t = Ret () u" "P (Suc n) u"
    by blast
  ultimately show ?case
    by (simp add: foreach_append)
qed

text \<open>The same loop when an iteration may fail: the invariant holds for what was done.\<close>

lemma foreach_upt_partial:
  assumes "foreach [0..<n] body s = Ret () t"
    and "P 0 s"
    and "\<And>i s t. i < n \<Longrightarrow> P i s \<Longrightarrow> body i s = Ret () t \<Longrightarrow> P (Suc i) t"
  shows "P n t"
  using assms(1,3)
proof (induction n arbitrary: t)
  case 0
  with assms(2) show ?case by simp
next
  case (Suc n)
  from Suc.prems(1) obtain u where u: "foreach [0..<n] body s = Ret () u" "body n u = Ret () t"
    by (auto simp: foreach_append obind_Ret_iff)
  from u(1) have "P n u"
    by (rule Suc.IH) (use Suc.prems(2) in auto)
  with u(2) show ?case
    using Suc.prems(2) by blast
qed

subsection \<open>Frames, table indexes and page offsets\<close>

definition frame_aligned :: "u32 \<Rightarrow> bool" where
  "frame_aligned f \<longleftrightarrow> f AND 0xFFF = 0"

lemma unat_and_mask: "unat ((a::'a::len word) AND mask n) = unat a mod 2 ^ n"
proof -
  have "unat (a AND mask n) = take_bit n (unat a)"
    by (simp only: take_bit_eq_mask [symmetric] unsigned_take_bit_eq)
  then show ?thesis by (simp only: take_bit_eq_mod)
qed

lemma unat_page_off [frame_simps]: "unat ((a::u32) AND 0xFFF) = unat a mod 4096"
  using unat_and_mask [of a 12] by (simp add: mask_eq_exp_minus_1)

lemma unat_drop_bit_u32 [frame_simps]: "unat (drop_bit n (a::u32)) = unat a div 2 ^ n"
proof -
  have "unat a div 2 ^ n < 2 ^ 32"
    using unsigned_less [of a, where 'a = nat] by (simp add: le_less_trans [OF div_le_dividend])
  moreover have "unat (drop_bit n a) = drop_bit n (take_bit 32 (unat a))"
    by (simp add: unsigned_drop_bit_eq)
  ultimately show ?thesis
    using unsigned_less [of a, where 'a = nat] by (simp add: take_bit_nat_eq_self drop_bit_eq_div)
qed

lemma unat_ptx [frame_simps]: "unat (drop_bit 12 (a::u32) AND 0x3FF) = unat a div 4096 mod 1024"
  using unat_and_mask [of "drop_bit 12 a" 10]
  by (simp add: mask_eq_exp_minus_1 unat_drop_bit_u32)

lemma frame_mask: "(0xFFFFF000::u32) = NOT (mask 12)"
  by (simp add: mask_eq_exp_minus_1)

lemma page_mask: "(0xFFF::u32) = mask 12"
  by (simp add: mask_eq_exp_minus_1)

lemma frame_or_off [frame_simps]: "((a::u32) AND 0xFFFFF000) OR (a AND 0xFFF) = a"
  unfolding frame_mask page_mask
  by (metis bit.conj_disj_distrib bit.disj_cancel_left and.right_neutral)

lemma frame_plus_off: "((a::u32) AND 0xFFFFF000) + (a AND 0xFFF) = a"
proof -
  have "(a AND 0xFFFFF000) AND (a AND 0xFFF) = 0"
    by (rule bit_word_eqI) (simp add: frame_mask page_mask bit_simps)
  then show ?thesis
    by (simp add: disjunctive_add_eq_or frame_or_off)
qed

lemma unat_frame [frame_simps]: "unat ((a::u32) AND 0xFFFFF000) = unat a div 4096 * 4096"
proof -
  have "unat (drop_bit 12 a) = unat a div 4096" by (simp add: unat_drop_bit_u32)
  have "push_bit 12 (drop_bit 12 a) = a AND 0xFFFFF000"
    by (rule bit_word_eqI) (auto simp add: frame_mask bit_simps)
  moreover have "unat (push_bit 12 (drop_bit 12 a)) = unat a div 4096 * 4096"
  proof -
    have "unat a div 4096 * 4096 < 2 ^ 32"
      using unsigned_less [of a, where 'a = nat] by (simp add: le_less_trans [OF div_times_less_eq_dividend])
    then show ?thesis
      by (simp add: push_bit_eq_mult unat_word_ariths unat_drop_bit_u32)
  qed
  ultimately show ?thesis by simp
qed

lemma frame_aligned_iff: "frame_aligned f \<longleftrightarrow> unat f mod 4096 = 0"
  by (metis frame_aligned_def unat_page_off unat_eq_0)

lemma frame_alignedE:
  assumes "frame_aligned f"
  obtains k where "unat f = 4096 * k" "k < 2 ^ 20"
proof -
  from assms obtain k where k: "unat f = 4096 * k"
    by (auto simp: frame_aligned_iff mod_eq_0_iff_dvd)
  moreover have "4096 * k < 2 ^ 32"
    using unsigned_less [of f, where 'a = nat] by (simp add: k)
  ultimately show ?thesis by (intro that [of k]) simp_all
qed

lemma frame_alignedD: "frame_aligned f \<Longrightarrow> unat f = unat f div 4096 * 4096"
  by (elim frame_alignedE) simp

lemma frame_aligned_bound: "frame_aligned f \<Longrightarrow> unat f + 4096 \<le> 2 ^ 32"
  by (elim frame_alignedE) simp

lemma frame_aligned_mask [simp, intro]: "frame_aligned (a AND 0xFFFFF000)"
  by (simp add: frame_aligned_iff unat_frame)

lemma frame_of_aligned [frame_simps]: "frame_aligned f \<Longrightarrow> f AND 0xFFFFF000 = f"
  by (metis frame_alignedD unat_frame word_unat_eq_iff)

lemma frame_or_flags [frame_simps]:
  assumes "frame_aligned f" "fl AND 0xFFFFF000 = 0"
  shows "(f OR fl) AND 0xFFFFF000 = f"
  using assms by (simp add: bit.conj_disj_distrib2 frame_of_aligned)

lemma flag_or_frame [frame_simps]:
  assumes "frame_aligned f" "c AND 0xFFF = c"
  shows "(f OR fl) AND c = fl AND c"
proof -
  have "f AND c = 0"
  proof -
    have "f AND c = f AND (0xFFF AND c)"
      by (subst assms(2) [symmetric]) (simp only: and.commute)
    also have "\<dots> = 0"
      using assms(1) by (simp only: and.assoc [symmetric] frame_aligned_def and_zero_eq zero_and_eq)
    finally show ?thesis .
  qed
  then show ?thesis by (simp add: bit.conj_disj_distrib2)
qed

lemma unat_entry_addr [frame_simps]:
  assumes "frame_aligned f" "unat i < 1024"
  shows "unat (f + 4 * i) = unat f + 4 * unat i"
  using assms frame_aligned_bound [of f] by (simp add: unat_word_ariths)

lemma unat_add_of_nat: "unat (a::u32) + k < 2 ^ 32 \<Longrightarrow> unat (a + of_nat k) = unat a + k"
  by (simp add: unat_word_ariths unat_of_nat)

lemma unat_frame_byte [frame_simps]:
  assumes "frame_aligned f" "k < 4096"
  shows "unat (f + of_nat k) = unat f + k"
  using assms frame_aligned_bound [of f] by (simp add: unat_word_ariths unat_of_nat)

lemma same_page_iff:
  "drop_bit 22 a = drop_bit 22 (b::u32) \<and> drop_bit 12 a AND 0x3FF = drop_bit 12 b AND 0x3FF
    \<longleftrightarrow> drop_bit 12 a = drop_bit 12 b"
proof -
  have *: "x div 2 ^ 22 = x div 4096 div 1024" for x :: nat
    by (simp add: div_mult2_eq [symmetric])
  have "unat a div 4096 div 1024 = unat b div 4096 div 1024 \<and>
        unat a div 4096 mod 1024 = unat b div 4096 mod 1024
        \<longleftrightarrow> unat a div 4096 = unat b div 4096"
    by (metis div_mult_mod_eq)
  then show ?thesis
    by (simp only: word_unat_eq_iff unat_ptx unat_drop_bit_u32 *) simp
qed

lemma unat_block_addr [frame_simps]: "unat (b::u32) < 2 ^ 20 \<Longrightarrow> unat (b * 4096) = unat b * 4096"
  by (simp add: unat_word_ariths)

lemma frame_aligned_block [simp, intro]: "frame_aligned (b * 4096)"
proof -
  have "b * 4096 = push_bit 12 b" by (simp add: push_bit_eq_mult)
  then show ?thesis
    by (auto simp: frame_aligned_def page_mask intro!: bit_word_eqI simp: bit_simps)
qed

lemma frame_aligned_0 [simp]: "frame_aligned 0"
  by (simp add: frame_aligned_def)

lemma frame_eqI:
  assumes "frame_aligned f" "frame_aligned g" "unat f div 4096 = unat g div 4096"
  shows "f = g"
  using assms by (metis frame_alignedD word_unat_eq_iff)

end
