(* ===== verification/Machine.thy ===== *)
theory Machine
  imports Prelude
begin

text \<open>
  The machine the kernel runs on: byte-addressed physical memory, the control registers,
  the interrupt flag and the TLB, with the meaning of the inline assembly of
  \<^verbatim>\<open>vmm.c\<close> (\<^verbatim>\<open>mov cr3\<close>, \<^verbatim>\<open>mov cr0\<close>, \<^verbatim>\<open>invlpg\<close>), of \<^verbatim>\<open>cli\<close>/\<^verbatim>\<open>sti\<close> and of a C memory
  access: with paging off an address is physical, with paging on it goes through the
  two-level walk of the directory in \<^verbatim>\<open>cr3\<close>. 32-bit accesses of the code are aligned, so one
  translation serves all four bytes.
\<close>

subsection \<open>Little-endian words in byte memory\<close>

type_synonym memory = "u32 \<Rightarrow> u8"

definition rd16 :: "memory \<Rightarrow> u32 \<Rightarrow> u16" where
  "rd16 m a = ucast (m a) OR push_bit 8 (ucast (m (a + 1)))"

definition rd32 :: "memory \<Rightarrow> u32 \<Rightarrow> u32" where
  "rd32 m a = ucast (m a) OR push_bit 8 (ucast (m (a + 1)))
     OR push_bit 16 (ucast (m (a + 2))) OR push_bit 24 (ucast (m (a + 3)))"

definition rd64 :: "memory \<Rightarrow> u32 \<Rightarrow> u64" where
  "rd64 m a = ucast (rd32 m a) OR push_bit 32 (ucast (rd32 m (a + 4)))"

definition wr32 :: "u32 \<Rightarrow> u32 \<Rightarrow> memory \<Rightarrow> memory" where
  "wr32 a v m = m(a := ucast v, a + 1 := ucast (drop_bit 8 v),
     a + 2 := ucast (drop_bit 16 v), a + 3 := ucast (drop_bit 24 v))"

lemma rd32_wr32 [simp]: "rd32 (wr32 a v m) a = v"
proof (rule bit_word_eqI)
  fix n assume "n < LENGTH(32)"
  then show "bit (rd32 (wr32 a v m) a) n = bit v n"
    by (auto simp: rd32_def wr32_def bit_simps not_less less_diff_conv2)
       (metis le_add_diff_inverse not_le)
qed

lemma rd32_cong:
  assumes "\<And>k. k < 4 \<Longrightarrow> m (a + of_nat k) = m' (a + of_nat k)"
  shows "rd32 m a = rd32 m' a"
  using assms [of 0] assms [of 1] assms [of 2] assms [of 3]
  by (simp add: rd32_def)

lemma wr32_outside:
  assumes "\<And>k. k < 4 \<Longrightarrow> b \<noteq> a + of_nat k"
  shows "wr32 a v m b = m b"
  using assms [of 0] assms [of 1] assms [of 2] assms [of 3]
  by (simp add: wr32_def)

text \<open>Table entries: entry \<open>i\<close> of the frame \<open>f\<close> is the word at \<open>f + 4 * i\<close>.\<close>

lemma unat_entry_byte:
  assumes "frame_aligned f" "unat i < 1024" "k < 4"
  shows "unat (f + 4 * i + of_nat k) = unat f + 4 * unat i + k"
proof -
  have "unat (f + 4 * i) + k < 2 ^ 32"
    using assms frame_aligned_bound [of f] by (simp add: unat_entry_addr)
  then show ?thesis
    using assms by (simp add: unat_add_of_nat unat_entry_addr)
qed

lemma rd32_wr32_entry:
  assumes "frame_aligned f" "frame_aligned g" "unat i < 1024" "unat j < 1024"
  shows "rd32 (wr32 (f + 4 * i) v m) (g + 4 * j) =
    (if f = g \<and> i = j then v else rd32 m (g + 4 * j))"
proof (cases "f = g \<and> i = j")
  case False
  obtain x y where xy: "unat f = 4096 * x" "unat g = 4096 * y"
    using assms by (metis frame_alignedE)
  have "wr32 (f + 4 * i) v m (g + 4 * j + of_nat k) = m (g + 4 * j + of_nat k)" if "k < 4" for k
  proof (rule wr32_outside)
    fix l :: nat assume l: "l < 4"
    have ne: "4096 * y + 4 * unat j + k \<noteq> 4096 * x + 4 * unat i + l"
    proof
      assume eq: "4096 * y + 4 * unat j + k = 4096 * x + 4 * unat i + l"
      then have "y = x" using assms(3,4) that l by linarith
      moreover from this eq have "unat j = unat i" using that l by linarith
      ultimately show False using False xy by (simp add: word_unat_eq_iff)
    qed
    show "g + 4 * j + of_nat k \<noteq> f + 4 * i + of_nat l"
    proof
      assume "g + 4 * j + of_nat k = f + 4 * i + of_nat l"
      then have "unat (g + 4 * j + of_nat k) = unat (f + 4 * i + of_nat l)" by simp
      with ne show False using assms that l by (simp add: unat_entry_byte xy)
    qed
  qed
  with False show ?thesis by (auto intro: rd32_cong)
qed auto

text \<open>A byte write outside a frame leaves the entries of the frame alone.\<close>

definition in_frame :: "u32 \<Rightarrow> u32 \<Rightarrow> bool" where
  "in_frame f a \<longleftrightarrow> a AND 0xFFFFF000 = f"

lemma in_frame_iff:
  assumes "frame_aligned f"
  shows "in_frame f a \<longleftrightarrow> unat f \<le> unat a \<and> unat a < unat f + 4096"
proof -
  obtain x where x: "unat f = 4096 * x" using assms by (rule frame_alignedE)
  have "in_frame f a \<longleftrightarrow> unat a div 4096 * 4096 = unat f"
    by (simp add: in_frame_def word_unat_eq_iff unat_frame)
  also have "\<dots> \<longleftrightarrow> unat a div 4096 = x" by (simp add: x)
  also have "\<dots> \<longleftrightarrow> 4096 * x \<le> unat a \<and> unat a < 4096 * x + 4096"
    using div_nat_eqI [of 4096 x "unat a"] times_div_less_eq_dividend [of 4096 "unat a"]
      dividend_less_times_div [of 4096 "unat a"] by auto
  finally show ?thesis by (simp add: x)
qed

lemma in_frame_byte [simp]: "frame_aligned f \<Longrightarrow> k < 4096 \<Longrightarrow> in_frame f (f + of_nat k)"
  by (simp add: in_frame_iff unat_frame_byte)

lemma in_frame_unique: "in_frame f a \<Longrightarrow> in_frame g a \<Longrightarrow> f = g"
  by (simp add: in_frame_def)

lemma in_frame_entry:
  assumes "frame_aligned f" "unat i < 1024" "k < 4"
  shows "in_frame f (f + 4 * i + of_nat k)"
  using assms by (simp add: in_frame_iff unat_entry_byte)

lemma rd32_entry_cong:
  assumes "frame_aligned f" "unat i < 1024" "\<And>a. in_frame f a \<Longrightarrow> m a = m' a"
  shows "rd32 m (f + 4 * i) = rd32 m' (f + 4 * i)"
  using assms by (intro rd32_cong) (simp add: in_frame_entry)

lemma wr32_entry_outside:
  assumes "frame_aligned f" "unat i < 1024" "\<not> in_frame f b"
  shows "wr32 (f + 4 * i) v m b = m b"
  using assms by (intro wr32_outside) (metis in_frame_entry)

subsection \<open>The two-level walk\<close>

text \<open>
  Bit 0 of a directory or table entry is the present bit, bit 1 allows writes, bit 2 allows
  ring 3. The walk yields the table entry that maps the page of \<open>va\<close>.
\<close>

definition page_walk :: "memory \<Rightarrow> u32 \<Rightarrow> u32 \<Rightarrow> u32 option" where
  "page_walk m pd va =
     (let pde = rd32 m (pd + 4 * drop_bit 22 va) in
      if pde AND 1 = 0 then None
      else let pte = rd32 m ((pde AND 0xFFFFF000) + 4 * (drop_bit 12 va AND 0x3FF)) in
        if pte AND 1 = 0 then None else Some pte)"

text \<open>Ring 3 may use a page when both levels carry the user bit (and the write bit to write).\<close>

definition user_access :: "memory \<Rightarrow> u32 \<Rightarrow> u32 \<Rightarrow> bool \<Rightarrow> bool" where
  "user_access m pd va write =
     (case page_walk m pd va of
        None \<Rightarrow> False
      | Some pte \<Rightarrow>
          (let both = rd32 m (pd + 4 * drop_bit 22 va) AND pte in
           both AND 4 \<noteq> 0 \<and> (write \<longrightarrow> both AND 2 \<noteq> 0)))"

lemma unat_pdx_less [simp]: "unat (drop_bit 22 (va::u32)) < 1024"
  using unsigned_less [of va, where 'a = nat] by (simp add: unat_drop_bit_u32 less_mult_imp_div_less)

lemma unat_ptx_less [simp]: "unat (drop_bit 12 (va::u32) AND 0x3FF) < 1024"
  by (simp add: unat_ptx)

lemma page_walk_cong:
  assumes "frame_aligned pd"
    and "\<And>a. in_frame pd a \<Longrightarrow> m' a = m a"
    and "\<And>a. rd32 m (pd + 4 * drop_bit 22 va) AND 1 \<noteq> 0 \<Longrightarrow>
           in_frame (rd32 m (pd + 4 * drop_bit 22 va) AND 0xFFFFF000) a \<Longrightarrow> m' a = m a"
  shows "page_walk m' pd va = page_walk m pd va"
proof -
  have 1: "rd32 m' (pd + 4 * drop_bit 22 va) = rd32 m (pd + 4 * drop_bit 22 va)"
    using assms(1,2) by (intro rd32_entry_cong) auto
  show ?thesis
  proof (cases "rd32 m (pd + 4 * drop_bit 22 va) AND 1 = 0")
    case False
    let ?pt = "rd32 m (pd + 4 * drop_bit 22 va) AND 0xFFFFF000"
    have "rd32 m' (?pt + 4 * (drop_bit 12 va AND 0x3FF)) = rd32 m (?pt + 4 * (drop_bit 12 va AND 0x3FF))"
      using False assms(3) by (intro rd32_entry_cong) auto
    with 1 show ?thesis by (simp add: page_walk_def Let_def)
  qed (simp add: 1 page_walk_def)
qed

subsection \<open>Machine state and its primitive operations\<close>

record machine =
  mem :: memory
  cr0 :: u32
  cr2 :: u32
  cr3 :: u32
  iflag :: bool
  tlb :: "u32 \<Rightarrow> u32 option"

definition write_cr3 :: "u32 \<Rightarrow> 'a machine_scheme \<Rightarrow> 'a machine_scheme" where
  "write_cr3 val s = s\<lparr>cr3 := val, tlb := (\<lambda>_. None)\<rparr>"

definition write_cr0 :: "u32 \<Rightarrow> 'a machine_scheme \<Rightarrow> 'a machine_scheme" where
  "write_cr0 val s = s\<lparr>cr0 := val\<rparr>"

definition read_cr0 :: "'a machine_scheme \<Rightarrow> u32" where
  "read_cr0 s = cr0 s"

definition read_cr3 :: "'a machine_scheme \<Rightarrow> u32" where
  "read_cr3 s = cr3 s"

definition invlpg :: "u32 \<Rightarrow> 'a machine_scheme \<Rightarrow> 'a machine_scheme" where
  "invlpg addr s = s\<lparr>tlb := (tlb s)(drop_bit 12 addr := None)\<rparr>"

definition cli :: "'a machine_scheme \<Rightarrow> 'a machine_scheme" where
  "cli s = s\<lparr>iflag := False\<rparr>"

definition sti :: "'a machine_scheme \<Rightarrow> 'a machine_scheme" where
  "sti s = s\<lparr>iflag := True\<rparr>"

definition paging_on :: "'a machine_scheme \<Rightarrow> bool" where
  "paging_on s \<longleftrightarrow> cr0 s AND 0x80000000 \<noteq> 0"

definition translate :: "'a machine_scheme \<Rightarrow> u32 \<Rightarrow> u32 option" where
  "translate s va =
     (if paging_on s
      then map_option (\<lambda>pte. (pte AND 0xFFFFF000) OR (va AND 0xFFF))
             (page_walk (mem s) (cr3 s AND 0xFFFFF000) va)
      else Some va)"

definition load8 :: "u32 \<Rightarrow> 'a machine_scheme \<Rightarrow> (u8, 'a machine_scheme) outcome" where
  "load8 a s = (case translate s a of None \<Rightarrow> Trap a s | Some p \<Rightarrow> Ret (mem s p) s)"

definition load32 :: "u32 \<Rightarrow> 'a machine_scheme \<Rightarrow> (u32, 'a machine_scheme) outcome" where
  "load32 a s = (case translate s a of None \<Rightarrow> Trap a s | Some p \<Rightarrow> Ret (rd32 (mem s) p) s)"

definition store8 :: "u32 \<Rightarrow> u8 \<Rightarrow> 'a machine_scheme \<Rightarrow> (unit, 'a machine_scheme) outcome" where
  "store8 a v s = (case translate s a of None \<Rightarrow> Trap a s
     | Some p \<Rightarrow> Ret () (s\<lparr>mem := (mem s)(p := v)\<rparr>))"

definition store32 :: "u32 \<Rightarrow> u32 \<Rightarrow> 'a machine_scheme \<Rightarrow> (unit, 'a machine_scheme) outcome" where
  "store32 a v s = (case translate s a of None \<Rightarrow> Trap a s
     | Some p \<Rightarrow> Ret () (s\<lparr>mem := wr32 p v (mem s)\<rparr>))"

lemma access_ident [machine_simps]:
  assumes "translate s a = Some a"
  shows "load8 a s = Ret (mem s a) s"
    and "load32 a s = Ret (rd32 (mem s) a) s"
    and "store8 a b s = Ret () (s\<lparr>mem := (mem s)(a := b)\<rparr>)"
    and "store32 a v s = Ret () (s\<lparr>mem := wr32 a v (mem s)\<rparr>)"
  using assms by (simp_all add: load8_def load32_def store8_def store32_def)

lemma translate_off [machine_simps]: "\<not> paging_on s \<Longrightarrow> translate s a = Some a"
  by (simp add: translate_def)

lemma paging_on_simps [machine_simps, simp]:
  "paging_on (s\<lparr>mem := m\<rparr>) = paging_on s"
  "paging_on (s\<lparr>tlb := t\<rparr>) = paging_on s"
  "paging_on (s\<lparr>cr3 := c\<rparr>) = paging_on s"
  "paging_on (s\<lparr>iflag := b\<rparr>) = paging_on s"
  "paging_on (write_cr3 v s) = paging_on s"
  "paging_on (invlpg v s) = paging_on s"
  by (simp_all add: paging_on_def write_cr3_def invlpg_def)

end
