(* ===== verification/KString.thy ===== *)
theory KString
  imports Machine
begin

text \<open>
  \<^verbatim>\<open>src/string.c\<close>. \<open>memset\<close> and \<open>memcpy\<close> work on the machine's memory, one byte access per
  iteration. For the string routines a \<^verbatim>\<open>char *\<close> is the list of bytes from the pointed-to
  byte to the end of its object, and running past that end is \<open>None\<close> (undefined behaviour
  in C). The lemmas relate each routine to \<open>text_of\<close>, the bytes before the terminating NUL.
\<close>

definition memset :: "u32 \<Rightarrow> u32 \<Rightarrow> u32 \<Rightarrow> 'a machine_scheme \<Rightarrow> (u32, 'a machine_scheme) outcome" where
  "memset dest val len s =
     obind (foreach [0..<unat len] (\<lambda>i. store8 (dest + of_nat i) (ucast val)) s)
       (\<lambda>_ t. Ret dest t)"

definition memcpy :: "u32 \<Rightarrow> u32 \<Rightarrow> u32 \<Rightarrow> 'a machine_scheme \<Rightarrow> (u32, 'a machine_scheme) outcome" where
  "memcpy dest src len s =
     obind (foreach [0..<unat len]
         (\<lambda>i t. obind (load8 (src + of_nat i) t) (\<lambda>b u. store8 (dest + of_nat i) b u)) s)
       (\<lambda>_ t. Ret dest t)"

fun strlen :: "u8 list \<Rightarrow> nat option" where
  "strlen [] = None"
| "strlen (c # cs) = (if c \<noteq> 0 then map_option Suc (strlen cs) else Some 0)"

fun strcpy :: "u8 list \<Rightarrow> u8 list \<Rightarrow> u8 list option" where
  "strcpy (d # ds) (c # cs) =
     (if c \<noteq> 0 then map_option (Cons c) (strcpy ds cs) else Some (c # ds))"
| "strcpy _ _ = None"

fun strcmp :: "u8 list \<Rightarrow> u8 list \<Rightarrow> int option" where
  "strcmp (a # s1) (b # s2) =
     (if a \<noteq> 0 \<and> a = b then strcmp s1 s2 else Some (uint a - uint b))"
| "strcmp _ _ = None"

fun strncmp :: "u8 list \<Rightarrow> u8 list \<Rightarrow> nat \<Rightarrow> int option" where
  "strncmp s1 s2 0 = Some 0"
| "strncmp (a # s1) (b # s2) (Suc n) =
     (if a \<noteq> 0 \<and> a = b then strncmp s1 s2 n else Some (uint a - uint b))"
| "strncmp _ _ (Suc n) = None"

text \<open>A string literal: its characters and the terminating NUL.\<close>

definition cstr :: "string \<Rightarrow> u8 list" where
  "cstr s = map of_char s @ [0]"

definition text_of :: "u8 list \<Rightarrow> u8 list" where
  "text_of bs = takeWhile (\<lambda>c. c \<noteq> 0) bs"

definition terminated :: "u8 list \<Rightarrow> bool" where
  "terminated bs \<longleftrightarrow> 0 \<in> set bs"

lemma text_of_simps [simp]:
  "text_of [] = []"
  "text_of (c # cs) = (if c = 0 then [] else c # text_of cs)"
  by (simp_all add: text_of_def)

lemma terminated_simps [simp]:
  "\<not> terminated []"
  "terminated (c # cs) \<longleftrightarrow> c = 0 \<or> terminated cs"
  by (auto simp: terminated_def)

lemma text_of_nul_free: "0 \<notin> set (text_of bs)"
  by (auto simp: text_of_def dest: set_takeWhileD)

lemma terminated_text_ofD: "terminated bs \<Longrightarrow> \<exists>r. bs = text_of bs @ 0 # r"
  by (induction bs) auto

lemma text_of_append_nul [simp]:
  "0 \<notin> set xs \<Longrightarrow> text_of (xs @ 0 # r) = xs" "terminated (xs @ 0 # r)"
  by (induction xs) auto

subsection \<open>The string routines against their text\<close>

lemma strlen_eq: "strlen bs = (if terminated bs then Some (length (text_of bs)) else None)"
  by (induction bs) auto

lemma strcpy_eq:
  "strcpy d s = (if terminated s \<and> length (text_of s) < length d
     then Some (text_of s @ 0 # drop (Suc (length (text_of s))) d) else None)"
  by (induction d s rule: strcpy.induct) auto

lemma strcmp_eq_0:
  "terminated a \<Longrightarrow> terminated b \<Longrightarrow> strcmp a b = Some 0 \<longleftrightarrow> text_of a = text_of b"
  by (induction a b rule: strcmp.induct) (auto simp: word_uint_eq_iff)

lemma strcmp_returns:
  "terminated a \<Longrightarrow> terminated b \<Longrightarrow> \<exists>r. strcmp a b = Some r"
  by (induction a b rule: strcmp.induct) auto

lemma strcmp_antisym: "strcmp b a = map_option uminus (strcmp a b)"
  by (induction a b rule: strcmp.induct) auto

lemma strncmp_eq_0:
  "terminated a \<Longrightarrow> terminated b \<Longrightarrow>
   strncmp a b n = Some 0 \<longleftrightarrow> take n (text_of a) = take n (text_of b)"
  by (induction a b n rule: strncmp.induct) (auto simp: word_uint_eq_iff)

lemma strncmp_returns:
  "terminated a \<Longrightarrow> terminated b \<Longrightarrow> \<exists>r. strncmp a b n = Some r"
  by (induction a b n rule: strncmp.induct) auto

lemma strncmp_prefix:
  assumes "terminated a" "terminated b"
  shows "strncmp a b (length (text_of a)) = Some 0 \<longleftrightarrow> take (length (text_of a)) (text_of b) = text_of a"
  using assms by (auto simp: strncmp_eq_0)

subsection \<open>Filling and copying whole frames\<close>

text \<open>
  The bytes of \<open>g\<close> are mapped one to one, and stay so whatever is written into the frame
  \<open>f\<close>: the condition under which \<open>memset\<close> and \<open>memcpy\<close> act on physical frames as expected.
\<close>

definition ident_under :: "'a machine_scheme \<Rightarrow> u32 \<Rightarrow> u32 \<Rightarrow> bool" where
  "ident_under s f g \<longleftrightarrow> (\<forall>m k. (\<forall>a. \<not> in_frame f a \<longrightarrow> m a = mem s a) \<longrightarrow> k < 4096 \<longrightarrow>
     translate (s\<lparr>mem := m\<rparr>) (g + of_nat k) = Some (g + of_nat k))"

lemma ident_underD:
  "ident_under s f g \<Longrightarrow> k < 4096 \<Longrightarrow> (\<And>a. \<not> in_frame f a \<Longrightarrow> m a = mem s a) \<Longrightarrow>
   translate (s\<lparr>mem := m\<rparr>) (g + of_nat k) = Some (g + of_nat k)"
  by (auto simp: ident_under_def)

lemma ident_under_off: "\<not> paging_on s \<Longrightarrow> ident_under s f g"
  by (simp add: ident_under_def translate_off)

text \<open>The frame \<open>f\<close> with its first \<open>n\<close> bytes taken from \<open>c\<close>.\<close>

definition fill_frame :: "u32 \<Rightarrow> (u32 \<Rightarrow> u8) \<Rightarrow> nat \<Rightarrow> memory \<Rightarrow> memory" where
  "fill_frame f c n m = (\<lambda>a. if in_frame f a \<and> unat a < unat f + n then c a else m a)"

lemma fill_frame_0: "frame_aligned f \<Longrightarrow> fill_frame f c 0 m = m"
  by (rule ext) (auto simp: fill_frame_def in_frame_iff)

lemma fill_frame_Suc:
  assumes "frame_aligned f" "i < 4096"
  shows "(fill_frame f c i m)(f + of_nat i := c (f + of_nat i)) = fill_frame f c (Suc i) m"
proof
  fix a
  have "a = f + of_nat i \<longleftrightarrow> unat a = unat f + i"
    using assms by (simp add: word_unat_eq_iff unat_frame_byte)
  then show "((fill_frame f c i m)(f + of_nat i := c (f + of_nat i))) a = fill_frame f c (Suc i) m a"
    using assms by (auto simp: fill_frame_def less_Suc_eq)
qed

lemma fill_frame_full:
  "frame_aligned f \<Longrightarrow> fill_frame f c 4096 m = (\<lambda>a. if in_frame f a then c a else m a)"
  by (auto simp: fill_frame_def in_frame_iff)

lemma fill_frame_outside: "\<not> in_frame f a \<Longrightarrow> fill_frame f c n m a = m a"
  by (simp add: fill_frame_def)

lemma frame_loop:
  assumes "frame_aligned f"
    and "\<And>i. i < 4096 \<Longrightarrow> body i (s\<lparr>mem := fill_frame f c i (mem s)\<rparr>) =
      Ret () (s\<lparr>mem := (fill_frame f c i (mem s))(f + of_nat i := c (f + of_nat i))\<rparr>)"
  shows "foreach [0..<4096] body s = Ret () (s\<lparr>mem := (\<lambda>a. if in_frame f a then c a else mem s a)\<rparr>)"
proof -
  have "\<exists>t. foreach [0..<4096] body s = Ret () t \<and> t = s\<lparr>mem := fill_frame f c 4096 (mem s)\<rparr>"
    by (rule foreach_upt_rule) (use assms in \<open>simp_all add: fill_frame_0 fill_frame_Suc\<close>)
  then show ?thesis by (simp add: fill_frame_full assms(1))
qed

lemma memset_frame:
  assumes "frame_aligned f" "ident_under s f f"
  shows "memset f v 4096 s = Ret f (s\<lparr>mem := (\<lambda>a. if in_frame f a then ucast v else mem s a)\<rparr>)"
proof -
  have "store8 (f + of_nat i) (ucast v) (s\<lparr>mem := fill_frame f (\<lambda>_. ucast v) i (mem s)\<rparr>) =
      Ret () (s\<lparr>mem := (fill_frame f (\<lambda>_. ucast v) i (mem s))(f + of_nat i := ucast v)\<rparr>)"
    if "i < 4096" for i
    by (simp add: access_ident(3) [OF ident_underD [OF assms(2) that]] fill_frame_outside)
  then have "foreach [0..<4096] (\<lambda>i. store8 (f + of_nat i) (ucast v)) s =
      Ret () (s\<lparr>mem := (\<lambda>a. if in_frame f a then ucast v else mem s a)\<rparr>)"
    by (rule frame_loop [OF assms(1), where c = "\<lambda>_. ucast v"])
  then show ?thesis by (simp add: memset_def)
qed

lemma memcpy_frame:
  assumes "frame_aligned f" "frame_aligned g" "f \<noteq> g" "ident_under s f f" "ident_under s f g"
  shows "memcpy f g 4096 s =
    Ret f (s\<lparr>mem := (\<lambda>a. if in_frame f a then mem s (g + (a - f)) else mem s a)\<rparr>)"
proof -
  let ?c = "\<lambda>a. mem s (g + (a - f))"
  let ?body = "\<lambda>i t. obind (load8 (g + of_nat i) t) (\<lambda>b u. store8 (f + of_nat i) b u)"
  have "?body i (s\<lparr>mem := fill_frame f ?c i (mem s)\<rparr>) =
      Ret () (s\<lparr>mem := (fill_frame f ?c i (mem s))(f + of_nat i := ?c (f + of_nat i))\<rparr>)"
    if i: "i < 4096" for i
  proof -
    let ?t = "s\<lparr>mem := fill_frame f ?c i (mem s)\<rparr>"
    have "\<not> in_frame f (g + of_nat i)"
      using assms(2,3) i in_frame_unique by (metis in_frame_byte)
    then have "mem ?t (g + of_nat i) = mem s (g + of_nat i)"
      by (simp add: fill_frame_outside)
    moreover have "load8 (g + of_nat i) ?t = Ret (mem ?t (g + of_nat i)) ?t"
      by (rule access_ident(1) [OF ident_underD [OF assms(5) i]]) (simp add: fill_frame_outside)
    moreover have "store8 (f + of_nat i) b ?t = Ret () (?t\<lparr>mem := (mem ?t)(f + of_nat i := b)\<rparr>)" for b
      by (rule access_ident(3) [OF ident_underD [OF assms(4) i]]) (simp add: fill_frame_outside)
    ultimately show ?thesis by simp
  qed
  then have "foreach [0..<4096] ?body s =
      Ret () (s\<lparr>mem := (\<lambda>a. if in_frame f a then ?c a else mem s a)\<rparr>)"
    by (rule frame_loop [OF assms(1), where c = ?c])
  then show ?thesis by (simp add: memcpy_def)
qed

end
