(* ===== verification/Pmm.thy ===== *)
theory Pmm
  imports KString
begin

text \<open>
  The physical memory manager: \<^verbatim>\<open>src/pmm.c\<close>, \<^verbatim>\<open>src/pmm.h\<close> and the Multiboot structures of
  \<^verbatim>\<open>src/multiboot.h\<close>. The bitmap behind \<^verbatim>\<open>pmm_bitmap\<close> is a list of 32-bit words of its own;
  the Multiboot information is read from physical memory. The abstraction of the allocator
  is the set of block numbers in use; the locale \<open>frame_allocator\<close> states what its clients
  (paging, tasks, the ELF loader) rely on.
\<close>

abbreviation (input) PMM_BLOCK_SIZE :: u32 where "PMM_BLOCK_SIZE \<equiv> 4096"

record pmm =
  pmm_bitmap :: "u32 list"
  pmm_ram_size :: u32
  pmm_total_blocks :: u32
  pmm_used_blocks :: u32

definition bitmap_set :: "u32 \<Rightarrow> pmm \<Rightarrow> pmm" where
  "bitmap_set b p = p\<lparr>pmm_bitmap := (pmm_bitmap p)[unat (b div 32) :=
     pmm_bitmap p ! unat (b div 32) OR push_bit (unat (b mod 32)) 1]\<rparr>"

definition bitmap_clear :: "u32 \<Rightarrow> pmm \<Rightarrow> pmm" where
  "bitmap_clear b p = p\<lparr>pmm_bitmap := (pmm_bitmap p)[unat (b div 32) :=
     pmm_bitmap p ! unat (b div 32) AND NOT (push_bit (unat (b mod 32)) 1)]\<rparr>"

definition bitmap_test :: "pmm \<Rightarrow> u32 \<Rightarrow> bool" where
  "bitmap_test p b \<longleftrightarrow>
     pmm_bitmap p ! unat (b div 32) AND push_bit (unat (b mod 32)) 1 \<noteq> 0"

text \<open>The bodies of the loops of \<^verbatim>\<open>pmm_reserve_region\<close> and \<^verbatim>\<open>pmm_free_region\<close>.\<close>

definition reserve_block :: "u32 \<Rightarrow> pmm \<Rightarrow> pmm" where
  "reserve_block block p =
     (if block < pmm_total_blocks p
      then if \<not> bitmap_test p block
           then (bitmap_set block p)\<lparr>pmm_used_blocks := pmm_used_blocks p + 1\<rparr> else p
      else p)"

definition release_block :: "u32 \<Rightarrow> pmm \<Rightarrow> pmm" where
  "release_block block p =
     (if block < pmm_total_blocks p
      then if bitmap_test p block
           then (bitmap_clear block p)\<lparr>pmm_used_blocks := pmm_used_blocks p - 1\<rparr> else p
      else p)"

definition pmm_reserve_region :: "u32 \<Rightarrow> u32 \<Rightarrow> pmm \<Rightarrow> pmm" where
  "pmm_reserve_region base sz p =
     (let start_block = base div PMM_BLOCK_SIZE;
          block_count = (sz + PMM_BLOCK_SIZE - 1) div PMM_BLOCK_SIZE
      in fold (\<lambda>i. reserve_block (start_block + of_nat i)) [0..<unat block_count] p)"

definition pmm_free_region :: "u32 \<Rightarrow> u32 \<Rightarrow> pmm \<Rightarrow> pmm" where
  "pmm_free_region base sz p =
     (let start_block = base div PMM_BLOCK_SIZE;
          block_count = sz div PMM_BLOCK_SIZE
      in fold (\<lambda>i. release_block (start_block + of_nat i)) [0..<unat block_count] p)"

text \<open>
  \<^verbatim>\<open>pmm_alloc_block\<close>: the loop over the bits of word \<open>i\<close> either returns from the function
  (\<open>Some\<close>) or runs to its end (\<open>None\<close>) and the loop over the words goes on.
\<close>

fun alloc_in_word :: "u32 \<Rightarrow> nat list \<Rightarrow> pmm \<Rightarrow> (u32 \<times> pmm) option" where
  "alloc_in_word i [] p = None"
| "alloc_in_word i (j # js) p =
     (let b = i * 32 + of_nat j in
      if b \<ge> pmm_total_blocks p then Some (0, p)
      else if \<not> bitmap_test p b
      then Some (b * PMM_BLOCK_SIZE, (bitmap_set b p)\<lparr>pmm_used_blocks := pmm_used_blocks p + 1\<rparr>)
      else alloc_in_word i js p)"

fun alloc_in_words :: "nat list \<Rightarrow> pmm \<Rightarrow> u32 \<times> pmm" where
  "alloc_in_words [] p = (0, p)"
| "alloc_in_words (i # is) p =
     (if pmm_bitmap p ! i \<noteq> 0xFFFFFFFF
      then case alloc_in_word (of_nat i) [0..<32] p of
          Some r \<Rightarrow> r
        | None \<Rightarrow> alloc_in_words is p
      else alloc_in_words is p)"

definition pmm_alloc_block :: "pmm \<Rightarrow> u32 \<times> pmm" where
  "pmm_alloc_block p = alloc_in_words [0..<unat ((pmm_total_blocks p + 31) div 32)] p"

definition pmm_free_block :: "u32 \<Rightarrow> pmm \<Rightarrow> pmm" where
  "pmm_free_block ptr p =
     (let block = ptr div PMM_BLOCK_SIZE in
      if block < pmm_total_blocks p
      then if bitmap_test p block
           then (bitmap_clear block p)\<lparr>pmm_used_blocks := pmm_used_blocks p - 1\<rparr> else p
      else p)"

definition pmm_get_total_blocks :: "pmm \<Rightarrow> u32" where
  "pmm_get_total_blocks p = pmm_total_blocks p"

definition pmm_get_free_blocks :: "pmm \<Rightarrow> u32" where
  "pmm_get_free_blocks p = pmm_total_blocks p - pmm_used_blocks p"

definition pmm_get_used_blocks :: "pmm \<Rightarrow> u32" where
  "pmm_get_used_blocks p = pmm_used_blocks p"

subsection \<open>Multiboot structures\<close>

record multiboot_mmap_entry =
  mmap_size :: u32
  mmap_addr64 :: u64
  mmap_len :: u64
  mmap_type :: u32

definition read_mmap_entry :: "memory \<Rightarrow> u32 \<Rightarrow> multiboot_mmap_entry" where
  "read_mmap_entry m a = \<lparr>mmap_size = rd32 m a, mmap_addr64 = rd64 m (a + 4),
     mmap_len = rd64 m (a + 12), mmap_type = rd32 m (a + 20)\<rparr>"

record multiboot_info =
  mbi_flags :: u32
  mbi_mem_lower :: u32
  mbi_mem_upper :: u32
  mbi_boot_device :: u32
  mbi_cmdline :: u32
  mbi_mods_count :: u32
  mbi_mods_addr :: u32
  mbi_syms :: "u32 list"
  mbi_mmap_length :: u32
  mbi_mmap_addr :: u32

definition read_multiboot_info :: "memory \<Rightarrow> u32 \<Rightarrow> multiboot_info" where
  "read_multiboot_info m a = \<lparr>mbi_flags = rd32 m a, mbi_mem_lower = rd32 m (a + 4),
     mbi_mem_upper = rd32 m (a + 8), mbi_boot_device = rd32 m (a + 12),
     mbi_cmdline = rd32 m (a + 16), mbi_mods_count = rd32 m (a + 20),
     mbi_mods_addr = rd32 m (a + 24),
     mbi_syms = [rd32 m (a + 28), rd32 m (a + 32), rd32 m (a + 36), rd32 m (a + 40)],
     mbi_mmap_length = rd32 m (a + 44), mbi_mmap_addr = rd32 m (a + 48)\<rparr>"

text \<open>Module \<open>i\<close> of the module list at \<open>mods\<close>: 16-byte entries, start and end first.\<close>

definition mod_start :: "memory \<Rightarrow> u32 \<Rightarrow> u32 \<Rightarrow> u32" where
  "mod_start m mods i = rd32 m (mods + 16 * i)"

definition mod_end :: "memory \<Rightarrow> u32 \<Rightarrow> u32 \<Rightarrow> u32" where
  "mod_end m mods i = rd32 m (mods + 16 * i + 4)"

subsection \<open>Initialisation from the Multiboot memory map\<close>

text \<open>
  Both loops advance by the size field of the entry they read, so on a malformed map they
  may run for ever: \<open>None\<close>.
\<close>

partial_function (option) mmap_max :: "memory \<Rightarrow> u32 \<Rightarrow> u32 \<Rightarrow> u64 \<Rightarrow> u64 option" where
  "mmap_max m mmap mmap_end max_addr =
     (if mmap < mmap_end
      then let e = read_mmap_entry m mmap;
               entry_end = mmap_addr64 e + mmap_len e;
               max_addr' = (if mmap_type e = 1 \<and> entry_end > max_addr then entry_end else max_addr)
           in mmap_max m (mmap + mmap_size e + 4) mmap_end max_addr'
      else Some max_addr)"

partial_function (option) mmap_free :: "memory \<Rightarrow> u32 \<Rightarrow> u32 \<Rightarrow> pmm \<Rightarrow> pmm option" where
  "mmap_free m mmap mmap_end p =
     (if mmap < mmap_end
      then let e = read_mmap_entry m mmap;
               p' = (if mmap_type e = 1
                     then pmm_free_region (ucast (mmap_addr64 e)) (ucast (mmap_len e)) p else p)
           in mmap_free m (mmap + mmap_size e + 4) mmap_end p'
      else Some p)"

definition reserve_modules :: "memory \<Rightarrow> multiboot_info \<Rightarrow> pmm \<Rightarrow> pmm" where
  "reserve_modules m mbi p =
     (if mbi_flags mbi AND 8 \<noteq> 0
      then fold (\<lambda>i p. let start = mod_start m (mbi_mods_addr mbi) (of_nat i);
                         sz = mod_end m (mbi_mods_addr mbi) (of_nat i) - start
                     in pmm_reserve_region start sz p)
             [0..<unat (mbi_mods_count mbi)] p
      else p)"

definition pmm_init :: "memory \<Rightarrow> u32 \<Rightarrow> u32 \<Rightarrow> u32 \<Rightarrow> pmm \<Rightarrow> pmm option" where
  "pmm_init m kernel_start kernel_end mbi_addr p =
     (if mbi_addr = 0 then Some p
      else let mbi = read_multiboot_info m mbi_addr in
      if mbi_flags mbi AND 0x40 = 0 then Some p
      else let mmap_end = mbi_mmap_addr mbi + mbi_mmap_length mbi in
      Option.bind (mmap_max m (mbi_mmap_addr mbi) mmap_end 0) (\<lambda>max_addr.
        let max_addr' = (if max_addr > 0xFFFFFFFF then 0xFFFFFFFF else max_addr);
            ram_size = ucast max_addr';
            total = ram_size div PMM_BLOCK_SIZE;
            bitmap_size = ((total + 31) div 32) * 4;
            p0 = p\<lparr>pmm_ram_size := ram_size, pmm_total_blocks := total,
                   pmm_bitmap := replicate (unat bitmap_size div 4) 0xFFFFFFFF,
                   pmm_used_blocks := total\<rparr>
        in Option.bind (mmap_free m (mbi_mmap_addr mbi) mmap_end p0) (\<lambda>p1.
          let p2 = pmm_reserve_region 0 0x100000 p1;
              bitmap_end = kernel_end + bitmap_size;
              p3 = pmm_reserve_region kernel_start (bitmap_end - kernel_start) p2
          in Some (reserve_modules m mbi p3))))"

subsection \<open>The bitmap as a set of blocks\<close>

definition blocks_in_use :: "pmm \<Rightarrow> nat set" where
  "blocks_in_use p = {n. n < unat (pmm_total_blocks p) \<and> bitmap_test p (of_nat n)}"

definition all_blocks :: "pmm \<Rightarrow> nat set" where
  "all_blocks p = {..<unat (pmm_total_blocks p)}"

definition bitmap_wf :: "pmm \<Rightarrow> bool" where
  "bitmap_wf p \<longleftrightarrow> unat (pmm_total_blocks p) < 2 ^ 20 \<and>
     length (pmm_bitmap p) = (unat (pmm_total_blocks p) + 31) div 32"

definition pmm_inv :: "pmm \<Rightarrow> bool" where
  "pmm_inv p \<longleftrightarrow> bitmap_wf p \<and> unat (pmm_used_blocks p) = card (blocks_in_use p)"

lemma blocks_in_use_subset: "blocks_in_use p \<subseteq> all_blocks p"
  by (auto simp: blocks_in_use_def all_blocks_def)

lemma finite_blocks [simp]: "finite (blocks_in_use p)" "finite (all_blocks p)"
  by (simp_all add: blocks_in_use_def all_blocks_def)

lemma card_blocks_le: "card (blocks_in_use p) \<le> unat (pmm_total_blocks p)"
  using card_mono [OF _ blocks_in_use_subset [of p]] by (simp add: all_blocks_def)

lemma bitmap_test_bit: "bitmap_test p b \<longleftrightarrow> bit (pmm_bitmap p ! (unat b div 32)) (unat b mod 32)"
  by (simp add: bitmap_test_def bit_iff_and_push_bit_not_eq_0 unat_div unat_mod)

lemma bitmap_index: "bitmap_wf p \<Longrightarrow> n < unat (pmm_total_blocks p) \<Longrightarrow> n div 32 < length (pmm_bitmap p)"
  unfolding bitmap_wf_def by linarith

lemma bitmap_set_test:
  assumes "bitmap_wf p" "b < pmm_total_blocks p" "c < pmm_total_blocks p"
  shows "bitmap_test (bitmap_set b p) c \<longleftrightarrow> c = b \<or> bitmap_test p c"
proof -
  have bc: "unat b div 32 < length (pmm_bitmap p)"
    using assms by (intro bitmap_index) (auto simp: word_less_nat_alt)
  have "c = b \<longleftrightarrow> unat c div 32 = unat b div 32 \<and> unat c mod 32 = unat b mod 32"
    by (metis div_mult_mod_eq word_unat_eq_iff)
  with bc show ?thesis
    by (auto simp: bitmap_test_bit bitmap_set_def unat_div unat_mod nth_list_update bit_simps)
qed

lemma bitmap_clear_test:
  assumes "bitmap_wf p" "b < pmm_total_blocks p" "c < pmm_total_blocks p"
  shows "bitmap_test (bitmap_clear b p) c \<longleftrightarrow> c \<noteq> b \<and> bitmap_test p c"
proof -
  have bc: "unat b div 32 < length (pmm_bitmap p)"
    using assms by (intro bitmap_index) (auto simp: word_less_nat_alt)
  have "c = b \<longleftrightarrow> unat c div 32 = unat b div 32 \<and> unat c mod 32 = unat b mod 32"
    by (metis div_mult_mod_eq word_unat_eq_iff)
  with bc show ?thesis
    by (auto simp: bitmap_test_bit bitmap_clear_def unat_div unat_mod nth_list_update bit_simps)
qed

lemma bitmap_fields [simp]:
  "pmm_total_blocks (bitmap_set b p) = pmm_total_blocks p"
  "pmm_total_blocks (bitmap_clear b p) = pmm_total_blocks p"
  "pmm_used_blocks (bitmap_set b p) = pmm_used_blocks p"
  "pmm_used_blocks (bitmap_clear b p) = pmm_used_blocks p"
  "bitmap_wf (bitmap_set b p) = bitmap_wf p"
  "bitmap_wf (bitmap_clear b p) = bitmap_wf p"
  "blocks_in_use (p\<lparr>pmm_used_blocks := u\<rparr>) = blocks_in_use p"
  "bitmap_wf (p\<lparr>pmm_used_blocks := u\<rparr>) = bitmap_wf p"
  by (simp_all add: bitmap_set_def bitmap_clear_def bitmap_wf_def blocks_in_use_def bitmap_test_def)

lemma of_nat_block:
  assumes "n < unat (t::u32)"
  shows "unat (of_nat n :: u32) = n" "(of_nat n :: u32) < t"
proof -
  have "n < 2 ^ 32" using assms unsigned_less [of t, where 'a = nat] by simp
  then show "unat (of_nat n :: u32) = n" by (simp add: unat_of_nat)
  with assms show "(of_nat n :: u32) < t" by (simp add: word_less_nat_alt)
qed

lemma blocks_in_use_set:
  assumes "bitmap_wf p" "b < pmm_total_blocks p"
  shows "blocks_in_use (bitmap_set b p) = insert (unat b) (blocks_in_use p)"
  using assms of_nat_block(1) [of _ "pmm_total_blocks p"]
  by (auto simp: blocks_in_use_def bitmap_set_test of_nat_block word_less_nat_alt)

lemma blocks_in_use_clear:
  assumes "bitmap_wf p" "b < pmm_total_blocks p"
  shows "blocks_in_use (bitmap_clear b p) = blocks_in_use p - {unat b}"
  using assms of_nat_block(1) [of _ "pmm_total_blocks p"]
  by (auto simp: blocks_in_use_def bitmap_clear_test of_nat_block word_less_nat_alt)

lemma in_use_iff: "b < pmm_total_blocks p \<Longrightarrow> unat b \<in> blocks_in_use p \<longleftrightarrow> bitmap_test p b"
  by (simp add: blocks_in_use_def word_less_nat_alt)

text \<open>Taking one free block and giving one back keep the counter equal to the set.\<close>

lemma take_block:
  assumes "pmm_inv p" "b < pmm_total_blocks p" "\<not> bitmap_test p b"
  defines "p' \<equiv> (bitmap_set b p)\<lparr>pmm_used_blocks := pmm_used_blocks p + 1\<rparr>"
  shows "pmm_inv p'" "blocks_in_use p' = insert (unat b) (blocks_in_use p)"
    "pmm_total_blocks p' = pmm_total_blocks p"
proof -
  have new: "unat b \<notin> blocks_in_use p"
    using assms(2,3) by (simp add: in_use_iff)
  show use: "blocks_in_use p' = insert (unat b) (blocks_in_use p)"
    using assms by (simp add: p'_def pmm_inv_def blocks_in_use_set)
  have "unat (pmm_used_blocks p) < 2 ^ 20"
    using assms(1) card_blocks_le [of p] by (simp add: pmm_inv_def bitmap_wf_def)
  then have "unat (pmm_used_blocks p + 1) = Suc (unat (pmm_used_blocks p))"
    by (simp add: unat_word_ariths)
  with use new assms(1) show "pmm_inv p'"
    by (simp add: pmm_inv_def p'_def)
  show "pmm_total_blocks p' = pmm_total_blocks p" by (simp add: p'_def)
qed

lemma give_block:
  assumes "pmm_inv p" "b < pmm_total_blocks p" "bitmap_test p b"
  defines "p' \<equiv> (bitmap_clear b p)\<lparr>pmm_used_blocks := pmm_used_blocks p - 1\<rparr>"
  shows "pmm_inv p'" "blocks_in_use p' = blocks_in_use p - {unat b}"
    "pmm_total_blocks p' = pmm_total_blocks p"
proof -
  have old: "unat b \<in> blocks_in_use p"
    using assms(2,3) by (simp add: in_use_iff)
  show use: "blocks_in_use p' = blocks_in_use p - {unat b}"
    using assms by (simp add: p'_def pmm_inv_def blocks_in_use_clear)
  have pos: "0 < card (blocks_in_use p)"
    using old by (metis card_gt_0_iff empty_iff finite_blocks(1))
  then have "pmm_used_blocks p \<noteq> 0"
    using assms(1) by (auto simp: pmm_inv_def)
  then have "unat (pmm_used_blocks p - 1) = unat (pmm_used_blocks p) - 1"
    by (rule unat_minus_one)
  with use old assms(1) show "pmm_inv p'"
    by (simp add: pmm_inv_def p'_def)
  show "pmm_total_blocks p' = pmm_total_blocks p" by (simp add: p'_def)
qed

lemma reserve_block_spec:
  assumes "pmm_inv p"
  shows "pmm_inv (reserve_block b p)" "pmm_total_blocks (reserve_block b p) = pmm_total_blocks p"
    "blocks_in_use (reserve_block b p) = blocks_in_use p \<union> ({unat b} \<inter> all_blocks p)"
  using assms take_block [OF assms, of b] in_use_iff [of b p]
  by (auto simp: reserve_block_def all_blocks_def word_less_nat_alt)

lemma release_block_spec:
  assumes "pmm_inv p"
  shows "pmm_inv (release_block b p)" "pmm_total_blocks (release_block b p) = pmm_total_blocks p"
    "blocks_in_use (release_block b p) = blocks_in_use p - {unat b}"
  using assms give_block [OF assms, of b] in_use_iff [of b p] blocks_in_use_subset [of p]
  by (auto simp: release_block_def all_blocks_def word_less_nat_alt)

subsection \<open>Regions\<close>

definition reserved_range :: "u32 \<Rightarrow> u32 \<Rightarrow> nat set" where
  "reserved_range base sz = {unat base div 4096..<unat base div 4096 + unat (sz + 4095) div 4096}"

definition freed_range :: "u32 \<Rightarrow> u32 \<Rightarrow> nat set" where
  "freed_range base sz = {unat base div 4096..<unat base div 4096 + unat sz div 4096}"

lemma all_blocks_cong: "pmm_total_blocks p = pmm_total_blocks q \<Longrightarrow> all_blocks p = all_blocks q"
  by (simp add: all_blocks_def)

lemma unat_region_block:
  assumes "i < unat (c::u32) div 4096"
  shows "unat ((base::u32) div 4096 + of_nat i) = unat base div 4096 + i"
proof -
  have "unat c div 4096 \<le> 2 ^ 20" "unat base div 4096 < 2 ^ 20"
    using unsigned_less [of c, where 'a = nat] unsigned_less [of base, where 'a = nat] by simp_all
  with assms show ?thesis
    by (subst unat_add_of_nat) (simp_all add: unat_div)
qed

lemma fold_reserve_blocks:
  assumes "pmm_inv p" "\<And>i. i < n \<Longrightarrow> unat (f i) = s + i"
  shows "pmm_inv (fold (\<lambda>i. reserve_block (f i)) [0..<n] p) \<and>
    pmm_total_blocks (fold (\<lambda>i. reserve_block (f i)) [0..<n] p) = pmm_total_blocks p \<and>
    blocks_in_use (fold (\<lambda>i. reserve_block (f i)) [0..<n] p) =
      blocks_in_use p \<union> ({s..<s + n} \<inter> all_blocks p)"
  using assms(2)
proof (induction n)
  case 0
  with assms(1) show ?case by simp
next
  case (Suc n)
  let ?q = "fold (\<lambda>i. reserve_block (f i)) [0..<n] p"
  have IH: "pmm_inv ?q" "pmm_total_blocks ?q = pmm_total_blocks p"
    "blocks_in_use ?q = blocks_in_use p \<union> ({s..<s + n} \<inter> all_blocks p)"
    using Suc by auto
  have "{s..<s + Suc n} = insert (s + n) {s..<s + n}" by auto
  with IH reserve_block_spec [OF IH(1), of "f n"] all_blocks_cong [OF IH(2)] Suc.prems [of n]
  show ?case by auto
qed

lemma fold_release_blocks:
  assumes "pmm_inv p" "\<And>i. i < n \<Longrightarrow> unat (f i) = s + i"
  shows "pmm_inv (fold (\<lambda>i. release_block (f i)) [0..<n] p) \<and>
    pmm_total_blocks (fold (\<lambda>i. release_block (f i)) [0..<n] p) = pmm_total_blocks p \<and>
    blocks_in_use (fold (\<lambda>i. release_block (f i)) [0..<n] p) = blocks_in_use p - {s..<s + n}"
  using assms(2)
proof (induction n)
  case 0
  with assms(1) show ?case by simp
next
  case (Suc n)
  let ?q = "fold (\<lambda>i. release_block (f i)) [0..<n] p"
  have IH: "pmm_inv ?q" "pmm_total_blocks ?q = pmm_total_blocks p"
    "blocks_in_use ?q = blocks_in_use p - {s..<s + n}"
    using Suc by auto
  have "{s..<s + Suc n} = insert (s + n) {s..<s + n}" by auto
  with IH release_block_spec [OF IH(1), of "f n"] Suc.prems [of n]
  show ?case by auto
qed

lemma reserve_region_spec:
  assumes "pmm_inv p"
  shows "pmm_inv (pmm_reserve_region base sz p)"
    "pmm_total_blocks (pmm_reserve_region base sz p) = pmm_total_blocks p"
    "blocks_in_use (pmm_reserve_region base sz p) =
       blocks_in_use p \<union> (reserved_range base sz \<inter> all_blocks p)"
  using fold_reserve_blocks [OF assms, of "unat (sz + 4095) div 4096"
      "\<lambda>i. base div 4096 + of_nat i" "unat base div 4096"] unat_region_block [of _ "sz + 4095" base]
  by (simp_all add: pmm_reserve_region_def reserved_range_def unat_div add.commute [of 4095])

lemma free_region_spec:
  assumes "pmm_inv p"
  shows "pmm_inv (pmm_free_region base sz p)"
    "pmm_total_blocks (pmm_free_region base sz p) = pmm_total_blocks p"
    "blocks_in_use (pmm_free_region base sz p) = blocks_in_use p - freed_range base sz"
  using fold_release_blocks [OF assms, of "unat sz div 4096"
      "\<lambda>i. base div 4096 + of_nat i" "unat base div 4096"] unat_region_block [of _ sz base]
  by (simp_all add: pmm_free_region_def freed_range_def unat_div)

lemma pmm_free_block_eq: "pmm_free_block ptr p = release_block (ptr div 4096) p"
  by (simp add: pmm_free_block_def release_block_def Let_def)

lemma free_block_spec:
  assumes "pmm_inv p"
  shows "pmm_inv (pmm_free_block ptr p)" "pmm_total_blocks (pmm_free_block ptr p) = pmm_total_blocks p"
    "blocks_in_use (pmm_free_block ptr p) = blocks_in_use p - {unat ptr div 4096}"
  using release_block_spec [OF assms, of "ptr div 4096"]
  by (simp_all add: pmm_free_block_eq unat_div)

subsection \<open>First fit\<close>

abbreviation first_free :: "pmm \<Rightarrow> nat" where
  "first_free p \<equiv> LEAST n. n \<notin> blocks_in_use p"

lemma full_word: "(w::u32) = 0xFFFFFFFF \<longleftrightarrow> (\<forall>j < 32. bit w j)"
proof
  assume "\<forall>j < 32. bit w j"
  then have "w = mask 32"
    by (intro bit_word_eqI) (simp add: bit_simps)
  then show "w = 0xFFFFFFFF" by (simp add: mask_eq_exp_minus_1)
next
  assume "w = 0xFFFFFFFF"
  then have "w = mask 32" by (simp add: mask_eq_exp_minus_1)
  then show "\<forall>j < 32. bit w j" by (simp add: bit_simps)
qed

definition alloc_result :: "pmm \<Rightarrow> u32 \<times> pmm" where
  "alloc_result p =
     (if blocks_in_use p = all_blocks p then (0, p)
      else let b = of_nat (first_free p)
           in (b * 4096, (bitmap_set b p)\<lparr>pmm_used_blocks := pmm_used_blocks p + 1\<rparr>))"

lemma alloc_result_full:
  assumes "unat (pmm_total_blocks p) \<le> n" "\<And>k. k < n \<Longrightarrow> k < unat (pmm_total_blocks p) \<Longrightarrow> k \<in> blocks_in_use p"
  shows "alloc_result p = (0, p)"
proof -
  have "blocks_in_use p = all_blocks p"
    using assms blocks_in_use_subset [of p] by (auto simp: all_blocks_def)
  then show ?thesis by (simp add: alloc_result_def)
qed

lemma alloc_result_first:
  assumes "n < unat (pmm_total_blocks p)" "n \<notin> blocks_in_use p" "\<And>k. k < n \<Longrightarrow> k \<in> blocks_in_use p"
  shows "alloc_result p = (of_nat n * 4096,
    (bitmap_set (of_nat n) p)\<lparr>pmm_used_blocks := pmm_used_blocks p + 1\<rparr>)"
proof -
  have "first_free p = n"
    using assms(2,3) by (intro Least_equality) (auto simp: not_less [symmetric])
  moreover have "blocks_in_use p \<noteq> all_blocks p"
    using assms(1,2) by (auto simp: all_blocks_def)
  ultimately show ?thesis by (simp add: alloc_result_def Let_def)
qed

lemma alloc_in_word_spec:
  assumes "bitmap_wf p" "i < length (pmm_bitmap p)" "j \<le> 32"
    and "\<And>k. k < i * 32 + j \<Longrightarrow> k < unat (pmm_total_blocks p) \<Longrightarrow> k \<in> blocks_in_use p"
  shows "alloc_in_word (of_nat i) [j..<32] p = Some (alloc_result p) \<or>
    (alloc_in_word (of_nat i) [j..<32] p = None \<and>
     (\<forall>k < i * 32 + 32. k < unat (pmm_total_blocks p) \<longrightarrow> k \<in> blocks_in_use p))"
  using assms(3,4)
proof (induction "32 - j" arbitrary: j)
  case 0
  then show ?case by simp
next
  case (Suc d)
  then have j: "j < 32" by simp
  let ?n = "i * 32 + j" and ?b = "of_nat i * 32 + of_nat j :: u32"
  have "i < 2 ^ 15"
    using assms(1,2) unfolding bitmap_wf_def by (simp, linarith)
  then have b: "unat ?b = ?n" "?b = of_nat ?n"
    using j by (simp_all add: unat_word_ariths unat_of_nat)
  have split: "[j..<32] = j # [Suc j..<32]" using j by (rule upt_conv_Cons)
  consider "pmm_total_blocks p \<le> ?b" | "?b < pmm_total_blocks p" "\<not> bitmap_test p ?b"
    | "?b < pmm_total_blocks p" "bitmap_test p ?b" by (metis not_le)
  then show ?case
  proof cases
    case 1
    then have "alloc_result p = (0, p)"
      using Suc.prems(2) b(1) by (intro alloc_result_full [of _ ?n]) (auto simp: word_le_nat_alt)
    with 1 show ?thesis by (simp add: split Let_def)
  next
    case 2
    then have "?n < unat (pmm_total_blocks p)" "?n \<notin> blocks_in_use p"
      using b(1) in_use_iff [of ?b p] by (simp_all only: word_less_nat_alt not_False_eq_True)
    then have "alloc_result p = (of_nat ?n * 4096,
        (bitmap_set (of_nat ?n) p)\<lparr>pmm_used_blocks := pmm_used_blocks p + 1\<rparr>)"
      using Suc.prems(2) by (intro alloc_result_first) auto
    then have "alloc_result p = (?b * 4096, (bitmap_set ?b p)\<lparr>pmm_used_blocks := pmm_used_blocks p + 1\<rparr>)"
      by (simp only: b(2) [symmetric])
    with 2 leD show ?thesis by (auto simp add: split Let_def)
  next
    case 3
    then have "?n \<in> blocks_in_use p"
      using b(1) in_use_iff [of ?b p] by simp
    then have "k < i * 32 + Suc j \<Longrightarrow> k < unat (pmm_total_blocks p) \<Longrightarrow> k \<in> blocks_in_use p" for k
      using Suc.prems(2) [of k] by (cases "k = ?n") auto
    then have IH: "alloc_in_word (of_nat i) [Suc j..<32] p = Some (alloc_result p) \<or>
      (alloc_in_word (of_nat i) [Suc j..<32] p = None \<and>
       (\<forall>k < i * 32 + 32. k < unat (pmm_total_blocks p) \<longrightarrow> k \<in> blocks_in_use p))"
      using Suc.hyps(2) j by (intro Suc.hyps(1)) auto
    from 3 leD have "alloc_in_word (of_nat i) [j..<32] p = alloc_in_word (of_nat i) [Suc j..<32] p"
      by (auto simp add: split Let_def)
    with IH show ?thesis by simp
  qed
qed

lemma alloc_in_words_spec:
  assumes "bitmap_wf p" "i \<le> length (pmm_bitmap p)"
    and "\<And>k. k < i * 32 \<Longrightarrow> k < unat (pmm_total_blocks p) \<Longrightarrow> k \<in> blocks_in_use p"
  shows "alloc_in_words [i..<length (pmm_bitmap p)] p = alloc_result p"
  using assms(2,3)
proof (induction "length (pmm_bitmap p) - i" arbitrary: i)
  case 0
  then have "unat (pmm_total_blocks p) \<le> i * 32"
    using assms(1) by (simp add: bitmap_wf_def)
  with 0 show ?case by (simp add: alloc_result_full)
next
  case (Suc d)
  then have i: "i < length (pmm_bitmap p)" by simp
  have IH: "alloc_in_words [Suc i..<length (pmm_bitmap p)] p = alloc_result p"
    if "\<And>k. k < i * 32 + 32 \<Longrightarrow> k < unat (pmm_total_blocks p) \<Longrightarrow> k \<in> blocks_in_use p"
    using that Suc.hyps(2) i by (intro Suc.hyps(1)) auto
  show ?case
  proof (cases "pmm_bitmap p ! i = 0xFFFFFFFF")
    case True
    have "k \<in> blocks_in_use p" if "k < i * 32 + 32" "k < unat (pmm_total_blocks p)" for k
    proof (cases "k < i * 32")
      case False
      then have "k div 32 = i" using that by simp
      moreover have "bit (pmm_bitmap p ! i) (k mod 32)"
        using True by (simp add: full_word)
      ultimately show ?thesis
        using that of_nat_block(1) [OF that(2)] by (simp add: blocks_in_use_def bitmap_test_bit)
    qed (use that Suc.prems(2) in auto)
    with True IH show ?thesis by (simp add: upt_conv_Cons [OF i])
  next
    case False
    with alloc_in_word_spec [OF assms(1) i, of 0] Suc.prems(2) IH show ?thesis
      by (auto simp: upt_conv_Cons [OF i])
  qed
qed

lemma pmm_alloc_block_eq:
  assumes "bitmap_wf p"
  shows "pmm_alloc_block p = alloc_result p"
proof -
  have "unat ((pmm_total_blocks p + 31) div 32) = length (pmm_bitmap p)"
    using assms by (simp add: bitmap_wf_def unat_div unat_word_ariths)
  with alloc_in_words_spec [OF assms, of 0] show ?thesis
    by (simp add: pmm_alloc_block_def)
qed

subsection \<open>The interface the rest of the kernel uses\<close>

text \<open>
  A frame allocator hands out 4 KB frames by block number. \<open>owned\<close> are the blocks in use,
  \<open>limit\<close> the number of tracked blocks. Address 0 means failure, which is unambiguous once
  block 0 is owned.
\<close>

locale frame_allocator =
  fixes alloc :: "'p \<Rightarrow> u32 \<times> 'p" and free :: "u32 \<Rightarrow> 'p \<Rightarrow> 'p"
    and owned :: "'p \<Rightarrow> nat set" and limit :: "'p \<Rightarrow> nat" and ok :: "'p \<Rightarrow> bool"
  assumes limit_bound: "ok p \<Longrightarrow> limit p < 2 ^ 20"
    and owned_bound: "ok p \<Longrightarrow> owned p \<subseteq> {..<limit p}"
    and alloc_full: "ok p \<Longrightarrow> owned p = {..<limit p} \<Longrightarrow> alloc p = (0, p)"
    and alloc_first: "ok p \<Longrightarrow> owned p \<noteq> {..<limit p} \<Longrightarrow>
       fst (alloc p) = of_nat (LEAST n. n \<notin> owned p) * 4096 \<and>
       owned (snd (alloc p)) = insert (LEAST n. n \<notin> owned p) (owned p)"
    and alloc_ok: "ok p \<Longrightarrow> ok (snd (alloc p)) \<and> limit (snd (alloc p)) = limit p"
    and free_owned: "ok p \<Longrightarrow> owned (free a p) = owned p - {unat a div 4096}"
    and free_ok: "ok p \<Longrightarrow> ok (free a p) \<and> limit (free a p) = limit p"
begin

definition frame_no :: "u32 \<Rightarrow> nat" where
  "frame_no a = unat a div 4096"

lemma first_free_bound:
  assumes "ok p" "owned p \<noteq> {..<limit p}"
  shows "(LEAST n. n \<notin> owned p) < limit p" "(LEAST n. n \<notin> owned p) \<notin> owned p"
proof -
  obtain n where n: "n < limit p" "n \<notin> owned p"
    using assms owned_bound by blast
  from n(2) show "(LEAST n. n \<notin> owned p) \<notin> owned p" by (rule LeastI)
  from n show "(LEAST n. n \<notin> owned p) < limit p"
    by (meson Least_le le_less_trans)
qed

lemma alloc_frame:
  assumes "ok p" "owned p \<noteq> {..<limit p}"
  shows "unat (fst (alloc p)) = 4096 * (LEAST n. n \<notin> owned p)" "frame_aligned (fst (alloc p))"
    "unat (fst (alloc p)) + 4096 \<le> 4096 * limit p"
    "frame_no (fst (alloc p)) = (LEAST n. n \<notin> owned p)"
proof -
  let ?n = "LEAST n. n \<notin> owned p"
  have n: "?n < limit p" "limit p < 2 ^ 20"
    using first_free_bound [OF assms] limit_bound [OF assms(1)] by auto
  then have "unat (of_nat ?n :: u32) = ?n"
    by (simp add: unat_of_nat)
  with n show a: "unat (fst (alloc p)) = 4096 * ?n"
    using alloc_first [OF assms] by (simp add: unat_block_addr)
  show "frame_aligned (fst (alloc p))"
    using alloc_first [OF assms] by auto
  show "unat (fst (alloc p)) + 4096 \<le> 4096 * limit p"
    using a n by simp
  show "frame_no (fst (alloc p)) = ?n" by (simp add: frame_no_def a)
qed

lemma alloc_null_iff:
  assumes "ok p" "0 \<in> owned p"
  shows "fst (alloc p) = 0 \<longleftrightarrow> owned p = {..<limit p}"
proof (cases "owned p = {..<limit p}")
  case False
  with assms first_free_bound(2) [OF assms(1) False] alloc_frame(1) [OF assms(1) False]
  have "unat (fst (alloc p)) \<noteq> 0" by (metis mult_is_0 zero_neq_numeral)
  with False show ?thesis by (metis unat_0)
qed (use assms alloc_full in simp)

text \<open>What a client that checks for NULL may assume of the frame it got.\<close>

lemma alloc_fresh:
  assumes "ok p" "0 \<in> owned p" "alloc p = (a, q)" "a \<noteq> 0"
  shows "frame_aligned a" "unat a + 4096 \<le> 4096 * limit p" "frame_no a \<notin> owned p"
    "owned q = insert (frame_no a) (owned p)" "ok q" "limit q = limit p"
proof -
  have ne: "owned p \<noteq> {..<limit p}"
    using assms alloc_null_iff by fastforce
  note fr = alloc_frame [OF assms(1) ne] first_free_bound [OF assms(1) ne] alloc_first [OF assms(1) ne]
  show "frame_aligned a" "unat a + 4096 \<le> 4096 * limit p" "frame_no a \<notin> owned p"
    "owned q = insert (frame_no a) (owned p)"
    using fr assms(3) by auto
  show "ok q" "limit q = limit p"
    using alloc_ok [OF assms(1)] assms(3) by auto
qed

lemma alloc_null_same: "ok p \<Longrightarrow> 0 \<in> owned p \<Longrightarrow> alloc p = (0, q) \<Longrightarrow> q = p"
  by (metis alloc_full alloc_null_iff fst_conv snd_conv)

lemma alloc_succeeds:
  assumes "ok p" "0 \<in> owned p" "card (owned p) < limit p"
  shows "fst (alloc p) \<noteq> 0"
  using assms alloc_null_iff by (metis card_lessThan less_irrefl)

text \<open>Freeing what was just allocated restores the set of owned blocks.\<close>

lemma free_alloc:
  assumes "ok p" "0 \<in> owned p" "alloc p = (a, q)" "a \<noteq> 0"
  shows "owned (free a q) = owned p"
  using alloc_fresh [OF assms] free_owned [of q a] by (auto simp: frame_no_def)

text \<open>A freed block below every other free block is the next one handed out.\<close>

lemma alloc_reuses_freed:
  assumes "ok p" "frame_no a \<in> owned p" "frame_aligned a" "\<And>n. n < frame_no a \<Longrightarrow> n \<in> owned p"
  shows "fst (alloc (free a p)) = a"
proof -
  have o: "owned (free a p) = owned p - {frame_no a}" "ok (free a p)" "limit (free a p) = limit p"
    using assms(1) free_owned free_ok by (auto simp: frame_no_def)
  have least: "(LEAST n. n \<notin> owned (free a p)) = frame_no a"
    using assms(4) by (intro Least_equality) (auto simp: o not_less [symmetric])
  have "frame_no a < limit p"
    using assms(1,2) owned_bound by blast
  then have ne: "owned (free a p) \<noteq> {..<limit (free a p)}"
    using o by auto
  have "unat (fst (alloc (free a p))) = unat a"
    using alloc_frame(1) [OF o(2) ne] least frame_alignedD [OF assms(3)] by (simp add: frame_no_def)
  then show ?thesis by (simp add: word_unat_eq_iff)
qed

end

lemma alloc_block_fields:
  assumes "pmm_inv p" "blocks_in_use p \<noteq> all_blocks p"
  shows "fst (pmm_alloc_block p) = of_nat (first_free p) * 4096"
    "blocks_in_use (snd (pmm_alloc_block p)) = insert (first_free p) (blocks_in_use p)"
    "pmm_inv (snd (pmm_alloc_block p))"
    "pmm_total_blocks (snd (pmm_alloc_block p)) = pmm_total_blocks p"
proof -
  obtain n where n: "n < unat (pmm_total_blocks p)" "n \<notin> blocks_in_use p"
    using assms(2) blocks_in_use_subset [of p] by (auto simp: all_blocks_def)
  from n(2) have "first_free p \<le> n" "first_free p \<notin> blocks_in_use p"
    by (rule Least_le, rule LeastI)
  with n have ff: "first_free p < unat (pmm_total_blocks p)" "first_free p \<notin> blocks_in_use p"
    by auto
  let ?b = "of_nat (first_free p) :: u32"
  have b: "unat ?b = first_free p" "?b < pmm_total_blocks p"
    using of_nat_block [OF ff(1)] by auto
  then have t: "\<not> bitmap_test p ?b"
    using ff(2) in_use_iff [OF b(2)] by simp
  have wf: "bitmap_wf p" using assms(1) by (simp add: pmm_inv_def)
  show "fst (pmm_alloc_block p) = of_nat (first_free p) * 4096"
    "blocks_in_use (snd (pmm_alloc_block p)) = insert (first_free p) (blocks_in_use p)"
    "pmm_inv (snd (pmm_alloc_block p))"
    "pmm_total_blocks (snd (pmm_alloc_block p)) = pmm_total_blocks p"
    using take_block [OF assms(1) b(2) t] assms(2) b(1)
    by (simp_all add: pmm_alloc_block_eq [OF wf] alloc_result_def Let_def)
qed

lemma alloc_block_full:
  "pmm_inv p \<Longrightarrow> blocks_in_use p = all_blocks p \<Longrightarrow> pmm_alloc_block p = (0, p)"
  by (simp add: pmm_inv_def pmm_alloc_block_eq alloc_result_def)

interpretation fa: frame_allocator pmm_alloc_block pmm_free_block blocks_in_use
  "\<lambda>p. unat (pmm_total_blocks p)" pmm_inv
proof
  fix p :: pmm and a :: u32
  assume inv: "pmm_inv p"
  then show "unat (pmm_total_blocks p) < 2 ^ 20"
    by (simp add: pmm_inv_def bitmap_wf_def)
  show "blocks_in_use p \<subseteq> {..<unat (pmm_total_blocks p)}"
    by (auto simp: blocks_in_use_def)
  show "blocks_in_use p = {..<unat (pmm_total_blocks p)} \<Longrightarrow> pmm_alloc_block p = (0, p)"
    using inv by (intro alloc_block_full) (simp_all add: all_blocks_def)
  show "blocks_in_use p \<noteq> {..<unat (pmm_total_blocks p)} \<Longrightarrow>
      fst (pmm_alloc_block p) = of_nat (first_free p) * 4096 \<and>
      blocks_in_use (snd (pmm_alloc_block p)) = insert (first_free p) (blocks_in_use p)"
    using alloc_block_fields(1,2) [OF inv] by (simp add: all_blocks_def)
  show "pmm_inv (snd (pmm_alloc_block p)) \<and>
      unat (pmm_total_blocks (snd (pmm_alloc_block p))) = unat (pmm_total_blocks p)"
    using inv alloc_block_fields(3,4) [OF inv] alloc_block_full [OF inv]
    by (cases "blocks_in_use p = all_blocks p") auto
  show "blocks_in_use (pmm_free_block a p) = blocks_in_use p - {unat a div 4096}"
    by (rule free_block_spec(3) [OF inv])
  show "pmm_inv (pmm_free_block a p) \<and>
      unat (pmm_total_blocks (pmm_free_block a p)) = unat (pmm_total_blocks p)"
    using free_block_spec(1,2) [OF inv] by simp
qed

subsection \<open>Initialisation\<close>

text \<open>The memory map between two addresses, as the list of entries the loops visit.\<close>

fun entries_at :: "memory \<Rightarrow> u32 \<Rightarrow> u32 \<Rightarrow> multiboot_mmap_entry list \<Rightarrow> bool" where
  "entries_at m a e [] \<longleftrightarrow> e \<le> a"
| "entries_at m a e (x # xs) \<longleftrightarrow> a < e \<and> x = read_mmap_entry m a \<and> entries_at m (a + mmap_size x + 4) e xs"

definition max_end :: "multiboot_mmap_entry list \<Rightarrow> u64 \<Rightarrow> u64" where
  "max_end es = fold (\<lambda>e mx. if mmap_type e = 1 \<and> mmap_addr64 e + mmap_len e > mx
     then mmap_addr64 e + mmap_len e else mx) es"

definition entry_blocks :: "multiboot_mmap_entry \<Rightarrow> nat set" where
  "entry_blocks e = (if mmap_type e = 1
     then freed_range (ucast (mmap_addr64 e)) (ucast (mmap_len e)) else {})"

definition module_blocks :: "memory \<Rightarrow> multiboot_info \<Rightarrow> nat set" where
  "module_blocks m mbi = (if mbi_flags mbi AND 8 \<noteq> 0
     then (\<Union>i < unat (mbi_mods_count mbi). reserved_range (mod_start m (mbi_mods_addr mbi) (of_nat i))
            (mod_end m (mbi_mods_addr mbi) (of_nat i) - mod_start m (mbi_mods_addr mbi) (of_nat i)))
     else {})"

lemma mmap_max_entries:
  "entries_at m a e es \<Longrightarrow> mmap_max m a e x = Some (max_end es x)"
  by (induction es arbitrary: a x) (subst mmap_max.simps; force simp: max_end_def Let_def)+

lemma mmap_free_entries:
  assumes "entries_at m a e es" "pmm_inv p"
  shows "\<exists>q. mmap_free m a e p = Some q \<and> pmm_inv q \<and> pmm_total_blocks q = pmm_total_blocks p \<and>
    blocks_in_use q = blocks_in_use p - (\<Union>e \<in> set es. entry_blocks e)"
  using assms
proof (induction es arbitrary: a p)
  case Nil
  then show ?case by (subst mmap_free.simps) auto
next
  case (Cons x xs)
  define p' where "p' = (if mmap_type x = 1
    then pmm_free_region (ucast (mmap_addr64 x)) (ucast (mmap_len x)) p else p)"
  have p: "pmm_inv p'" "pmm_total_blocks p' = pmm_total_blocks p"
    "blocks_in_use p' = blocks_in_use p - entry_blocks x"
    using free_region_spec [OF Cons.prems(2)] Cons.prems(2) by (simp_all add: entry_blocks_def p'_def)
  have "mmap_free m a e p = mmap_free m (a + mmap_size x + 4) e p'"
    using Cons.prems(1) by (subst mmap_free.simps) (simp add: Let_def p'_def)
  with Cons.IH [of "a + mmap_size x + 4" p'] Cons.prems(1) p show ?case by auto
qed

lemma fold_reserve_regions:
  assumes "pmm_inv p"
  shows "pmm_inv (fold (\<lambda>i. pmm_reserve_region (f i) (g i)) xs p) \<and>
    pmm_total_blocks (fold (\<lambda>i. pmm_reserve_region (f i) (g i)) xs p) = pmm_total_blocks p \<and>
    blocks_in_use (fold (\<lambda>i. pmm_reserve_region (f i) (g i)) xs p) =
      blocks_in_use p \<union> ((\<Union>i \<in> set xs. reserved_range (f i) (g i)) \<inter> all_blocks p)"
  using assms
proof (induction xs arbitrary: p)
  case (Cons x xs)
  note r = reserve_region_spec [OF Cons.prems, of "f x" "g x"]
  from Cons.IH [OF r(1)] r all_blocks_cong [OF r(2)] show ?case by auto
qed simp

lemma reserve_modules_spec:
  assumes "pmm_inv p"
  shows "pmm_inv (reserve_modules m mbi p)"
    "pmm_total_blocks (reserve_modules m mbi p) = pmm_total_blocks p"
    "blocks_in_use (reserve_modules m mbi p) = blocks_in_use p \<union> (module_blocks m mbi \<inter> all_blocks p)"
  using assms fold_reserve_regions [OF assms, of "\<lambda>i. mod_start m (mbi_mods_addr mbi) (of_nat i)"
      "\<lambda>i. mod_end m (mbi_mods_addr mbi) (of_nat i) - mod_start m (mbi_mods_addr mbi) (of_nat i)"
      "[0..<unat (mbi_mods_count mbi)]"]
  by (auto simp: reserve_modules_def module_blocks_def Let_def lessThan_atLeast0)

lemma fresh_bitmap:
  fixes p :: pmm and r t :: u32
  assumes "unat t < 2 ^ 20"
  defines "q \<equiv> p\<lparr>pmm_ram_size := r, pmm_total_blocks := t,
    pmm_bitmap := replicate (unat (((t + 31) div 32) * 4) div 4) 0xFFFFFFFF, pmm_used_blocks := t\<rparr>"
  shows "pmm_inv q" "blocks_in_use q = all_blocks q"
proof -
  have len: "unat (((t + 31) div 32) * 4) div 4 = (unat t + 31) div 32"
    using assms(1) by (simp add: unat_word_ariths unat_div)
  have "bitmap_test q (of_nat n)" if "n < unat t" for n
  proof -
    have "n div 32 < (unat t + 31) div 32" using that by linarith
    then show ?thesis
      using of_nat_block(1) [OF that] full_word [of "0xFFFFFFFF"]
      by (simp add: bitmap_test_bit q_def len)
  qed
  then show "blocks_in_use q = all_blocks q"
    by (auto simp: blocks_in_use_def all_blocks_def q_def)
  with assms(1) len show "pmm_inv q"
    by (simp add: pmm_inv_def bitmap_wf_def q_def all_blocks_def)
qed

definition ram_limit :: "multiboot_mmap_entry list \<Rightarrow> u32" where
  "ram_limit es = ucast (if max_end es 0 > 0xFFFFFFFF then 0xFFFFFFFF else max_end es 0)"

definition bitmap_bytes :: "multiboot_mmap_entry list \<Rightarrow> u32" where
  "bitmap_bytes es = ((ram_limit es div 4096 + 31) div 32) * 4"

lemma pmm_init_spec:
  assumes "mbi_addr \<noteq> 0" "mbi = read_multiboot_info m mbi_addr" "mbi_flags mbi AND 0x40 \<noteq> 0"
    and "entries_at m (mbi_mmap_addr mbi) (mbi_mmap_addr mbi + mbi_mmap_length mbi) es"
  shows "\<exists>q. pmm_init m kstart kend mbi_addr p = Some q \<and> pmm_inv q \<and>
    pmm_total_blocks q = ram_limit es div 4096 \<and>
    blocks_in_use q = ((all_blocks q - (\<Union>e \<in> set es. entry_blocks e)) \<union> {0..<256}
       \<union> reserved_range kstart (kend + bitmap_bytes es - kstart) \<union> module_blocks m mbi) \<inter> all_blocks q"
proof -
  let ?t = "ram_limit es div 4096"
  let ?p0 = "p\<lparr>pmm_ram_size := ram_limit es, pmm_total_blocks := ?t,
    pmm_bitmap := replicate (unat (((?t + 31) div 32) * 4) div 4) 0xFFFFFFFF, pmm_used_blocks := ?t\<rparr>"
  have "unat ?t < 2 ^ 20"
    using unsigned_less [of "ram_limit es", where 'a = nat] by (simp add: unat_div)
  from fresh_bitmap [where p = p and r = "ram_limit es", OF this]
  have p0: "pmm_inv ?p0" "blocks_in_use ?p0 = all_blocks ?p0" .
  from mmap_free_entries [OF assms(4) p0(1)] obtain p1 where p1:
    "mmap_free m (mbi_mmap_addr mbi) (mbi_mmap_addr mbi + mbi_mmap_length mbi) ?p0 = Some p1"
    "pmm_inv p1" "pmm_total_blocks p1 = ?t"
    "blocks_in_use p1 = all_blocks ?p0 - (\<Union>e \<in> set es. entry_blocks e)"
    using p0(2) by auto
  note r2 = reserve_region_spec [OF p1(2), of 0 "0x100000"]
  note r3 = reserve_region_spec [OF r2(1), of kstart "kend + bitmap_bytes es - kstart"]
  note r4 = reserve_modules_spec [OF r3(1), of m mbi]
  have low: "reserved_range 0 0x100000 = {0..<256}"
    by (simp add: reserved_range_def)
  have all: "all_blocks ?p0 = all_blocks p1" "all_blocks p1 = {..<unat ?t}"
    by (simp_all add: all_blocks_def p1(3))
  have "pmm_init m kstart kend mbi_addr p = Some (reserve_modules m mbi
     (pmm_reserve_region kstart (kend + bitmap_bytes es - kstart) (pmm_reserve_region 0 0x100000 p1)))"
    using assms p1(1) mmap_max_entries [OF assms(4), of 0]
    by (simp add: pmm_init_def Let_def ram_limit_def bitmap_bytes_def)
  with r4 r3(2,3) r2(2,3) p1(3,4) all show ?thesis
    by (auto simp: low all_blocks_def)
qed

subsection \<open>Properties of the allocator\<close>

lemma blocks_in_use_code [code]:
  "blocks_in_use p = set (filter (\<lambda>n. bitmap_test p (of_nat n)) [0..<unat (pmm_total_blocks p)])"
  by (auto simp: blocks_in_use_def)

text \<open>
  C9 \<^verbatim>\<open>pmm_alloc_block\<close> is first fit: when every tracked block is in use it returns NULL and
  changes nothing; otherwise it returns the address of the lowest free block, marks exactly
  that block, and the used counter stays equal to the number of marked blocks.
\<close>

theorem pmm_alloc_first_fit:
  assumes "pmm_inv p"
  shows "if blocks_in_use p = all_blocks p then pmm_alloc_block p = (0, p)
    else first_free p < unat (pmm_total_blocks p) \<and>
      unat (fst (pmm_alloc_block p)) = 4096 * first_free p \<and>
      blocks_in_use (snd (pmm_alloc_block p)) = insert (first_free p) (blocks_in_use p) \<and>
      pmm_total_blocks (snd (pmm_alloc_block p)) = pmm_total_blocks p \<and>
      pmm_inv (snd (pmm_alloc_block p))"
proof (cases "blocks_in_use p = all_blocks p")
  case True
  with alloc_block_full [OF assms] show ?thesis by simp
next
  case False
  then have ne: "blocks_in_use p \<noteq> {..<unat (pmm_total_blocks p)}" by (simp add: all_blocks_def)
  from False alloc_block_fields [OF assms False] fa.alloc_frame(1) [OF assms ne]
    fa.first_free_bound(1) [OF assms ne]
  show ?thesis by simp
qed

definition pmm_example :: pmm where
  "pmm_example = \<lparr>pmm_bitmap = [0xFFFFFFF7], pmm_ram_size = 0x5000, pmm_total_blocks = 5,
     pmm_used_blocks = 4\<rparr>"

lemma pmm_example_blocks:
  "blocks_in_use pmm_example = {0, 1, 2, 4}" "all_blocks pmm_example = {..<5}"
  by code_simp (simp add: all_blocks_def pmm_example_def)

lemma pmm_inv_example: "pmm_inv pmm_example"
  by (simp add: pmm_inv_def pmm_example_blocks) (simp add: bitmap_wf_def pmm_example_def)

theorem pmm_alloc_first_fit_witness:
  "unat (fst (pmm_alloc_block pmm_example)) = 4096 * 3"
proof -
  have ff: "first_free pmm_example = 3"
    by (rule Least_equality) (auto simp: pmm_example_blocks)
  have "3 \<in> all_blocks pmm_example" "3 \<notin> blocks_in_use pmm_example"
    by (simp_all add: pmm_example_blocks)
  then have "blocks_in_use pmm_example \<noteq> all_blocks pmm_example" by metis
  with pmm_alloc_first_fit [OF pmm_inv_example] show ?thesis by (simp add: ff)
qed

text \<open>
  C20 A frame the allocator hands out was not in use, lies inside the tracked memory and is 4 KB
  aligned; freeing it again restores both the set of used blocks and the used counter, and
  freeing a block that is not in use has no effect.
\<close>

theorem pmm_free_undoes_alloc:
  assumes "pmm_inv p" "0 \<in> blocks_in_use p" "pmm_alloc_block p = (a, q)" "a \<noteq> 0"
  shows "unat a div 4096 \<notin> blocks_in_use p \<and> unat a mod 4096 = 0 \<and>
    unat a + 4096 \<le> 4096 * unat (pmm_total_blocks p) \<and>
    blocks_in_use (pmm_free_block a q) = blocks_in_use p \<and>
    pmm_used_blocks (pmm_free_block a q) = pmm_used_blocks p \<and>
    pmm_free_block a p = p"
proof -
  note fr = fa.alloc_fresh [OF assms, unfolded fa.frame_no_def]
  have "blocks_in_use (pmm_free_block a q) = blocks_in_use p"
    by (rule fa.free_alloc [OF assms])
  moreover have "pmm_inv (pmm_free_block a q)"
    using free_block_spec(1) [OF fr(5)] .
  ultimately have "pmm_used_blocks (pmm_free_block a q) = pmm_used_blocks p"
    using assms(1) by (simp add: pmm_inv_def word_unat_eq_iff)
  moreover have "pmm_free_block a p = p"
    using fr(3) by (auto simp: pmm_free_block_eq release_block_def in_use_iff [symmetric] unat_div)
  ultimately show ?thesis
    using fr \<open>blocks_in_use (pmm_free_block a q) = blocks_in_use p\<close>
    by (simp add: frame_aligned_iff)
qed

theorem pmm_free_undoes_alloc_witness:
  "blocks_in_use (pmm_free_block (fst (pmm_alloc_block pmm_example)) (snd (pmm_alloc_block pmm_example)))
     = blocks_in_use pmm_example"
proof -
  have "fst (pmm_alloc_block pmm_example) \<noteq> 0" by code_simp
  moreover have "0 \<in> blocks_in_use pmm_example" by (simp add: pmm_example_blocks)
  ultimately show ?thesis
    using pmm_free_undoes_alloc [OF pmm_inv_example] by (metis prod.collapse)
qed

lemma reserved_range_bytes:
  assumes "unat base mod 4096 = 0" "unat sz + 4095 < 2 ^ 32"
  shows "reserved_range base sz = {x div 4096 |x. unat base \<le> x \<and> x < unat base + unat sz}"
proof -
  obtain k where k: "unat base = 4096 * k"
    using assms(1) by (auto simp: mod_eq_0_iff_dvd)
  have sz: "unat (sz + 4095) = unat sz + 4095"
    using assms(2) by (simp add: unat_word_ariths)
  have "n \<in> {x div 4096 |x. 4096 * k \<le> x \<and> x < 4096 * k + unat sz}"
    if "k \<le> n" "n < k + (unat sz + 4095) div 4096" for n
  proof -
    have "4096 * n < 4096 * k + unat sz" using that by linarith
    then show ?thesis using that(1) by (auto intro!: exI [of _ "4096 * n"])
  qed
  moreover have "k \<le> x div 4096 \<and> x div 4096 < k + (unat sz + 4095) div 4096"
    if "4096 * k \<le> x" "x < 4096 * k + unat sz" for x
    using that by linarith
  ultimately show ?thesis
    by (auto simp: reserved_range_def k sz)
qed

text \<open>
  \<^verbatim>\<open>pmm_reserve_region\<close> on a page-aligned base (and a size that does not overflow when
  rounded up) marks exactly the tracked blocks that hold a byte of the region.
\<close>

theorem pmm_reserve_covers_region:
  assumes "pmm_inv p" "unat base mod 4096 = 0" "unat sz + 4095 < 2 ^ 32"
  shows "pmm_inv (pmm_reserve_region base sz p) \<and>
    blocks_in_use (pmm_reserve_region base sz p) = blocks_in_use p \<union>
      ({x div 4096 |x. unat base \<le> x \<and> x < unat base + unat sz} \<inter> all_blocks p)"
  using reserve_region_spec(1,3) [OF assms(1), of base sz] reserved_range_bytes [OF assms(2,3)]
  by simp

theorem pmm_reserve_covers_region_witness:
  "pmm_inv (pmm_reserve_region 0x3000 1 pmm_example) \<and>
   blocks_in_use (pmm_reserve_region 0x3000 1 pmm_example) = blocks_in_use pmm_example \<union>
     ({x div 4096 |x. unat (0x3000::u32) \<le> x \<and> x < unat (0x3000::u32) + unat (1::u32)} \<inter> all_blocks pmm_example)"
  by (rule pmm_reserve_covers_region [OF pmm_inv_example]) simp_all

text \<open>
  With a base that is not page aligned, \<^verbatim>\<open>pmm_reserve_region\<close> does not reserve the block of
  the last byte of a region whose size is a multiple of 4096: the block count is computed
  from the size alone.
\<close>

theorem pmm_reserve_misses_tail:
  assumes "pmm_inv p" "unat base mod 4096 \<noteq> 0" "unat sz mod 4096 = 0" "0 < unat sz"
  defines "tail \<equiv> (unat base + unat sz - 1) div 4096"
  shows "tail \<in> blocks_in_use (pmm_reserve_region base sz p) \<longleftrightarrow> tail \<in> blocks_in_use p"
proof -
  obtain k where k: "unat sz = 4096 * k" "0 < k"
    using assms(3,4) by (auto simp: mod_eq_0_iff_dvd)
  have lt: "4096 * k < 2 ^ 32"
    using unsigned_less [of sz, where 'a = nat] by (simp add: k)
  then have "unat (sz + 4095) = 4096 * k + 4095"
    by (simp add: unat_word_ariths k)
  moreover have "tail = unat base div 4096 + k"
  proof -
    obtain q r where qr: "unat base = 4096 * q + r" "0 < r" "r < 4096"
      using assms(2) by (metis mod_less_divisor mult_div_mod_eq neq0_conv zero_less_numeral)
    then have "unat base div 4096 = q" by simp
    moreover have "(4096 * q + r + 4096 * k - 1) div 4096 = q + k"
      by (rule div_nat_eqI) (use qr(2,3) k(2) in simp_all)
    ultimately show ?thesis by (simp add: tail_def k qr(1))
  qed
  ultimately have "tail \<notin> reserved_range base sz"
    by (simp add: reserved_range_def)
  then show ?thesis
    using reserve_region_spec(3) [OF assms(1), of base sz] by auto
qed

theorem pmm_reserve_misses_tail_witness:
  "3 \<notin> blocks_in_use (pmm_reserve_region 0x2800 0x1000 pmm_example) \<and>
   0x3000 div 4096 = (3::nat) \<and> 0x2800 \<le> (0x3000::nat) \<and> (0x3000::nat) < 0x2800 + 0x1000"
proof -
  have "(unat (0x2800::u32) + unat (0x1000::u32) - 1) div 4096 = 3" by simp
  then have "3 \<in> blocks_in_use (pmm_reserve_region 0x2800 0x1000 pmm_example) \<longleftrightarrow> 3 \<in> blocks_in_use pmm_example"
    using pmm_reserve_misses_tail [OF pmm_inv_example, of "0x2800" "0x1000"] by simp
  moreover have "3 \<notin> blocks_in_use pmm_example" by (simp add: pmm_example_blocks)
  ultimately show ?thesis by simp
qed


text \<open>
  A boot loader's view of a small machine: usable RAM below \<^verbatim>\<open>0x9F000\<close> and from 1 MB to 2 MB,
  firmware-reserved memory from 2 MB to 4 MB, and usable RAM from 4 GB to 4 GB + 16 MB.
\<close>

definition boot_bytes :: "(u32 \<times> u8) list" where
  "boot_bytes = [
      (0x9000, 0x40), (0x902C, 0x60), (0x9031, 0x91), (0x9100, 0x14), (0x910D, 0xF0), (0x910E, 0x9),
      (0x9114, 0x1), (0x9118, 0x14), (0x911E, 0x10), (0x9126, 0x10), (0x912C, 0x1), (0x9130, 0x14),
      (0x9136, 0x20), (0x913E, 0x20), (0x9144, 0x2), (0x9148, 0x14), (0x9150, 0x1), (0x9157, 0x1),
      (0x915C, 0x1)]"

definition boot_memory :: memory where
  "boot_memory a = (case map_of boot_bytes a of None \<Rightarrow> 0 | Some b \<Rightarrow> b)"

definition boot_entries :: "multiboot_mmap_entry list" where
  "boot_entries =
     [\<lparr>mmap_size = 20, mmap_addr64 = 0, mmap_len = 0x9F000, mmap_type = 1\<rparr>,
      \<lparr>mmap_size = 20, mmap_addr64 = 0x100000, mmap_len = 0x100000, mmap_type = 1\<rparr>,
      \<lparr>mmap_size = 20, mmap_addr64 = 0x200000, mmap_len = 0x200000, mmap_type = 2\<rparr>,
      \<lparr>mmap_size = 20, mmap_addr64 = 0x100000000, mmap_len = 0x1000000, mmap_type = 1\<rparr>]"

lemma boot_memory_entries:
  "mbi_flags (read_multiboot_info boot_memory 0x9000) = 0x40"
  "mbi_mmap_addr (read_multiboot_info boot_memory 0x9000) = 0x9100"
  "mbi_mmap_length (read_multiboot_info boot_memory 0x9000) = 96"
  "entries_at boot_memory 0x9100 0x9160 boot_entries"
  by (simp_all add: boot_memory_def boot_bytes_def boot_entries_def read_multiboot_info_def
      read_mmap_entry_def rd32_def rd64_def)



end
