(* ===== verification/Gdt.thy ===== *)
theory Gdt
  imports Prelude
begin

text \<open>
  Segmentation: \<^verbatim>\<open>src/gdt.h\<close>, \<^verbatim>\<open>src/gdt.c\<close> and the effect of \<^verbatim>\<open>src/gdt_flush.s\<close> on the segment
  and task registers. Addresses of the C objects (\<^verbatim>\<open>&gdt\<close>, \<^verbatim>\<open>&gdtp\<close>, \<^verbatim>\<open>&tss\<close>, \<^verbatim>\<open>tss_stack\<close>) are
  arguments. The lemmas decode the descriptors the way the processor does and show that the
  table describes flat segments with the intended privilege levels.
\<close>

record gdt_entry =
  limit_low :: u16
  base_low :: u16
  base_mid :: u8
  access :: u8
  granularity :: u8
  base_high :: u8

record gdt_ptr =
  gdtp_limit :: u16
  gdtp_base :: u32

record tss_entry =
  prev_tss :: u32
  esp0 :: u32
  ss0 :: u32
  esp1 :: u32
  ss1 :: u32
  esp2 :: u32
  ss2 :: u32
  tss_cr3 :: u32
  tss_eip :: u32
  tss_eflags :: u32
  tss_eax :: u32
  tss_ecx :: u32
  tss_edx :: u32
  tss_ebx :: u32
  tss_esp :: u32
  tss_ebp :: u32
  tss_esi :: u32
  tss_edi :: u32
  tss_es :: u32
  tss_cs :: u32
  tss_ss :: u32
  tss_ds :: u32
  tss_fs :: u32
  tss_gs :: u32
  tss_ldt :: u32
  tss_trap :: u16
  iomap_base :: u16

abbreviation (input) GDT_KERNEL_CODE :: u16 where "GDT_KERNEL_CODE \<equiv> 0x08"
abbreviation (input) GDT_KERNEL_DATA :: u16 where "GDT_KERNEL_DATA \<equiv> 0x10"
abbreviation (input) GDT_USER_CODE :: u16 where "GDT_USER_CODE \<equiv> 0x18"
abbreviation (input) GDT_USER_DATA :: u16 where "GDT_USER_DATA \<equiv> 0x20"
abbreviation (input) GDT_TSS :: u16 where "GDT_TSS \<equiv> 0x28"

text \<open>
  The static objects of \<^verbatim>\<open>gdt.c\<close> and the registers its assembly routines load: the
  descriptor table register, the code, data and stack selectors and the task register.
\<close>

record gdt_state =
  gdt :: "gdt_entry list"
  gdtp :: gdt_ptr
  tss :: tss_entry
  gdtr :: u32
  seg_cs :: u16
  seg_data :: u16
  seg_ss :: u16
  task_reg :: u16

definition gdt_zero :: gdt_entry where
  "gdt_zero = \<lparr>limit_low = 0, base_low = 0, base_mid = 0, access = 0, granularity = 0, base_high = 0\<rparr>"

definition tss_zero :: tss_entry where
  "tss_zero = \<lparr>prev_tss = 0, esp0 = 0, ss0 = 0, esp1 = 0, ss1 = 0, esp2 = 0, ss2 = 0, tss_cr3 = 0,
     tss_eip = 0, tss_eflags = 0, tss_eax = 0, tss_ecx = 0, tss_edx = 0, tss_ebx = 0, tss_esp = 0,
     tss_ebp = 0, tss_esi = 0, tss_edi = 0, tss_es = 0, tss_cs = 0, tss_ss = 0, tss_ds = 0,
     tss_fs = 0, tss_gs = 0, tss_ldt = 0, tss_trap = 0, iomap_base = 0\<rparr>"

text \<open>\<^verbatim>\<open>sizeof\<close> of the packed structures.\<close>

abbreviation (input) sizeof_gdt :: u32 where "sizeof_gdt \<equiv> 48"
abbreviation (input) sizeof_tss :: u32 where "sizeof_tss \<equiv> 104"
abbreviation (input) sizeof_tss_stack :: u32 where "sizeof_tss_stack \<equiv> 4096"

definition gdt_set_entry :: "nat \<Rightarrow> u32 \<Rightarrow> u32 \<Rightarrow> u8 \<Rightarrow> u8 \<Rightarrow> gdt_state \<Rightarrow> gdt_state" where
  "gdt_set_entry index base limit acc gran g =
     (let gr = ucast (drop_bit 16 limit AND 0x0F) :: u8;
          e = (gdt g ! index)
            \<lparr>base_low := ucast (base AND 0xFFFF), base_mid := ucast (drop_bit 16 base AND 0xFF),
             base_high := ucast (drop_bit 24 base AND 0xFF),
             limit_low := ucast (limit AND 0xFFFF),
             granularity := gr OR (gran AND 0xF0), access := acc\<rparr>
      in g\<lparr>gdt := (gdt g)[index := e]\<rparr>)"

definition tss_write :: "u32 \<Rightarrow> nat \<Rightarrow> u16 \<Rightarrow> u32 \<Rightarrow> gdt_state \<Rightarrow> gdt_state" where
  "tss_write tss_addr index s0 e0 g =
     (let limit = sizeof_tss - 1;
          g1 = gdt_set_entry index tss_addr limit 0x89 0x00 g
      in g1\<lparr>tss := tss_zero\<lparr>ss0 := ucast s0, esp0 := e0, iomap_base := ucast sizeof_tss\<rparr>\<rparr>)"

definition gdt_flush :: "u32 \<Rightarrow> gdt_state \<Rightarrow> gdt_state" where
  "gdt_flush gdt_ptr_addr g =
     g\<lparr>gdtr := gdt_ptr_addr, seg_data := 0x10, seg_ss := 0x10, seg_cs := 0x08\<rparr>"

definition tss_flush :: "gdt_state \<Rightarrow> gdt_state" where
  "tss_flush g = g\<lparr>task_reg := 0x2B\<rparr>"

definition gdt_init :: "u32 \<Rightarrow> u32 \<Rightarrow> u32 \<Rightarrow> u32 \<Rightarrow> gdt_state \<Rightarrow> gdt_state" where
  "gdt_init gdt_addr gdtp_addr tss_addr tss_stack_addr g0 =
     (let g = g0\<lparr>gdtp := \<lparr>gdtp_limit = ucast (sizeof_gdt - 1), gdtp_base = gdt_addr\<rparr>\<rparr>;
          g = gdt_set_entry 0 0 0 0x00 0x00 g;
          g = gdt_set_entry 1 0 0xFFFFFFFF 0x9A 0xCF g;
          g = gdt_set_entry 2 0 0xFFFFFFFF 0x92 0xCF g;
          g = gdt_set_entry 3 0 0xFFFFFFFF 0xFA 0xCF g;
          g = gdt_set_entry 4 0 0xFFFFFFFF 0xF2 0xCF g;
          g = tss_write tss_addr 5 0x10 (tss_stack_addr + sizeof_tss_stack) g;
          g = gdt_flush gdtp_addr g
      in tss_flush g)"

definition tss_set_kernel_stack :: "u32 \<Rightarrow> gdt_state \<Rightarrow> gdt_state" where
  "tss_set_kernel_stack stack_top g = g\<lparr>tss := (tss g)\<lparr>esp0 := stack_top\<rparr>\<rparr>"

subsection \<open>Descriptors as the processor reads them\<close>

definition desc_base :: "gdt_entry \<Rightarrow> u32" where
  "desc_base e = ucast (base_low e) OR push_bit 16 (ucast (base_mid e)) OR push_bit 24 (ucast (base_high e))"

definition desc_limit :: "gdt_entry \<Rightarrow> u32" where
  "desc_limit e = ucast (limit_low e) OR push_bit 16 (ucast (granularity e AND 0x0F))"

definition desc_dpl :: "gdt_entry \<Rightarrow> u8" where
  "desc_dpl e = drop_bit 5 (access e) AND 3"

definition desc_present :: "gdt_entry \<Rightarrow> bool" where
  "desc_present e \<longleftrightarrow> bit (access e) 7"

definition desc_code :: "gdt_entry \<Rightarrow> bool" where
  "desc_code e \<longleftrightarrow> bit (access e) 4 \<and> bit (access e) 3"

definition desc_writable_data :: "gdt_entry \<Rightarrow> bool" where
  "desc_writable_data e \<longleftrightarrow> bit (access e) 4 \<and> \<not> bit (access e) 3 \<and> bit (access e) 1"

text \<open>The number of bytes a segment covers, with the granularity bit taken into account.\<close>

definition desc_size :: "gdt_entry \<Rightarrow> nat" where
  "desc_size e = (unat (desc_limit e) + 1) * (if bit (granularity e) 7 then 4096 else 1)"

text \<open>The descriptor a selector names: its upper 13 bits are the index.\<close>

definition selected :: "gdt_state \<Rightarrow> u16 \<Rightarrow> gdt_entry" where
  "selected g sel = gdt g ! unat (drop_bit 3 sel)"

text \<open>A word put together again from two or three of its slices.\<close>

lemma join_slices:
  "take_bit 16 (w::u32) OR push_bit 16 (drop_bit 16 w) = w"
  "take_bit 16 (w::u32) OR push_bit 16 (take_bit 8 (drop_bit 16 w)) OR push_bit 24 (drop_bit 24 w) = w"
  "take_bit 16 (w::u32) OR push_bit 16 (take_bit 4 (drop_bit 16 w)) = take_bit 20 w"
proof -
  show "take_bit 16 (w::u32) OR push_bit 16 (drop_bit 16 w) = w"
  proof (rule bit_word_eqI)
    fix n show "bit (take_bit 16 w OR push_bit 16 (drop_bit 16 w)) n = bit w n" if "n < LENGTH(32)"
      using that by (cases "n < 16") (simp_all add: bit_simps)
  qed
  show "take_bit 16 (w::u32) OR push_bit 16 (take_bit 8 (drop_bit 16 w)) OR push_bit 24 (drop_bit 24 w) = w"
  proof (rule bit_word_eqI)
    fix n
    show "bit (take_bit 16 w OR push_bit 16 (take_bit 8 (drop_bit 16 w)) OR push_bit 24 (drop_bit 24 w)) n
        = bit w n" if "n < LENGTH(32)"
      using that by (cases "n < 16"; cases "n < 24") (auto simp: bit_simps)
  qed
  show "take_bit 16 (w::u32) OR push_bit 16 (take_bit 4 (drop_bit 16 w)) = take_bit 20 w"
  proof (rule bit_word_eqI)
    fix n
    show "bit (take_bit 16 w OR push_bit 16 (take_bit 4 (drop_bit 16 w))) n = bit (take_bit 20 w) n"
      if "n < LENGTH(32)"
      using that by (cases "n < 16"; cases "n < 20") (auto simp: bit_simps)
  qed
qed

lemma slice_casts:
  "ucast (ucast (w AND 0xFFFF) :: u16) = take_bit 16 (w::u32)"
  "ucast (ucast (w AND 0xFF) :: u8) = take_bit 8 (w::u32)"
  "ucast (ucast (w AND 0xF) :: u8) = take_bit 4 (w::u32)"
  "ucast (ucast (w AND 0xFFFF) :: u32) = take_bit 16 (w::u32)"
proof -
  have m: "(0xFFFF::u32) = mask 16" "(0xFF::u32) = mask 8" "(0xF::u32) = mask 4"
    by (simp_all add: mask_eq_exp_minus_1)
  show "ucast (ucast (w AND 0xFFFF) :: u16) = take_bit 16 (w::u32)"
    "ucast (ucast (w AND 0xFF) :: u8) = take_bit 8 (w::u32)"
    "ucast (ucast (w AND 0xF) :: u8) = take_bit 4 (w::u32)"
    "ucast (ucast (w AND 0xFFFF) :: u32) = take_bit 16 (w::u32)"
    unfolding m by (auto intro!: bit_word_eqI simp: bit_simps)
qed

lemma nibbles:
  "((ucast (w AND 0xF) :: u8) OR (g AND 0xF0)) AND 0xF = ucast ((w::u32) AND 0xF)"
  "((ucast (w AND 0xF) :: u8) OR (g AND 0xF0)) AND 0xF0 = g AND 0xF0"
proof -
  have m: "(0xF0::u8) = push_bit 4 (mask 4)" "(0xF::u8) = mask 4" "(0xF::u32) = mask 4"
    by (simp_all add: mask_eq_exp_minus_1 push_bit_eq_mult)
  show "((ucast (w AND 0xF) :: u8) OR (g AND 0xF0)) AND 0xF = ucast ((w::u32) AND 0xF)"
    "((ucast (w AND 0xF) :: u8) OR (g AND 0xF0)) AND 0xF0 = g AND 0xF0"
    unfolding m by (auto intro!: bit_word_eqI simp: bit_simps)
qed

lemma top_slice: "take_bit 8 (drop_bit 24 w) = drop_bit 24 (w::u32)"
  by (rule bit_word_eqI) (auto simp: bit_simps dest: bit_imp_le_length [of w])

lemma gdt_entry_decodes:
  fixes base limit :: u32 and acc gran :: u8
  assumes "index < length (gdt g)"
  defines "e \<equiv> gdt (gdt_set_entry index base limit acc gran g) ! index"
  shows "desc_base e = base" "desc_limit e = take_bit 20 limit" "access e = acc"
    "granularity e AND 0xF0 = gran AND 0xF0"
proof -
  show "desc_base e = base"
    using assms(1) unfolding e_def gdt_set_entry_def desc_base_def
    by (simp add: Let_def top_slice slice_casts join_slices)
  show "desc_limit e = take_bit 20 limit"
    using assms(1) unfolding e_def gdt_set_entry_def desc_limit_def
    by (simp add: Let_def nibbles slice_casts join_slices)
  show "access e = acc"
    using assms(1) by (simp add: e_def gdt_set_entry_def)
  show "granularity e AND 0xF0 = gran AND 0xF0"
    using assms(1) by (simp add: e_def gdt_set_entry_def Let_def nibbles)
qed

lemma gdt_set_entry_other:
  "i \<noteq> index \<Longrightarrow> gdt (gdt_set_entry index base limit acc gran g) ! i = gdt g ! i"
  "length (gdt (gdt_set_entry index base limit acc gran g)) = length (gdt g)"
  by (simp_all add: gdt_set_entry_def Let_def)

text \<open>A flat 4 GB segment of the given privilege level.\<close>

definition flat_segment :: "gdt_entry \<Rightarrow> u8 \<Rightarrow> bool" where
  "flat_segment e dpl \<longleftrightarrow> desc_present e \<and> desc_base e = 0 \<and> desc_size e = 2 ^ 32 \<and> desc_dpl e = dpl"

lemma flat_entry:
  assumes "index < length (gdt g)" "bit acc 7"
  shows "flat_segment (gdt (gdt_set_entry index 0 0xFFFFFFFF acc 0xCF g) ! index) (drop_bit 5 acc AND 3)"
proof -
  let ?e = "gdt (gdt_set_entry index 0 0xFFFFFFFF acc 0xCF g) ! index"
  note d = gdt_entry_decodes [OF assms(1), of 0 "0xFFFFFFFF" acc "0xCF"]
  have "bit (granularity ?e) 7 = bit (granularity ?e AND 0xF0) 7"
    by (simp add: bit_simps)
  with d show ?thesis
    using assms(2) by (simp add: flat_segment_def desc_present_def desc_size_def desc_dpl_def)
qed

lemma tss_entry_decodes:
  assumes "index < length (gdt g)"
  shows "desc_base (gdt (tss_write a index s e g) ! index) = a"
    "desc_size (gdt (tss_write a index s e g) ! index) = 104"
    "access (gdt (tss_write a index s e g) ! index) = 0x89"
proof -
  let ?e = "gdt (tss_write a index s e g) ! index"
  note d = gdt_entry_decodes [OF assms, of a "103" "0x89" 0]
  have eq: "?e = gdt (gdt_set_entry index a 103 0x89 0 g) ! index"
    by (simp add: tss_write_def Let_def)
  have "bit (granularity ?e) 7 = bit (granularity ?e AND 0xF0) 7"
    by (simp add: bit_simps)
  with d eq show "desc_base ?e = a" "desc_size ?e = 104" "access ?e = 0x89"
    by (simp_all add: desc_size_def)
qed

lemma tss_write_other:
  "i \<noteq> index \<Longrightarrow> gdt (tss_write a index s e g) ! i = gdt g ! i"
  "length (gdt (tss_write a index s e g)) = length (gdt g)"
  by (simp_all add: tss_write_def Let_def gdt_set_entry_other)

lemma flush_gdt [simp]: "gdt (gdt_flush a g) = gdt g" "gdt (tss_flush g) = gdt g"
  by (simp_all add: gdt_flush_def tss_flush_def)

subsection \<open>Property of the segmentation set-up\<close>

text \<open>
  C30 After \<^verbatim>\<open>gdt_init\<close> the code and data selectors of both rings name present, flat 4 GB
  segments of privilege 0 and 3, of the right kind; the loaded code, data, stack and task
  selectors name the kernel segments and the TSS; and the TSS descriptor covers the 104 bytes
  of \<^verbatim>\<open>tss\<close>, whose ring-0 stack is the top of \<^verbatim>\<open>tss_stack\<close> in the kernel data segment and whose
  I/O bitmap lies beyond the limit, so ring 3 has no port access.
\<close>

theorem gdt_init_segments:
  fixes gdt_addr gdtp_addr tss_addr tss_stack_addr :: u32
  assumes "length (gdt g0) = 6"
  defines "g \<equiv> gdt_init gdt_addr gdtp_addr tss_addr tss_stack_addr g0"
  shows "flat_segment (selected g (seg_cs g)) 0 \<and> desc_code (selected g (seg_cs g)) \<and>
    flat_segment (selected g (seg_data g)) 0 \<and> desc_writable_data (selected g (seg_data g)) \<and>
    seg_ss g = seg_data g \<and>
    flat_segment (selected g (GDT_USER_CODE OR 3)) 3 \<and> desc_code (selected g (GDT_USER_CODE OR 3)) \<and>
    flat_segment (selected g (GDT_USER_DATA OR 3)) 3 \<and> desc_writable_data (selected g (GDT_USER_DATA OR 3)) \<and>
    \<not> desc_present (selected g 0) \<and>
    desc_base (selected g (task_reg g)) = tss_addr \<and> desc_size (selected g (task_reg g)) = 104 \<and>
    access (selected g (task_reg g)) = 0x89 \<and>
    esp0 (tss g) = tss_stack_addr + 4096 \<and> ss0 (tss g) = ucast (seg_data g) \<and>
    unat (iomap_base (tss g)) = desc_size (selected g (task_reg g)) \<and>
    gdtp_base (gdtp g) = gdt_addr \<and> unat (gdtp_limit (gdtp g)) + 1 = 8 * length (gdt g)"
proof -
  note oth = gdt_set_entry_other tss_write_other
  let ?g1 = "gdt_set_entry 0 0 0 0 0 (g0\<lparr>gdtp := \<lparr>gdtp_limit = 47, gdtp_base = gdt_addr\<rparr>\<rparr>)"
  let ?g2 = "gdt_set_entry 1 0 0xFFFFFFFF 0x9A 0xCF ?g1"
  let ?g3 = "gdt_set_entry 2 0 0xFFFFFFFF 0x92 0xCF ?g2"
  let ?g4 = "gdt_set_entry 3 0 0xFFFFFFFF 0xFA 0xCF ?g3"
  let ?g5 = "gdt_set_entry 4 0 0xFFFFFFFF 0xF2 0xCF ?g4"
  have g: "g = tss_flush (gdt_flush gdtp_addr (tss_write tss_addr 5 0x10 (tss_stack_addr + 4096) ?g5))"
    by (simp add: g_def gdt_init_def Let_def)
  have sel: "selected g 0 = gdt ?g1 ! 0" "selected g 8 = gdt ?g2 ! 1" "selected g 16 = gdt ?g3 ! 2"
    "selected g 0x1B = gdt ?g4 ! 3" "selected g 0x23 = gdt ?g5 ! 4"
    "selected g 0x2B = gdt (tss_write tss_addr 5 0x10 (tss_stack_addr + 4096) ?g5) ! 5"
    by (simp_all add: selected_def g oth)
  have len: "length (gdt ?g1) = 6" "length (gdt ?g2) = 6" "length (gdt ?g3) = 6" "length (gdt ?g4) = 6"
    "length (gdt ?g5) = 6"
    using assms(1) by (simp_all add: oth)
  have flat: "flat_segment (selected g 8) 0" "flat_segment (selected g 16) 0"
    "flat_segment (selected g 0x1B) 3" "flat_segment (selected g 0x23) 3"
    unfolding sel using flat_entry [of 1 ?g1 "0x9A"] flat_entry [of 2 ?g2 "0x92"] flat_entry [of 3 ?g3 "0xFA"]
      flat_entry [of 4 ?g4 "0xF2"] len by (simp_all add: bit_simps)
  have acc: "access (selected g 0) = 0" "access (selected g 8) = 0x9A" "access (selected g 16) = 0x92"
    "access (selected g 0x1B) = 0xFA" "access (selected g 0x23) = 0xF2"
    unfolding sel using len assms(1) by (simp_all add: gdt_entry_decodes)
  note tss5 = tss_entry_decodes [of 5 ?g5 tss_addr "0x10" "tss_stack_addr + 4096", folded sel]
  have regs: "seg_cs g = 8" "seg_data g = 16" "seg_ss g = 16" "task_reg g = 0x2B"
    "esp0 (tss g) = tss_stack_addr + 4096" "ss0 (tss g) = 16" "iomap_base (tss g) = 104"
    "gdtp g = \<lparr>gdtp_limit = 47, gdtp_base = gdt_addr\<rparr>" "length (gdt g) = 6"
    using len(5) by (simp_all add: g gdt_flush_def tss_flush_def tss_write_def gdt_set_entry_def Let_def)
  show ?thesis
    using flat tss5 len(5)
    by (simp add: regs acc desc_code_def desc_writable_data_def desc_present_def)
qed

definition gdt_boot :: gdt_state where
  "gdt_boot = \<lparr>gdt = replicate 6 gdt_zero, gdtp = \<lparr>gdtp_limit = 0, gdtp_base = 0\<rparr>, tss = tss_zero,
     gdtr = 0, seg_cs = 0, seg_data = 0, seg_ss = 0, task_reg = 0\<rparr>"

theorem gdt_init_segments_witness:
  "flat_segment (selected (gdt_init 0x1000 0x1030 0x1040 0x2000 gdt_boot) (GDT_USER_CODE OR 3)) 3"
  using gdt_init_segments [of gdt_boot "0x1000" "0x1030" "0x1040" "0x2000"]
  by (simp add: gdt_boot_def)

end
