(* ===== verification/Terminal.thy ===== *)
theory Terminal
  imports KString
begin

text \<open>
  The VGA text console of \<^verbatim>\<open>src/kernel.c\<close> (lines 17 to 140). The 80 x 25 cells at
  \<^verbatim>\<open>0xB8000\<close> are device memory and are kept as a list of their own; the \<^verbatim>\<open>size_t\<close> cursor
  counters are \<open>nat\<close> because the invariant bounds them by 25 and 80. The lemmas show that the
  cursor stays on the screen and the buffer keeps its size, that the copy loops are a scroll
  by one line, that the screen always shows the last 25 lines of everything written, and
  that the hexadecimal and decimal printers print the number they are given.
\<close>

datatype vga_color =
  VGA_COLOR_BLACK | VGA_COLOR_BLUE | VGA_COLOR_GREEN | VGA_COLOR_CYAN | VGA_COLOR_RED
| VGA_COLOR_MAGENTA | VGA_COLOR_BROWN | VGA_COLOR_LIGHT_GREY | VGA_COLOR_DARK_GREY
| VGA_COLOR_LIGHT_BLUE | VGA_COLOR_LIGHT_GREEN | VGA_COLOR_LIGHT_CYAN | VGA_COLOR_LIGHT_RED
| VGA_COLOR_LIGHT_MAGENTA | VGA_COLOR_LIGHT_BROWN | VGA_COLOR_WHITE

fun vga_code :: "vga_color \<Rightarrow> u8" where
  "vga_code VGA_COLOR_BLACK = 0"
| "vga_code VGA_COLOR_BLUE = 1"
| "vga_code VGA_COLOR_GREEN = 2"
| "vga_code VGA_COLOR_CYAN = 3"
| "vga_code VGA_COLOR_RED = 4"
| "vga_code VGA_COLOR_MAGENTA = 5"
| "vga_code VGA_COLOR_BROWN = 6"
| "vga_code VGA_COLOR_LIGHT_GREY = 7"
| "vga_code VGA_COLOR_DARK_GREY = 8"
| "vga_code VGA_COLOR_LIGHT_BLUE = 9"
| "vga_code VGA_COLOR_LIGHT_GREEN = 10"
| "vga_code VGA_COLOR_LIGHT_CYAN = 11"
| "vga_code VGA_COLOR_LIGHT_RED = 12"
| "vga_code VGA_COLOR_LIGHT_MAGENTA = 13"
| "vga_code VGA_COLOR_LIGHT_BROWN = 14"
| "vga_code VGA_COLOR_WHITE = 15"

definition vga_entry_color :: "vga_color \<Rightarrow> vga_color \<Rightarrow> u8" where
  "vga_entry_color fg bg = vga_code fg OR push_bit 4 (vga_code bg)"

definition vga_entry :: "u8 \<Rightarrow> u8 \<Rightarrow> u16" where
  "vga_entry uc color = ucast uc OR push_bit 8 (ucast color)"

abbreviation (input) VGA_WIDTH :: nat where "VGA_WIDTH \<equiv> 80"
abbreviation (input) VGA_HEIGHT :: nat where "VGA_HEIGHT \<equiv> 25"

record terminal =
  terminal_row :: nat
  terminal_column :: nat
  terminal_color :: u8
  terminal_buffer :: "u16 list"

text \<open>The loop that blanks the cells of one row.\<close>

definition clear_row :: "u8 \<Rightarrow> nat \<Rightarrow> u16 list \<Rightarrow> u16 list" where
  "clear_row color y b = fold (\<lambda>x b. b[y * VGA_WIDTH + x := vga_entry 32 color]) [0..<VGA_WIDTH] b"

definition terminal_initialize :: "terminal \<Rightarrow> terminal" where
  "terminal_initialize t =
     (let color = vga_entry_color VGA_COLOR_LIGHT_GREY VGA_COLOR_BLACK in
      t\<lparr>terminal_row := 0, terminal_column := 0, terminal_color := color,
        terminal_buffer := fold (clear_row color) [0..<VGA_HEIGHT] (terminal_buffer t)\<rparr>)"

definition terminal_setcolor :: "u8 \<Rightarrow> terminal \<Rightarrow> terminal" where
  "terminal_setcolor color t = t\<lparr>terminal_color := color\<rparr>"

definition terminal_putentryat :: "u8 \<Rightarrow> u8 \<Rightarrow> nat \<Rightarrow> nat \<Rightarrow> terminal \<Rightarrow> terminal" where
  "terminal_putentryat c color x y t =
     t\<lparr>terminal_buffer := (terminal_buffer t)[y * VGA_WIDTH + x := vga_entry c color]\<rparr>"

text \<open>The copy and clear loops at the end of \<^verbatim>\<open>terminal_putchar\<close>.\<close>

definition scroll_row :: "nat \<Rightarrow> u16 list \<Rightarrow> u16 list" where
  "scroll_row y b =
     fold (\<lambda>x b. b[(y - 1) * VGA_WIDTH + x := b ! (y * VGA_WIDTH + x)]) [0..<VGA_WIDTH] b"

definition scroll_buffer :: "u8 \<Rightarrow> u16 list \<Rightarrow> u16 list" where
  "scroll_buffer color b =
     (let moved = fold scroll_row [1..<VGA_HEIGHT] b
      in clear_row color (VGA_HEIGHT - 1) moved)"

definition terminal_putchar :: "u8 \<Rightarrow> terminal \<Rightarrow> terminal" where
  "terminal_putchar c t =
     (let t1 =
        (if c = 10 then t\<lparr>terminal_column := 0, terminal_row := terminal_row t + 1\<rparr>
         else
           (let t' = terminal_putentryat c (terminal_color t) (terminal_column t) (terminal_row t) t;
                t'' = t'\<lparr>terminal_column := terminal_column t' + 1\<rparr>
            in if terminal_column t'' = VGA_WIDTH
               then t''\<lparr>terminal_column := 0, terminal_row := terminal_row t'' + 1\<rparr>
               else t''))
      in if terminal_row t1 \<ge> VGA_HEIGHT
         then t1\<lparr>terminal_buffer := scroll_buffer (terminal_color t1) (terminal_buffer t1),
                 terminal_row := VGA_HEIGHT - 1\<rparr>
         else t1)"

fun terminal_writestring :: "u8 list \<Rightarrow> terminal \<Rightarrow> terminal" where
  "terminal_writestring [] t = t"
| "terminal_writestring (c # cs) t =
     (if c \<noteq> 0 then terminal_writestring cs (terminal_putchar c t) else t)"

definition hex_digits :: "u8 list" where
  "hex_digits = cstr ''0123456789ABCDEF''"

definition hex_buf :: "u32 \<Rightarrow> u8 list" where
  "hex_buf n =
     (let buf = (replicate 11 0)[0 := of_char (CHR ''0''), 1 := of_char (CHR ''x'')];
          (buf', _) = fold (\<lambda>i (b, n). (b[i := hex_digits ! unat (n AND 0xF)], drop_bit 4 n))
             (rev [2..<10]) (buf, n)
      in buf'[10 := 0])"

definition terminal_writehex :: "u32 \<Rightarrow> terminal \<Rightarrow> terminal" where
  "terminal_writehex n t = terminal_writestring (hex_buf n) t"

function dec_buf :: "u32 \<Rightarrow> u8 list" where
  "dec_buf n = (if n > 0 then (48 + ucast (n mod 10)) # dec_buf (n div 10) else [])"
  by pat_completeness auto
termination
  by (relation "measure unat") (auto simp: unat_div word_less_nat_alt)

declare dec_buf.simps [simp del]

definition terminal_writedec :: "u32 \<Rightarrow> terminal \<Rightarrow> terminal" where
  "terminal_writedec n t =
     (if n = 0 then terminal_putchar 48 t
      else fold terminal_putchar (rev (dec_buf n)) t)"

abbreviation puts :: "string \<Rightarrow> terminal \<Rightarrow> terminal" where
  "puts s \<equiv> terminal_writestring (cstr s)"

subsection \<open>The loops over the cells\<close>

lemma length_fold_update [simp]:
  "length (fold (\<lambda>x b. b[f x := g x b]) xs b) = length b"
  by (induction xs arbitrary: b) auto

lemma nth_fold_fill:
  "k < length b \<Longrightarrow>
   fold (\<lambda>x b. b[c + x := v]) [0..<n] b ! k = (if c \<le> k \<and> k < c + n then v else b ! k)"
proof (induction n)
  case (Suc n)
  then show ?case by (cases "k = c + n") auto
qed auto

lemma nth_fold_copy:
  assumes "c + n \<le> d" "d + n \<le> length b" "k < length b"
  shows "fold (\<lambda>x b. b[c + x := b ! (d + x)]) [0..<n] b ! k =
    (if c \<le> k \<and> k < c + n then b ! (d + (k - c)) else b ! k)"
  using assms
proof (induction n arbitrary: k)
  case (Suc n)
  have IH: "fold (\<lambda>x b. b[c + x := b ! (d + x)]) [0..<n] b ! j =
    (if c \<le> j \<and> j < c + n then b ! (d + (j - c)) else b ! j)" if "j < length b" for j
    using Suc.prems(1,2) that by (intro Suc.IH) auto
  show ?case
    using Suc.prems by (cases "k = c + n") (auto simp: IH)
qed auto

lemma length_scroll_row [simp]: "length (scroll_row y b) = length b"
  by (simp add: scroll_row_def)

lemma length_fold_scroll_row [simp]: "length (fold scroll_row ys b) = length b"
  by (induction ys arbitrary: b) auto

lemma nth_scroll_row:
  assumes "length b = 2000" "0 < y" "y < VGA_HEIGHT" "k < 2000"
  shows "scroll_row y b ! k =
    (if (y - 1) * VGA_WIDTH \<le> k \<and> k < y * VGA_WIDTH then b ! (k + VGA_WIDTH) else b ! k)"
proof -
  obtain z where y: "y = Suc z" using assms(2) by (cases y) auto
  show ?thesis
    using assms nth_fold_copy [of "z * VGA_WIDTH" VGA_WIDTH "y * VGA_WIDTH" b k]
    by (auto simp: scroll_row_def y intro!: arg_cong [of _ _ "nth b"])
qed

lemma nth_fold_scroll_row:
  assumes "length b = 2000" "r < VGA_HEIGHT" "k < 2000"
  shows "fold scroll_row [1..<Suc r] b ! k =
    (if k < r * VGA_WIDTH then b ! (k + VGA_WIDTH) else b ! k)"
  using assms(2,3)
proof (induction r arbitrary: k)
  case (Suc r)
  have IH: "fold scroll_row [1..<Suc r] b ! j =
      (if j < r * VGA_WIDTH then b ! (j + VGA_WIDTH) else b ! j)" if "j < 2000" for j
    using Suc.prems that by (intro Suc.IH) auto
  have "[1..<Suc (Suc r)] = [1..<Suc r] @ [Suc r]" by simp
  moreover have "scroll_row (Suc r) (fold scroll_row [1..<Suc r] b) ! k =
      (if r * VGA_WIDTH \<le> k \<and> k < Suc r * VGA_WIDTH then fold scroll_row [1..<Suc r] b ! (k + VGA_WIDTH)
       else fold scroll_row [1..<Suc r] b ! k)"
    using Suc.prems assms(1) by (simp add: nth_scroll_row del: upt_Suc)
  ultimately show ?case
    using Suc.prems IH [of k] IH [of "k + VGA_WIDTH"] by (simp del: upt_Suc)
qed simp

lemma length_clear_row [simp]: "length (clear_row color y b) = length b"
  by (simp add: clear_row_def)

lemma nth_clear_row:
  "k < length b \<Longrightarrow> clear_row color y b ! k =
    (if y * VGA_WIDTH \<le> k \<and> k < y * VGA_WIDTH + VGA_WIDTH then vga_entry 32 color else b ! k)"
  by (simp add: clear_row_def nth_fold_fill)

lemma length_fold_clear_row [simp]: "length (fold (clear_row color) ys b) = length b"
  by (induction ys arbitrary: b) auto

lemma nth_fold_clear_row:
  "k < length b \<Longrightarrow> fold (clear_row color) [0..<r] b ! k =
    (if k < r * VGA_WIDTH then vga_entry 32 color else b ! k)"
  by (induction r) (auto simp: nth_clear_row)

lemma scroll_buffer_eq:
  assumes "length b = 2000"
  shows "scroll_buffer color b = drop VGA_WIDTH b @ replicate VGA_WIDTH (vga_entry 32 color)"
proof (rule nth_equalityI)
  fix k assume "k < length (scroll_buffer color b)"
  then have k: "k < 2000" using assms by (simp add: scroll_buffer_def)
  show "scroll_buffer color b ! k = (drop VGA_WIDTH b @ replicate VGA_WIDTH (vga_entry 32 color)) ! k"
    using nth_fold_scroll_row [OF assms, of 24 k] k assms
    by (simp add: scroll_buffer_def nth_clear_row nth_append add.commute del: upt_Suc One_nat_def)
qed (use assms in \<open>simp add: scroll_buffer_def\<close>)

lemma terminal_initialize_buffer:
  assumes "length (terminal_buffer t) = 2000"
  shows "terminal_buffer (terminal_initialize t) = replicate 2000 (vga_entry 32 7)"
  by (rule nth_equalityI)
     (use assms in \<open>simp_all add: terminal_initialize_def Let_def nth_fold_clear_row vga_entry_color_def\<close>)

subsection \<open>Invariant\<close>

definition term_inv :: "terminal \<Rightarrow> bool" where
  "term_inv t \<longleftrightarrow> terminal_row t < VGA_HEIGHT \<and> terminal_column t < VGA_WIDTH \<and>
     length (terminal_buffer t) = 2000"

lemma term_inv_initialize: "length (terminal_buffer t) = 2000 \<Longrightarrow> term_inv (terminal_initialize t)"
  by (simp add: term_inv_def terminal_initialize_def Let_def)

lemma term_inv_putchar [simp]: "term_inv t \<Longrightarrow> term_inv (terminal_putchar c t)"
  by (auto simp: term_inv_def terminal_putchar_def terminal_putentryat_def Let_def scroll_buffer_eq)

lemma terminal_color_putchar [simp]: "terminal_color (terminal_putchar c t) = terminal_color t"
  by (simp add: terminal_putchar_def terminal_putentryat_def Let_def)

text \<open>What every writer of the kernel relies on: printing a byte keeps the console usable.\<close>

locale console =
  fixes putc :: "u8 \<Rightarrow> 't \<Rightarrow> 't" and ok :: "'t \<Rightarrow> bool"
  assumes putc_ok: "ok t \<Longrightarrow> ok (putc c t)"
begin

lemma put_bytes_ok: "ok t \<Longrightarrow> ok (fold putc bs t)"
  by (induction bs arbitrary: t) (auto simp: putc_ok)

lemma put_text_ok: "ok t \<Longrightarrow> ok (fold putc (text_of bs) t)"
  by (rule put_bytes_ok)

end

interpretation vga: console terminal_putchar term_inv
  by unfold_locales simp

lemma terminal_writestring_eq: "terminal_writestring bs t = fold terminal_putchar (text_of bs) t"
  by (induction bs arbitrary: t) auto

lemma term_inv_writestring [simp]: "term_inv t \<Longrightarrow> term_inv (terminal_writestring bs t)"
  by (simp add: terminal_writestring_eq vga.put_text_ok)

lemma term_inv_writehex [simp]: "term_inv t \<Longrightarrow> term_inv (terminal_writehex n t)"
  by (simp add: terminal_writehex_def)

lemma term_inv_writedec [simp]: "term_inv t \<Longrightarrow> term_inv (terminal_writedec n t)"
  by (simp add: terminal_writedec_def vga.put_bytes_ok)

subsection \<open>The screen shows the last 25 lines written\<close>

text \<open>
  The specification: an unbounded list of 80-cell lines. The screen starts out blank in the
  colour \<open>paper\<close>; a line that comes up by scrolling is blank in the current colour.
\<close>

record scrollback =
  history :: "u16 list list"
  column :: nat
  paper :: u8

definition sb_newline :: "u8 \<Rightarrow> scrollback \<Rightarrow> scrollback" where
  "sb_newline color sb = sb\<lparr>history := history sb @ [replicate VGA_WIDTH (vga_entry 32
      (if length (history sb) < VGA_HEIGHT then paper sb else color))], column := 0\<rparr>"

definition sb_putchar :: "u8 \<Rightarrow> u8 \<Rightarrow> scrollback \<Rightarrow> scrollback" where
  "sb_putchar color c sb =
     (if c = 10 then sb_newline color sb
      else let sb' = sb\<lparr>history := butlast (history sb) @
                 [(last (history sb))[column sb := vga_entry c color]]\<rparr>
           in if column sb + 1 = VGA_WIDTH then sb_newline color sb'
              else sb'\<lparr>column := column sb + 1\<rparr>)"

definition sb_wf :: "scrollback \<Rightarrow> bool" where
  "sb_wf sb \<longleftrightarrow> history sb \<noteq> [] \<and> (\<forall>l \<in> set (history sb). length l = VGA_WIDTH) \<and> column sb < VGA_WIDTH"

definition screen_of :: "scrollback \<Rightarrow> u16 list" where
  "screen_of sb = concat (drop (length (history sb) - VGA_HEIGHT) (history sb)) @
     replicate (VGA_WIDTH * (VGA_HEIGHT - length (history sb))) (vga_entry 32 (paper sb))"

definition displays :: "terminal \<Rightarrow> scrollback \<Rightarrow> bool" where
  "displays t sb \<longleftrightarrow> sb_wf sb \<and> terminal_buffer t = screen_of sb \<and>
     terminal_row t = min (length (history sb)) VGA_HEIGHT - 1 \<and> terminal_column t = column sb"

text \<open>The line feed that both branches of \<^verbatim>\<open>terminal_putchar\<close> end with.\<close>

definition linefeed :: "terminal \<Rightarrow> terminal" where
  "linefeed t = (if terminal_row t + 1 \<ge> VGA_HEIGHT
     then t\<lparr>terminal_column := 0, terminal_row := VGA_HEIGHT - 1,
            terminal_buffer := scroll_buffer (terminal_color t) (terminal_buffer t)\<rparr>
     else t\<lparr>terminal_column := 0, terminal_row := terminal_row t + 1\<rparr>)"

definition put_cell :: "u8 \<Rightarrow> terminal \<Rightarrow> terminal" where
  "put_cell c t = terminal_putentryat c (terminal_color t) (terminal_column t) (terminal_row t) t"

lemma terminal_putchar_cases:
  assumes "terminal_row t < VGA_HEIGHT"
  shows "terminal_putchar c t =
    (if c = 10 then linefeed t
     else if terminal_column t + 1 = VGA_WIDTH then linefeed (put_cell c t)
     else (put_cell c t)\<lparr>terminal_column := terminal_column t + 1\<rparr>)"
  using assms by (simp add: terminal_putchar_def linefeed_def put_cell_def terminal_putentryat_def Let_def)

lemma length_concat_lines: "\<forall>l \<in> set ls. length l = w \<Longrightarrow> length (concat ls) = w * length ls"
  by (induction ls) auto

lemma length_screen_of: "sb_wf sb \<Longrightarrow> length (screen_of sb) = 2000"
  by (auto simp: screen_of_def sb_wf_def length_concat_lines dest!: in_set_dropD)
     (subst length_concat_lines [where w = VGA_WIDTH]; auto dest!: in_set_dropD)

lemma displays_linefeed:
  assumes "displays t sb"
  shows "displays (linefeed t) (sb_newline (terminal_color t) sb)"
proof (cases "length (history sb) < VGA_HEIGHT")
  case True
  have "VGA_WIDTH * (VGA_HEIGHT - length (history sb)) = VGA_WIDTH + VGA_WIDTH * (24 - length (history sb))"
    using True by simp
  with True assms show ?thesis
    by (auto simp: displays_def sb_newline_def sb_wf_def screen_of_def linefeed_def replicate_add)
next
  case False
  let ?V = "drop (length (history sb) - VGA_HEIGHT) (history sb)"
  have len: "length (terminal_buffer t) = 2000"
    using assms by (simp add: displays_def length_screen_of)
  obtain v V where V: "?V = v # V"
    using False by (cases ?V) auto
  then have v: "length v = VGA_WIDTH"
    using assms by (metis displays_def in_set_dropD list.set_intros(1) sb_wf_def)
  have V': "drop (Suc (length (history sb)) - VGA_HEIGHT) (history sb) = V"
    using V False by (metis Suc_diff_le drop_Suc list.sel(3) not_less tl_drop)
  with False assms len v V show ?thesis
    by (auto simp: displays_def sb_newline_def sb_wf_def screen_of_def linefeed_def scroll_buffer_eq)
qed

lemma displays_put_cell:
  assumes "displays t sb"
  shows "displays (put_cell c t) (sb\<lparr>history := butlast (history sb) @
      [(last (history sb))[column sb := vga_entry c (terminal_color t)]]\<rparr>)"
proof -
  obtain hs l where h: "history sb = hs @ [l]"
    using assms by (metis append_butlast_last_id displays_def sb_wf_def)
  let ?vs = "drop (length (history sb) - VGA_HEIGHT) hs"
  have wf: "length l = VGA_WIDTH" "\<forall>l \<in> set ?vs. length l = VGA_WIDTH"
    using assms h by (auto simp: displays_def sb_wf_def dest!: in_set_dropD)
  note lens = wf(1) length_concat_lines [OF wf(2)]
  have "terminal_row t = length ?vs"
    using assms h by (auto simp: displays_def)
  then show ?thesis
    using assms h lens
    by (auto simp: displays_def sb_wf_def screen_of_def put_cell_def terminal_putentryat_def
        list_update_append mult.commute)
qed

lemma displays_column:
  "displays t sb \<Longrightarrow> k < VGA_WIDTH \<Longrightarrow> displays (t\<lparr>terminal_column := k\<rparr>) (sb\<lparr>column := k\<rparr>)"
  by (simp add: displays_def sb_wf_def screen_of_def)

lemma displays_putchar:
  assumes "displays t sb"
  shows "displays (terminal_putchar c t) (sb_putchar (terminal_color t) c sb)"
proof -
  have rc: "terminal_row t < VGA_HEIGHT" "terminal_column t = column sb" "column sb < VGA_WIDTH"
    using assms by (auto simp: displays_def sb_wf_def)
  have col: "terminal_color (put_cell c t) = terminal_color t"
    by (simp add: put_cell_def terminal_putentryat_def)
  note cell = displays_put_cell [OF assms, of c]
  consider "c = 10" | "c \<noteq> 10" "column sb = 79" | "c \<noteq> 10" "column sb + 1 < VGA_WIDTH"
    using rc(3) by linarith
  then show ?thesis
  proof cases
    case 1
    with displays_linefeed [OF assms] rc show ?thesis
      by (simp add: terminal_putchar_cases sb_putchar_def)
  next
    case 2
    with displays_linefeed [OF cell] rc show ?thesis
      by (simp add: terminal_putchar_cases sb_putchar_def col Let_def)
  next
    case 3
    with displays_column [OF cell 3(2)] rc show ?thesis
      by (simp add: terminal_putchar_cases sb_putchar_def Let_def)
  qed
qed

lemma displays_initialize:
  assumes "length (terminal_buffer t) = 2000"
  shows "displays (terminal_initialize t)
    \<lparr>history = [replicate VGA_WIDTH (vga_entry 32 7)], column = 0, paper = 7\<rparr>"
proof -
  have "replicate 2000 x = replicate VGA_WIDTH x @ replicate 1920 x" for x :: u16
    by (simp flip: replicate_add)
  then show ?thesis
    using terminal_initialize_buffer [OF assms]
    by (simp add: displays_def sb_wf_def screen_of_def terminal_initialize_def Let_def)
qed

lemma displays_put_bytes:
  assumes "displays t sb"
  shows "displays (fold terminal_putchar bs t) (fold (sb_putchar (terminal_color t)) bs sb)"
  using assms
proof (induction bs arbitrary: t sb)
  case (Cons b bs)
  from Cons.IH [OF displays_putchar [OF Cons.prems, of b]] show ?case by simp
qed simp

subsection \<open>Printed numbers\<close>

text \<open>The number a list of digits stands for, least significant digit first.\<close>

definition num_value :: "nat \<Rightarrow> nat list \<Rightarrow> nat" where
  "num_value b ds = foldr (\<lambda>d acc. d + b * acc) ds 0"

lemma num_value_simps [simp]:
  "num_value b [] = 0"
  "num_value b (d # ds) = d + b * num_value b ds"
  by (simp_all add: num_value_def)

lemma num_value_digits: "num_value b (map (\<lambda>i. x div b ^ i mod b) [k..<k + n]) = x div b ^ k mod b ^ n"
proof (induction n arbitrary: k)
  case (Suc n)
  have "[k..<k + Suc n] = k # [Suc k..<Suc k + n]"
    by (simp add: upt_conv_Cons)
  moreover have "x div b ^ Suc k = x div b ^ k div b"
    by (simp only: power_Suc2 div_mult2_eq)
  ultimately show ?case
    using Suc.IH [of "Suc k"] mod_mult2_eq [of "x div b ^ k" b "b ^ n"]
    by (simp del: upt_Suc add: add.commute)
qed simp

definition hex_digit_value :: "u8 \<Rightarrow> nat" where
  "hex_digit_value c = (if c < 58 then unat c - 48 else unat c - 55)"

lemma hex_digits_value:
  "k < 16 \<Longrightarrow> hex_digit_value (hex_digits ! k) = k \<and> hex_digits ! k \<noteq> 0"
proof -
  have "\<forall>k \<in> set [0..<16]. hex_digit_value (hex_digits ! k) = k \<and> hex_digits ! k \<noteq> 0"
    by code_simp
  then show "k < 16 \<Longrightarrow> ?thesis" by simp
qed

lemma unat_nibble: "unat (drop_bit (4 * i) (n::u32) AND 0xF) = unat n div 16 ^ i mod 16"
  using unat_and_mask [of "drop_bit (4 * i) n" 4]
  by (simp add: mask_eq_exp_minus_1 unat_drop_bit_u32 power_mult)

lemma hex_loop:
  "fold (\<lambda>i (b, n). (b[i := d n], drop_bit 4 n)) [9, 8, 7, 6, 5, 4, 3, 2]
     ([x, y, 0, 0, 0, 0, 0, 0, 0, 0, z], n::u32) =
   ([x, y, d (drop_bit 28 n), d (drop_bit 24 n), d (drop_bit 20 n), d (drop_bit 16 n),
     d (drop_bit 12 n), d (drop_bit 8 n), d (drop_bit 4 n), d n, z], drop_bit 32 n)"
  by simp

lemma hex_buf_eq:
  "hex_buf n = [48, 120] @ map (\<lambda>i. hex_digits ! (unat n div 16 ^ i mod 16)) (rev [0..<8]) @ [0]"
proof -
  have 1: "rev [2..<10] = [9, 8, 7, 6, 5, 4, 3, 2::nat]" "rev [0..<8] = [7, 6, 5, 4, 3, 2, 1, 0::nat]"
    by (simp_all add: upt_rec)
  have 2: "(replicate 11 (0::u8))[0 := x, 1 := y] = [x, y, 0, 0, 0, 0, 0, 0, 0, 0, 0]" for x y
    by (simp add: numeral_eq_Suc)
  have "hex_buf n = [48, 120] @ map (\<lambda>i. hex_digits ! unat (drop_bit (4 * i) n AND 0xF)) (rev [0..<8]) @ [0]"
    unfolding hex_buf_def Let_def 1 2 hex_loop [where d = "\<lambda>n. hex_digits ! unat (n AND 0xF)"]
    by simp
  then show ?thesis by (simp only: unat_nibble)
qed

lemma dec_buf_value: "num_value 10 (map (\<lambda>c. unat c - 48) (dec_buf n)) = unat n"
proof (induction n rule: dec_buf.induct)
  case (1 n)
  show ?case
  proof (cases "n > 0")
    case True
    have "unat (48 + ucast (n mod 10) :: u8) = 48 + unat n mod 10"
      by (simp add: unat_word_ariths unsigned_ucast_eq take_bit_eq_mod unat_mod)
    with True "1.IH" [OF True] show ?thesis
      by (simp add: dec_buf.simps [of n] unat_div)
  next
    case False
    then have "dec_buf n = []" by (simp add: dec_buf.simps [of n])
    moreover from False have "n = 0" by (simp add: word_gt_0)
    ultimately show ?thesis by simp
  qed
qed

lemma dec_buf_digit: "c \<in> set (dec_buf n) \<Longrightarrow> 48 \<le> c \<and> c \<le> 57"
proof (induction n rule: dec_buf.induct)
  case (1 n)
  have "unat (48 + ucast (n mod 10) :: u8) = 48 + unat n mod 10"
    by (simp add: unat_word_ariths unsigned_ucast_eq take_bit_eq_mod unat_mod)
  with 1 show ?case
    by (auto simp: dec_buf.simps [of n] word_le_nat_alt split: if_splits)
qed

lemma dec_buf_length: "unat n < 10 ^ k \<Longrightarrow> length (dec_buf n) \<le> k"
proof (induction n arbitrary: k rule: dec_buf.induct)
  case (1 n)
  show ?case
  proof (cases "n > 0")
    case True
    then obtain j where j: "k = Suc j"
      using "1.prems" by (cases k) (auto simp: word_gt_0 unat_eq_0)
    have "unat (n div 10) < 10 ^ j"
      using "1.prems" by (simp add: j unat_div less_mult_imp_div_less mult.commute)
    from "1.IH" [OF True this] True show ?thesis
      by (simp add: dec_buf.simps [of n] j)
  qed (simp add: dec_buf.simps [of n])
qed

lemma dec_buf_last: "n \<noteq> 0 \<Longrightarrow> dec_buf n \<noteq> [] \<and> last (dec_buf n) \<noteq> 48"
proof (induction n rule: dec_buf.induct)
  case (1 n)
  then have pos: "n > 0" by (simp add: word_gt_0)
  show ?case
  proof (cases "n div 10 = 0")
    case True
    have "unat n div 10 = 0"
      using arg_cong [OF True, of unat] by (simp add: unat_div)
    then have "unat n < 10" by simp
    moreover have "unat (48 + ucast (n mod 10) :: u8) = 48 + unat n mod 10"
      by (simp add: unat_word_ariths unsigned_ucast_eq take_bit_eq_mod unat_mod)
    moreover have "unat n \<noteq> 0" using "1.prems" by (simp add: unat_eq_0)
    ultimately have "(48 + ucast (n mod 10) :: u8) \<noteq> 48" by (auto simp: word_unat_eq_iff)
    moreover have "dec_buf n = [48 + ucast (n mod 10)]"
      using pos True by (simp add: dec_buf.simps [of n] dec_buf.simps [of 0])
    ultimately show ?thesis by simp
  next
    case False
    with "1.IH" [OF pos False] pos show ?thesis
      by (simp add: dec_buf.simps [of n])
  qed
qed

subsection \<open>Properties of the console\<close>

text \<open>
  C21 Whatever is printed on a freshly initialised console, the 2000 cells at 0xB8000 and the
  cursor show the last 25 lines of it: \<^verbatim>\<open>terminal_writestring\<close> refines an unbounded
  line buffer, line wrap at column 80 and scrolling included.
\<close>

theorem console_shows_last_lines:
  assumes "length (terminal_buffer t) = 2000"
  shows "displays (terminal_writestring msg (terminal_initialize t))
    (fold (sb_putchar 7) (text_of msg)
       \<lparr>history = [replicate VGA_WIDTH (vga_entry 32 7)], column = 0, paper = 7\<rparr>)"
proof -
  have "terminal_color (terminal_initialize t) = 7"
    by (simp add: terminal_initialize_def Let_def vga_entry_color_def)
  with displays_put_bytes [OF displays_initialize [OF assms], of "text_of msg"] show ?thesis
    by (simp add: terminal_writestring_eq)
qed

theorem console_shows_last_lines_witness:
  "displays (terminal_writestring (cstr ''OK'') (terminal_initialize
      \<lparr>terminal_row = 9, terminal_column = 99, terminal_color = 0, terminal_buffer = replicate 2000 0\<rparr>))
    (fold (sb_putchar 7) (text_of (cstr ''OK''))
       \<lparr>history = [replicate VGA_WIDTH (vga_entry 32 7)], column = 0, paper = 7\<rparr>)"
  by (rule console_shows_last_lines) simp

text \<open>
  C29 No printing routine ever moves the cursor off the 80 x 25 screen or changes the size of
  the cell buffer, so every write of a cell is in range.
\<close>

theorem console_stays_on_screen:
  assumes "term_inv t"
  shows "term_inv (terminal_putchar c t) \<and> term_inv (terminal_writestring msg t) \<and>
    term_inv (terminal_writehex n t) \<and> term_inv (terminal_writedec n t) \<and>
    terminal_row t * VGA_WIDTH + terminal_column t < length (terminal_buffer t)"
  using assms by (simp_all add: term_inv_def [of t])

theorem console_stays_on_screen_witness:
  "term_inv (terminal_putchar 65
     \<lparr>terminal_row = 24, terminal_column = 79, terminal_color = 7, terminal_buffer = replicate 2000 0\<rparr>)"
  by (rule console_stays_on_screen [THEN conjunct1]) (simp add: term_inv_def)

text \<open>
  \<^verbatim>\<open>terminal_writehex\<close> prints 0x and eight digits whose value is the argument;
  \<^verbatim>\<open>terminal_writedec\<close> prints between one and ten decimal digits whose value is the argument,
  with a leading zero only for 0 (so its 32-byte buffer never overflows).
\<close>

theorem printed_numbers_denote:
  "(\<exists>ds. length ds = 8 \<and> num_value 16 (map hex_digit_value (rev ds)) = unat n \<and>
     terminal_writehex n t = fold terminal_putchar ([48, 120] @ ds) t) \<and>
   (\<exists>ds. 1 \<le> length ds \<and> length ds \<le> 10 \<and> list_all (\<lambda>c. 48 \<le> c \<and> c \<le> 57) ds \<and>
     (hd ds = 48) = (n = 0) \<and> num_value 10 (map (\<lambda>c. unat c - 48) (rev ds)) = unat n \<and>
     terminal_writedec n t = fold terminal_putchar ds t)"
proof (rule conjI)
  let ?ds = "map (\<lambda>i. hex_digits ! (unat n div 16 ^ i mod 16)) (rev [0..<8])"
  have "num_value 16 (map hex_digit_value (rev ?ds)) = unat n"
    using num_value_digits [of 16 "unat n" 0 8] unsigned_less [of n, where 'a = nat]
    by (simp add: rev_map hex_digits_value comp_def del: upt_Suc)
  moreover have "text_of (hex_buf n) = [48, 120] @ ?ds"
  proof -
    have "0 \<notin> set ?ds" using hex_digits_value by auto
    then show ?thesis by (simp add: hex_buf_eq)
  qed
  ultimately show "\<exists>ds. length ds = 8 \<and> num_value 16 (map hex_digit_value (rev ds)) = unat n \<and>
     terminal_writehex n t = fold terminal_putchar ([48, 120] @ ds) t"
    by (intro exI [of _ ?ds]) (simp add: terminal_writehex_def terminal_writestring_eq)
next
  show "\<exists>ds. 1 \<le> length ds \<and> length ds \<le> 10 \<and> list_all (\<lambda>c. 48 \<le> c \<and> c \<le> 57) ds \<and>
     (hd ds = 48) = (n = 0) \<and> num_value 10 (map (\<lambda>c. unat c - 48) (rev ds)) = unat n \<and>
     terminal_writedec n t = fold terminal_putchar ds t"
  proof (cases "n = 0")
    case True
    then show ?thesis by (intro exI [of _ "[48]"]) (simp add: terminal_writedec_def)
  next
    case False
    have "length (dec_buf n) \<le> 10"
      using unsigned_less [of n, where 'a = nat] by (intro dec_buf_length) simp
    with False dec_buf_last [OF False] show ?thesis
      by (intro exI [of _ "rev (dec_buf n)"])
         (auto simp: terminal_writedec_def dec_buf_value hd_rev list_all_iff Suc_le_eq dest: dec_buf_digit)
  qed
qed

end
