(* ===== verification/Idt.thy ===== *)
theory Idt
  imports Terminal
begin

text \<open>
  The interrupt descriptor table: \<^verbatim>\<open>src/idt.h\<close> and \<^verbatim>\<open>src/idt.c\<close>. The assembly stubs
  \<^verbatim>\<open>isr0\<close>..\<^verbatim>\<open>isr31\<close>, \<^verbatim>\<open>isr128\<close> and \<^verbatim>\<open>irq0\<close>..\<^verbatim>\<open>irq15\<close> enter the model as their addresses. The
  dispatchers, which print and write to ports, are in \<open>Sys\<close>.
\<close>

record idt_entry =
  ie_base_low :: u16
  ie_selector :: u16
  ie_zero :: u8
  ie_flags :: u8
  ie_base_high :: u16

record idt_ptr =
  idtp_limit :: u16
  idtp_base :: u32

record registers =
  r_ds :: u32
  r_edi :: u32
  r_esi :: u32
  r_ebp :: u32
  r_esp :: u32
  r_ebx :: u32
  r_edx :: u32
  r_ecx :: u32
  r_eax :: u32
  r_int_no :: u32
  r_err_code :: u32
  r_eip :: u32
  r_cs :: u32
  r_eflags :: u32
  r_useresp :: u32
  r_ss :: u32

text \<open>The C functions the kernel ever registers as handlers; a NULL entry is \<open>None\<close>.\<close>

datatype isr_handler = Page_fault_handler | Syscall_dispatch | Timer_callback

record idt_state =
  idt :: "idt_entry list"
  idtp :: idt_ptr
  handlers :: "isr_handler option list"
  idtr :: u32

definition idt_zero :: idt_entry where
  "idt_zero = \<lparr>ie_base_low = 0, ie_selector = 0, ie_zero = 0, ie_flags = 0, ie_base_high = 0\<rparr>"

abbreviation (input) sizeof_idt :: u32 where "sizeof_idt \<equiv> 2048"

definition idt_set_gate :: "u8 \<Rightarrow> u32 \<Rightarrow> u16 \<Rightarrow> u8 \<Rightarrow> idt_state \<Rightarrow> idt_state" where
  "idt_set_gate vector handler sel flgs s =
     (let addr = handler;
          e = (idt s ! unat vector)
            \<lparr>ie_base_low := ucast (addr AND 0xFFFF),
             ie_base_high := ucast (drop_bit 16 addr AND 0xFFFF),
             ie_selector := sel, ie_zero := 0, ie_flags := flgs\<rparr>
      in s\<lparr>idt := (idt s)[unat vector := e]\<rparr>)"

definition idt_flush :: "u32 \<Rightarrow> idt_state \<Rightarrow> idt_state" where
  "idt_flush idt_ptr_addr s = s\<lparr>idtr := idt_ptr_addr\<rparr>"

text \<open>
  \<open>isr n\<close> and \<open>irq n\<close> are the addresses of the stubs. The 32 exception gates, the system
  call gate and the 16 hardware gates are set in the order of the source.
\<close>

definition idt_init :: "(nat \<Rightarrow> u32) \<Rightarrow> (nat \<Rightarrow> u32) \<Rightarrow> u32 \<Rightarrow> u32 \<Rightarrow> idt_state \<Rightarrow> idt_state" where
  "idt_init isr irq idt_addr idtp_addr s0 =
     (let s = s0\<lparr>idtp := \<lparr>idtp_limit = ucast (sizeof_idt - 1), idtp_base = idt_addr\<rparr>,
                 idt := replicate 256 idt_zero, handlers := replicate 256 None\<rparr>;
          s = fold (\<lambda>n. idt_set_gate (of_nat n) (isr n) 0x08 0x8E) [0..<32] s;
          s = idt_set_gate 128 (isr 128) 0x08 0xEE s;
          s = fold (\<lambda>n. idt_set_gate (32 + of_nat n) (irq n) 0x08 0x8E) [0..<16] s
      in idt_flush idtp_addr s)"

definition idt_register_handler :: "u8 \<Rightarrow> isr_handler \<Rightarrow> idt_state \<Rightarrow> idt_state" where
  "idt_register_handler vector handler s = s\<lparr>handlers := (handlers s)[unat vector := Some handler]\<rparr>"

subsection \<open>Gates as the processor reads them\<close>

definition gate_offset :: "idt_entry \<Rightarrow> u32" where
  "gate_offset e = ucast (ie_base_low e) OR push_bit 16 (ucast (ie_base_high e))"

definition gate_dpl :: "idt_entry \<Rightarrow> u8" where
  "gate_dpl e = drop_bit 5 (ie_flags e) AND 3"

definition gate_present :: "idt_entry \<Rightarrow> bool" where
  "gate_present e \<longleftrightarrow> bit (ie_flags e) 7"

text \<open>Type \<^verbatim>\<open>0xE\<close>: a 32-bit interrupt gate, which clears IF on entry.\<close>

definition interrupt_gate :: "idt_entry \<Rightarrow> bool" where
  "interrupt_gate e \<longleftrightarrow> ie_flags e AND 0x1F = 0x0E"

lemma gate_offset_set:
  "ucast (ucast (a AND 0xFFFF) :: u16) OR push_bit 16 (ucast (ucast (drop_bit 16 a AND 0xFFFF) :: u16)) = (a::u32)"
proof (rule bit_word_eqI)
  have m: "(0xFFFF::u32) = mask 16" by (simp add: mask_eq_exp_minus_1)
  fix n assume "n < LENGTH(32)"
  then show "bit (ucast (ucast (a AND 0xFFFF) :: u16) OR
      push_bit 16 (ucast (ucast (drop_bit 16 a AND 0xFFFF) :: u16)) :: u32) n = bit a n"
    unfolding m by (cases "n < 16") (auto simp: bit_simps)
qed

lemma idt_set_gate_nth:
  assumes "v < length (idt s)"
  shows "idt (idt_set_gate vector handler sel flgs s) ! v =
    (if v = unat vector then \<lparr>ie_base_low = ucast (handler AND 0xFFFF), ie_selector = sel, ie_zero = 0,
       ie_flags = flgs, ie_base_high = ucast (drop_bit 16 handler AND 0xFFFF)\<rparr> else idt s ! v)"
  using assms by (auto simp: idt_set_gate_def Let_def nth_list_update)

lemma idt_set_gate_fields [simp]:
  "length (idt (idt_set_gate vector handler sel flgs s)) = length (idt s)"
  "handlers (idt_set_gate vector handler sel flgs s) = handlers s"
  "idtp (idt_set_gate vector handler sel flgs s) = idtp s"
  by (simp_all add: idt_set_gate_def Let_def)

definition gate :: "u32 \<Rightarrow> u8 \<Rightarrow> idt_entry" where
  "gate handler flgs = \<lparr>ie_base_low = ucast (handler AND 0xFFFF), ie_selector = 0x08, ie_zero = 0,
     ie_flags = flgs, ie_base_high = ucast (drop_bit 16 handler AND 0xFFFF)\<rparr>"

lemma gate_simps [simp]:
  "gate_offset (gate h f) = h" "ie_selector (gate h f) = 0x08" "ie_flags (gate h f) = f"
  by (simp_all add: gate_offset_def gate_def gate_offset_set)

lemma fold_gates:
  fixes f :: "nat \<Rightarrow> u32" and fl :: u8
  assumes "n \<le> 32" "length (idt s) = 256" "b \<le> 128"
  defines "s' \<equiv> fold (\<lambda>n. idt_set_gate (of_nat b + of_nat n) (f n) 0x08 fl) [0..<n] s"
  shows "length (idt s') = 256 \<and> handlers s' = handlers s \<and> idtp s' = idtp s \<and>
    (\<forall>v < 256. idt s' ! v = (if b \<le> v \<and> v < b + n then gate (f (v - b)) fl else idt s ! v))"
  using assms(1) unfolding s'_def
proof (induction n)
  case 0
  with assms(2) show ?case by auto
next
  case (Suc n)
  let ?t = "fold (\<lambda>n. idt_set_gate (of_nat b + of_nat n) (f n) 0x08 fl) [0..<n] s"
  have IH: "length (idt ?t) = 256" "handlers ?t = handlers s" "idtp ?t = idtp s"
    "\<And>v. v < 256 \<Longrightarrow> idt ?t ! v = (if b \<le> v \<and> v < b + n then gate (f (v - b)) fl else idt s ! v)"
    using Suc by auto
  have u: "unat (of_nat b + of_nat n :: u8) = b + n"
    using Suc.prems assms(3) by (simp add: unat_of_nat flip: of_nat_add)
  show ?case
    using IH by (auto simp: idt_set_gate_nth u gate_def)
qed

text \<open>The table \<^verbatim>\<open>idt_init\<close> leaves behind.\<close>

lemma idt_init_nth:
  assumes "v < 256"
  shows "idt (idt_init isr irq idt_addr idtp_addr s0) ! v =
      (if v < 32 then gate (isr v) 0x8E else if v < 48 then gate (irq (v - 32)) 0x8E
       else if v = 128 then gate (isr v) 0xEE else idt_zero)"
    "length (idt (idt_init isr irq idt_addr idtp_addr s0)) = 256"
    "handlers (idt_init isr irq idt_addr idtp_addr s0) = replicate 256 None"
proof -
  define a where "a = s0\<lparr>idtp := \<lparr>idtp_limit = 2047, idtp_base = idt_addr\<rparr>,
    idt := replicate 256 idt_zero, handlers := replicate 256 None\<rparr>"
  define b where "b = fold (\<lambda>n. idt_set_gate (of_nat 0 + of_nat n) (isr n) 0x08 0x8E) [0..<32] a"
  define c where "c = idt_set_gate 128 (isr 128) 0x08 0xEE b"
  define d where "d = fold (\<lambda>n. idt_set_gate (of_nat 32 + of_nat n) (irq n) 0x08 0x8E) [0..<16] c"
  have s: "idt_init isr irq idt_addr idtp_addr s0 = d\<lparr>idtr := idtp_addr\<rparr>"
    by (simp add: idt_init_def Let_def idt_flush_def a_def b_def c_def d_def del: upt_rec_numeral)
  have 1: "length (idt b) = 256" "handlers b = replicate 256 None"
    "idt b ! v = (if v < 32 then gate (isr v) 0x8E else idt_zero)"
    using fold_gates [of 32 a 0 isr "0x8E"] assms unfolding b_def by (simp_all add: a_def)
  have 2: "length (idt c) = 256" "handlers c = replicate 256 None"
    "idt c ! v = (if v = 128 then gate (isr 128) 0xEE else idt b ! v)"
    using 1 assms by (simp_all add: c_def idt_set_gate_nth gate_def)
  have 3: "length (idt d) = 256" "handlers d = replicate 256 None"
    "idt d ! v = (if 32 \<le> v \<and> v < 48 then gate (irq (v - 32)) 0x8E else idt c ! v)"
    using fold_gates [of 16 c 32 irq "0x8E"] 2(1,2) assms unfolding d_def by simp_all
  show "idt (idt_init isr irq idt_addr idtp_addr s0) ! v =
      (if v < 32 then gate (isr v) 0x8E else if v < 48 then gate (irq (v - 32)) 0x8E
       else if v = 128 then gate (isr v) 0xEE else idt_zero)"
    "length (idt (idt_init isr irq idt_addr idtp_addr s0)) = 256"
    "handlers (idt_init isr irq idt_addr idtp_addr s0) = replicate 256 None"
    unfolding s using 1(3) 2(3) 3 by auto
qed

subsection \<open>Property of the interrupt table\<close>

text \<open>
  C31 After \<^verbatim>\<open>idt_init\<close> exactly the vectors 0..47 and 128 are present; each is an interrupt gate
  into the kernel code segment that leads to its own stub, and only the system call vector
  128 may be raised from ring 3. No C handler is registered yet.
\<close>

theorem idt_init_gates:
  assumes "v < 256"
  shows "let s = idt_init isr irq idt_addr idtp_addr s0; e = idt s ! v in
    length (idt s) = 256 \<and> length (handlers s) = 256 \<and> handlers s ! v = None \<and>
    gate_present e = (v < 48 \<or> v = 128) \<and>
    (if v < 48 \<or> v = 128
     then gate_offset e = (if v < 32 \<or> v = 128 then isr v else irq (v - 32)) \<and>
       ie_selector e = 0x08 \<and> interrupt_gate e \<and> gate_dpl e = (if v = 128 then 3 else 0)
     else e = idt_zero)"
proof -
  have z: "ie_flags idt_zero = 0" by (simp add: idt_zero_def)
  consider "v < 32" | "32 \<le> v" "v < 48" | "v = 128" | "48 \<le> v" "v \<noteq> 128" by linarith
  then show ?thesis
    unfolding Let_def
    by cases (use assms in \<open>simp_all add: idt_init_nth(1) idt_init_nth(2,3) [OF assms] gate_present_def gate_dpl_def interrupt_gate_def z\<close>)
qed

theorem idt_init_gates_witness:
  "gate_offset (idt (idt_init (\<lambda>n. of_nat (0x1000 + 16 * n)) (\<lambda>n. of_nat (0x2000 + 16 * n)) 0x3000 0x3800
      \<lparr>idt = [], idtp = \<lparr>idtp_limit = 0, idtp_base = 0\<rparr>, handlers = [], idtr = 0\<rparr>) ! 33) = 0x2010"
  using idt_init_gates [of 33 "\<lambda>n. of_nat (0x1000 + 16 * n)" "\<lambda>n. of_nat (0x2000 + 16 * n)" "0x3000" "0x3800"
      "\<lparr>idt = [], idtp = \<lparr>idtp_limit = 0, idtp_base = 0\<rparr>, handlers = [], idtr = 0\<rparr>"]
  by (simp add: Let_def)

end
