(* ===== verification/Sys.thy ===== *)
theory Sys
  imports Pmm Gdt Idt
begin

text \<open>
  The kernel state the memory manager, the interrupt handlers and the device code share: the
  machine with the console, the frame allocator, the descriptor tables, the log of port
  writes and \<^verbatim>\<open>current_page_directory\<close> of \<^verbatim>\<open>src/vmm.c\<close>. The components with a state of their
  own extend the record. The two interrupt dispatchers of \<^verbatim>\<open>src/idt.c\<close> are here; they take the
  meaning of a registered handler as an argument.
\<close>

record sys = machine +
  console :: terminal
  pmm_st :: pmm
  gdt_st :: gdt_state
  idt_st :: idt_state
  ports :: "(u16 \<times> u8) list"
  current_page_directory :: u32

definition print :: "(terminal \<Rightarrow> terminal) \<Rightarrow> 'a sys_scheme \<Rightarrow> 'a sys_scheme" where
  "print f s = s\<lparr>console := f (console s)\<rparr>"

text \<open>\<^verbatim>\<open>outb\<close>: the device sees the write.\<close>

definition outb :: "u16 \<Rightarrow> u8 \<Rightarrow> 'a sys_scheme \<Rightarrow> 'a sys_scheme" where
  "outb port val s = s\<lparr>ports := ports s @ [(port, val)]\<rparr>"

definition alloc_block :: "'a sys_scheme \<Rightarrow> u32 \<times> 'a sys_scheme" where
  "alloc_block s = (let (a, p) = pmm_alloc_block (pmm_st s) in (a, s\<lparr>pmm_st := p\<rparr>))"

definition free_block :: "u32 \<Rightarrow> 'a sys_scheme \<Rightarrow> 'a sys_scheme" where
  "free_block a s = s\<lparr>pmm_st := pmm_free_block a (pmm_st s)\<rparr>"

definition register_handler :: "u8 \<Rightarrow> isr_handler \<Rightarrow> 'a sys_scheme \<Rightarrow> 'a sys_scheme" where
  "register_handler vector h s = s\<lparr>idt_st := idt_register_handler vector h (idt_st s)\<rparr>"

subsection \<open>Interrupt dispatch\<close>

text \<open>The three digits of the vector number, blanks for leading zeros.\<close>

definition vector_buf :: "u32 \<Rightarrow> u8 list" where
  "vector_buf n =
     [if n \<ge> 100 then ucast (48 + n div 100) else 32,
      if n \<ge> 10 then ucast (48 + (n mod 100) div 10) else 32,
      ucast (48 + n mod 10), 0]"

definition isr_panic :: "registers \<Rightarrow> 'a sys_scheme \<Rightarrow> 'a sys_scheme" where
  "isr_panic regs =
     print (puts ''System Halted.\<newline>'') o
     print (terminal_writestring (hex_buf (r_err_code regs))) o
     print (puts ''  Error Code: '') o
     print (terminal_writestring (vector_buf (r_int_no regs))) o
     print (puts ''Exception #'') o
     print (puts ''\<newline>\<newline>*** KERNEL PANIC: Unhandled Exception ***\<newline>'')"

text \<open>
  How a handler is left: it returns and the stub goes back to the interrupted code with the
  registers of the frame, or it gave up the processor and another task goes on at an address.
\<close>

datatype handled = Iret registers | Switched u32

definition isr_dispatch ::
  "(isr_handler \<Rightarrow> registers \<Rightarrow> 'a sys_scheme \<Rightarrow> (handled, 'a sys_scheme) outcome) \<Rightarrow>
   registers \<Rightarrow> 'a sys_scheme \<Rightarrow> (handled, 'a sys_scheme) outcome" where
  "isr_dispatch call regs s =
     (case handlers (idt_st s) ! unat (r_int_no regs) of
        Some h \<Rightarrow> call h regs s
      | None \<Rightarrow> Hang (isr_panic regs s))"

definition irq_dispatch ::
  "(isr_handler \<Rightarrow> registers \<Rightarrow> 'a sys_scheme \<Rightarrow> (handled, 'a sys_scheme) outcome) \<Rightarrow>
   registers \<Rightarrow> 'a sys_scheme \<Rightarrow> (handled, 'a sys_scheme) outcome" where
  "irq_dispatch call regs s =
     (let s = (if r_int_no regs \<ge> 40 then outb 0xA0 0x20 s else s);
          s = outb 0x20 0x20 s
      in case handlers (idt_st s) ! unat (r_int_no regs) of
           Some h \<Rightarrow> call h regs s
         | None \<Rightarrow> Ret (Iret regs) s)"

subsection \<open>What the operations leave alone\<close>

lemma print_simps [simp]:
  "mem (print f s) = mem s" "cr0 (print f s) = cr0 s" "cr2 (print f s) = cr2 s" "cr3 (print f s) = cr3 s"
  "iflag (print f s) = iflag s" "tlb (print f s) = tlb s" "pmm_st (print f s) = pmm_st s"
  "gdt_st (print f s) = gdt_st s" "idt_st (print f s) = idt_st s" "ports (print f s) = ports s"
  "current_page_directory (print f s) = current_page_directory s" "more (print f s) = more s"
  "console (print f s) = f (console s)"
  by (simp_all add: print_def)

lemma register_handler_simps [simp]:
  "mem (register_handler v h s) = mem s" "cr0 (register_handler v h s) = cr0 s"
  "cr3 (register_handler v h s) = cr3 s" "tlb (register_handler v h s) = tlb s"
  "pmm_st (register_handler v h s) = pmm_st s"
  "current_page_directory (register_handler v h s) = current_page_directory s"
  by (simp_all add: register_handler_def)

lemma alloc_block_simps [simp]:
  "fst (alloc_block s) = fst (pmm_alloc_block (pmm_st s))"
  "snd (alloc_block s) = s\<lparr>pmm_st := snd (pmm_alloc_block (pmm_st s))\<rparr>"
  by (simp_all add: alloc_block_def split: prod.splits)

lemma sys_updates_machine [simp]:
  "translate (print f s) = translate s"
  "translate (s\<lparr>pmm_st := p\<rparr>) = translate s"
  "translate (s\<lparr>console := c\<rparr>) = translate s"
  "paging_on (print f s) = paging_on s"
  "paging_on (s\<lparr>pmm_st := p\<rparr>) = paging_on s"
  "paging_on (s\<lparr>current_page_directory := d\<rparr>) = paging_on s"
  by (auto simp: translate_def paging_on_def fun_eq_iff)

end
