(* ===== verification/Vmm.thy ===== *)
theory Vmm
  imports Sys
begin

text \<open>
  The virtual memory manager, \<^verbatim>\<open>src/vmm.c\<close> and \<^verbatim>\<open>src/vmm.h\<close>: page tables are words in physical
  memory, reached through the MMU once paging is on. The address space a directory
  describes is \<open>page_walk\<close>; the locale \<open>address_space\<close> states what mapping and unmapping
  promise about it, and the lemmas discharge it for \<open>vmm_map_page\<close> and \<open>vmm_unmap_page\<close>, show
  that \<open>vmm_init\<close> turns paging on with the identity map, and that the page fault handler
  resolves exactly the faults it means to.
\<close>

abbreviation (input) VMM_FLAG_PRESENT :: u32 where "VMM_FLAG_PRESENT \<equiv> 1"
abbreviation (input) VMM_FLAG_WRITE :: u32 where "VMM_FLAG_WRITE \<equiv> 2"
abbreviation (input) VMM_FLAG_USER :: u32 where "VMM_FLAG_USER \<equiv> 4"

text \<open>The table behind a directory entry, allocated and cleared when there is none.\<close>

definition get_page_table :: "u32 \<Rightarrow> u32 \<Rightarrow> 'a sys_scheme \<Rightarrow> (u32, 'a sys_scheme) outcome" where
  "get_page_table pd_index pde s =
     (if pde AND VMM_FLAG_PRESENT = 0 then
        (let (pt_phys, s) = alloc_block s in
         if pt_phys = 0 then
           Hang (print (puts ''[VMM] Critical: Out of physical memory for page table allocation!\<newline>'') s)
         else obind (memset pt_phys 0 PMM_BLOCK_SIZE s) (\<lambda>_ s.
           obind (store32 (current_page_directory s + 4 * pd_index)
              (pt_phys OR VMM_FLAG_PRESENT OR VMM_FLAG_WRITE OR VMM_FLAG_USER) s) (\<lambda>_ s.
           Ret pt_phys s)))
      else Ret (pde AND 0xFFFFF000) s)"

definition vmm_map_page :: "u32 \<Rightarrow> u32 \<Rightarrow> u32 \<Rightarrow> 'a sys_scheme \<Rightarrow> (unit, 'a sys_scheme) outcome" where
  "vmm_map_page phys_addr virt_addr flgs s =
     (let pd_index = drop_bit 22 virt_addr;
          pt_index = drop_bit 12 virt_addr AND 0x3FF
      in obind (load32 (current_page_directory s + 4 * pd_index) s) (\<lambda>pde s.
         obind (get_page_table pd_index pde s) (\<lambda>page_table s.
         obind (store32 (page_table + 4 * pt_index) (phys_addr OR flgs) s) (\<lambda>_ s.
         Ret () (invlpg virt_addr s)))))"

definition vmm_unmap_page :: "u32 \<Rightarrow> 'a sys_scheme \<Rightarrow> (unit, 'a sys_scheme) outcome" where
  "vmm_unmap_page virt_addr s =
     (let pd_index = drop_bit 22 virt_addr;
          pt_index = drop_bit 12 virt_addr AND 0x3FF
      in obind (load32 (current_page_directory s + 4 * pd_index) s) (\<lambda>pde s.
         if pde AND VMM_FLAG_PRESENT \<noteq> 0 then
           obind (store32 ((pde AND 0xFFFFF000) + 4 * pt_index) 0 s) (\<lambda>_ s.
           Ret () (invlpg virt_addr s))
         else Ret () s))"

text \<open>The messages of the page fault handler.\<close>

definition fault_report :: "u32 \<Rightarrow> u32 \<Rightarrow> 'a sys_scheme \<Rightarrow> 'a sys_scheme" where
  "fault_report addr err =
     print (puts ''  -> Action: Dynamically allocating physical frame and mapping virtual page...\<newline>'') o
     print (puts (if err AND 4 \<noteq> 0 then ''User mode\<newline>'' else ''Supervisor mode\<newline>'')) o
     print (puts (if err AND 2 \<noteq> 0 then ''Write access | '' else ''Read access | '')) o
     print (puts (if err AND 1 = 0 then ''Non-present | '' else ''Protection violation | '')) o
     print (puts ''\<newline>  -> Status: '') o
     print (terminal_writehex addr) o
     print (puts ''[VMM] Caught Page Fault (Demand Paging) at: '')"

definition fault_panic :: "u32 \<Rightarrow> u32 \<Rightarrow> u32 \<Rightarrow> 'a sys_scheme \<Rightarrow> 'a sys_scheme" where
  "fault_panic addr err eip =
     print (puts ''System Halted.\<newline>'') o
     print (puts (if err AND 8 \<noteq> 0
       then ''  -> Error            : Detected write to reserved bits in page table entry!\<newline>'' else '''')) o
     print (puts (if err AND 4 \<noteq> 0 then ''User Mode (Ring 3)\<newline>'' else ''Kernel Mode (Ring 0)\<newline>'')) o
     print (puts ''  -> Privilege Level  : '') o
     print (puts (if err AND 2 \<noteq> 0 then ''WRITE\<newline>'' else if err AND 0x10 \<noteq> 0
       then ''INSTRUCTION FETCH\<newline>'' else ''READ\<newline>'')) o
     print (puts ''  -> Access Type      : '') o
     print (puts (if err AND 1 = 0 then ''Non-present page (Null/unmapped access)\<newline>''
       else ''Privilege/Protection violation (Ring 3 writing to Read-Only or accessing Supervisor-only page)\<newline>'')) o
     print (puts ''  -> Reason           : '') o
     print (puts ''\<newline>'') o print (terminal_writehex eip) o print (puts ''  -> Instruction (EIP): '') o
     print (puts ''\<newline>'') o print (terminal_writehex err) o print (puts ''  -> Error Code       : '') o
     print (puts ''\<newline>'') o print (terminal_writehex addr) o print (puts ''  -> Faulting Address : '') o
     print (puts ''\<newline>\<newline>*** KERNEL PANIC: Page Fault Memory Access Violation ***\<newline>'')"

text \<open>The condition under which a fault is resolved by demand paging.\<close>

definition demand_fault :: "u32 \<Rightarrow> u32 \<Rightarrow> bool" where
  "demand_fault addr err \<longleftrightarrow>
     err AND 1 = 0 \<and> addr \<ge> 0x1000 \<and> \<not> (err AND 4 = 0 \<and> addr \<ge> 0xC0000000)"

definition page_fault_handler :: "registers \<Rightarrow> 'a sys_scheme \<Rightarrow> (registers, 'a sys_scheme) outcome" where
  "page_fault_handler regs s =
     (let faulting_address = cr2 s; err = r_err_code regs in
      if demand_fault faulting_address err then
        (let s = fault_report faulting_address err s;
             (phys_block, s) = alloc_block s
         in if phys_block = 0 then
              Hang (print (puts ''[VMM] Error: Out of physical memory to satisfy demand paging!\<newline>'') s)
            else
              obind (vmm_map_page phys_block (faulting_address AND 0xFFFFF000)
                (VMM_FLAG_PRESENT OR VMM_FLAG_WRITE OR VMM_FLAG_USER) s) (\<lambda>_ s.
              Ret regs (print (puts ''\<newline>[VMM] Resuming execution of the interrupted instruction...\<newline>\<newline>'')
                (print (terminal_writehex phys_block)
                (print (puts ''  -> Mapped to Physical Frame: '') s)))))
      else Hang (fault_panic faulting_address err (r_eip regs) s))"

text \<open>The messages before the mapping loop of \<^verbatim>\<open>vmm_init\<close>.\<close>

definition vmm_report :: "u32 \<Rightarrow> u32 \<Rightarrow> u32 \<Rightarrow> 'a sys_scheme \<Rightarrow> 'a sys_scheme" where
  "vmm_report pd total_ram total_blocks =
     print (puts '' blocks) as Present, Read/Write, User...\<newline>'') o
     print (terminal_writedec total_blocks) o
     print (puts '' MB, '') o
     print (terminal_writedec (total_ram div (1024 * 1024))) o
     print (puts ''[VMM] Flat identity mapping physical memory ('') o
     print (puts ''\<newline>'') o
     print (terminal_writehex pd) o
     print (puts ''[VMM] Allocated and cleared Page Directory at: '')"

text \<open>
  \<^verbatim>\<open>total_ram\<close> is a multiple of the block size below 4 GB, so the loop runs once per block
  and its counter does not wrap.
\<close>

definition vmm_init :: "'a sys_scheme \<Rightarrow> (unit, 'a sys_scheme) outcome" where
  "vmm_init s =
     (let s = register_handler 14 Page_fault_handler s;
          s = print (puts ''[VMM] Registered IDT page fault exception handler (Vector 14).\<newline>'') s;
          (pd, s) = alloc_block s;
          s = s\<lparr>current_page_directory := pd\<rparr>
      in if pd = 0 then
           Hang (print (puts ''[VMM] Error: Failed to allocate physical page for Page Directory!\<newline>'') s)
         else obind (memset pd 0 PMM_BLOCK_SIZE s) (\<lambda>_ s.
           let total_blocks = pmm_get_total_blocks (pmm_st s);
               total_ram = total_blocks * PMM_BLOCK_SIZE;
               s = vmm_report pd total_ram total_blocks s
           in obind (foreach [0..<unat (total_ram div PMM_BLOCK_SIZE)]
                 (\<lambda>i. vmm_map_page (of_nat i * PMM_BLOCK_SIZE) (of_nat i * PMM_BLOCK_SIZE)
                    (VMM_FLAG_PRESENT OR VMM_FLAG_WRITE OR VMM_FLAG_USER)) s) (\<lambda>_ s.
              let s = write_cr3 (current_page_directory s) s;
                  s = write_cr0 (read_cr0 s OR 0x80000000) s
              in Ret () (print (puts ''[VMM] Paging successfully enabled in CR0 and CR3!\<newline>'') s))))"

subsection \<open>Directories in physical memory\<close>

abbreviation pde_of :: "memory \<Rightarrow> u32 \<Rightarrow> u32 \<Rightarrow> u32" where
  "pde_of m pd i \<equiv> rd32 m (pd + 4 * i)"

abbreviation frame_of :: "u32 \<Rightarrow> u32" where
  "frame_of e \<equiv> e AND 0xFFFFF000"

abbreviation block_of :: "u32 \<Rightarrow> nat" where
  "block_of a \<equiv> unat a div 4096"

abbreviation pdx :: "u32 \<Rightarrow> u32" where "pdx va \<equiv> drop_bit 22 va"
abbreviation ptx :: "u32 \<Rightarrow> u32" where "ptx va \<equiv> drop_bit 12 va AND 0x3FF"
abbreviation vpn :: "u32 \<Rightarrow> u32" where "vpn va \<equiv> drop_bit 12 va"

text \<open>
  The directory and the tables it refers to are pairwise different frames, all of them in
  use, and a present directory entry allows writes and ring 3, so that the table entry decides.
\<close>

definition pd_wf :: "memory \<Rightarrow> u32 \<Rightarrow> nat set \<Rightarrow> bool" where
  "pd_wf m pd used \<longleftrightarrow> frame_aligned pd \<and> block_of pd \<in> used \<and>
     (\<forall>i. unat i < 1024 \<and> pde_of m pd i AND 1 \<noteq> 0 \<longrightarrow>
        frame_of (pde_of m pd i) \<noteq> pd \<and> block_of (frame_of (pde_of m pd i)) \<in> used \<and>
        pde_of m pd i AND 6 = 6 \<and>
        (\<forall>j. unat j < 1024 \<and> pde_of m pd j AND 1 \<noteq> 0 \<and>
           frame_of (pde_of m pd j) = frame_of (pde_of m pd i) \<longrightarrow> j = i))"

lemma pd_wfD:
  assumes "pd_wf m pd used"
  shows "frame_aligned pd" "block_of pd \<in> used"
    "\<And>i. unat i < 1024 \<Longrightarrow> pde_of m pd i AND 1 \<noteq> 0 \<Longrightarrow> frame_of (pde_of m pd i) \<noteq> pd"
    "\<And>i. unat i < 1024 \<Longrightarrow> pde_of m pd i AND 1 \<noteq> 0 \<Longrightarrow> block_of (frame_of (pde_of m pd i)) \<in> used"
    "\<And>i j. unat i < 1024 \<Longrightarrow> pde_of m pd i AND 1 \<noteq> 0 \<Longrightarrow> unat j < 1024 \<Longrightarrow> pde_of m pd j AND 1 \<noteq> 0 \<Longrightarrow>
       frame_of (pde_of m pd j) = frame_of (pde_of m pd i) \<Longrightarrow> j = i"
    "\<And>i. unat i < 1024 \<Longrightarrow> pde_of m pd i AND 1 \<noteq> 0 \<Longrightarrow> pde_of m pd i AND 6 = 6"
  using assms by (auto simp: pd_wf_def)

lemma pd_wf_mono: "pd_wf m pd used \<Longrightarrow> used \<subseteq> used' \<Longrightarrow> pd_wf m pd used'"
  by (auto simp: pd_wf_def)

lemma pd_wf_cong:
  assumes "pd_wf m pd used" "\<And>i. unat i < 1024 \<Longrightarrow> pde_of m' pd i = pde_of m pd i"
  shows "pd_wf m' pd used"
  using assms by (auto simp: pd_wf_def)

text \<open>The frames a walk may read.\<close>

definition walk_frame :: "memory \<Rightarrow> u32 \<Rightarrow> u32 \<Rightarrow> bool" where
  "walk_frame m pd f \<longleftrightarrow> f = pd \<or>
     (\<exists>i. unat i < 1024 \<and> pde_of m pd i AND 1 \<noteq> 0 \<and> f = frame_of (pde_of m pd i))"

lemma walk_frame_used: "pd_wf m pd used \<Longrightarrow> walk_frame m pd f \<Longrightarrow> block_of f \<in> used"
  by (auto simp: walk_frame_def pd_wf_def)

lemma page_walk_same:
  assumes "frame_aligned pd" "\<And>a f. walk_frame m pd f \<Longrightarrow> in_frame f a \<Longrightarrow> m' a = m a"
  shows "page_walk m' pd va = page_walk m pd va"
proof (rule page_walk_cong [OF assms(1)])
  fix a
  show "in_frame pd a \<Longrightarrow> m' a = m a"
    by (rule assms(2)) (simp_all add: walk_frame_def)
  show "pde_of m pd (pdx va) AND 1 \<noteq> 0 \<Longrightarrow> in_frame (frame_of (pde_of m pd (pdx va))) a \<Longrightarrow> m' a = m a"
    by (rule assms(2)) (auto simp: walk_frame_def intro!: exI [of _ "pdx va"])
qed

lemma pd_wf_same:
  assumes "pd_wf m pd used" "\<And>a. in_frame pd a \<Longrightarrow> m' a = m a"
  shows "pd_wf m' pd used"
  using assms pd_wfD(1) [OF assms(1)] by (intro pd_wf_cong [OF assms(1)] rd32_entry_cong) auto

text \<open>Writing an entry of a table that is present changes the walk of that page only.\<close>

lemma write_pte:
  fixes v :: u32
  assumes wf: "pd_wf m pd used" and pres: "pde_of m pd (pdx va) AND 1 \<noteq> 0"
  defines "m' \<equiv> wr32 (frame_of (pde_of m pd (pdx va)) + 4 * ptx va) v m"
  shows "\<And>j. unat j < 1024 \<Longrightarrow> pde_of m' pd j = pde_of m pd j"
    and "pd_wf m' pd used"
    and "page_walk m' pd b = (if vpn b = vpn va then (if v AND 1 = 0 then None else Some v)
           else page_walk m pd b)"
proof -
  let ?t = "frame_of (pde_of m pd (pdx va))"
  note wfd = pd_wfD [OF wf]
  have tne: "?t \<noteq> pd" using wfd(3) pres by simp
  show pde: "pde_of m' pd j = pde_of m pd j" if "unat j < 1024" for j
    using tne that wfd(1) by (simp add: m'_def rd32_wr32_entry)
  then show "pd_wf m' pd used"
    by (rule pd_wf_cong [OF wf])
  have pte: "rd32 m' (frame_of (pde_of m pd (pdx b)) + 4 * ptx b) =
      (if vpn b = vpn va then v else rd32 m (frame_of (pde_of m pd (pdx b)) + 4 * ptx b))"
    if pb: "pde_of m pd (pdx b) AND 1 \<noteq> 0"
  proof -
    have "?t = frame_of (pde_of m pd (pdx b)) \<longleftrightarrow> pdx va = pdx b"
      using wfd(5) [of "pdx b" "pdx va"] pb pres by auto
    then have "?t = frame_of (pde_of m pd (pdx b)) \<and> ptx va = ptx b \<longleftrightarrow> vpn b = vpn va"
      using same_page_iff [of va b] by metis
    moreover have "rd32 m' (frame_of (pde_of m pd (pdx b)) + 4 * ptx b) =
        (if ?t = frame_of (pde_of m pd (pdx b)) \<and> ptx va = ptx b then v
         else rd32 m (frame_of (pde_of m pd (pdx b)) + 4 * ptx b))"
      unfolding m'_def by (rule rd32_wr32_entry) simp_all
    ultimately show ?thesis by simp
  qed
  have pde': "pde_of m' pd (pdx b) = pde_of m pd (pdx b)" using pde by simp
  show "page_walk m' pd b = (if vpn b = vpn va then (if v AND 1 = 0 then None else Some v)
      else page_walk m pd b)"
  proof (cases "pde_of m pd (pdx b) AND 1 = 0")
    case True
    then have "vpn b \<noteq> vpn va" using pres same_page_iff [of b va] by metis
    with True show ?thesis by (simp add: page_walk_def pde')
  next
    case False
    then show ?thesis by (simp add: page_walk_def pde' pte Let_def)
  qed
qed

text \<open>Hooking a cleared fresh frame into an empty slot of the directory maps nothing.\<close>

lemma install_table:
  assumes wf: "pd_wf m pd used" and abs: "pde_of m pd i AND 1 = 0" and i: "unat i < 1024"
    and t: "frame_aligned t" "block_of t \<notin> used"
  defines "m' \<equiv> wr32 (pd + 4 * i) (t OR 7) (\<lambda>a. if in_frame t a then 0 else m a)"
  shows "\<And>j. unat j < 1024 \<Longrightarrow> pde_of m' pd j = (if j = i then t OR 7 else pde_of m pd j)"
    and "pd_wf m' pd (insert (block_of t) used)"
    and "page_walk m' pd b = page_walk m pd b"
proof -
  let ?m = "\<lambda>a. if in_frame t a then 0 else m a"
  note wfd = pd_wfD [OF wf]
  have tpd: "t \<noteq> pd" using wfd(2) t(2) by auto
  have pd_same: "pde_of ?m pd j = pde_of m pd j" if "unat j < 1024" for j
    using wfd(1) that tpd by (intro rd32_entry_cong) (auto dest: in_frame_unique)
  show pde: "pde_of m' pd j = (if j = i then t OR 7 else pde_of m pd j)" if "unat j < 1024" for j
    using that i wfd(1) pd_same by (simp add: m'_def rd32_wr32_entry)
  have t7: "frame_of (t OR 7) = t" "(t OR 7) AND 1 = 1" "(t OR 7) AND 6 = 6"
    using t(1) by (simp_all add: frame_or_flags flag_or_frame)
  have other: "frame_of (pde_of m pd j) \<noteq> t" if "unat j < 1024" "pde_of m pd j AND 1 \<noteq> 0" for j
    using wfd(4) [OF that] t(2) by auto
  show "pd_wf m' pd (insert (block_of t) used)"
  proof -
    have "frame_of (pde_of m' pd j) \<noteq> pd \<and> block_of (frame_of (pde_of m' pd j)) \<in> insert (block_of t) used \<and>
        pde_of m' pd j AND 6 = 6 \<and>
        (\<forall>k. unat k < 1024 \<and> pde_of m' pd k AND 1 \<noteq> 0 \<and>
           frame_of (pde_of m' pd k) = frame_of (pde_of m' pd j) \<longrightarrow> k = j)"
      if "unat j < 1024" "pde_of m' pd j AND 1 \<noteq> 0" for j
    proof (cases "j = i")
      case True
      with tpd t7 i show ?thesis by (simp add: pde) (metis pde other)
    next
      case False
      with that have "pde_of m pd j AND 1 \<noteq> 0" by (simp add: pde)
      with False that t7 other [of j] wfd(3,4,6) [of j] wfd(5) [of j] show ?thesis
        by (auto simp: pde split: if_splits)
    qed
    with wfd(1,2) show ?thesis by (auto simp: pd_wf_def)
  qed
  have zero: "rd32 m' (t + 4 * ptx b) = 0"
  proof -
    have "rd32 ?m (t + 4 * ptx b) = rd32 (\<lambda>_. 0) (t + 4 * ptx b)"
      using t(1) by (intro rd32_entry_cong) auto
    moreover have "rd32 (\<lambda>_. 0) a = 0" for a by (simp add: rd32_def)
    ultimately show ?thesis
      using tpd t(1) wfd(1) i by (simp add: m'_def rd32_wr32_entry)
  qed
  have same: "rd32 m' (frame_of (pde_of m pd (pdx b)) + 4 * ptx b) =
      rd32 m (frame_of (pde_of m pd (pdx b)) + 4 * ptx b)" if "pde_of m pd (pdx b) AND 1 \<noteq> 0"
  proof -
    have "rd32 ?m (frame_of (pde_of m pd (pdx b)) + 4 * ptx b) =
        rd32 m (frame_of (pde_of m pd (pdx b)) + 4 * ptx b)"
      using other [of "pdx b"] that by (intro rd32_entry_cong) (auto dest: in_frame_unique)
    then show ?thesis
      using wfd(3) [of "pdx b"] that wfd(1) i by (simp add: m'_def rd32_wr32_entry)
  qed
  have pb: "pde_of m' pd (pdx b) = (if pdx b = i then t OR 7 else pde_of m pd (pdx b))"
    using pde by simp
  show "page_walk m' pd b = page_walk m pd b"
    using abs pde [OF i] by (cases "pdx b = i") (simp_all add: page_walk_def pb t7 zero same Let_def)
qed

subsection \<open>The invariant of the memory manager\<close>

abbreviation used_blocks :: "'a sys_scheme \<Rightarrow> nat set" where
  "used_blocks s \<equiv> blocks_in_use (pmm_st s)"

abbreviation ram_top :: "'a sys_scheme \<Rightarrow> nat" where
  "ram_top s \<equiv> 4096 * unat (pmm_total_blocks (pmm_st s))"

text \<open>The address space of the active directory.\<close>

abbreviation vm_lookup :: "'a sys_scheme \<Rightarrow> u32 \<Rightarrow> u32 option" where
  "vm_lookup s va \<equiv> page_walk (mem s) (current_page_directory s) va"

definition ram_window :: "'a sys_scheme \<Rightarrow> bool" where
  "ram_window s \<longleftrightarrow> (\<forall>a. unat a < ram_top s \<longrightarrow>
     (\<exists>pte. vm_lookup s a = Some pte \<and> frame_of pte = frame_of a))"

definition tlb_coherent :: "'a sys_scheme \<Rightarrow> bool" where
  "tlb_coherent s \<longleftrightarrow> (\<forall>a pte. tlb s (vpn a) = Some pte \<longrightarrow> vm_lookup s a = Some pte)"

text \<open>
  The allocator is consistent and never hands out block 0; the active directory is well
  formed; and once paging is on, \<^verbatim>\<open>cr3\<close> is the directory \<^verbatim>\<open>vmm.c\<close> works on, all of RAM is mapped
  to itself, and the TLB holds no stale translation.
\<close>

definition vm_ok :: "'a sys_scheme \<Rightarrow> bool" where
  "vm_ok s \<longleftrightarrow> pmm_inv (pmm_st s) \<and> 0 \<in> used_blocks s \<and>
     pd_wf (mem s) (current_page_directory s) (used_blocks s) \<and>
     (paging_on s \<longrightarrow> cr3 s = current_page_directory s \<and> ram_window s \<and> tlb_coherent s)"

lemma vm_okD:
  assumes "vm_ok s"
  shows "pmm_inv (pmm_st s)" "0 \<in> used_blocks s"
    "pd_wf (mem s) (current_page_directory s) (used_blocks s)"
    "frame_aligned (current_page_directory s)"
    "paging_on s \<Longrightarrow> cr3 s = current_page_directory s" "paging_on s \<Longrightarrow> ram_window s"
    "paging_on s \<Longrightarrow> tlb_coherent s"
  using assms by (auto simp: vm_ok_def pd_wf_def)

text \<open>Only these fields matter for the invariant and for the walk.\<close>

lemma vm_ok_cong:
  assumes "mem t = mem s" "cr0 t = cr0 s" "cr3 t = cr3 s" "tlb t = tlb s" "pmm_st t = pmm_st s"
    "current_page_directory t = current_page_directory s"
  shows "vm_ok t = vm_ok s"
  using assms by (simp add: vm_ok_def paging_on_def ram_window_def tlb_coherent_def)

lemma vm_ok_print [simp]: "vm_ok (print f s) = vm_ok s"
  by (rule vm_ok_cong) simp_all

lemma translate_lookup:
  assumes "vm_ok s"
  shows "translate s a = (if paging_on s then map_option (\<lambda>pte. frame_of pte OR (a AND 0xFFF)) (vm_lookup s a)
     else Some a)"
  using vm_okD(4,5) [OF assms] by (auto simp: translate_def frame_of_aligned)

lemma window_translate:
  assumes "vm_ok s" "unat a < ram_top s"
  shows "translate s a = Some a"
proof (cases "paging_on s")
  case True
  then obtain pte where "vm_lookup s a = Some pte" "frame_of pte = frame_of a"
    using assms(2) vm_okD(6) [OF assms(1)] by (auto simp: ram_window_def)
  then show ?thesis
    by (simp add: translate_lookup [OF assms(1)] frame_or_off)
qed (simp add: translate_lookup [OF assms(1)])

lemma used_in_ram:
  assumes "frame_aligned f" "block_of f \<in> used_blocks s"
  shows "unat f + 4096 \<le> ram_top s"
proof -
  have "block_of f < unat (pmm_total_blocks (pmm_st s))"
    using assms(2) blocks_in_use_subset [of "pmm_st s"] by (auto simp: all_blocks_def)
  then show ?thesis
    using frame_alignedD [OF assms(1)] by linarith
qed

text \<open>
  Access to a table entry, and to the bytes of a frame that no walk reads, is one to one.
\<close>

lemma entry_translate:
  assumes "vm_ok s" "frame_aligned f" "block_of f \<in> used_blocks s" "unat i < 1024"
  shows "translate s (f + 4 * i) = Some (f + 4 * i)"
  using assms used_in_ram [OF assms(2,3)]
  by (intro window_translate) (simp_all add: unat_entry_addr)

lemma ident_under_frame:
  assumes "vm_ok s" "frame_aligned g" "unat g + 4096 \<le> ram_top s"
    "\<not> walk_frame (mem s) (current_page_directory s) f"
  shows "ident_under s f g"
  unfolding ident_under_def
proof (intro allI impI)
  fix m and k :: nat
  assume m: "\<forall>a. \<not> in_frame f a \<longrightarrow> m a = mem s a" and k: "k < 4096"
  have "m a = mem s a" if "walk_frame (mem s) (current_page_directory s) h" "in_frame h a" for h a
    using m that assms(4) by (metis in_frame_unique)
  then have "page_walk m (current_page_directory s) va = vm_lookup s va" for va
    by (intro page_walk_same) (simp_all add: vm_okD(4) [OF assms(1)])
  then have "translate (s\<lparr>mem := m\<rparr>) a = translate s a" for a
    using vm_okD(4,5) [OF assms(1)] by (simp add: translate_def frame_of_aligned)
  then show "translate (s\<lparr>mem := m\<rparr>) (g + of_nat k) = Some (g + of_nat k)"
    using assms k by (simp add: window_translate unat_frame_byte)
qed

subsection \<open>Mapping a page\<close>

definition has_table :: "'a sys_scheme \<Rightarrow> u32 \<Rightarrow> bool" where
  "has_table s i \<longleftrightarrow> pde_of (mem s) (current_page_directory s) i AND 1 \<noteq> 0"

definition store_pte :: "u32 \<Rightarrow> u32 \<Rightarrow> 'a sys_scheme \<Rightarrow> 'a sys_scheme" where
  "store_pte va v s = s\<lparr>mem := wr32 (frame_of (pde_of (mem s) (current_page_directory s) (pdx va)) + 4 * ptx va) v (mem s)\<rparr>"

definition add_table :: "u32 \<Rightarrow> u32 \<Rightarrow> pmm \<Rightarrow> 'a sys_scheme \<Rightarrow> 'a sys_scheme" where
  "add_table i t q s = s\<lparr>pmm_st := q, mem := wr32 (current_page_directory s + 4 * i) (t OR 7)
     (\<lambda>a. if in_frame t a then 0 else mem s a)\<rparr>"

lemma pt_translate:
  assumes "vm_ok s" "has_table s (pdx va)"
  shows "translate s (frame_of (pde_of (mem s) (current_page_directory s) (pdx va)) + 4 * ptx va) =
    Some (frame_of (pde_of (mem s) (current_page_directory s) (pdx va)) + 4 * ptx va)"
  using assms pd_wfD(4) [OF vm_okD(3) [OF assms(1)], of "pdx va"]
  by (intro entry_translate) (auto simp: has_table_def)

lemma pd_translate:
  "vm_ok s \<Longrightarrow> unat i < 1024 \<Longrightarrow>
   translate s (current_page_directory s + 4 * i) = Some (current_page_directory s + 4 * i)"
  using vm_okD(3,4) [of s] by (intro entry_translate) (auto simp: pd_wf_def)

lemma map_present:
  assumes "vm_ok s" "has_table s (pdx va)"
  shows "vmm_map_page phys va fl s = Ret () (invlpg va (store_pte va (phys OR fl) s))"
  using assms access_ident(2) [OF pd_translate [OF assms(1), of "pdx va"]]
    access_ident(4) [OF pt_translate [OF assms]]
  by (simp add: vmm_map_page_def get_page_table_def has_table_def store_pte_def)

lemma map_no_memory:
  assumes "vm_ok s" "\<not> has_table s (pdx va)" "used_blocks s = all_blocks (pmm_st s)"
  shows "vmm_map_page phys va fl s = Hang
    (print (puts ''[VMM] Critical: Out of physical memory for page table allocation!\<newline>'') s)"
proof -
  have "pmm_alloc_block (pmm_st s) = (0, pmm_st s)"
    using assms(1,3) by (intro alloc_block_full) (simp_all add: vm_ok_def)
  then show ?thesis
    using assms access_ident(2) [OF pd_translate [OF assms(1), of "pdx va"]]
    by (simp add: vmm_map_page_def get_page_table_def has_table_def alloc_block_def)
qed

text \<open>A frame just handed out is a stranger to every walk, and lies inside RAM.\<close>

lemma fresh_frame:
  assumes "vm_ok s" "pmm_alloc_block (pmm_st s) = (t, q)" "t \<noteq> 0"
  shows "frame_aligned t" "block_of t \<notin> used_blocks s" "unat t + 4096 \<le> ram_top s"
    "blocks_in_use q = insert (block_of t) (used_blocks s)" "pmm_inv q"
    "pmm_total_blocks q = pmm_total_blocks (pmm_st s)"
    "\<not> walk_frame (mem s) (current_page_directory s) t"
  using fa.alloc_fresh [OF vm_okD(1,2) [OF assms(1)] assms(2,3)]
    walk_frame_used [OF vm_okD(3) [OF assms(1)], of t]
  by (auto simp: fa.frame_no_def word_unat_eq_iff)

text \<open>Handing out a frame keeps the invariant.\<close>

lemma vm_ok_alloc:
  assumes ok: "vm_ok s" and al: "pmm_alloc_block (pmm_st s) = (t, q)" "t \<noteq> 0"
    and same: "mem u = mem s" "cr0 u = cr0 s" "cr3 u = cr3 s" "tlb u = tlb s" "pmm_st u = q"
      "current_page_directory u = current_page_directory s"
  shows "vm_ok u"
  using ok fresh_frame(4,5,6) [OF ok al]
    pd_wf_mono [OF vm_okD(3) [OF ok], of "insert (block_of t) (used_blocks s)"]
  by (auto simp: vm_ok_def ram_window_def tlb_coherent_def paging_on_def same)

text \<open>So does handing back a frame that is neither block 0 nor part of the page tables.\<close>

lemma vm_ok_free:
  assumes ok: "vm_ok s" and f: "frame_aligned f" "f \<noteq> 0" "\<not> walk_frame (mem s) (current_page_directory s) f"
  shows "vm_ok (free_block f s)" "used_blocks (free_block f s) = used_blocks s - {block_of f}"
    "pmm_total_blocks (pmm_st (free_block f s)) = pmm_total_blocks (pmm_st s)"
proof -
  note inv = vm_okD(1) [OF ok]
  show u: "used_blocks (free_block f s) = used_blocks s - {block_of f}"
    using fa.free_owned [OF inv, of f] by (simp add: free_block_def)
  show tot: "pmm_total_blocks (pmm_st (free_block f s)) = pmm_total_blocks (pmm_st s)"
    using fa.free_ok [OF inv, of f] by (simp add: free_block_def word_unat_eq_iff)
  have fr: "f = g" if "frame_aligned g" "block_of g = block_of f" for g
    using frame_alignedD [OF f(1)] frame_alignedD [OF that(1)] that(2) by (simp add: word_unat_eq_iff)
  have wf: "pd_wf (mem s) (current_page_directory s) (used_blocks s)" by (rule vm_okD(3) [OF ok])
  have "g \<noteq> f" if "walk_frame (mem s) (current_page_directory s) g" for g using that f(3) by blast
  then have "pd_wf (mem s) (current_page_directory s) (used_blocks s - {block_of f})"
    using wf fr f(3) by (auto simp: pd_wf_def walk_frame_def)
  moreover have "block_of f \<noteq> 0" using f(2) frame_alignedD [OF f(1)] by (auto simp: word_unat_eq_iff)
  moreover have "pmm_inv (pmm_st (free_block f s))" using fa.free_ok [OF inv, of f] by (simp add: free_block_def)
  moreover have "mem (free_block f s) = mem s" "cr3 (free_block f s) = cr3 s" "tlb (free_block f s) = tlb s"
    "current_page_directory (free_block f s) = current_page_directory s" "paging_on (free_block f s) = paging_on s"
    by (simp_all add: free_block_def)
  ultimately show "vm_ok (free_block f s)"
    using ok unfolding vm_ok_def ram_window_def tlb_coherent_def u tot by simp
qed

lemma vpn_iff_frame: "vpn a = vpn b \<longleftrightarrow> frame_of a = frame_of b"
  by (simp add: word_unat_eq_iff unat_frame unat_drop_bit_u32)

lemma frame_same_page: "vpn (frame_of a) = vpn a" "pdx (frame_of a) = pdx a"
  using same_page_iff [of "frame_of a" a] vpn_iff_frame [of "frame_of a" a] by (simp_all add: and.assoc)

lemma add_table_spec:
  assumes ok: "vm_ok s" and abs: "\<not> has_table s i" and i: "unat i < 1024"
    and al: "pmm_alloc_block (pmm_st s) = (t, q)" "t \<noteq> 0"
  shows "vm_ok (add_table i t q s)"
    "\<And>b. vm_lookup (add_table i t q s) b = vm_lookup s b"
    "\<And>j. unat j < 1024 \<Longrightarrow> has_table (add_table i t q s) j \<longleftrightarrow> j = i \<or> has_table s j"
    "pde_of (mem (add_table i t q s)) (current_page_directory s) i = t OR 7"
proof -
  note fr = fresh_frame [OF ok al]
  note it = install_table [OF vm_okD(3) [OF ok] abs [unfolded has_table_def not_not] i fr(1,2)]
  let ?s = "add_table i t q s"
  have f: "mem ?s = wr32 (current_page_directory s + 4 * i) (t OR 7) (\<lambda>a. if in_frame t a then 0 else mem s a)"
    "current_page_directory ?s = current_page_directory s" "pmm_st ?s = q" "paging_on ?s = paging_on s"
    "cr3 ?s = cr3 s" "tlb ?s = tlb s"
    by (simp_all add: add_table_def paging_on_def)
  show look: "vm_lookup ?s b = vm_lookup s b" for b
    by (simp only: f it(3))
  have "ram_window ?s = ram_window s" "tlb_coherent ?s = tlb_coherent s"
    unfolding ram_window_def tlb_coherent_def look by (simp_all add: f fr(6))
  then show "vm_ok ?s"
    using ok it(2) fr(4,5) by (auto simp: vm_ok_def f)
  have "(t OR 7) AND 1 = 1" using fr(1) by (simp add: flag_or_frame)
  then show "has_table ?s j \<longleftrightarrow> j = i \<or> has_table s j" if "unat j < 1024" for j
    using it(1) [OF that] by (auto simp: has_table_def f)
  show "pde_of (mem ?s) (current_page_directory s) i = t OR 7"
    using it(1) [OF i] by (simp add: f)
qed

lemma get_page_table_absent:
  assumes ok: "vm_ok s" and abs: "\<not> has_table s i" and i: "unat i < 1024"
    and al: "pmm_alloc_block (pmm_st s) = (t, q)" "t \<noteq> 0"
  shows "get_page_table i (pde_of (mem s) (current_page_directory s) i) s = Ret t (add_table i t q s)"
proof -
  note fr = fresh_frame [OF ok al]
  let ?s = "s\<lparr>pmm_st := q\<rparr>" and ?m = "\<lambda>a. if in_frame t a then 0 else mem s a"
  have ok': "vm_ok ?s"
    by (rule vm_ok_alloc [OF ok al]) simp_all
  have "ident_under ?s t t"
    using ok' fr by (intro ident_under_frame) auto
  then have ms: "memset t 0 4096 ?s = Ret t (?s\<lparr>mem := ?m\<rparr>)"
    using memset_frame [OF fr(1), of ?s 0] by (simp cong: if_cong)
  have "\<not> in_frame t a" if "walk_frame (mem s) (current_page_directory s) f" "in_frame f a" for a f
    using fr(7) that in_frame_unique by metis
  then have "page_walk ?m (current_page_directory s) va = vm_lookup s va" for va
    by (intro page_walk_same) (auto simp: vm_okD(4) [OF ok])
  then have "translate (?s\<lparr>mem := ?m\<rparr>) (current_page_directory s + 4 * i) = translate s (current_page_directory s + 4 * i)"
    using vm_okD(4,5) [OF ok] by (simp add: translate_def frame_of_aligned paging_on_def)
  then have "translate (?s\<lparr>mem := ?m\<rparr>) (current_page_directory s + 4 * i) = Some (current_page_directory s + 4 * i)"
    using pd_translate [OF ok i] by simp
  from access_ident(4) [OF this]
  have "store32 (current_page_directory s + 4 * i) v (?s\<lparr>mem := ?m\<rparr>) =
      Ret () (?s\<lparr>mem := wr32 (current_page_directory s + 4 * i) v ?m\<rparr>)" for v
    by simp
  with abs al ms show ?thesis
    by (simp add: get_page_table_def has_table_def alloc_block_def add_table_def or.assoc)
qed

text \<open>
  \<open>extends s t\<close>: from \<open>s\<close> to \<open>t\<close> only page tables, the TLB and the allocator changed, blocks
  were only added, and no frame that was in use for anything else was written or turned
  into a table.
\<close>

definition extends :: "'a sys_scheme \<Rightarrow> 'a sys_scheme \<Rightarrow> bool" where
  "extends s t \<longleftrightarrow> t = s\<lparr>mem := mem t, tlb := tlb t, pmm_st := pmm_st t\<rparr> \<and>
     used_blocks s \<subseteq> used_blocks t \<and> pmm_total_blocks (pmm_st t) = pmm_total_blocks (pmm_st s) \<and>
     (\<forall>f. block_of f \<in> used_blocks s \<and> \<not> walk_frame (mem s) (current_page_directory s) f \<longrightarrow>
        \<not> walk_frame (mem t) (current_page_directory s) f \<and> (\<forall>a. in_frame f a \<longrightarrow> mem t a = mem s a))"

lemma extends_fields:
  assumes "extends s t"
  shows "cr0 t = cr0 s" "cr2 t = cr2 s" "cr3 t = cr3 s" "iflag t = iflag s" "console t = console s"
    "gdt_st t = gdt_st s" "idt_st t = idt_st s" "ports t = ports s"
    "current_page_directory t = current_page_directory s" "sys.more t = sys.more s"
    "paging_on t = paging_on s" "ram_top t = ram_top s" "used_blocks s \<subseteq> used_blocks t"
proof -
  obtain m l p where "t = s\<lparr>mem := m, tlb := l, pmm_st := p\<rparr>"
    using assms by (auto simp: extends_def)
  then show "cr0 t = cr0 s" "cr2 t = cr2 s" "cr3 t = cr3 s" "iflag t = iflag s" "console t = console s"
    "gdt_st t = gdt_st s" "idt_st t = idt_st s" "ports t = ports s"
    "current_page_directory t = current_page_directory s" "sys.more t = sys.more s"
    "paging_on t = paging_on s"
    by (simp_all add: paging_on_def)
  show "ram_top t = ram_top s" "used_blocks s \<subseteq> used_blocks t"
    using assms by (simp_all add: extends_def)
qed

lemma extends_frame:
  "extends s t \<Longrightarrow> block_of f \<in> used_blocks s \<Longrightarrow> \<not> walk_frame (mem s) (current_page_directory s) f \<Longrightarrow>
   in_frame f a \<Longrightarrow> mem t a = mem s a"
  by (auto simp: extends_def)

lemma extends_refl [simp]: "extends s s"
  by (simp add: extends_def)

lemma extends_trans:
  assumes "extends s t" "extends t u"
  shows "extends s u"
proof -
  obtain m l p where t: "t = s\<lparr>mem := m, tlb := l, pmm_st := p\<rparr>"
    using assms(1) by (auto simp: extends_def)
  have "u = t\<lparr>mem := mem u, tlb := tlb u, pmm_st := pmm_st u\<rparr>"
    using assms(2) by (simp add: extends_def)
  then have "u = s\<lparr>mem := mem u, tlb := tlb u, pmm_st := pmm_st u\<rparr>"
    by (simp add: t)
  moreover have "current_page_directory t = current_page_directory s" by (simp add: t)
  ultimately show ?thesis
    using assms unfolding extends_def by (metis subset_eq)
qed

definition window_safe :: "u32 \<Rightarrow> u32 \<Rightarrow> 'a sys_scheme \<Rightarrow> bool" where
  "window_safe va v s \<longleftrightarrow> (paging_on s \<longrightarrow>
     ram_top s \<le> unat (frame_of va) \<or> (v AND 1 \<noteq> 0 \<and> frame_of v = frame_of va))"

lemma store_pte_spec:
  assumes ok: "vm_ok s" and tab: "has_table s (pdx va)" and win: "window_safe va v s"
  defines "t \<equiv> invlpg va (store_pte va v s)"
  shows "vm_ok t"
    "\<And>b. vm_lookup t b = (if vpn b = vpn va then (if v AND 1 = 0 then None else Some v) else vm_lookup s b)"
    "\<And>j. unat j < 1024 \<Longrightarrow> has_table t j = has_table s j"
    "extends s t" "pmm_st t = pmm_st s"
proof -
  let ?pd = "current_page_directory s" and ?pt = "frame_of (pde_of (mem s) (current_page_directory s) (pdx va))"
  note w = write_pte [OF vm_okD(3) [OF ok] tab [unfolded has_table_def], where v = v]
  have f: "mem t = wr32 (?pt + 4 * ptx va) v (mem s)" "current_page_directory t = ?pd"
    "pmm_st t = pmm_st s" "paging_on t = paging_on s" "cr3 t = cr3 s" "tlb t = (tlb s)(vpn va := None)"
    by (simp_all add: t_def store_pte_def invlpg_def paging_on_def)
  show look: "vm_lookup t b = (if vpn b = vpn va then (if v AND 1 = 0 then None else Some v) else vm_lookup s b)" for b
    unfolding f using w(3) by simp
  show pde: "has_table t j = has_table s j" if "unat j < 1024" for j
    using w(1) [OF that] by (simp add: has_table_def f)
  show "pmm_st t = pmm_st s" by (rule f)
  have "ram_window t" if pg: "paging_on s"
    unfolding ram_window_def
  proof (intro allI impI)
    fix a :: u32
    assume a: "unat a < ram_top t"
    show "\<exists>pte. vm_lookup t a = Some pte \<and> frame_of pte = frame_of a"
    proof (cases "vpn a = vpn va")
      case True
      then have "frame_of a = frame_of va" by (simp add: vpn_iff_frame)
      moreover have "unat (frame_of a) \<le> unat a" by (simp add: unat_frame)
      ultimately have "v AND 1 \<noteq> 0 \<and> frame_of v = frame_of a"
        using win pg a by (auto simp: window_safe_def f)
      with True show ?thesis by (simp add: look)
    next
      case False
      with a show ?thesis
        using vm_okD(6) [OF ok pg] by (simp add: look ram_window_def f(3))
    qed
  qed
  moreover have "tlb_coherent t" if "paging_on s"
    using vm_okD(7) [OF ok that] unfolding tlb_coherent_def look by (auto simp: f(6))
  ultimately show "vm_ok t"
    using ok w(2) by (auto simp: vm_ok_def f)
  have wf: "walk_frame (mem t) ?pd h = walk_frame (mem s) ?pd h" for h
    using w(1) by (auto simp: walk_frame_def f)
  have "mem t a = mem s a" if "\<not> walk_frame (mem s) ?pd h" "in_frame h a" for h a
  proof -
    have "walk_frame (mem s) ?pd ?pt"
      using tab by (auto simp: walk_frame_def has_table_def intro!: exI [of _ "pdx va"])
    then have "\<not> in_frame ?pt a" using that in_frame_unique by metis
    then show ?thesis unfolding f by (intro wr32_entry_outside) simp_all
  qed
  moreover have "t = s\<lparr>mem := mem t, tlb := tlb t, pmm_st := pmm_st t\<rparr>"
    by (simp add: t_def store_pte_def invlpg_def)
  ultimately show "extends s t"
    by (auto simp: extends_def wf f(3))
qed

lemma add_table_extends:
  assumes ok: "vm_ok s" and abs: "\<not> has_table s i" and i: "unat i < 1024"
    and al: "pmm_alloc_block (pmm_st s) = (t, q)" "t \<noteq> 0"
  shows "extends s (add_table i t q s)"
proof -
  let ?s = "add_table i t q s" and ?pd = "current_page_directory s"
  note fr = fresh_frame [OF ok al]
  note it = install_table(1) [OF vm_okD(3) [OF ok] abs [unfolded has_table_def not_not] i fr(1,2)]
  have m: "mem ?s = wr32 (?pd + 4 * i) (t OR 7) (\<lambda>a. if in_frame t a then 0 else mem s a)"
    by (simp add: add_table_def)
  have t7: "frame_of (t OR 7) = t" using fr(1) by (simp add: frame_or_flags)
  have "\<not> walk_frame (mem ?s) ?pd f \<and> (\<forall>a. in_frame f a \<longrightarrow> mem ?s a = mem s a)"
    if f: "block_of f \<in> used_blocks s" "\<not> walk_frame (mem s) ?pd f" for f
  proof
    have ft: "f \<noteq> t" using f(1) fr(2) by auto
    with f(2) show "\<not> walk_frame (mem ?s) ?pd f"
      using it t7 by (auto simp: walk_frame_def m split: if_splits)
    have "f \<noteq> ?pd" using f(2) by (auto simp: walk_frame_def)
    then have "\<not> in_frame ?pd a" "\<not> in_frame t a" if "in_frame f a" for a
      using that ft in_frame_unique by metis+
    then show "\<forall>a. in_frame f a \<longrightarrow> mem ?s a = mem s a"
      using vm_okD(4) [OF ok] i by (simp add: m wr32_entry_outside)
  qed
  then show ?thesis
    using fr(4,6) by (auto simp: extends_def add_table_def)
qed

text \<open>
  \<open>vmm_map_page\<close>: with a table or a free block it returns, maps exactly that page, and keeps
  the invariant; a table is allocated only when there was none.
\<close>

lemma map_page_spec:
  assumes ok: "vm_ok s" and win: "window_safe va (phys OR fl) s"
    and room: "has_table s (pdx va) \<or> used_blocks s \<noteq> all_blocks (pmm_st s)"
  obtains t where "vmm_map_page phys va fl s = Ret () t" "vm_ok t" "extends s t"
    "\<And>b. vm_lookup t b = (if vpn b = vpn va then
       (if (phys OR fl) AND 1 = 0 then None else Some (phys OR fl)) else vm_lookup s b)"
    "\<And>j. unat j < 1024 \<Longrightarrow> has_table t j \<longleftrightarrow> j = pdx va \<or> has_table s j"
    "card (used_blocks t) = card (used_blocks s) + (if has_table s (pdx va) then 0 else 1)"
proof (cases "has_table s (pdx va)")
  case True
  note sp = store_pte_spec [OF ok True win]
  show thesis
    using True sp by (intro that [OF map_present [OF ok True]]) auto
next
  case False
  obtain t q where al: "pmm_alloc_block (pmm_st s) = (t, q)" by (metis surj_pair)
  have "used_blocks s \<noteq> {..<unat (pmm_total_blocks (pmm_st s))}"
    using room False by (simp add: all_blocks_def)
  then have t: "t \<noteq> 0"
    using fa.alloc_null_iff [OF vm_okD(1,2) [OF ok]] al by simp
  let ?s = "add_table (pdx va) t q s"
  note ad = add_table_spec [OF ok False _ al t, simplified] and ex = add_table_extends [OF ok False _ al t, simplified]
  note fr = fresh_frame [OF ok al t]
  have tab: "has_table ?s (pdx va)" using ad(3) by simp
  have win': "window_safe va (phys OR fl) ?s"
    using win by (simp add: window_safe_def extends_fields [OF ex])
  note sp = store_pte_spec [OF ad(1) tab win']
  let ?u = "invlpg va (store_pte va (phys OR fl) ?s)"
  have cpd: "current_page_directory ?s = current_page_directory s" by (simp add: add_table_def)
  have t7: "frame_of (t OR 7) = t" using fr(1) by (simp add: frame_or_flags)
  have "vmm_map_page phys va fl s = Ret () ?u"
    using access_ident(2) [OF pd_translate [OF ok, of "pdx va"]]
      get_page_table_absent [OF ok False _ al t]
      access_ident(4) [OF pt_translate [OF ad(1) tab], unfolded cpd ad(4) t7]
    by (simp add: vmm_map_page_def store_pte_def cpd ad(4) t7 Let_def)
  moreover have "card (used_blocks ?u) = card (used_blocks s) + 1"
    using fr(2,4) by (simp add: sp(5)) (simp add: add_table_def)
  ultimately show thesis
    using False sp(1,3) extends_trans [OF ex sp(4)] ad(3)
    by (intro that [of ?u]) (auto simp: sp(2) ad(2))
qed

text \<open>\<open>vmm_unmap_page\<close> always returns and removes exactly that page.\<close>

lemma unmap_page_spec:
  assumes ok: "vm_ok s" and win: "paging_on s \<Longrightarrow> ram_top s \<le> unat (frame_of va)"
  obtains t where "vmm_unmap_page va s = Ret () t" "vm_ok t" "extends s t"
    "\<And>b. vm_lookup t b = (if vpn b = vpn va then None else vm_lookup s b)"
    "\<And>j. unat j < 1024 \<Longrightarrow> has_table t j = has_table s j" "pmm_st t = pmm_st s"
proof (cases "has_table s (pdx va)")
  case True
  have win': "window_safe va 0 s" using win by (simp add: window_safe_def)
  note sp = store_pte_spec [OF ok True win']
  have "vmm_unmap_page va s = Ret () (invlpg va (store_pte va 0 s))"
    using True access_ident(2) [OF pd_translate [OF ok, of "pdx va"]] access_ident(4) [OF pt_translate [OF ok True]]
    by (simp add: vmm_unmap_page_def has_table_def store_pte_def)
  then show thesis
    using sp by (intro that [of "invlpg va (store_pte va 0 s)"]) auto
next
  case False
  then have "vmm_unmap_page va s = Ret () s"
    using access_ident(2) [OF pd_translate [OF ok, of "pdx va"]]
    by (simp add: vmm_unmap_page_def has_table_def)
  moreover have "vm_lookup s b = None" if "vpn b = vpn va" for b
  proof -
    have "pdx b = pdx va" using that same_page_iff [of b va] by blast
    then show ?thesis using False by (simp add: page_walk_def has_table_def)
  qed
  ultimately show thesis
    using ok by (intro that) auto
qed

subsection \<open>Writing data\<close>

text \<open>Writes into a frame that no walk reads leave the address space and the invariant alone.\<close>

lemma data_write:
  assumes ok: "vm_ok s" and f: "\<not> walk_frame (mem s) (current_page_directory s) f"
    and m: "\<And>a. \<not> in_frame f a \<Longrightarrow> m a = mem s a"
  shows "vm_lookup (s\<lparr>mem := m\<rparr>) b = vm_lookup s b"
    "walk_frame m (current_page_directory s) g = walk_frame (mem s) (current_page_directory s) g"
    "vm_ok (s\<lparr>mem := m\<rparr>)"
proof -
  let ?pd = "current_page_directory s"
  have same: "m a = mem s a" if "walk_frame (mem s) ?pd h" "in_frame h a" for h a
    using that m f by (metis in_frame_unique)
  have al: "frame_aligned ?pd" by (rule vm_okD(4) [OF ok])
  have pde: "pde_of m ?pd i = pde_of (mem s) ?pd i" if "unat i < 1024" for i
    using al that same [of ?pd] by (intro rd32_entry_cong) (auto simp: walk_frame_def)
  have look: "page_walk m ?pd b = vm_lookup s b" for b
    using al same by (rule page_walk_same)
  then show "vm_lookup (s\<lparr>mem := m\<rparr>) b = vm_lookup s b" by simp
  show "walk_frame m ?pd g = walk_frame (mem s) ?pd g"
    using pde by (auto simp: walk_frame_def)
  have "pd_wf m ?pd (used_blocks s)"
    using vm_okD(3) [OF ok] pde by (rule pd_wf_cong)
  then show "vm_ok (s\<lparr>mem := m\<rparr>)"
    using ok look by (simp add: vm_ok_def ram_window_def tlb_coherent_def)
qed

lemma frame_store32:
  assumes ok: "vm_ok s" and f: "frame_aligned f" "unat f + 4096 \<le> ram_top s"
    "\<not> walk_frame (mem s) (current_page_directory s) f" and i: "unat i < 1024"
  shows "store32 (f + 4 * i) v s = Ret () (s\<lparr>mem := wr32 (f + 4 * i) v (mem s)\<rparr>)"
    "vm_ok (s\<lparr>mem := wr32 (f + 4 * i) v (mem s)\<rparr>)"
    "\<not> walk_frame (wr32 (f + 4 * i) v (mem s)) (current_page_directory s) f"
proof -
  have "translate s (f + 4 * i) = Some (f + 4 * i)"
    using f i by (intro window_translate [OF ok]) (simp add: unat_entry_addr)
  then show "store32 (f + 4 * i) v s = Ret () (s\<lparr>mem := wr32 (f + 4 * i) v (mem s)\<rparr>)"
    by (simp add: access_ident)
  have out: "wr32 (f + 4 * i) v (mem s) a = mem s a" if "\<not> in_frame f a" for a
    using f(1) i that by (rule wr32_entry_outside)
  show "vm_ok (s\<lparr>mem := wr32 (f + 4 * i) v (mem s)\<rparr>)"
    using data_write(3) [OF ok f(3)] out by blast
  show "\<not> walk_frame (wr32 (f + 4 * i) v (mem s)) (current_page_directory s) f"
    using data_write(2) [OF ok f(3), of "wr32 (f + 4 * i) v (mem s)" f] out f(3) by blast
qed

subsection \<open>The interface of the address space\<close>

text \<open>
  What the users of paging rely on: mapping a page for which there is room returns and
  changes the look-up of that page only, unmapping removes that page only, and both keep
  the kernel consistent as long as the entry is safe for the RAM window.
\<close>

locale address_space =
  fixes map_page :: "u32 \<Rightarrow> u32 \<Rightarrow> u32 \<Rightarrow> 's \<Rightarrow> (unit, 's) outcome"
    and unmap_page :: "u32 \<Rightarrow> 's \<Rightarrow> (unit, 's) outcome"
    and lookup :: "'s \<Rightarrow> u32 \<Rightarrow> u32 option" and ok :: "'s \<Rightarrow> bool"
    and keeps :: "'s \<Rightarrow> 's \<Rightarrow> bool" and safe :: "u32 \<Rightarrow> u32 \<Rightarrow> 's \<Rightarrow> bool" and room :: "'s \<Rightarrow> u32 \<Rightarrow> bool"
  assumes map_law: "ok s \<Longrightarrow> safe va (phys OR fl) s \<Longrightarrow> room s va \<Longrightarrow>
      \<exists>t. map_page phys va fl s = Ret () t \<and> ok t \<and> keeps s t \<and>
        (\<forall>b. lookup t b = (if vpn b = vpn va then
           (if (phys OR fl) AND 1 = 0 then None else Some (phys OR fl)) else lookup s b))"
    and unmap_law: "ok s \<Longrightarrow> safe va 0 s \<Longrightarrow>
      \<exists>t. unmap_page va s = Ret () t \<and> ok t \<and> keeps s t \<and>
        (\<forall>b. lookup t b = (if vpn b = vpn va then None else lookup s b))"
    and no_room: "ok s \<Longrightarrow> \<not> room s va \<Longrightarrow> \<not> returns (map_page phys va fl s)"
    and keeps_trans: "keeps s t \<Longrightarrow> keeps t u \<Longrightarrow> keeps s u"
    and safe_keeps: "keeps s t \<Longrightarrow> safe va v s \<Longrightarrow> safe va v t"
begin

lemma map_returns_iff:
  "ok s \<Longrightarrow> safe va (phys OR fl) s \<Longrightarrow> returns (map_page phys va fl s) \<longleftrightarrow> room s va"
  using map_law [of s va phys fl] no_room [of s va phys fl] by auto

lemma map_unmap:
  assumes "ok s" "safe va (phys OR fl) s" "safe va 0 s" "room s va"
  shows "\<exists>t. obind (map_page phys va fl s) (\<lambda>_. unmap_page va) = Ret () t \<and> ok t \<and> keeps s t \<and>
    (\<forall>b. lookup t b = (if vpn b = vpn va then None else lookup s b))"
proof -
  obtain t where t: "map_page phys va fl s = Ret () t" "ok t" "keeps s t"
    "\<And>b. vpn b \<noteq> vpn va \<Longrightarrow> lookup t b = lookup s b"
    using map_law [OF assms(1,2,4)] by auto
  moreover obtain u where "unmap_page va t = Ret () u" "ok u" "keeps t u"
    "\<And>b. lookup u b = (if vpn b = vpn va then None else lookup t b)"
    using unmap_law [OF t(2) safe_keeps [OF t(3) assms(3)]] by auto
  ultimately show ?thesis
    using keeps_trans by (intro exI [of _ u]) auto
qed

end

definition has_room :: "'a sys_scheme \<Rightarrow> u32 \<Rightarrow> bool" where
  "has_room s va \<longleftrightarrow> has_table s (pdx va) \<or> used_blocks s \<noteq> all_blocks (pmm_st s)"

interpretation vm: address_space vmm_map_page vmm_unmap_page vm_lookup vm_ok extends window_safe has_room
proof
  fix s t u :: "'a sys_scheme" and va phys fl v :: u32
  show "vm_ok s \<Longrightarrow> window_safe va (phys OR fl) s \<Longrightarrow> has_room s va \<Longrightarrow>
      \<exists>t. vmm_map_page phys va fl s = Ret () t \<and> vm_ok t \<and> extends s t \<and>
        (\<forall>b. vm_lookup t b = (if vpn b = vpn va then
           (if (phys OR fl) AND 1 = 0 then None else Some (phys OR fl)) else vm_lookup s b))"
    using map_page_spec [of s va phys fl] unfolding has_room_def by metis
  show "vm_ok s \<Longrightarrow> window_safe va 0 s \<Longrightarrow>
      \<exists>t. vmm_unmap_page va s = Ret () t \<and> vm_ok t \<and> extends s t \<and>
        (\<forall>b. vm_lookup t b = (if vpn b = vpn va then None else vm_lookup s b))"
    using unmap_page_spec [of s va] by (metis and_zero_eq window_safe_def zero_and_eq)
  show "vm_ok s \<Longrightarrow> \<not> has_room s va \<Longrightarrow> \<not> returns (vmm_map_page phys va fl s)"
    using map_no_memory [of s va phys fl] by (simp add: has_room_def)
  show "extends s t \<Longrightarrow> extends t u \<Longrightarrow> extends s u" by (rule extends_trans)
  show "extends s t \<Longrightarrow> window_safe va v s \<Longrightarrow> window_safe va v t"
    using extends_fields [of s t] by (simp add: window_safe_def)
qed

subsection \<open>Paging is switched on with the identity map\<close>

lemma block_iff: "(n::nat) div 4096 = i \<longleftrightarrow> 4096 * i \<le> n \<and> n < 4096 * i + 4096"
  using div_nat_eqI [of 4096 i n] times_div_less_eq_dividend [of 4096 n]
    dividend_less_times_div [of 4096 n] by auto

lemma vpn_block: "i < 2 ^ 20 \<Longrightarrow> vpn b = vpn (of_nat i * 4096) \<longleftrightarrow> block_of b = i"
  by (simp add: word_unat_eq_iff unat_drop_bit_u32 unat_block_addr unat_of_nat)

lemma pdx_block: "i < 2 ^ 20 \<Longrightarrow> unat (pdx (of_nat i * 4096)) = i div 1024"
  by (simp add: unat_drop_bit_u32 unat_block_addr unat_of_nat div_mult2_eq [of _ 4096 1024, simplified])

lemma frame_block: "i < 2 ^ 20 \<Longrightarrow> block_of b = i \<Longrightarrow> of_nat i * 4096 = frame_of b"
  by (simp add: word_unat_eq_iff unat_frame unat_block_addr unat_of_nat)

definition identity_upto :: "nat \<Rightarrow> 'a sys_scheme \<Rightarrow> bool" where
  "identity_upto n s \<longleftrightarrow> (\<forall>a. vm_lookup s a = (if unat a < 4096 * n then Some (frame_of a OR 7) else None))"

text \<open>The state after \<open>i\<close> iterations of the mapping loop.\<close>

definition mapped_upto :: "'a sys_scheme \<Rightarrow> nat \<Rightarrow> 'a sys_scheme \<Rightarrow> bool" where
  "mapped_upto s i t \<longleftrightarrow> vm_ok t \<and> extends s t \<and> identity_upto i t \<and>
     (\<forall>j. unat j < 1024 \<longrightarrow> has_table t j = (unat j < (i + 1023) div 1024)) \<and>
     card (used_blocks t) = card (used_blocks s) + (i + 1023) div 1024"

lemma mapped_upto_step:
  assumes "mapped_upto s i t" "\<not> paging_on s" "i < unat (pmm_total_blocks (pmm_st s))"
    "card (used_blocks s) + (i + 1024) div 1024 \<le> unat (pmm_total_blocks (pmm_st s))"
  shows "\<exists>u. vmm_map_page (of_nat i * 4096) (of_nat i * 4096) 7 t = Ret () u \<and> mapped_upto s (Suc i) u"
proof -
  let ?va = "of_nat i * 4096 :: u32"
  have t: "vm_ok t" "extends s t" "identity_upto i t"
    "\<And>j. unat j < 1024 \<Longrightarrow> has_table t j = (unat j < (i + 1023) div 1024)"
    "card (used_blocks t) = card (used_blocks s) + (i + 1023) div 1024"
    using assms(1) by (auto simp: mapped_upto_def)
  note ef = extends_fields [OF t(2)]
  have tot: "pmm_total_blocks (pmm_st t) = pmm_total_blocks (pmm_st s)"
    using t(2) by (simp add: extends_def)
  have i: "i < 2 ^ 20"
    using assms(3) fa.limit_bound [OF vm_okD(1) [OF t(1)]] by (simp add: tot)
  have tab: "has_table t (pdx ?va) \<longleftrightarrow> i div 1024 < (i + 1023) div 1024"
    using t(4) [OF unat_pdx_less [of ?va]] by (simp only: pdx_block [OF i])
  have "used_blocks t \<noteq> all_blocks (pmm_st t)" if "\<not> has_table t (pdx ?va)"
  proof
    assume "used_blocks t = all_blocks (pmm_st t)"
    then have "card (used_blocks t) = unat (pmm_total_blocks (pmm_st s))"
      by (simp add: all_blocks_def tot)
    moreover have "(i + 1024) div 1024 = Suc (i div 1024)" by simp
    ultimately show False using that tab t(5) assms(4) by linarith
  qed
  then have room: "has_table t (pdx ?va) \<or> used_blocks t \<noteq> all_blocks (pmm_st t)" by blast
  have win: "window_safe ?va (?va OR 7) t"
    using assms(2) ef by (simp add: window_safe_def)
  obtain u where u: "vmm_map_page ?va ?va 7 t = Ret () u" "vm_ok u" "extends t u"
    "\<And>b. vm_lookup u b = (if vpn b = vpn ?va then
       (if (?va OR 7) AND 1 = 0 then None else Some (?va OR 7)) else vm_lookup t b)"
    "\<And>j. unat j < 1024 \<Longrightarrow> has_table u j \<longleftrightarrow> j = pdx ?va \<or> has_table t j"
    "card (used_blocks u) = card (used_blocks t) + (if has_table t (pdx ?va) then 0 else 1)"
    by (rule map_page_spec [OF t(1) win room]) (rule that)
  have "identity_upto (Suc i) u"
    unfolding identity_upto_def
  proof
    fix a :: u32
    have "(?va OR 7) AND 1 = 1" by (simp add: flag_or_frame)
    moreover have "unat a < 4096 * Suc i \<longleftrightarrow> block_of a = i \<or> unat a < 4096 * i"
      by (auto simp: block_iff)
    ultimately show "vm_lookup u a = (if unat a < 4096 * Suc i then Some (frame_of a OR 7) else None)"
      using t(3) frame_block [OF i, of a] by (auto simp: u(4) vpn_block [OF i] identity_upto_def)
  qed
  moreover have "has_table u j = (unat j < (Suc i + 1023) div 1024)" if "unat j < 1024" for j
  proof -
    have "j = pdx ?va \<longleftrightarrow> unat j = i div 1024" by (simp add: word_unat_eq_iff pdx_block [OF i])
    moreover have "unat j < (Suc i + 1023) div 1024 \<longleftrightarrow> unat j = i div 1024 \<or> unat j < (i + 1023) div 1024"
      by auto
    ultimately show ?thesis using u(5) t(4) that by simp
  qed
  moreover have "card (used_blocks u) = card (used_blocks s) + (Suc i + 1023) div 1024"
    using u(6) t(5) tab by auto
  ultimately show ?thesis
    using u(1,2) extends_trans [OF t(2) u(3)] by (auto simp: mapped_upto_def)
qed

lemma cleared_directory:
  assumes "frame_aligned pd" "block_of pd \<in> used" "\<And>a. in_frame pd a \<Longrightarrow> m a = 0"
  shows "\<And>i. unat i < 1024 \<Longrightarrow> pde_of m pd i = 0" "pd_wf m pd used" "page_walk m pd va = None"
    "walk_frame m pd f \<longleftrightarrow> f = pd"
proof -
  show z: "pde_of m pd i = 0" if "unat i < 1024" for i
  proof -
    have "pde_of m pd i = rd32 (\<lambda>_. 0) (pd + 4 * i)"
      using assms(1,3) that by (intro rd32_entry_cong) auto
    then show ?thesis by (simp add: rd32_def)
  qed
  then show "pd_wf m pd used" "page_walk m pd va = None" "walk_frame m pd f \<longleftrightarrow> f = pd"
    using assms(1,2) by (auto simp: pd_wf_def page_walk_def walk_frame_def)
qed

lemma paging_on_set: "paging_on (write_cr0 (c OR 0x80000000) s)"
proof -
  have "(c OR 0x80000000) AND 0x80000000 = 0x80000000"
    by (simp add: bit.conj_disj_distrib2)
  then show ?thesis by (simp add: paging_on_def write_cr0_def)
qed

text \<open>\<^verbatim>\<open>vmm_init\<close> up to its loop, on a cleared directory that is not yet in use.\<close>

lemma vmm_init_start:
  fixes s :: "'a sys_scheme"
  defines "N \<equiv> unat (pmm_total_blocks (pmm_st s))"
  assumes off: "\<not> paging_on s" and inv: "pmm_inv (pmm_st s)" "0 \<in> used_blocks s" and mem: "card (used_blocks s) < N"
  obtains t where "vmm_init s = obind (foreach [0..<N] (\<lambda>i. vmm_map_page (of_nat i * 4096) (of_nat i * 4096) 7) t) (\<lambda>_ s.
      Ret () (print (puts ''[VMM] Paging successfully enabled in CR0 and CR3!\<newline>'')
        (write_cr0 (read_cr0 (write_cr3 (current_page_directory s) s) OR 0x80000000) (write_cr3 (current_page_directory s) s))))"
    "mapped_upto t 0 t" "\<not> paging_on t" "idt_st t = idt_register_handler 14 Page_fault_handler (idt_st s)"
    "unat (pmm_total_blocks (pmm_st t)) = N" "used_blocks s \<subseteq> used_blocks t" "card (used_blocks t) = card (used_blocks s) + 1"
    "\<And>f. block_of f \<in> used_blocks s \<Longrightarrow> \<not> walk_frame (mem t) (current_page_directory t) f"
    "\<And>f a. block_of f \<in> used_blocks s \<Longrightarrow> in_frame f a \<Longrightarrow> mem t a = mem s a" "sys.more t = sys.more s"
proof -
  obtain pd q where al: "pmm_alloc_block (pmm_st s) = (pd, q)" by (metis surj_pair)
  have pd0: "pd \<noteq> 0"
    using fa.alloc_succeeds [OF inv] mem al by (simp add: N_def)
  note fr = fa.alloc_fresh [OF inv al pd0, unfolded fa.frame_no_def]
  define s0 where "s0 = print (puts ''[VMM] Registered IDT page fault exception handler (Vector 14).\<newline>'')
      (register_handler 14 Page_fault_handler s)"
  define s1 where "s1 = s0\<lparr>pmm_st := q, current_page_directory := pd\<rparr>"
  define m where "m = (\<lambda>a. if in_frame pd a then 0 else mem s a)"
  define t where "t = vmm_report pd (pmm_total_blocks q * 4096) (pmm_total_blocks q) (s1\<lparr>mem := m\<rparr>)"
  have s1: "mem s1 = mem s" "pmm_st s1 = q" "paging_on s1 = paging_on s" by (simp_all add: s1_def s0_def paging_on_def)
  have t: "mem t = m" "pmm_st t = q" "current_page_directory t = pd" "\<not> paging_on t"
    "idt_st t = idt_register_handler 14 Page_fault_handler (idt_st s)" "sys.more t = sys.more s"
    using off by (simp_all add: t_def vmm_report_def s1_def s0_def paging_on_def register_handler_def)
  have ms: "memset pd 0 4096 s1 = Ret pd (s1\<lparr>mem := m\<rparr>)"
    using memset_frame [OF fr(1) ident_under_off, of s1 0] off by (simp add: s1 m_def cong: if_cong)
  note cl = cleared_directory [OF fr(1), of "used_blocks t" m, simplified t fr(4) m_def, simplified, folded m_def]
  have up: "mapped_upto t 0 t"
    using cl(1,2,3) fr(4,5) inv(2)
    by (auto simp: mapped_upto_def vm_ok_def t identity_upto_def has_table_def)
  have n: "unat (pmm_total_blocks (pmm_st t)) = N" "card (used_blocks t) = card (used_blocks s) + 1"
    "unat (pmm_total_blocks q * 4096 div 4096) = N"
    using fr(3,4,6) fa.limit_bound [OF fr(5)] by (simp_all add: t N_def unat_div unat_block_addr)
  have "alloc_block s0 = (pd, s0\<lparr>pmm_st := q\<rparr>)" by (simp add: alloc_block_def s0_def al)
  then have "vmm_init s = obind (memset pd 0 4096 s1) (\<lambda>_ s.
      obind (foreach [0..<unat (pmm_total_blocks (pmm_st s) * 4096 div 4096)]
         (\<lambda>i. vmm_map_page (of_nat i * 4096) (of_nat i * 4096) 7)
         (vmm_report pd (pmm_total_blocks (pmm_st s) * 4096) (pmm_total_blocks (pmm_st s)) s)) (\<lambda>_ s.
      Ret () (print (puts ''[VMM] Paging successfully enabled in CR0 and CR3!\<newline>'')
        (write_cr0 (read_cr0 (write_cr3 (current_page_directory s) s) OR 0x80000000) (write_cr3 (current_page_directory s) s)))))"
    using pd0 unfolding vmm_init_def s0_def [symmetric]
    by (simp add: Let_def pmm_get_total_blocks_def s1_def s0_def [symmetric])
  then have run: "vmm_init s = obind (foreach [0..<N] (\<lambda>i. vmm_map_page (of_nat i * 4096) (of_nat i * 4096) 7) t) (\<lambda>_ s.
      Ret () (print (puts ''[VMM] Paging successfully enabled in CR0 and CR3!\<newline>'')
        (write_cr0 (read_cr0 (write_cr3 (current_page_directory s) s) OR 0x80000000) (write_cr3 (current_page_directory s) s))))"
    using n(3) by (simp add: ms s1 t_def)
  have ne: "f \<noteq> pd" if "block_of f \<in> used_blocks s" for f using that fr(3) by auto
  have keep: "mem t a = mem s a" if "block_of f \<in> used_blocks s" "in_frame f a" for f a
    using ne [OF that(1)] that(2) in_frame_unique by (auto simp: t m_def)
  show thesis
    by (rule that [OF run up t(4,5) n(1) _ n(2) _ keep t(6)]) (use ne cl(4) fr(4) in \<open>auto simp: t\<close>)
qed

text \<open>Behind the loop paging is switched on.\<close>

lemma paging_starts:
  fixes t :: "'a sys_scheme" and p :: "terminal \<Rightarrow> terminal"
  assumes t: "vm_ok t" "identity_upto N t" "ram_top t = 4096 * N"
  defines "u \<equiv> print p (write_cr0 (read_cr0 (write_cr3 (current_page_directory t) t) OR 0x80000000) (write_cr3 (current_page_directory t) t))"
  shows "vm_ok u" "paging_on u" "identity_upto N u"
proof -
  have u: "mem u = mem t" "pmm_st u = pmm_st t" "current_page_directory u = current_page_directory t"
    "cr3 u = current_page_directory t" "tlb u = (\<lambda>_. None)"
    by (simp_all add: u_def write_cr0_def write_cr3_def)
  show on: "paging_on u" by (simp add: u_def paging_on_set)
  show id: "identity_upto N u" using t(2) by (simp add: identity_upto_def u)
  have "ram_window u"
    unfolding ram_window_def
  proof (intro allI impI)
    fix a :: u32
    assume "unat a < ram_top u"
    then have "vm_lookup u a = Some (frame_of a OR 7)" using id t(3) by (simp add: identity_upto_def u)
    then show "\<exists>pte. vm_lookup u a = Some pte \<and> frame_of pte = frame_of a" by (simp add: frame_or_flags)
  qed
  then show "vm_ok u" using t(1) on by (auto simp: vm_ok_def u tlb_coherent_def)
qed

lemma vmm_init_spec:
  fixes s :: "'a sys_scheme"
  defines "N \<equiv> unat (pmm_total_blocks (pmm_st s))"
  assumes off: "\<not> paging_on s" and inv: "pmm_inv (pmm_st s)" "0 \<in> used_blocks s"
    and mem: "card (used_blocks s) + 1 + (N + 1023) div 1024 \<le> N"
  obtains t where "vmm_init s = Ret () t" "vm_ok t" "paging_on t" "identity_upto N t"
    "handlers (idt_st t) = (handlers (idt_st s))[14 := Some Page_fault_handler]"
    "ram_top t = 4096 * N" "used_blocks s \<subseteq> used_blocks t"
    "card (used_blocks t) = card (used_blocks s) + 1 + (N + 1023) div 1024"
    "\<And>f a. block_of f \<in> used_blocks s \<Longrightarrow> in_frame f a \<Longrightarrow> mem t a = mem s a"
    "\<And>f. block_of f \<in> used_blocks s \<Longrightarrow> \<not> walk_frame (mem t) (current_page_directory t) f"
    "sys.more t = sys.more s" "\<And>j. unat j < 1024 \<Longrightarrow> has_table t j = (unat j < (N + 1023) div 1024)"
proof -
  have room: "card (used_blocks s) < N" using mem by simp
  obtain s2 where s2: "vmm_init s = obind (foreach [0..<N] (\<lambda>i. vmm_map_page (of_nat i * 4096) (of_nat i * 4096) 7) s2) (\<lambda>_ s.
      Ret () (print (puts ''[VMM] Paging successfully enabled in CR0 and CR3!\<newline>'')
        (write_cr0 (read_cr0 (write_cr3 (current_page_directory s) s) OR 0x80000000) (write_cr3 (current_page_directory s) s))))"
    "mapped_upto s2 0 s2" "\<not> paging_on s2" "idt_st s2 = idt_register_handler 14 Page_fault_handler (idt_st s)"
    "unat (pmm_total_blocks (pmm_st s2)) = N" "used_blocks s \<subseteq> used_blocks s2" "card (used_blocks s2) = card (used_blocks s) + 1"
    "\<And>f. block_of f \<in> used_blocks s \<Longrightarrow> \<not> walk_frame (mem s2) (current_page_directory s2) f"
    "\<And>f a. block_of f \<in> used_blocks s \<Longrightarrow> in_frame f a \<Longrightarrow> mem s2 a = mem s a" "sys.more s2 = sys.more s"
    by (rule vmm_init_start [OF off inv room [unfolded N_def], folded N_def]) (rule that)
  have "\<exists>t. foreach [0..<N] (\<lambda>i. vmm_map_page (of_nat i * 4096) (of_nat i * 4096) 7) s2 = Ret () t \<and> mapped_upto s2 N t"
    using mem s2(2,3,5,7) by (intro foreach_upt_rule mapped_upto_step) auto
  then obtain t where t: "foreach [0..<N] (\<lambda>i. vmm_map_page (of_nat i * 4096) (of_nat i * 4096) 7) s2 = Ret () t" "mapped_upto s2 N t" by blast
  have mt: "vm_ok t" "extends s2 t" "identity_upto N t" "\<And>j. unat j < 1024 \<Longrightarrow> has_table t j = (unat j < (N + 1023) div 1024)"
    "card (used_blocks t) = card (used_blocks s2) + (N + 1023) div 1024"
    using t(2) by (simp_all add: mapped_upto_def)
  note ef = extends_fields [OF mt(2)]
  define u where "u = print (puts ''[VMM] Paging successfully enabled in CR0 and CR3!\<newline>'')
    (write_cr0 (read_cr0 (write_cr3 (current_page_directory t) t) OR 0x80000000) (write_cr3 (current_page_directory t) t))"
  have uf: "mem u = mem t" "pmm_st u = pmm_st t" "current_page_directory u = current_page_directory s2" "idt_st u = idt_st s2"
    "sys.more u = sys.more s2"
    using ef(7,9,10) by (simp_all add: u_def write_cr0_def write_cr3_def)
  have rt: "ram_top t = 4096 * N" using ef(12) s2(5) by simp
  note on = paging_starts [OF mt(1,3) rt, where p = "puts ''[VMM] Paging successfully enabled in CR0 and CR3!\<newline>''", folded u_def]
  have run: "vmm_init s = Ret () u" unfolding s2(1) t(1) by (simp add: u_def)
  have keep: "mem u a = mem s a" if "block_of f \<in> used_blocks s" "in_frame f a" for f a
    using extends_frame [OF mt(2) _ s2(8) that(2)] s2(6,9) that by (auto simp: uf)
  have nw: "\<not> walk_frame (mem u) (current_page_directory u) f" if "block_of f \<in> used_blocks s" for f
    using mt(2) s2(6) s2(8) [OF that] that by (auto simp: extends_def uf)
  have ht: "has_table u j = (unat j < (N + 1023) div 1024)" if "unat j < 1024" for j
    using mt(4) [OF that] ef(9) by (simp add: has_table_def uf)
  have h: "handlers (idt_st u) = (handlers (idt_st s))[14 := Some Page_fault_handler]"
    by (simp add: uf s2(4) idt_register_handler_def)
  show thesis
    by (rule that [OF run on h _ _ _ keep nw _ ht]) (use rt ef(13) s2(6,7,10) mt(5) in \<open>auto simp: uf\<close>)
qed

subsection \<open>Privilege and page faults\<close>

lemma user_access_iff:
  assumes "pd_wf m pd used"
  shows "user_access m pd va w = (case page_walk m pd va of None \<Rightarrow> False
     | Some pte \<Rightarrow> pte AND 4 \<noteq> 0 \<and> (w \<longrightarrow> pte AND 2 \<noteq> 0))"
proof (cases "page_walk m pd va")
  case (Some pte)
  then have "pde_of m pd (pdx va) AND 1 \<noteq> 0"
    by (auto simp: page_walk_def Let_def split: if_splits)
  then have six: "pde_of m pd (pdx va) AND 6 = 6"
    using pd_wfD(6) [OF assms] by simp
  have "(pde_of m pd (pdx va) AND pte) AND k = pte AND k" if "6 AND k = k" for k
  proof -
    have "pde_of m pd (pdx va) AND k = k"
      using that six by (metis and.assoc)
    then show ?thesis by (simp add: and.assoc and.left_commute [of _ pte])
  qed
  from this [of 4] this [of 2] show ?thesis
    by (simp add: user_access_def Some Let_def)
qed (simp add: user_access_def)

lemma unmapped_outside:
  assumes "vm_ok s" "paging_on s" "vm_lookup s va = None"
  shows "ram_top s \<le> unat (frame_of va)"
proof (rule ccontr)
  assume "\<not> ?thesis"
  then have "unat va < ram_top s"
    by (simp add: unat_frame div_less_iff_less_mult mult.commute)
  then show False
    using vm_okD(6) [OF assms(1,2)] assms(3) by (auto simp: ram_window_def)
qed

lemma fault_report_same:
  "mem (fault_report a e s) = mem s" "cr0 (fault_report a e s) = cr0 s" "cr3 (fault_report a e s) = cr3 s"
  "tlb (fault_report a e s) = tlb s" "pmm_st (fault_report a e s) = pmm_st s"
  "current_page_directory (fault_report a e s) = current_page_directory s"
  by (simp_all add: fault_report_def)

text \<open>Blocks the handler needs: one for the page, one more when the region has no table.\<close>

definition fault_need :: "u32 \<Rightarrow> 'a sys_scheme \<Rightarrow> nat" where
  "fault_need va s = (if has_table s (pdx va) then 1 else 2)"

definition free_blocks :: "'a sys_scheme \<Rightarrow> nat" where
  "free_blocks s = unat (pmm_total_blocks (pmm_st s)) - card (used_blocks s)"

lemma free_blocks_0: "free_blocks s = 0 \<longleftrightarrow> used_blocks s = all_blocks (pmm_st s)"
proof
  assume "free_blocks s = 0"
  then have "card (used_blocks s) \<ge> card (all_blocks (pmm_st s))"
    by (simp add: free_blocks_def all_blocks_def)
  then show "used_blocks s = all_blocks (pmm_st s)"
    using card_seteq [OF _ blocks_in_use_subset [of "pmm_st s"]] by simp
qed (simp add: free_blocks_def all_blocks_def)

lemma page_fault_handler_spec:
  fixes s :: "'a sys_scheme"
  assumes ok: "vm_ok s" and on: "paging_on s" and unmapped: "vm_lookup s (cr2 s) = None"
    and df: "demand_fault (cr2 s) (r_err_code regs)" and free: "fault_need (cr2 s) s \<le> free_blocks s"
  obtains t f where "page_fault_handler regs s = Ret regs t" "vm_ok t" "paging_on t"
    "frame_aligned f" "f \<noteq> 0" "block_of f \<notin> used_blocks s" "block_of f \<in> used_blocks t"
    "\<And>b. vm_lookup t b = (if vpn b = vpn (cr2 s) then Some (f OR 7) else vm_lookup s b)"
    "\<And>g a. block_of g \<in> used_blocks s \<Longrightarrow> \<not> walk_frame (mem s) (current_page_directory s) g \<Longrightarrow>
       in_frame g a \<Longrightarrow> mem t a = mem s a"
    "current_page_directory t = current_page_directory s" "ram_top t = ram_top s"
    "\<And>a. in_frame f a \<Longrightarrow> mem t a = mem s a"
    "t = s\<lparr>mem := mem t, tlb := tlb t, pmm_st := pmm_st t, console := console t\<rparr>" "used_blocks s \<subseteq> used_blocks t"
    "card (used_blocks t) = card (used_blocks s) + fault_need (cr2 s) s"
    "\<not> walk_frame (mem t) (current_page_directory t) f"
    "\<And>g. block_of g \<in> used_blocks s \<Longrightarrow> \<not> walk_frame (mem s) (current_page_directory s) g \<Longrightarrow>
       \<not> walk_frame (mem t) (current_page_directory t) g"
proof -
  let ?va = "frame_of (cr2 s)"
  obtain f q where al: "pmm_alloc_block (pmm_st s) = (f, q)" by (metis surj_pair)
  have "used_blocks s \<noteq> all_blocks (pmm_st s)"
    using free free_blocks_0 [of s] by (auto simp: fault_need_def split: if_splits)
  then have f0: "f \<noteq> 0"
    using fa.alloc_null_iff [OF vm_okD(1,2) [OF ok]] al by (simp add: all_blocks_def)
  note fr = fresh_frame [OF ok al f0]
  define s1 where "s1 = (fault_report (cr2 s) (r_err_code regs) s)\<lparr>pmm_st := q\<rparr>"
  have s1: "mem s1 = mem s" "pmm_st s1 = q" "current_page_directory s1 = current_page_directory s"
    "paging_on s1" "cr3 s1 = cr3 s" "tlb s1 = tlb s"
    using on by (simp_all add: s1_def fault_report_same paging_on_def)
  have ok1: "vm_ok s1"
    by (rule vm_ok_alloc [OF ok al f0]) (simp_all add: s1_def fault_report_same)
  note same = frame_same_page [of "cr2 s"]
  have room: "has_table s1 (pdx ?va) \<or> used_blocks s1 \<noteq> all_blocks (pmm_st s1)"
  proof (cases "has_table s (pdx (cr2 s))")
    case False
    then have "card (used_blocks s1) < unat (pmm_total_blocks (pmm_st s1))"
      using free fr(2,4,6) by (simp add: fault_need_def free_blocks_def s1)
    moreover have "card (all_blocks (pmm_st s1)) = unat (pmm_total_blocks (pmm_st s1))"
      by (simp add: all_blocks_def)
    ultimately show ?thesis by (metis less_irrefl)
  next
    case True
    then show ?thesis unfolding same has_table_def s1 by simp
  qed
  have win: "window_safe ?va (f OR 7) s1"
    using unmapped_outside [OF ok on unmapped] fr(6) by (simp add: window_safe_def s1 and.assoc)
  obtain t where t: "vmm_map_page f ?va 7 s1 = Ret () t" "vm_ok t" "extends s1 t"
    "\<And>b. vm_lookup t b = (if vpn b = vpn ?va then
       (if (f OR 7) AND 1 = 0 then None else Some (f OR 7)) else vm_lookup s1 b)"
    "\<And>j. unat j < 1024 \<Longrightarrow> has_table t j \<longleftrightarrow> j = pdx ?va \<or> has_table s1 j"
    "card (used_blocks t) = card (used_blocks s1) + (if has_table s1 (pdx ?va) then 0 else 1)"
    by (rule map_page_spec [OF ok1 win room]) (rule that)
  note ef = extends_fields [OF t(3)]
  have f7: "(f OR 7) AND 1 = 1" using fr(1) by (simp add: flag_or_frame)
  define u where "u = print (puts ''\<newline>[VMM] Resuming execution of the interrupted instruction...\<newline>\<newline>'')
    (print (terminal_writehex f) (print (puts ''  -> Mapped to Physical Frame: '') t))"
  have u: "mem u = mem t" "pmm_st u = pmm_st t" "current_page_directory u = current_page_directory t"
    "vm_ok u = vm_ok t" "paging_on u = paging_on t"
    by (simp_all add: u_def)
  have run: "page_fault_handler regs s = Ret regs u"
    using df f0 t(1) al
    by (simp add: page_fault_handler_def alloc_block_def fault_report_same u_def s1_def Let_def)
  show thesis
  proof (rule that [OF run _ _ fr(1) f0 fr(2)])
    show "vm_ok u" "paging_on u" using t(2) ef(11) s1(4) by (simp_all add: u)
    show "block_of f \<in> used_blocks u" using ef(13) fr(4) by (auto simp: u s1)
    show "vm_lookup u b = (if vpn b = vpn (cr2 s) then Some (f OR 7) else vm_lookup s b)" for b
      using t(4) [of b, unfolded same] f7 by (simp add: u s1)
    show "mem u a = mem s a" if "block_of g \<in> used_blocks s"
      "\<not> walk_frame (mem s) (current_page_directory s) g" "in_frame g a" for g a
      using extends_frame [OF t(3), of g a] that fr(4) by (simp add: u s1)
    show "current_page_directory u = current_page_directory s" "ram_top u = ram_top s"
      using ef(9,12) fr(6) by (simp_all add: u s1)
    have nw: "\<not> walk_frame (mem s1) (current_page_directory s1) f" using fr(7) by (simp add: s1)
    show "mem u a = mem s a" if "in_frame f a" for a
      using extends_frame [OF t(3) _ nw that] fr(4) by (simp add: u s1)
    obtain m l p where tt: "t = s1\<lparr>mem := m, tlb := l, pmm_st := p\<rparr>"
      using t(3) by (auto simp: extends_def)
    show "u = s\<lparr>mem := mem u, tlb := tlb u, pmm_st := pmm_st u, console := console u\<rparr>"
      unfolding u_def tt s1_def by (simp add: print_def fault_report_def)
    show "used_blocks s \<subseteq> used_blocks u" using ef(13) fr(4) by (auto simp: u s1)
    have "has_table s1 (pdx ?va) = has_table s (pdx (cr2 s))" unfolding same has_table_def s1 by simp
    then show "card (used_blocks u) = card (used_blocks s) + fault_need (cr2 s) s"
      using t(6) fr(2,4) by (simp add: u s1 fault_need_def)
    show "\<not> walk_frame (mem u) (current_page_directory u) f"
      using t(3) nw fr(4) ef(9) by (auto simp: extends_def u s1)
    show "\<not> walk_frame (mem u) (current_page_directory u) g" if "block_of g \<in> used_blocks s"
      "\<not> walk_frame (mem s) (current_page_directory s) g" for g
      using t(3) that fr(4) ef(9) by (auto simp: extends_def u s1)
  qed
qed

subsection \<open>A small machine\<close>

text \<open>
  Eight blocks of RAM, of which only block 0 is in use, with paging off: the state in which
  the properties below are exercised.
\<close>

definition small_pmm :: pmm where
  "small_pmm = \<lparr>pmm_bitmap = [1], pmm_ram_size = 0x8000, pmm_total_blocks = 8, pmm_used_blocks = 1\<rparr>"

definition small_sys :: sys where
  "small_sys = \<lparr>mem = (\<lambda>_. 0), cr0 = 0x11, cr2 = 0, cr3 = 0, iflag = False, tlb = (\<lambda>_. None),
     console = terminal_initialize
       \<lparr>terminal_row = 0, terminal_column = 0, terminal_color = 0, terminal_buffer = replicate 2000 0\<rparr>,
     pmm_st = small_pmm, gdt_st = gdt_boot,
     idt_st = \<lparr>idt = replicate 256 idt_zero, idtp = \<lparr>idtp_limit = 0, idtp_base = 0\<rparr>,
       handlers = replicate 256 None, idtr = 0\<rparr>,
     ports = [], current_page_directory = 0\<rparr>"

definition fault_regs :: "u32 \<Rightarrow> u32 \<Rightarrow> registers" where
  "fault_regs err eip = \<lparr>r_ds = 0x10, r_edi = 0, r_esi = 0, r_ebp = 0, r_esp = 0, r_ebx = 0, r_edx = 0,
     r_ecx = 0, r_eax = 0, r_int_no = 14, r_err_code = err, r_eip = eip, r_cs = 0x08, r_eflags = 0x202,
     r_useresp = 0, r_ss = 0\<rparr>"

lemma small_pmm_ok: "pmm_inv small_pmm" "blocks_in_use small_pmm = {0}" "pmm_total_blocks small_pmm = 8"
proof -
  show u: "blocks_in_use small_pmm = {0}" by code_simp
  then show "pmm_inv small_pmm" by (simp add: pmm_inv_def bitmap_wf_def) (simp add: small_pmm_def)
  show "pmm_total_blocks small_pmm = 8" by (simp add: small_pmm_def)
qed

lemma small_sys_fields:
  "\<not> paging_on small_sys" "pmm_st small_sys = small_pmm" "handlers (idt_st small_sys) = replicate 256 None"
  by (simp_all add: small_sys_def paging_on_def)

text \<open>The small machine after \<open>vmm_init\<close>.\<close>

lemma small_boot:
  obtains t where "vmm_init small_sys = Ret () t" "vm_ok t" "paging_on t" "identity_upto 8 t"
    "ram_top t = 0x8000" "card (used_blocks t) = 3"
proof -
  have p: "pmm_inv (pmm_st small_sys)" "0 \<in> used_blocks small_sys"
    "card (used_blocks small_sys) + 1 + (unat (pmm_total_blocks (pmm_st small_sys)) + 1023) div 1024
      \<le> unat (pmm_total_blocks (pmm_st small_sys))"
    by (simp_all add: small_sys_fields small_pmm_ok)
  obtain t where "vmm_init small_sys = Ret () t" "vm_ok t" "paging_on t"
    "identity_upto (unat (pmm_total_blocks (pmm_st small_sys))) t"
    "ram_top t = 4096 * unat (pmm_total_blocks (pmm_st small_sys))"
    "card (used_blocks t) = card (used_blocks small_sys) + 1 +
       (unat (pmm_total_blocks (pmm_st small_sys)) + 1023) div 1024"
    by (rule vmm_init_spec [OF small_sys_fields(1) p]) (rule that)
  then show thesis by (intro that) (simp_all add: small_sys_fields small_pmm_ok numeral_3_eq_3)
qed

lemma fault_panic_same:
  "mem (fault_panic a e i s) = mem s" "pmm_st (fault_panic a e i s) = pmm_st s"
  "tlb (fault_panic a e i s) = tlb s"
  by (simp_all add: fault_panic_def)

lemma page_fault_no_memory:
  fixes s :: "'a sys_scheme"
  assumes ok: "vm_ok s" and on: "paging_on s" and df: "demand_fault (cr2 s) (r_err_code regs)"
    and free: "\<not> fault_need (cr2 s) s \<le> free_blocks s"
  shows "\<not> returns (page_fault_handler regs s)"
proof (cases "free_blocks s = 0")
  case True
  then have "pmm_alloc_block (pmm_st s) = (0, pmm_st s)"
    using vm_okD(1) [OF ok] by (intro alloc_block_full) (simp_all add: free_blocks_0)
  with df show ?thesis
    by (simp add: page_fault_handler_def alloc_block_def fault_report_same Let_def)
next
  case False
  then have n: "\<not> has_table s (pdx (cr2 s))" "free_blocks s = 1"
    using free by (auto simp: fault_need_def split: if_splits)
  obtain f q where al: "pmm_alloc_block (pmm_st s) = (f, q)" by (metis surj_pair)
  have f0: "f \<noteq> 0"
    using False fa.alloc_null_iff [OF vm_okD(1,2) [OF ok]] al by (simp add: free_blocks_0 all_blocks_def)
  note fr = fresh_frame [OF ok al f0]
  define s1 where "s1 = (fault_report (cr2 s) (r_err_code regs) s)\<lparr>pmm_st := q\<rparr>"
  have s1: "mem s1 = mem s" "pmm_st s1 = q" "current_page_directory s1 = current_page_directory s"
    "paging_on s1" "cr3 s1 = cr3 s" "tlb s1 = tlb s"
    using on by (simp_all add: s1_def fault_report_same paging_on_def)
  have ok1: "vm_ok s1"
    by (rule vm_ok_alloc [OF ok al f0]) (simp_all add: s1_def fault_report_same)
  have "free_blocks s1 = 0"
    using n(2) fr(2,4,6) by (simp add: free_blocks_def s1)
  then have full: "used_blocks s1 = all_blocks (pmm_st s1)" by (simp only: free_blocks_0)
  have "\<not> has_table s1 (pdx (frame_of (cr2 s)))"
    using n(1) unfolding frame_same_page has_table_def s1 .
  from map_no_memory [OF ok1 this full] df f0 al show ?thesis
    by (simp add: page_fault_handler_def alloc_block_def fault_report_same s1_def Let_def)
qed

subsection \<open>Properties of the memory manager\<close>

text \<open>
  C10 \<^verbatim>\<open>vmm_map_page\<close> changes the translation of the one page it is given: with a page table
  for the region or a free block to make one, it returns, that page translates to the
  given frame with the given flags, every other page translates as before, the invariant
  (tables in distinct frames of their own, RAM mapped to itself, coherent TLB) is kept and no
  other frame in use is touched; without memory for the table it halts with a message.
\<close>

theorem vmm_map_changes_one_page:
  assumes "vm_ok s" "window_safe va (phys OR fl) s"
  shows "if has_room s va
    then \<exists>t. vmm_map_page phys va fl s = Ret () t \<and> vm_ok t \<and> extends s t \<and>
      (\<forall>b. vm_lookup t b = (if vpn b = vpn va
         then (if (phys OR fl) AND 1 = 0 then None else Some (phys OR fl)) else vm_lookup s b))
    else vmm_map_page phys va fl s = Hang
      (print (puts ''[VMM] Critical: Out of physical memory for page table allocation!\<newline>'') s)"
  using vm.map_law [OF assms] map_no_memory [OF assms(1), of va phys fl]
  by (simp add: has_room_def)

theorem vmm_map_changes_one_page_witness:
  "\<exists>s t. vmm_init small_sys = Ret () s \<and> vmm_map_page 0x5000 0xA0000000 7 s = Ret () t \<and> vm_ok t \<and>
     vm_lookup t 0xA0000123 = Some 0x5007 \<and> vm_lookup t 0x1000 = Some 0x1007"
proof -
  obtain s where s: "vmm_init small_sys = Ret () s" "vm_ok s" "identity_upto 8 s" "ram_top s = 0x8000"
    "card (used_blocks s) = 3"
    by (rule small_boot) (rule that)
  have "free_blocks s \<noteq> 0" using s(4,5) by (simp add: free_blocks_def)
  then have "has_room s 0xA0000000" by (simp add: has_room_def free_blocks_0)
  moreover have "window_safe 0xA0000000 (0x5000 OR 7) s" using s(4) by (simp add: window_safe_def)
  ultimately show ?thesis
    using vmm_map_changes_one_page [OF s(2), of "0xA0000000" "0x5000" 7] s(1,3)
    by (auto simp: identity_upto_def)
qed

text \<open>
  Unmapping a page that was just mapped leaves an address space that differs from the
  original at most in that page, which is no longer mapped; both calls return.
\<close>

theorem vmm_unmap_undoes_map:
  assumes "vm_ok s" "window_safe va (phys OR fl) s" "window_safe va 0 s" "has_room s va"
  shows "\<exists>t. obind (vmm_map_page phys va fl s) (\<lambda>_. vmm_unmap_page va) = Ret () t \<and> vm_ok t \<and>
    extends s t \<and> (\<forall>b. vm_lookup t b = (if vpn b = vpn va then None else vm_lookup s b))"
  by (rule vm.map_unmap [OF assms])

theorem vmm_unmap_undoes_map_witness:
  "\<exists>s t. vmm_init small_sys = Ret () s \<and>
     obind (vmm_map_page 0x5000 0xA0000000 7 s) (\<lambda>_. vmm_unmap_page 0xA0000000) = Ret () t \<and>
     vm_lookup t 0xA0000123 = None"
proof -
  obtain s where s: "vmm_init small_sys = Ret () s" "vm_ok s" "ram_top s = 0x8000" "card (used_blocks s) = 3"
    by (rule small_boot) (rule that)
  have "free_blocks s \<noteq> 0" using s(3,4) by (simp add: free_blocks_def)
  then have "has_room s 0xA0000000" by (simp add: has_room_def free_blocks_0)
  moreover have "window_safe 0xA0000000 v s" for v using s(3) by (simp add: window_safe_def)
  ultimately show ?thesis
    using vmm_unmap_undoes_map [OF s(2), of "0xA0000000" "0x5000" 7] s(1) by auto
qed

text \<open>
  C15 When the allocator has a block for the directory and one page table per 4 MB of RAM,
  \<^verbatim>\<open>vmm_init\<close> returns with paging on, every byte of RAM mapped to itself (present, writable,
  user) and nothing else mapped, the page fault handler registered, exactly those blocks
  taken, and the contents of every block that was in use unchanged.
\<close>

theorem vmm_init_identity_maps:
  assumes "\<not> paging_on s" "pmm_inv (pmm_st s)" "0 \<in> used_blocks s" "length (handlers (idt_st s)) = 256"
    and "N = unat (pmm_total_blocks (pmm_st s))"
    and "card (used_blocks s) + 1 + (N + 1023) div 1024 \<le> N"
  shows "\<exists>t. vmm_init s = Ret () t \<and> vm_ok t \<and> paging_on t \<and>
    (\<forall>a. vm_lookup t a = (if unat a < 4096 * N then Some (frame_of a OR 7) else None)) \<and>
    (\<forall>a. unat a < 4096 * N \<longrightarrow> translate t a = Some a) \<and>
    handlers (idt_st t) ! 14 = Some Page_fault_handler \<and>
    card (used_blocks t) = card (used_blocks s) + 1 + (N + 1023) div 1024 \<and>
    (\<forall>a. block_of a \<in> used_blocks s \<longrightarrow> mem t a = mem s a)"
proof -
  obtain t where t: "vmm_init s = Ret () t" "vm_ok t" "paging_on t" "identity_upto N t"
    "handlers (idt_st t) = (handlers (idt_st s))[14 := Some Page_fault_handler]"
    "ram_top t = 4096 * N"
    "card (used_blocks t) = card (used_blocks s) + 1 + (N + 1023) div 1024"
    "\<And>f a. block_of f \<in> used_blocks s \<Longrightarrow> in_frame f a \<Longrightarrow> mem t a = mem s a"
    using vmm_init_spec [OF assms(1,2,3)] assms(5,6) by metis
  have "mem t a = mem s a" if "block_of a \<in> used_blocks s" for a
    using t(8) [of "frame_of a" a] that by (simp add: in_frame_def unat_frame)
  then show ?thesis
    using t assms(4) window_translate [OF t(2)] by (auto simp: identity_upto_def)
qed

theorem vmm_init_identity_maps_witness:
  "\<exists>t. vmm_init small_sys = Ret () t \<and> vm_lookup t 0x7FFF = Some 0x7007 \<and> vm_lookup t 0x8000 = None"
  using vmm_init_identity_maps [of small_sys 8]
  by (auto simp: small_sys_fields small_pmm_ok)

text \<open>
  Demand paging: a fault on an unmapped page that qualifies (non-present, above the first
  page, and not a kernel access at 3 GB or above) is resolved when there is a block for the
  page and, if the region has none, one for its table. The handler returns with the page
  mapped to a frame nobody used, open to ring 3 for reading and writing, so that repeating
  the access succeeds; every other translation is unchanged.
\<close>

theorem demand_paging_resolves_fault:
  assumes "vm_ok s" "paging_on s" "vm_lookup s (cr2 s) = None"
    and "demand_fault (cr2 s) (r_err_code regs)" "fault_need (cr2 s) s \<le> free_blocks s"
  shows "\<exists>t f. page_fault_handler regs s = Ret regs t \<and> vm_ok t \<and> f \<noteq> 0 \<and> frame_aligned f \<and>
    block_of f \<notin> used_blocks s \<and> block_of f \<in> used_blocks t \<and>
    translate t (cr2 s) = Some (f OR (cr2 s AND 0xFFF)) \<and>
    user_access (mem t) (current_page_directory t) (cr2 s) True \<and>
    (\<forall>b. vpn b \<noteq> vpn (cr2 s) \<longrightarrow> vm_lookup t b = vm_lookup s b)"
proof -
  obtain t f where t: "page_fault_handler regs s = Ret regs t" "vm_ok t" "paging_on t"
    "frame_aligned f" "f \<noteq> 0" "block_of f \<notin> used_blocks s" "block_of f \<in> used_blocks t"
    "\<And>b. vm_lookup t b = (if vpn b = vpn (cr2 s) then Some (f OR 7) else vm_lookup s b)"
    by (rule page_fault_handler_spec [OF assms]) (rule that)
  have "translate t (cr2 s) = Some (f OR (cr2 s AND 0xFFF))"
    using t(4) by (simp add: translate_lookup [OF t(2)] t(3,8) frame_or_flags)
  moreover have "user_access (mem t) (current_page_directory t) (cr2 s) True"
    using t(4) by (simp add: user_access_iff [OF vm_okD(3) [OF t(2)]] t(8) flag_or_frame)
  ultimately show ?thesis using t by auto
qed

theorem demand_paging_resolves_fault_witness:
  "\<exists>s t. vmm_init small_sys = Ret () s \<and>
     page_fault_handler (fault_regs 2 0x100000) (s\<lparr>cr2 := 0x40000000\<rparr>) = Ret (fault_regs 2 0x100000) t \<and>
     user_access (mem t) (current_page_directory t) 0x40000000 True"
proof -
  obtain s where s: "vmm_init small_sys = Ret () s" "vm_ok s" "paging_on s" "identity_upto 8 s"
    "ram_top s = 0x8000" "card (used_blocks s) = 3"
    by (rule small_boot) (rule that)
  let ?s = "s\<lparr>cr2 := 0x40000000\<rparr>"
  have "vm_ok ?s" using s(2) vm_ok_cong [of ?s s] by simp
  moreover have "paging_on ?s" using s(3) by (simp add: paging_on_def)
  moreover have "vm_lookup ?s (cr2 ?s) = None" using s(4) by (simp add: identity_upto_def)
  moreover have "fault_need (cr2 ?s) ?s \<le> free_blocks ?s"
    using s(5,6) by (simp add: fault_need_def free_blocks_def)
  moreover have "demand_fault (cr2 ?s) (r_err_code (fault_regs 2 0x100000))"
    by (simp add: demand_fault_def fault_regs_def)
  ultimately show ?thesis
    using demand_paging_resolves_fault [of ?s "fault_regs 2 0x100000"] s(1) by auto
qed



text \<open>
  The privilege of a mapped page is decided by the flags given to \<^verbatim>\<open>vmm_map_page\<close>: ring 3 can
  read it exactly with the user flag and write it exactly with the user and write flags, whatever
  directory entry it hangs on. In particular the page the kernel maps with flags 3 at
  \<^verbatim>\<open>0xD0000000\<close> is closed to user programs.
\<close>

theorem mapped_page_privilege:
  assumes "vm_ok s" "window_safe va (phys OR fl) s" "has_room s va" "frame_aligned phys"
    and "fl AND 0xFFF = fl" "fl AND 1 \<noteq> 0" "vpn b = vpn va"
  shows "\<exists>t. vmm_map_page phys va fl s = Ret () t \<and>
    user_access (mem t) (current_page_directory t) b w = (fl AND 4 \<noteq> 0 \<and> (fl AND 2 \<noteq> 0 \<or> \<not> w))"
proof -
  obtain t where t: "vmm_map_page phys va fl s = Ret () t" "vm_ok t"
    "vm_lookup t b = (if (phys OR fl) AND 1 = 0 then None else Some (phys OR fl))"
    using vm.map_law [OF assms(1,2,3)] assms(7) by auto
  have "(phys OR fl) AND k = fl AND k" if "k AND 0xFFF = k" for k
    using assms(4) that by (rule flag_or_frame)
  then have "(phys OR fl) AND 1 = fl AND 1" "(phys OR fl) AND 2 = fl AND 2" "(phys OR fl) AND 4 = fl AND 4"
    by simp_all
  with t assms(6) show ?thesis
    by (auto simp: user_access_iff [OF vm_okD(3) [OF t(2)]])
qed

theorem mapped_page_privilege_witness:
  "\<exists>s t. vmm_init small_sys = Ret () s \<and> vmm_map_page 0x5000 0xD0000000 3 s = Ret () t \<and>
     \<not> user_access (mem t) (current_page_directory t) 0xD0000010 False"
proof -
  obtain s where s: "vmm_init small_sys = Ret () s" "vm_ok s" "ram_top s = 0x8000" "card (used_blocks s) = 3"
    by (rule small_boot) (rule that)
  have "free_blocks s \<noteq> 0" using s(3,4) by (simp add: free_blocks_def)
  then have "has_room s 0xD0000000" by (simp add: has_room_def free_blocks_0)
  moreover have "window_safe 0xD0000000 (0x5000 OR 3) s" using s(3) by (simp add: window_safe_def)
  moreover have "frame_aligned 0x5000" by (simp add: frame_aligned_def)
  ultimately show ?thesis
    using mapped_page_privilege [OF s(2), of "0xD0000000" "0x5000" 3 "0xD0000010" False] s(1) by auto
qed

end
