(* ===== verification/Task.thy ===== *)
theory Task
  imports Vmm
begin

text \<open>
  Tasks and the scheduler: \<^verbatim>\<open>src/task.h\<close>, \<^verbatim>\<open>src/task.c\<close>, and the routines it calls in
  \<^verbatim>\<open>src/switch.s\<close> and \<^verbatim>\<open>src/user_switch.s\<close>. A \<^verbatim>\<open>task_t *\<close> is an index into \<^verbatim>\<open>task_table\<close>, NULL is
  \<open>None\<close>. The state carries the callee-saved registers and the stack pointer; a routine that
  gives up the processor returns the address at which execution continues. Words that an
  assembly routine pushes and pops again below the stack pointer are not kept. A loop over a
  list that never ends is \<open>None\<close>, and the routine containing it does not return (\<open>Hang\<close>).
\<close>

abbreviation (input) TASK_STATE_READY :: u32 where "TASK_STATE_READY \<equiv> 0"
abbreviation (input) TASK_STATE_RUNNING :: u32 where "TASK_STATE_RUNNING \<equiv> 1"
abbreviation (input) TASK_STATE_BLOCKED :: u32 where "TASK_STATE_BLOCKED \<equiv> 2"
abbreviation (input) TASK_STATE_ZOMBIE :: u32 where "TASK_STATE_ZOMBIE \<equiv> 3"
abbreviation (input) MAX_TASKS :: nat where "MAX_TASKS \<equiv> 32"

record task =
  t_pid :: u32
  t_esp :: u32
  t_eip :: u32
  t_page_directory :: u32
  t_kstack :: u32
  t_state :: u32
  t_next :: "nat option"

definition task_zero :: task where
  "task_zero = \<lparr>t_pid = 0, t_esp = 0, t_eip = 0, t_page_directory = 0, t_kstack = 0, t_state = 0, t_next = None\<rparr>"

text \<open>
  The static variables of \<^verbatim>\<open>task.c\<close> and \<^verbatim>\<open>timer.c\<close>, the registers a context switch saves, and
  the addresses of the kernel functions that end up on a task's first stack frame.
\<close>

record kern = sys +
  task_table :: "task list"
  task_list :: "nat option"
  current_task :: "nat option"
  next_pid :: u32
  tick :: u32
  reg_esp :: u32
  reg_ebp :: u32
  reg_ebx :: u32
  reg_esi :: u32
  reg_edi :: u32

record symbols =
  sym_task_kernel_bootstrap :: u32
  sym_task_user_bootstrap :: u32
  sym_task_exit :: u32

definition upd_task :: "nat \<Rightarrow> (task \<Rightarrow> task) \<Rightarrow> 'a kern_scheme \<Rightarrow> 'a kern_scheme" where
  "upd_task i f s = s\<lparr>task_table := (task_table s)[i := f (task_table s ! i)]\<rparr>"

definition get_current_task :: "'a kern_scheme \<Rightarrow> nat option" where
  "get_current_task s = current_task s"

definition set_kernel_stack :: "u32 \<Rightarrow> 'a sys_scheme \<Rightarrow> 'a sys_scheme" where
  "set_kernel_stack stack_top s = s\<lparr>gdt_st := tss_set_kernel_stack stack_top (gdt_st s)\<rparr>"

definition scheduler_init :: "'a kern_scheme \<Rightarrow> 'a kern_scheme" where
  "scheduler_init s =
     (let s = cli s;
          s = s\<lparr>task_table := replicate MAX_TASKS task_zero\<rparr>;
          s = upd_task 0 (t_pid_update (\<lambda>_. 1)) s;
          s = s\<lparr>next_pid := 2\<rparr>;
          s = upd_task 0 (\<lambda>t. t\<lparr>t_state := TASK_STATE_RUNNING, t_page_directory := read_cr3 s,
                 t_kstack := 0, t_next := None\<rparr>) s
      in s\<lparr>task_list := Some 0, current_task := Some 0\<rparr>)"

subsection \<open>Context switch\<close>

text \<open>
  \<^verbatim>\<open>switch_task\<close>: the return address of the caller is on top of the stack. The result is the
  address the final \<^verbatim>\<open>ret\<close> jumps to.
\<close>

definition push :: "u32 \<Rightarrow> 'a kern_scheme \<Rightarrow> (unit, 'a kern_scheme) outcome" where
  "push v s = obind (store32 (reg_esp s - 4) v s) (\<lambda>_ s. Ret () (s\<lparr>reg_esp := reg_esp s - 4\<rparr>))"

definition pop :: "'a kern_scheme \<Rightarrow> (u32, 'a kern_scheme) outcome" where
  "pop s = obind (load32 (reg_esp s) s) (\<lambda>v s. Ret v (s\<lparr>reg_esp := reg_esp s + 4\<rparr>))"

definition load_directory :: "u32 \<Rightarrow> 'a sys_scheme \<Rightarrow> 'a sys_scheme" where
  "load_directory pd s =
     (if pd \<noteq> cr3 s then (write_cr3 pd s)\<lparr>current_page_directory := pd\<rparr> else s)"

definition switch_task :: "nat \<Rightarrow> nat \<Rightarrow> 'a kern_scheme \<Rightarrow> (u32, 'a kern_scheme) outcome" where
  "switch_task current nxt s =
     obind (push (reg_ebp s) s) (\<lambda>_ s.
     obind (push (reg_ebx s) s) (\<lambda>_ s.
     obind (push (reg_esi s) s) (\<lambda>_ s.
     obind (push (reg_edi s) s) (\<lambda>_ s.
       let s = upd_task current (t_esp_update (\<lambda>_. reg_esp s)) s;
           s = s\<lparr>reg_esp := t_esp (task_table s ! nxt)\<rparr>;
           s = load_directory (t_page_directory (task_table s ! nxt)) s;
           s = set_kernel_stack (t_kstack (task_table s ! nxt)) s
       in obind (pop s) (\<lambda>v s. let s = s\<lparr>reg_edi := v\<rparr> in
          obind (pop s) (\<lambda>v s. let s = s\<lparr>reg_esi := v\<rparr> in
          obind (pop s) (\<lambda>v s. let s = s\<lparr>reg_ebx := v\<rparr> in
          obind (pop s) (\<lambda>v s. let s = s\<lparr>reg_ebp := v\<rparr> in
          pop s))))))))"

text \<open>
  \<^verbatim>\<open>enter_user_mode\<close>: interrupts are enabled by the flags the final \<^verbatim>\<open>iret\<close> loads; execution
  continues in ring 3 at \<open>entry\<close> on the user stack.
\<close>

definition enter_user_mode :: "u32 \<Rightarrow> u32 \<Rightarrow> 'a kern_scheme \<Rightarrow> (u32, 'a kern_scheme) outcome" where
  "enter_user_mode entry user_esp s =
     (let s = cli s;
          s = s\<lparr>gdt_st := (gdt_st s)\<lparr>seg_data := 0x23, seg_ss := 0x23, seg_cs := 0x1B\<rparr>,
                reg_esp := user_esp, iflag := bit (0x202 :: u32) 9\<rparr>
      in Ret entry s)"

subsection \<open>Creating tasks\<close>

definition slot_free :: "task \<Rightarrow> bool" where
  "slot_free t \<longleftrightarrow> t_pid t = 0 \<or> t_state t = TASK_STATE_ZOMBIE"

definition find_slot :: "task list \<Rightarrow> nat option" where
  "find_slot tbl = List.find (\<lambda>i. slot_free (tbl ! i)) [1..<MAX_TASKS]"

text \<open>The walk to the end of the list.\<close>

partial_function (option) last_task :: "task list \<Rightarrow> nat \<Rightarrow> nat option" where
  "last_task tbl i = (case t_next (tbl ! i) of Some j \<Rightarrow> last_task tbl j | None \<Rightarrow> Some i)"

definition append_task :: "nat \<Rightarrow> 'a kern_scheme \<Rightarrow> (unit, 'a kern_scheme) outcome" where
  "append_task new_task s =
     (case task_list s of
        None \<Rightarrow> Ret () (upd_task new_task (t_next_update (\<lambda>_. None)) (s\<lparr>task_list := Some new_task\<rparr>))
      | Some h \<Rightarrow>
          (case last_task (task_table s) h of
             None \<Rightarrow> Hang s
           | Some l \<Rightarrow> Ret () (upd_task new_task (t_next_update (\<lambda>_. None))
                        (upd_task l (t_next_update (\<lambda>_. Some new_task)) s))))"

text \<open>The frame that \<^verbatim>\<open>switch_task\<close> pops when the task runs for the first time.\<close>

definition build_frame :: "symbols \<Rightarrow> u32 \<Rightarrow> u32 \<Rightarrow> 'a machine_scheme \<Rightarrow> (unit, 'a machine_scheme) outcome" where
  "build_frame syms stack_ptr kernel_entry s =
     foreach [(1, kernel_entry), (2, sym_task_exit syms), (3, sym_task_kernel_bootstrap syms),
              (4, 0), (5, 0), (6, 0), (7, 0)]
       (\<lambda>(k, v). store32 (stack_ptr - 4 * k) v) s"

definition task_create ::
  "symbols \<Rightarrow> u32 \<Rightarrow> u32 \<Rightarrow> bool \<Rightarrow> 'a kern_scheme \<Rightarrow> (nat option, 'a kern_scheme) outcome" where
  "task_create syms entry page_dir is_user s =
     (let s = cli s in
      case find_slot (task_table s) of
        None \<Rightarrow> Ret None s
      | Some new_task \<Rightarrow>
          (let (stack, s) = alloc_block s in
           if stack = 0 then Ret None s
           else
             obind (memset stack 0 PMM_BLOCK_SIZE s) (\<lambda>_ s.
             obind (vmm_map_page stack stack (VMM_FLAG_PRESENT OR VMM_FLAG_WRITE) s) (\<lambda>_ s.
               let kstack = stack + PMM_BLOCK_SIZE;
                   s = upd_task new_task (\<lambda>t. t\<lparr>t_pid := next_pid s, t_state := TASK_STATE_READY,
                         t_page_directory := (if page_dir \<noteq> 0 then page_dir else read_cr3 s),
                         t_kstack := kstack, t_eip := entry\<rparr>) (s\<lparr>next_pid := next_pid s + 1\<rparr>);
                   kernel_entry = (if is_user then sym_task_user_bootstrap syms else entry)
               in obind (build_frame syms kstack kernel_entry s) (\<lambda>_ s.
                  obind (append_task new_task
                    (upd_task new_task (t_esp_update (\<lambda>_. kstack - 4 * 7)) s)) (\<lambda>_ s.
                  Ret (Some new_task) s))))))"

subsection \<open>Scheduling\<close>

definition successor :: "task list \<Rightarrow> nat option \<Rightarrow> nat \<Rightarrow> nat option" where
  "successor tbl lst i = (case t_next (tbl ! i) of Some j \<Rightarrow> Some j | None \<Rightarrow> lst)"

text \<open>The search loop of \<^verbatim>\<open>schedule\<close>, from the task after the current one.\<close>

partial_function (option) find_ready :: "task list \<Rightarrow> nat option \<Rightarrow> nat \<Rightarrow> nat option \<Rightarrow> nat option" where
  "find_ready tbl lst current cand =
     Option.bind cand (\<lambda>c.
       if c \<noteq> current then
         if t_state (tbl ! c) = TASK_STATE_READY then Some c
         else find_ready tbl lst current (successor tbl lst c)
       else Some c)"

text \<open>The bookkeeping before the switch.\<close>

definition hand_over :: "nat \<Rightarrow> nat \<Rightarrow> 'a kern_scheme \<Rightarrow> 'a kern_scheme" where
  "hand_over prev cand s =
     (let s = (if t_state (task_table s ! prev) = TASK_STATE_RUNNING
               then upd_task prev (t_state_update (\<lambda>_. TASK_STATE_READY)) s else s);
          s = upd_task cand (t_state_update (\<lambda>_. TASK_STATE_RUNNING)) s
      in s\<lparr>current_task := Some cand\<rparr>)"

text \<open>
  \<^verbatim>\<open>schedule\<close>: \<open>None\<close> when it returns to its caller, \<open>Some a\<close> when execution goes on at \<open>a\<close>
  in the task that was chosen.
\<close>

definition schedule :: "'a kern_scheme \<Rightarrow> (u32 option, 'a kern_scheme) outcome" where
  "schedule s =
     (case current_task s of
        None \<Rightarrow> Ret None s
      | Some cur \<Rightarrow>
          (case find_ready (task_table s) (task_list s) cur (successor (task_table s) (task_list s) cur) of
             None \<Rightarrow> Hang s
           | Some c \<Rightarrow>
               if c \<noteq> cur \<and> t_state (task_table s ! c) = TASK_STATE_READY
               then obind (switch_task cur c (hand_over cur c s)) (\<lambda>a s. Ret (Some a) s)
               else Ret None s))"

definition task_yield :: "'a kern_scheme \<Rightarrow> (u32 option, 'a kern_scheme) outcome" where
  "task_yield s =
     obind (schedule (cli s)) (\<lambda>r s. case r of None \<Rightarrow> Ret None (sti s) | Some a \<Rightarrow> Ret (Some a) s)"

text \<open>
  \<^verbatim>\<open>task_exit\<close> never returns to its caller: the result is where the next task goes on. With
  no current task the state word is written through a NULL pointer, at offset 20.
\<close>

definition task_exit :: "'a kern_scheme \<Rightarrow> (u32, 'a kern_scheme) outcome" where
  "task_exit s0 =
     (let s = cli s0
      in obind (case current_task s of
           Some c \<Rightarrow> Ret () (upd_task c (t_state_update (\<lambda>_. TASK_STATE_ZOMBIE)) s)
         | None \<Rightarrow> store32 20 TASK_STATE_ZOMBIE s) (\<lambda>_ s.
         obind (schedule s) (\<lambda>r s. case r of None \<Rightarrow> Hang s | Some a \<Rightarrow> Ret a s)))"

text \<open>The body of a kernel task is the meaning \<open>call\<close> of its entry address.\<close>

definition task_kernel_bootstrap ::
  "(u32 \<Rightarrow> 'a kern_scheme \<Rightarrow> (unit, 'a kern_scheme) outcome) \<Rightarrow> u32 \<Rightarrow> 'a kern_scheme \<Rightarrow> (u32, 'a kern_scheme) outcome" where
  "task_kernel_bootstrap call entry s = obind (call entry (sti s)) (\<lambda>_ s. task_exit s)"

text \<open>The fields read through a \<^verbatim>\<open>task_t *\<close>; a NULL pointer reads the words at address 0.\<close>

definition task_at :: "nat option \<Rightarrow> 'a kern_scheme \<Rightarrow> (task, 'a kern_scheme) outcome" where
  "task_at p s =
     (case p of
        Some i \<Rightarrow> Ret (task_table s ! i) s
      | None \<Rightarrow>
          obind (load32 8 s) (\<lambda>eip s. obind (load32 12 s) (\<lambda>pd s. obind (load32 16 s) (\<lambda>kstack s.
            Ret (task_zero\<lparr>t_eip := eip, t_page_directory := pd, t_kstack := kstack\<rparr>) s))))"

definition task_user_bootstrap :: "'a kern_scheme \<Rightarrow> (u32, 'a kern_scheme) outcome" where
  "task_user_bootstrap s =
     obind (task_at (get_current_task s) s) (\<lambda>t s.
     let kernel_pd_phys = current_page_directory s;
         s = (if t_page_directory t \<noteq> 0 \<and> t_page_directory t \<noteq> kernel_pd_phys
              then write_cr3 (t_page_directory t) (s\<lparr>current_page_directory := t_page_directory t\<rparr>) else s);
         (ustack_phys, s) = alloc_block s;
         ustack_virt = 0xBFFF0000
     in obind (vmm_map_page ustack_phys ustack_virt
           (VMM_FLAG_PRESENT OR VMM_FLAG_WRITE OR VMM_FLAG_USER) s) (\<lambda>_ s.
        let ustack_top = ustack_virt + 4096;
            s = set_kernel_stack (t_kstack t) s
        in enter_user_mode (t_eip t) ustack_top s))"

subsection \<open>The task list\<close>

text \<open>\<open>chain tbl p xs\<close>: following the next pointers from \<open>p\<close> visits the slots \<open>xs\<close> and ends.\<close>

fun chain :: "task list \<Rightarrow> nat option \<Rightarrow> nat list \<Rightarrow> bool" where
  "chain tbl p [] \<longleftrightarrow> p = None"
| "chain tbl p (x # xs) \<longleftrightarrow> p = Some x \<and> x < length tbl \<and> chain tbl (t_next (tbl ! x)) xs"

lemma chain_bound: "chain tbl p xs \<Longrightarrow> x \<in> set xs \<Longrightarrow> x < length tbl"
  by (induction xs arbitrary: p) auto

lemma chain_nth_next:
  "chain tbl p xs \<Longrightarrow> k < length xs \<Longrightarrow>
   t_next (tbl ! (xs ! k)) = (if Suc k < length xs then Some (xs ! Suc k) else None)"
proof (induction xs arbitrary: p k)
  case (Cons x xs)
  show ?case
  proof (cases k)
    case 0
    with Cons.prems show ?thesis by (cases xs) auto
  next
    case (Suc j)
    with Cons.IH [of "t_next (tbl ! x)" j] Cons.prems show ?thesis by simp
  qed
qed simp

lemma last_task_chain: "chain tbl (Some h) xs \<Longrightarrow> last_task tbl h = Some (last xs)"
proof (induction xs arbitrary: h)
  case (Cons x xs)
  then show ?case
    by (subst last_task.simps) (cases xs; auto)
qed simp

lemma chain_cong:
  "chain tbl p xs \<Longrightarrow> length tbl' = length tbl \<Longrightarrow>
   (\<And>x. x \<in> set xs \<Longrightarrow> t_next (tbl' ! x) = t_next (tbl ! x)) \<Longrightarrow> chain tbl' p xs"
  by (induction xs arbitrary: p) auto

text \<open>Linking a slot that is not in the list behind its last element.\<close>

lemma chain_append:
  assumes "chain tbl (Some h) xs" "i \<notin> set xs" "distinct xs" "i < length tbl"
  defines "tbl1 \<equiv> tbl[last xs := (tbl ! last xs)\<lparr>t_next := Some i\<rparr>]"
  shows "chain (tbl1[i := (tbl1 ! i)\<lparr>t_next := None\<rparr>]) (Some h) (xs @ [i])"
  using assms(1-4) unfolding tbl1_def
proof (induction xs arbitrary: h)
  case (Cons x xs)
  show ?case
  proof (cases xs)
    case Nil
    with Cons.prems show ?thesis by (auto simp: nth_list_update)
  next
    case (Cons y ys)
    have "chain tbl (Some y) xs" using Cons.prems(1) Cons by simp
    moreover have "last xs \<noteq> x"
      using Cons.prems(3) Cons by (metis distinct.simps(2) last_in_set list.discI)
    ultimately show ?thesis
      using Cons.IH [of y] Cons.prems Cons by (auto simp: nth_list_update)
  qed
qed simp

subsection \<open>The search for the next task\<close>

text \<open>The list is scanned cyclically: from position \<open>k\<close> the next slot is one further.\<close>

lemma successor_chain:
  assumes "chain tbl lst xs" "k < length xs"
  shows "successor tbl lst (xs ! k) = Some (xs ! (Suc k mod length xs))"
proof -
  have "lst = Some (xs ! 0)" using assms by (cases xs) auto
  moreover have "Suc k mod length xs = (if Suc k < length xs then Suc k else 0)"
    using assms(2) by (simp add: mod_Suc)
  ultimately show ?thesis
    using chain_nth_next [OF assms] by (auto simp: successor_def)
qed

abbreviation ready :: "task list \<Rightarrow> nat \<Rightarrow> bool" where
  "ready tbl c \<equiv> t_state (tbl ! c) = 0"

lemma find_ready_scan:
  assumes "chain tbl lst xs" "distinct xs" "k < length xs" "1 \<le> i" "i \<le> length xs"
  shows "find_ready tbl lst (xs ! k) (Some (xs ! ((k + i) mod length xs))) =
    Some (case List.find (ready tbl) (drop i (rotate k xs)) of Some c \<Rightarrow> c | None \<Rightarrow> xs ! k)"
  using assms(4,5)
proof (induction "length xs - i" arbitrary: i)
  case 0
  then have "(k + i) mod length xs = k" using assms(3) by simp
  with 0 show ?case by (subst find_ready.simps) simp
next
  case (Suc d)
  then have i: "i < length xs" by simp
  let ?c = "xs ! ((k + i) mod length xs)"
  have c: "?c = rotate k xs ! i" using i by (simp add: nth_rotate)
  have "?c \<noteq> xs ! k"
  proof
    assume "?c = xs ! k"
    then have "(k + i) mod length xs = k"
      using assms(2,3) nth_eq_iff_index_eq by (metis mod_less_divisor length_pos_if_in_set nth_mem)
    then show False using i Suc.prems(1) assms(3) by (cases "k + i < length xs") (auto simp: mod_if split: if_splits)
  qed
  moreover have "drop i (rotate k xs) = ?c # drop (Suc i) (rotate k xs)"
    using i c by (simp add: Cons_nth_drop_Suc [symmetric])
  moreover have "successor tbl lst ?c = Some (xs ! ((k + Suc i) mod length xs))"
    using successor_chain [OF assms(1) mod_less_divisor, of "k + i"] i
    by (cases "xs = []") (simp_all add: mod_Suc_eq)
  moreover have "find_ready tbl lst (xs ! k) (Some (xs ! ((k + Suc i) mod length xs))) =
    Some (case List.find (ready tbl) (drop (Suc i) (rotate k xs)) of Some c \<Rightarrow> c | None \<Rightarrow> xs ! k)"
    using Suc.hyps(2) i by (intro Suc.hyps(1)) auto
  ultimately show ?case
    by (subst find_ready.simps) simp
qed

text \<open>The other tasks in the order in which they come round after the current one.\<close>

definition others :: "nat list \<Rightarrow> nat \<Rightarrow> nat list" where
  "others xs k = drop (Suc k) xs @ take k xs"

lemma others_rotate: "k < length xs \<Longrightarrow> others xs k = drop 1 (rotate k xs)"
  by (simp add: others_def rotate_drop_take drop_Suc [symmetric] tl_drop)

lemma find_ready_others:
  assumes "chain tbl lst xs" "distinct xs" "k < length xs"
  shows "find_ready tbl lst (xs ! k) (successor tbl lst (xs ! k)) =
    Some (case List.find (ready tbl) (others xs k) of Some c \<Rightarrow> c | None \<Rightarrow> xs ! k)"
  using find_ready_scan [OF assms, of 1] assms(3)
  by (simp add: successor_chain [OF assms(1,3)] others_rotate)

subsection \<open>The invariant of the scheduler\<close>

text \<open>
  The list visits pairwise different slots, exactly the ones ever assigned; the current task
  is on it and is the only one that can be in state RUNNING.
\<close>

definition sched_inv :: "nat list \<Rightarrow> 'a kern_scheme \<Rightarrow> bool" where
  "sched_inv xs s \<longleftrightarrow> length (task_table s) = MAX_TASKS \<and> chain (task_table s) (task_list s) xs \<and> distinct xs \<and>
     (\<exists>k < length xs. current_task s = Some (xs ! k) \<and>
        t_state (task_table s ! (xs ! k)) \<in> {TASK_STATE_RUNNING, TASK_STATE_ZOMBIE}) \<and>
     (\<forall>i < MAX_TASKS. i \<in> set xs \<longleftrightarrow> t_pid (task_table s ! i) \<noteq> 0) \<and>
     (\<forall>i \<in> set xs. Some i \<noteq> current_task s \<longrightarrow>
        t_state (task_table s ! i) \<in> {TASK_STATE_READY, TASK_STATE_ZOMBIE})"

lemma sched_inv_bound: "sched_inv xs s \<Longrightarrow> i \<in> set xs \<Longrightarrow> i < MAX_TASKS"
  unfolding sched_inv_def using chain_bound by metis

text \<open>The part of the state the scheduler decides on.\<close>

definition sched_view :: "'a kern_scheme \<Rightarrow> (u32 \<times> u32 \<times> nat option) list \<times> nat option \<times> nat option" where
  "sched_view s = (map (\<lambda>t. (t_pid t, t_state t, t_next t)) (task_table s), task_list s, current_task s)"

lemma sched_view_eqD:
  assumes "sched_view s = sched_view t"
  shows "task_list s = task_list t" "current_task s = current_task t"
    "length (task_table s) = length (task_table t)"
    "\<And>i. i < length (task_table t) \<Longrightarrow> t_pid (task_table s ! i) = t_pid (task_table t ! i) \<and>
       t_state (task_table s ! i) = t_state (task_table t ! i) \<and> t_next (task_table s ! i) = t_next (task_table t ! i)"
proof -
  have m: "map (\<lambda>t. (t_pid t, t_state t, t_next t)) (task_table s) = map (\<lambda>t. (t_pid t, t_state t, t_next t)) (task_table t)"
    using assms by (simp add: sched_view_def)
  show "task_list s = task_list t" "current_task s = current_task t"
    using assms by (simp_all add: sched_view_def)
  show len: "length (task_table s) = length (task_table t)"
    using map_eq_imp_length_eq [OF m] .
  show "t_pid (task_table s ! i) = t_pid (task_table t ! i) \<and>
       t_state (task_table s ! i) = t_state (task_table t ! i) \<and> t_next (task_table s ! i) = t_next (task_table t ! i)"
    if "i < length (task_table t)" for i
    using arg_cong [OF m, of "\<lambda>l. l ! i"] that len by simp
qed

lemma sched_inv_view:
  assumes "sched_inv xs t" "sched_view s = sched_view t"
  shows "sched_inv xs s"
proof -
  note v = sched_view_eqD [OF assms(2)]
  have b: "x < length (task_table t)" if "x \<in> set xs" for x
    using sched_inv_bound [OF assms(1) that] assms(1) by (simp add: sched_inv_def)
  have "chain (task_table s) (task_list s) xs"
    using assms(1) v b by (auto simp: sched_inv_def intro!: chain_cong [of "task_table t"])
  then show ?thesis
    using assms(1) v b unfolding sched_inv_def by (metis nth_mem)
qed

lemma schedule_eq:
  assumes "sched_inv xs s" "current_task s = Some (xs ! k)" "k < length xs"
  shows "schedule s = (case List.find (ready (task_table s)) (others xs k) of
      None \<Rightarrow> Ret None s
    | Some c \<Rightarrow> obind (switch_task (xs ! k) c (hand_over (xs ! k) c s)) (\<lambda>a s. Ret (Some a) s))"
proof -
  have ch: "chain (task_table s) (task_list s) xs" "distinct xs"
    using assms(1) by (auto simp: sched_inv_def)
  have "c \<noteq> xs ! k \<and> ready (task_table s) c" if "List.find (ready (task_table s)) (others xs k) = Some c" for c
  proof -
    have "c \<in> set (others xs k)" "ready (task_table s) c"
      using that by (auto simp: find_Some_iff)
    moreover have "xs ! k \<notin> set (others xs k)"
      using ch(2) assms(3) by (auto simp: others_def in_set_conv_nth nth_eq_iff_index_eq)
    ultimately show ?thesis by auto
  qed
  then show ?thesis
    by (auto simp: schedule_def assms(2) find_ready_others [OF ch assms(3)] split: option.split)
qed

lemma hand_over_fields:
  assumes "p < length (task_table s)" "c < length (task_table s)"
  shows "task_list (hand_over p c s) = task_list s" "current_task (hand_over p c s) = Some c"
    "length (task_table (hand_over p c s)) = length (task_table s)"
    "i < length (task_table s) \<Longrightarrow> t_pid (task_table (hand_over p c s) ! i) = t_pid (task_table s ! i)"
    "i < length (task_table s) \<Longrightarrow> t_next (task_table (hand_over p c s) ! i) = t_next (task_table s ! i)"
    "i < length (task_table s) \<Longrightarrow> t_state (task_table (hand_over p c s) ! i) =
       (if i = c then 1 else if i = p \<and> t_state (task_table s ! p) = 1 then 0 else t_state (task_table s ! i))"
  using assms by (auto simp: hand_over_def upd_task_def Let_def nth_list_update)

lemma hand_over_inv:
  assumes "sched_inv xs s" "current_task s = Some p" "c \<in> set xs" "p \<noteq> c"
  shows "sched_inv xs (hand_over p c s)"
proof -
  obtain k where k: "k < length xs" "p = xs ! k" "t_state (task_table s ! p) \<in> {1, 3}"
    using assms(1,2) by (auto simp: sched_inv_def)
  have len: "length (task_table s) = 32" using assms(1) by (simp add: sched_inv_def)
  have b: "x < length (task_table s)" if "x \<in> set xs" for x
    using sched_inv_bound [OF assms(1) that] len by simp
  have p: "p \<in> set xs" using k by simp
  note h = hand_over_fields [OF b [OF p] b [OF assms(3)]]
  have ch: "chain (task_table (hand_over p c s)) (task_list (hand_over p c s)) xs"
    using assms(1) h b by (auto simp: sched_inv_def intro!: chain_cong [of "task_table s"])
  obtain j where j: "j < length xs" "c = xs ! j" using assms(3) by (metis in_set_conv_nth)
  have st: "t_state (task_table (hand_over p c s) ! i) \<in> {0, 3}" if "i \<in> set xs" "i \<noteq> c" for i
    using h(6) [OF b [OF that(1)]] that k(3) assms(1,2) by (auto simp: sched_inv_def)
  have "t_state (task_table (hand_over p c s) ! c) = 1" using h(6) [OF b [OF assms(3)]] by simp
  with ch len h(2,3,4) assms(1) j st show ?thesis
    by (auto simp: sched_inv_def)
qed

subsection \<open>What a switch leaves alone\<close>

lemma obind_RetE:
  assumes "obind m f = Ret b t"
  obtains a s where "m = Ret a s" "f a s = Ret b t"
  using assms by (cases m) auto

lemma store32_fields:
  assumes "store32 a v s = Ret u t"
  shows "\<exists>m. t = s\<lparr>mem := m\<rparr>"
  using assms by (auto simp: store32_def split: option.splits)

lemma load32_fields: "load32 a s = Ret v t \<Longrightarrow> t = s"
  by (auto simp: load32_def split: option.splits)

lemma push_view: "push v s = Ret u t \<Longrightarrow> sched_view t = sched_view s \<and> task_table t = task_table s"
  by (auto simp: push_def sched_view_def elim!: obind_RetE dest!: store32_fields)

lemma pop_view: "pop s = Ret v t \<Longrightarrow> sched_view t = sched_view s"
  by (auto simp: pop_def sched_view_def elim!: obind_RetE dest!: load32_fields)

lemma sched_view_updates [simp]:
  "sched_view (s\<lparr>reg_esp := v\<rparr>) = sched_view s" "sched_view (s\<lparr>reg_ebp := v\<rparr>) = sched_view s"
  "sched_view (s\<lparr>reg_ebx := v\<rparr>) = sched_view s" "sched_view (s\<lparr>reg_esi := v\<rparr>) = sched_view s"
  "sched_view (s\<lparr>reg_edi := v\<rparr>) = sched_view s"
  "sched_view (load_directory pd s) = sched_view s" "sched_view (set_kernel_stack a s) = sched_view s"
  "sched_view (cli s) = sched_view s" "sched_view (sti s) = sched_view s"
  by (simp_all add: sched_view_def load_directory_def write_cr3_def set_kernel_stack_def cli_def sti_def)

lemma nth_update_if: "xs[i := v] ! j = (if i = j \<and> i < length xs then v else xs ! j)"
  by (cases "i < length xs") (auto simp: nth_list_update list_update_beyond)

lemma sched_view_esp [simp]: "sched_view (upd_task i (t_esp_update f) s) = sched_view s"
  by (auto simp: sched_view_def upd_task_def nth_update_if intro!: nth_equalityI)

lemma switch_task_view:
  assumes "switch_task p c s = Ret a t"
  shows "sched_view t = sched_view s"
  using assms unfolding switch_task_def Let_def
  by (auto elim!: obind_RetE dest!: push_view pop_view)

lemma schedule_step:
  assumes "sched_inv xs s" "current_task s = Some (xs ! k)" "k < length xs" "schedule s = Ret r t"
  shows "sched_view t = (case List.find (ready (task_table s)) (others xs k) of
      None \<Rightarrow> sched_view s | Some c \<Rightarrow> sched_view (hand_over (xs ! k) c s))"
  using assms(4) unfolding schedule_eq [OF assms(1-3)]
  by (auto split: option.splits elim!: obind_RetE dest: switch_task_view)

subsection \<open>Nobody starves\<close>

text \<open>
  The states at \<open>N\<close> successive calls of \<open>schedule\<close>: between two calls the tasks leave the
  scheduler's data alone.
\<close>

definition sched_run :: "nat \<Rightarrow> (nat \<Rightarrow> 'a kern_scheme) \<Rightarrow> bool" where
  "sched_run N S \<longleftrightarrow> (\<forall>n < N. \<exists>r t. schedule (S n) = Ret r t \<and> sched_view (S (Suc n)) = sched_view t)"

lemma others_nth: "k < length xs \<Longrightarrow> e < length (others xs k) \<Longrightarrow> others xs k ! e = xs ! ((k + Suc e) mod length xs)"
  by (simp add: others_rotate nth_rotate)

lemma length_others: "k < length xs \<Longrightarrow> length (others xs k) = length xs - 1"
  by (simp add: others_def)

lemma run_reaches:
  assumes "sched_run d S" "sched_inv xs (S 0)" "current_task (S 0) = Some (xs ! k)" "k < length xs" "d < length xs"
    and "d \<noteq> 0 \<Longrightarrow> ready (task_table (S 0)) (xs ! ((k + d) mod length xs))"
  shows "\<exists>n \<le> d. current_task (S n) = Some (xs ! ((k + d) mod length xs))"
  using assms
proof (induction d arbitrary: S k rule: less_induct)
  case (less d)
  let ?i = "xs ! ((k + d) mod length xs)" and ?s = "S 0"
  show ?case
  proof (cases "d = 0")
    case True
    with less.prems(3,4) show ?thesis by simp
  next
    case False
    then have rdy: "ready (task_table ?s) ?i" using less.prems(6) by simp
    have "others xs k ! (d - 1) = ?i"
      using less.prems(4,5) False by (simp add: others_nth length_others)
    then have "?i \<in> set (others xs k)"
      using less.prems(4,5) False nth_mem [of "d - 1" "others xs k"] by (simp add: length_others)
    then obtain c where fc: "List.find (ready (task_table ?s)) (others xs k) = Some c"
      using rdy by (cases "List.find (ready (task_table ?s)) (others xs k)") (auto simp: find_None_iff)
    then obtain e where e: "e < length (others xs k)" "ready (task_table ?s) (others xs k ! e)"
      "c = others xs k ! e" "\<forall>j < e. \<not> ready (task_table ?s) (others xs k ! j)"
      by (auto simp: find_Some_iff)
    have ed: "Suc e \<le> d"
      using e(4) rdy \<open>others xs k ! (d - 1) = ?i\<close> False by (metis Suc_leI diff_Suc_1 not_less_eq not0_implies_Suc linorder_not_less)
    define k' where "k' = (k + Suc e) mod length xs"
    have "0 < length xs" using less.prems(4) by linarith
    then have k': "k' < length xs" "c = xs ! k'"
      using less.prems(4) e(1,3) by (simp_all add: k'_def others_nth del: add_Suc_right)
    have "(k' + (d - Suc e)) mod length xs = (k + Suc e + (d - Suc e)) mod length xs"
      unfolding k'_def by (rule mod_add_left_eq)
    also have "k + Suc e + (d - Suc e) = k + d" using ed by simp
    finally have kd: "(k' + (d - Suc e)) mod length xs = (k + d) mod length xs" .
    have cset: "c \<in> set xs" using k' by simp
    have cur: "t_state (task_table ?s ! (xs ! k)) \<noteq> 0"
      using less.prems(2,3) by (auto simp: sched_inv_def)
    then have ne: "xs ! k \<noteq> c" using e(2,3) by auto
    obtain r t where t: "schedule ?s = Ret r t" "sched_view (S 1) = sched_view t"
      using less.prems(1) False unfolding sched_run_def by (metis One_nat_def neq0_conv)
    then have v: "sched_view (S 1) = sched_view (hand_over (xs ! k) c ?s)"
      using schedule_step [OF less.prems(2-4) t(1)] fc by simp
    have inv: "sched_inv xs (S 1)"
      using hand_over_inv [OF less.prems(2,3) cset ne] v by (rule sched_inv_view)
    have len: "length (task_table ?s) = 32" using less.prems(2) by (simp add: sched_inv_def)
    have b: "x < length (task_table ?s)" if "x \<in> set xs" for x
      using sched_inv_bound [OF less.prems(2) that] len by simp
    have iset: "?i \<in> set xs" "xs ! k \<in> set xs" using less.prems(4) \<open>0 < length xs\<close> by simp_all
    note h = hand_over_fields [OF b [OF iset(2)] b [OF cset]]
    note vd = sched_view_eqD [OF v]
    have c1: "current_task (S 1) = Some (xs ! k')" using vd(2) h(2) k'(2) by simp
    show ?thesis
    proof (cases "?i = c")
      case True
      then show ?thesis using c1 k'(2) False by (intro exI [of _ 1]) auto
    next
      case False
      then have "ready (task_table (S 1)) ?i"
        using vd(4) [of ?i] h(3) h(6) [of ?i] b [OF iset(1)] rdy by auto
      then have "\<exists>n \<le> d - Suc e. current_task (S (Suc n)) = Some (xs ! ((k' + (d - Suc e)) mod length xs))"
        using less.prems(1,5) inv c1 k'(1) kd ed
        by (intro less.IH [of _ "\<lambda>n. S (Suc n)"]) (auto simp: sched_run_def)
      then obtain n where "n \<le> d - Suc e" "current_task (S (Suc n)) = Some ?i" using kd by auto
      then show ?thesis using ed by (intro exI [of _ "Suc n"]) auto
    qed
  qed
qed

subsection \<open>Words on a stack page\<close>

text \<open>Stores into the entries of one frame, and what is read back.\<close>

lemma store_entries:
  assumes "vm_ok s" "frame_aligned f" "unat f + 4096 \<le> ram_top s"
    "\<not> walk_frame (mem s) (current_page_directory s) f" "\<forall>(i, v) \<in> set ivs. unat i < 1024"
  defines "m \<equiv> fold (\<lambda>(i, v). wr32 (f + 4 * i) v) ivs (mem s)"
  shows "foreach ivs (\<lambda>(i, v). store32 (f + 4 * i) v) s = Ret () (s\<lparr>mem := m\<rparr>) \<and> vm_ok (s\<lparr>mem := m\<rparr>) \<and>
    \<not> walk_frame m (current_page_directory s) f \<and> (\<forall>a. \<not> in_frame f a \<longrightarrow> m a = mem s a)"
  using assms(1-5) unfolding m_def
proof (induction ivs arbitrary: s)
  case (Cons iv ivs)
  obtain i v where iv: "iv = (i, v)" by (cases iv)
  with Cons.prems have i: "unat i < 1024" by auto
  note st = frame_store32 [OF Cons.prems(1-4) i, of v]
  have "\<not> walk_frame (mem (s\<lparr>mem := wr32 (f + 4 * i) v (mem s)\<rparr>))
      (current_page_directory (s\<lparr>mem := wr32 (f + 4 * i) v (mem s)\<rparr>)) f"
    using st(3) by simp
  from Cons.IH [OF st(2) Cons.prems(2) _ this] Cons.prems(2,3,5) st(1) i iv show ?case
    by (auto simp: wr32_entry_outside)
qed simp

lemma fold_wr32_outside:
  assumes "frame_aligned f" "\<forall>(i, v) \<in> set ivs. unat i < 1024" "\<not> in_frame f a"
  shows "fold (\<lambda>(i, v). wr32 (f + 4 * i) v) ivs m a = m a"
  using assms(2)
  by (induction ivs arbitrary: m) (auto simp: wr32_entry_outside [OF assms(1) _ assms(3)])

lemma rd32_entries:
  assumes "frame_aligned f" "\<forall>(i, v) \<in> set ivs. unat i < 1024" "unat j < 1024"
  shows "rd32 (fold (\<lambda>(i, v). wr32 (f + 4 * i) v) ivs m) (f + 4 * j) =
    (case map_of (rev ivs) j of Some v \<Rightarrow> v | None \<Rightarrow> rd32 m (f + 4 * j))"
  using assms(2)
proof (induction ivs arbitrary: m)
  case (Cons iv ivs)
  then show ?case
    using assms(1,3) by (cases iv) (auto simp: map_add_def rd32_wr32_entry split: option.split)
qed simp

lemma rd32_other_frame:
  assumes "frame_aligned f" "frame_aligned g" "f \<noteq> g" "\<forall>(i, v) \<in> set ivs. unat i < 1024" "unat j < 1024"
  shows "rd32 (fold (\<lambda>(i, v). wr32 (f + 4 * i) v) ivs m) (g + 4 * j) = rd32 m (g + 4 * j)"
  using assms fold_wr32_outside [OF assms(1,4)]
  by (intro rd32_entry_cong) (auto dest: in_frame_unique)

lemma frame_load32:
  assumes "vm_ok s" "frame_aligned f" "unat f + 4096 \<le> ram_top s" "unat i < 1024"
  shows "load32 (f + 4 * i) s = Ret (rd32 (mem s) (f + 4 * i)) s"
proof -
  have "translate s (f + 4 * i) = Some (f + 4 * i)"
    using assms by (intro window_translate [OF assms(1)]) (simp add: unat_entry_addr)
  then show ?thesis by (simp add: access_ident)
qed

lemma build_frame_eq:
  "build_frame syms (f + 4096) ke s = foreach [(1023, ke), (1022, sym_task_exit syms),
     (1021, sym_task_kernel_bootstrap syms), (1020, 0), (1019, 0), (1018, 0), (1017, 0)]
     (\<lambda>(i, v). store32 (f + 4 * i) v) s"
  by (simp add: build_frame_def add.commute)

subsection \<open>A context switch\<close>

lemma vm_ok_kern_updates [simp]:
  "vm_ok (s\<lparr>reg_esp := v\<rparr>) = vm_ok s" "vm_ok (s\<lparr>reg_ebp := v\<rparr>) = vm_ok s" "vm_ok (s\<lparr>reg_ebx := v\<rparr>) = vm_ok s"
  "vm_ok (s\<lparr>reg_esi := v\<rparr>) = vm_ok s" "vm_ok (s\<lparr>reg_edi := v\<rparr>) = vm_ok s" "vm_ok (upd_task i f s) = vm_ok s"
  "vm_ok (s\<lparr>next_pid := p\<rparr>) = vm_ok s" "vm_ok (set_kernel_stack a r) = vm_ok r" "vm_ok (cli r) = vm_ok r"
  by (rule vm_ok_cong; simp add: upd_task_def set_kernel_stack_def cli_def)+

lemma push_entry:
  assumes "vm_ok s" "frame_aligned f" "unat f + 4096 \<le> ram_top s"
    "\<not> walk_frame (mem s) (current_page_directory s) f" "reg_esp s = f + 4 * i" "0 < unat i" "unat i \<le> 1024"
  shows "push v s = Ret () (s\<lparr>mem := wr32 (f + 4 * (i - 1)) v (mem s), reg_esp := f + 4 * (i - 1)\<rparr>)"
proof -
  have "i \<noteq> 0" using assms(6) by auto
  then have "unat (i - 1) < 1024"
    using assms(6,7) by (simp add: unat_minus_one)
  then show ?thesis
    using frame_store32(1) [OF assms(1-4), of "i - 1" v] by (simp add: push_def assms(5) add_diff_eq)
qed

lemma pop_entry:
  assumes "vm_ok s" "frame_aligned f" "unat f + 4096 \<le> ram_top s" "reg_esp s = f + 4 * i" "unat i < 1024"
  shows "pop s = Ret (rd32 (mem s) (f + 4 * i)) (s\<lparr>reg_esp := f + 4 * (i + 1)\<rparr>)"
  using frame_load32 [OF assms(1-3,5)] by (simp add: pop_def assms(4) algebra_simps)

lemma load_directory_mem: "load_directory pd (s\<lparr>mem := m\<rparr>) = (load_directory pd s)\<lparr>mem := m\<rparr>"
  by (simp add: load_directory_def write_cr3_def)

lemma load_directory_kern:
  "load_directory pd (s\<lparr>reg_esp := v\<rparr>) = (load_directory pd s)\<lparr>reg_esp := v\<rparr>"
  "load_directory pd (upd_task i f s) = upd_task i f (load_directory pd s)"
  "task_table (load_directory pd s) = task_table s" "reg_esp (load_directory pd s) = reg_esp s"
  "mem (load_directory pd s) = mem s" "pmm_st (load_directory pd s) = pmm_st s"
  by (simp_all add: load_directory_def write_cr3_def upd_task_def)

text \<open>The registers a switch saves, at the indexes below the entry \<open>j\<close> of the stack page.\<close>

definition saved_regs :: "u32 \<Rightarrow> 'a kern_scheme \<Rightarrow> (u32 \<times> u32) list" where
  "saved_regs j s = [(j - 1, reg_ebp s), (j - 2, reg_ebx s), (j - 3, reg_esi s), (j - 4, reg_edi s)]"

lemma unat_minus_small: "unat (k::u32) \<le> unat (j::u32) \<Longrightarrow> unat (j - k) = unat j - unat k"
  by (simp add: unat_sub word_le_nat_alt)

lemma saved_regs_index: "4 \<le> unat j \<Longrightarrow> unat j \<le> 1024 \<Longrightarrow> \<forall>(i, v) \<in> set (saved_regs j s). unat i < 1024"
  by (simp add: saved_regs_def unat_minus_small) linarith

lemma push_regs:
  assumes "vm_ok s" "frame_aligned g" "unat g + 4096 \<le> ram_top s"
    "\<not> walk_frame (mem s) (current_page_directory s) g" "reg_esp s = g + 4 * j" "4 \<le> unat j" "unat j \<le> 1024"
  defines "m \<equiv> fold (\<lambda>(i, v). wr32 (g + 4 * i) v) (saved_regs j s) (mem s)"
  shows "obind (push (reg_ebp s) s) (\<lambda>_ s1. obind (push (reg_ebx s1) s1) (\<lambda>_ s2.
      obind (push (reg_esi s2) s2) (\<lambda>_ s3. push (reg_edi s3) s3))) =
    Ret () (s\<lparr>mem := m, reg_esp := g + 4 * (j - 4)\<rparr>)"
    "vm_ok (s\<lparr>mem := m\<rparr>)"
proof -
  note st = store_entries [OF assms(1-4)]
  have idx: "unat (j - 1) = unat j - 1" "unat (j - 2) = unat j - 2" "unat (j - 3) = unat j - 3" "unat (j - 4) = unat j - 4"
    using assms(6) by (simp_all add: unat_minus_small)
  have lt: "unat j - Suc 0 < 1024" "unat j - 2 < 1024" "unat j - 3 < 1024"
    using assms(6,7) by linarith+
  show "vm_ok (s\<lparr>mem := m\<rparr>)"
    unfolding m_def using st [of "saved_regs j s"] saved_regs_index [OF assms(6,7)] by blast
  have step: "push v (s\<lparr>mem := fold (\<lambda>(i, v). wr32 (g + 4 * i) v) ivs (mem s), reg_esp := g + 4 * i\<rparr>) =
      Ret () (s\<lparr>mem := wr32 (g + 4 * (i - 1)) v (fold (\<lambda>(i, v). wr32 (g + 4 * i) v) ivs (mem s)), reg_esp := g + 4 * (i - 1)\<rparr>)"
    if "\<forall>(i, v) \<in> set ivs. unat i < 1024" "0 < unat i" "unat i \<le> 1024" for ivs i v
    using st [OF that(1)] assms(2,3) that(2,3)
      push_entry [of "s\<lparr>mem := fold (\<lambda>(i, v). wr32 (g + 4 * i) v) ivs (mem s), reg_esp := g + 4 * i\<rparr>" g i v]
    by simp
  have 1: "push (reg_ebp s) s = Ret () (s\<lparr>mem := wr32 (g + 4 * (j - 1)) (reg_ebp s) (mem s), reg_esp := g + 4 * (j - 1)\<rparr>)"
    using assms(6) by (intro push_entry [OF assms(1-5)]) (use assms(7) in auto)
  note 2 = step [of "[(j - 1, reg_ebp s)]" "j - 1" "reg_ebx s"]
  note 3 = step [of "[(j - 1, reg_ebp s), (j - 2, reg_ebx s)]" "j - 2" "reg_esi s"]
  note 4 = step [of "[(j - 1, reg_ebp s), (j - 2, reg_ebx s), (j - 3, reg_esi s)]" "j - 3" "reg_edi s"]
  have sub: "j - 1 - 1 = j - 2" "j - 2 - 1 = j - 3" "j - 3 - 1 = j - 4" by simp_all
  show "obind (push (reg_ebp s) s) (\<lambda>_ s1. obind (push (reg_ebx s1) s1) (\<lambda>_ s2.
      obind (push (reg_esi s2) s2) (\<lambda>_ s3. push (reg_edi s3) s3))) =
    Ret () (s\<lparr>mem := m, reg_esp := g + 4 * (j - 4)\<rparr>)"
    using 1 2 3 4 idx lt assms(6,7) unfolding sub m_def saved_regs_def by simp
qed

lemma unat_plus_small: "unat (l::u32) + unat (k::u32) < 2 ^ 32 \<Longrightarrow> unat (l + k) = unat l + unat k"
  by (simp add: unat_word_ariths)

lemma pop_regs:
  assumes "vm_ok u" "frame_aligned h" "unat h + 4096 \<le> ram_top u" "unat l + 5 \<le> 1024"
  shows "obind (pop (u\<lparr>reg_esp := h + 4 * l\<rparr>)) (\<lambda>v s. let s = s\<lparr>reg_edi := v\<rparr> in
          obind (pop s) (\<lambda>v s. let s = s\<lparr>reg_esi := v\<rparr> in
          obind (pop s) (\<lambda>v s. let s = s\<lparr>reg_ebx := v\<rparr> in
          obind (pop s) (\<lambda>v s. let s = s\<lparr>reg_ebp := v\<rparr> in pop s)))) =
      Ret (rd32 (mem u) (h + 4 * (l + 4))) (u\<lparr>reg_esp := h + 4 * (l + 5), reg_edi := rd32 (mem u) (h + 4 * l),
        reg_esi := rd32 (mem u) (h + 4 * (l + 1)), reg_ebx := rd32 (mem u) (h + 4 * (l + 2)),
        reg_ebp := rd32 (mem u) (h + 4 * (l + 3))\<rparr>)"
proof -
  have pop: "pop (t\<lparr>reg_esp := h + 4 * i\<rparr>) = Ret (rd32 (mem t) (h + 4 * i)) (t\<lparr>reg_esp := h + 4 * (i + 1)\<rparr>)"
    if "vm_ok t" "ram_top t = ram_top u" "unat i < 1024" for t :: "'a kern_scheme" and i
    using pop_entry [of "t\<lparr>reg_esp := h + 4 * i\<rparr>" h i] that assms(2,3) by simp
  have idx: "unat (l + 1) < 1024" "unat (l + 2) < 1024" "unat (l + 3) < 1024" "unat (l + 4) < 1024" "unat l < 1024"
    using assms(4) by (simp_all add: unat_plus_small)
  have add: "l + 1 + 1 = l + 2" "l + 2 + 1 = l + 3" "l + 3 + 1 = l + 4" "l + 4 + 1 = l + 5" by simp_all
  have reorder: "u\<lparr>reg_esp := a, reg_edi := b\<rparr> = u\<lparr>reg_edi := b, reg_esp := a\<rparr>"
    "u\<lparr>reg_edi := b, reg_esp := a, reg_esi := c\<rparr> = u\<lparr>reg_edi := b, reg_esi := c, reg_esp := a\<rparr>"
    "u\<lparr>reg_edi := b, reg_esi := c, reg_esp := a, reg_ebx := d\<rparr> = u\<lparr>reg_edi := b, reg_esi := c, reg_ebx := d, reg_esp := a\<rparr>"
    "u\<lparr>reg_edi := b, reg_esi := c, reg_ebx := d, reg_esp := a, reg_ebp := e\<rparr> =
     u\<lparr>reg_edi := b, reg_esi := c, reg_ebx := d, reg_ebp := e, reg_esp := a\<rparr>" for a b c d e
    by simp_all
  have p1: "pop (u\<lparr>reg_edi := b, reg_esp := h + 4 * (l + 1)\<rparr>) =
      Ret (rd32 (mem u) (h + 4 * (l + 1))) (u\<lparr>reg_edi := b, reg_esp := h + 4 * (l + 2)\<rparr>)" for b
    using pop [of "u\<lparr>reg_edi := b\<rparr>" "l + 1"] assms(1) idx(1) unfolding add by simp
  have p2: "pop (u\<lparr>reg_edi := b, reg_esi := c, reg_esp := h + 4 * (l + 2)\<rparr>) =
      Ret (rd32 (mem u) (h + 4 * (l + 2))) (u\<lparr>reg_edi := b, reg_esi := c, reg_esp := h + 4 * (l + 3)\<rparr>)" for b c
    using pop [of "u\<lparr>reg_edi := b, reg_esi := c\<rparr>" "l + 2"] assms(1) idx(2) unfolding add by simp
  have p3: "pop (u\<lparr>reg_edi := b, reg_esi := c, reg_ebx := d, reg_esp := h + 4 * (l + 3)\<rparr>) =
      Ret (rd32 (mem u) (h + 4 * (l + 3))) (u\<lparr>reg_edi := b, reg_esi := c, reg_ebx := d, reg_esp := h + 4 * (l + 4)\<rparr>)" for b c d
    using pop [of "u\<lparr>reg_edi := b, reg_esi := c, reg_ebx := d\<rparr>" "l + 3"] assms(1) idx(3) unfolding add by simp
  have p4: "pop (u\<lparr>reg_edi := b, reg_esi := c, reg_ebx := d, reg_ebp := e, reg_esp := h + 4 * (l + 4)\<rparr>) =
      Ret (rd32 (mem u) (h + 4 * (l + 4)))
        (u\<lparr>reg_edi := b, reg_esi := c, reg_ebx := d, reg_ebp := e, reg_esp := h + 4 * (l + 5)\<rparr>)" for b c d e
    using pop [of "u\<lparr>reg_edi := b, reg_esi := c, reg_ebx := d, reg_ebp := e\<rparr>" "l + 4"] assms(1) idx(4) unfolding add by simp
  show ?thesis
    by (simp only: Let_def pop [OF assms(1) refl idx(5)] obind.simps reorder p1 p2 p3 p4)
qed

lemma switch_task_alt:
  "switch_task current nxt s =
     obind (obind (push (reg_ebp s) s) (\<lambda>_ s1. obind (push (reg_ebx s1) s1) (\<lambda>_ s2.
      obind (push (reg_esi s2) s2) (\<lambda>_ s3. push (reg_edi s3) s3)))) (\<lambda>_ s.
       let s = upd_task current (t_esp_update (\<lambda>_. reg_esp s)) s;
           s = s\<lparr>reg_esp := t_esp (task_table s ! nxt)\<rparr>;
           s = load_directory (t_page_directory (task_table s ! nxt)) s;
           s = set_kernel_stack (t_kstack (task_table s ! nxt)) s
       in obind (pop s) (\<lambda>v s. let s = s\<lparr>reg_edi := v\<rparr> in
          obind (pop s) (\<lambda>v s. let s = s\<lparr>reg_esi := v\<rparr> in
          obind (pop s) (\<lambda>v s. let s = s\<lparr>reg_ebx := v\<rparr> in
          obind (pop s) (\<lambda>v s. let s = s\<lparr>reg_ebp := v\<rparr> in pop s)))))"
  by (simp add: switch_task_def obind_assoc)

text \<open>
  \<open>stack_at s g j\<close>: the stack pointer is entry \<open>j\<close> of the frame \<open>g\<close>, a RAM frame that holds no
  page table of the active directory nor of \<open>pd\<close>, with room for four more words.
\<close>

definition stack_at :: "'a kern_scheme \<Rightarrow> u32 \<Rightarrow> u32 \<Rightarrow> u32 \<Rightarrow> bool" where
  "stack_at s pd g j \<longleftrightarrow> frame_aligned g \<and> unat g + 4096 \<le> ram_top s \<and>
     \<not> walk_frame (mem s) (current_page_directory s) g \<and> \<not> walk_frame (mem s) pd g \<and>
     reg_esp s = g + 4 * j \<and> 4 \<le> unat j \<and> unat j \<le> 1024"

text \<open>\<open>context_at s i h l\<close>: the saved stack pointer of task \<open>i\<close> is entry \<open>l\<close> of the RAM frame \<open>h\<close>.\<close>

definition context_at :: "'a kern_scheme \<Rightarrow> nat \<Rightarrow> u32 \<Rightarrow> u32 \<Rightarrow> bool" where
  "context_at s i h l \<longleftrightarrow> i < length (task_table s) \<and> frame_aligned h \<and> unat h + 4096 \<le> ram_top s \<and>
     t_esp (task_table s ! i) = h + 4 * l \<and> unat l + 5 \<le> 1024"

lemma load_directory_simps [simp]:
  "current_page_directory (load_directory pd s) = (if pd = cr3 s then current_page_directory s else pd)"
  "cr3 (load_directory pd s) = pd"
  by (simp_all add: load_directory_def write_cr3_def)

lemma switch_state:
  "set_kernel_stack k (load_directory p ((upd_task i f (s\<lparr>mem := m, reg_esp := x\<rparr>))\<lparr>reg_esp := y\<rparr>)) =
   (set_kernel_stack k (load_directory p (upd_task i f (s\<lparr>mem := m\<rparr>))))\<lparr>reg_esp := y\<rparr>"
  by (cases s) (simp add: set_kernel_stack_def load_directory_def write_cr3_def upd_task_def)

lemma upd_task_nth:
  "i \<noteq> j \<Longrightarrow> task_table (upd_task i f s) ! j = task_table s ! j"
  "task_table (s\<lparr>mem := m\<rparr>) = task_table s" "reg_esp (s\<lparr>mem := m\<rparr>) = reg_esp s"
  by (simp_all add: upd_task_def)

lemma switch_task_spec:
  fixes s :: "'a kern_scheme"
  defines "pd \<equiv> \<lambda>nxt. t_page_directory (task_table s ! nxt)"
  assumes ok: "vm_ok s" "vm_ok (load_directory (pd nxt) s)"
    and st: "stack_at s (pd nxt) g j" and cx: "context_at s nxt h l"
    and ne: "cur \<noteq> nxt" "h \<noteq> g" "cur < length (task_table s)"
  defines "m \<equiv> fold (\<lambda>(i, v). wr32 (g + 4 * i) v) (saved_regs j s) (mem s)"
  shows "switch_task cur nxt s = Ret (rd32 (mem s) (h + 4 * (l + 4)))
    ((set_kernel_stack (t_kstack (task_table s ! nxt)) (load_directory (pd nxt)
       (upd_task cur (t_esp_update (\<lambda>_. g + 4 * (j - 4))) (s\<lparr>mem := m\<rparr>))))
     \<lparr>reg_esp := h + 4 * (l + 5), reg_edi := rd32 (mem s) (h + 4 * l), reg_esi := rd32 (mem s) (h + 4 * (l + 1)),
      reg_ebx := rd32 (mem s) (h + 4 * (l + 2)), reg_ebp := rd32 (mem s) (h + 4 * (l + 3))\<rparr>)"
    "vm_ok ((load_directory (pd nxt) s)\<lparr>mem := m\<rparr>)"
proof -
  have sa: "frame_aligned g" "unat g + 4096 \<le> ram_top s" "\<not> walk_frame (mem s) (current_page_directory s) g"
    "\<not> walk_frame (mem s) (pd nxt) g" "reg_esp s = g + 4 * j" "4 \<le> unat j" "unat j \<le> 1024"
    using st by (auto simp: stack_at_def)
  have ca: "nxt < length (task_table s)" "frame_aligned h" "unat h + 4096 \<le> ram_top s"
    "t_esp (task_table s ! nxt) = h + 4 * l" "unat l + 5 \<le> 1024"
    using cx by (auto simp: context_at_def)
  note pr = push_regs [OF ok(1) sa(1-3,5-7), folded m_def]
  have out: "m a = mem s a" if "\<not> in_frame g a" for a
    unfolding m_def by (rule fold_wr32_outside [OF sa(1) saved_regs_index [OF sa(6,7)] that])
  show vm: "vm_ok ((load_directory (pd nxt) s)\<lparr>mem := m\<rparr>)"
    using sa(3,4) out by (intro data_write(3) [OF ok(2)]) (auto simp: load_directory_kern)
  have rd: "rd32 m (h + 4 * i) = rd32 (mem s) (h + 4 * i)" if "unat i < 1024" for i
    unfolding m_def using ne(2) by (intro rd32_other_frame [OF sa(1) ca(2) _ saved_regs_index [OF sa(6,7)] that]) auto
  let ?u = "set_kernel_stack (t_kstack (task_table s ! nxt)) (load_directory (pd nxt)
       (upd_task cur (t_esp_update (\<lambda>_. g + 4 * (j - 4))) (s\<lparr>mem := m\<rparr>)))"
  have u: "vm_ok ?u" "mem ?u = m" "ram_top ?u = ram_top s"
    using vm by (simp_all add: load_directory_kern load_directory_mem)
       (simp_all add: set_kernel_stack_def upd_task_def load_directory_kern)
  have idx: "unat (l + 1) < 1024" "unat (l + 2) < 1024" "unat (l + 3) < 1024" "unat (l + 4) < 1024" "unat l < 1024"
    using ca(5) by (simp_all add: unat_plus_small)
  have pops: "obind (pop (?u\<lparr>reg_esp := h + 4 * l\<rparr>)) (\<lambda>v s. let s = s\<lparr>reg_edi := v\<rparr> in
          obind (pop s) (\<lambda>v s. let s = s\<lparr>reg_esi := v\<rparr> in
          obind (pop s) (\<lambda>v s. let s = s\<lparr>reg_ebx := v\<rparr> in
          obind (pop s) (\<lambda>v s. let s = s\<lparr>reg_ebp := v\<rparr> in pop s)))) =
      Ret (rd32 m (h + 4 * (l + 4))) (?u\<lparr>reg_esp := h + 4 * (l + 5), reg_edi := rd32 m (h + 4 * l),
        reg_esi := rd32 m (h + 4 * (l + 1)), reg_ebx := rd32 m (h + 4 * (l + 2)), reg_ebp := rd32 m (h + 4 * (l + 3))\<rparr>)"
    using pop_regs [OF u(1) ca(2) _ ca(5)] ca(3) u(2,3) by simp
  have "switch_task cur nxt s = obind (pop (?u\<lparr>reg_esp := h + 4 * l\<rparr>)) (\<lambda>v s. let s = s\<lparr>reg_edi := v\<rparr> in
          obind (pop s) (\<lambda>v s. let s = s\<lparr>reg_esi := v\<rparr> in
          obind (pop s) (\<lambda>v s. let s = s\<lparr>reg_ebx := v\<rparr> in
          obind (pop s) (\<lambda>v s. let s = s\<lparr>reg_ebp := v\<rparr> in pop s))))"
    unfolding switch_task_alt pr(1) using ca(4) ne(1)
    by (simp add: Let_def pd_def upd_task_nth switch_state load_directory_kern(3))
  then show "switch_task cur nxt s = Ret (rd32 (mem s) (h + 4 * (l + 4))) (?u
     \<lparr>reg_esp := h + 4 * (l + 5), reg_edi := rd32 (mem s) (h + 4 * l), reg_esi := rd32 (mem s) (h + 4 * (l + 1)),
      reg_ebx := rd32 (mem s) (h + 4 * (l + 2)), reg_ebp := rd32 (mem s) (h + 4 * (l + 3))\<rparr>)"
    unfolding pops rd [OF idx(1)] rd [OF idx(2)] rd [OF idx(3)] rd [OF idx(4)] rd [OF idx(5)] .
qed

subsection \<open>Creating a task\<close>

text \<open>Mapping a RAM frame onto itself needs no memory once paging is on.\<close>

lemma remap_ram_frame:
  assumes ok: "vm_ok s" "paging_on s" and f: "frame_aligned f" "unat f + 4096 \<le> ram_top s"
    "block_of f \<in> used_blocks s" "\<not> walk_frame (mem s) (current_page_directory s) f"
    and fl: "fl AND 1 \<noteq> 0" "fl AND 0xFFFFF000 = 0"
  obtains t where "vmm_map_page f f fl s = Ret () t" "vm_ok t" "extends s t" "pmm_st t = pmm_st s"
    "\<not> walk_frame (mem t) (current_page_directory t) f" "\<And>a. in_frame f a \<Longrightarrow> mem t a = mem s a"
    "\<And>b. vm_lookup t b = (if vpn b = vpn f then Some (f OR fl) else vm_lookup s b)"
    "mem t = wr32 (frame_of (pde_of (mem s) (current_page_directory s) (pdx f)) + 4 * ptx f) (f OR fl) (mem s)"
proof -
  have "unat f < ram_top s" using f(2) by linarith
  then obtain pte where "vm_lookup s f = Some pte"
    using vm_okD(6) [OF ok] unfolding ram_window_def by blast
  then have tab: "has_table s (pdx f)"
    by (auto simp: has_table_def page_walk_def Let_def split: if_splits)
  have "(f OR fl) AND 1 \<noteq> 0" "frame_of (f OR fl) = f"
    using fl f(1) by (simp_all add: flag_or_frame frame_or_flags)
  moreover from this have win: "window_safe f (f OR fl) s"
    using f(1) by (simp add: window_safe_def frame_of_aligned)
  note sp = store_pte_spec [OF ok(1) tab win]
  moreover have "mem (invlpg f (store_pte f (f OR fl) s)) =
      wr32 (frame_of (pde_of (mem s) (current_page_directory s) (pdx f)) + 4 * ptx f) (f OR fl) (mem s)"
    by (simp add: store_pte_def invlpg_def)
  ultimately show thesis
    using sp(1,2,4,5) extends_fields(9) [OF sp(4)] f(3,4)
    by (intro that [OF map_present [OF ok(1) tab]]) (auto simp: extends_def)
qed

text \<open>The record of a task that is about to run for the first time on the stack page \<open>f\<close>.\<close>

definition fresh_task :: "u32 \<Rightarrow> u32 \<Rightarrow> u32 \<Rightarrow> u32 \<Rightarrow> task \<Rightarrow> task" where
  "fresh_task n f entry dir t = t\<lparr>t_pid := n, t_state := TASK_STATE_READY, t_page_directory := dir,
     t_kstack := f + 4096, t_eip := entry, t_esp := f + 4096 - 28\<rparr>"

definition first_frame :: "symbols \<Rightarrow> u32 \<Rightarrow> u32 list" where
  "first_frame syms ke = [0, 0, 0, 0, sym_task_kernel_bootstrap syms, sym_task_exit syms, ke]"

text \<open>The kernel stack of a new task: a cleared block that ring 3 cannot reach.\<close>

lemma create_stack:
  fixes s :: "'a kern_scheme"
  assumes ok: "vm_ok s" "paging_on s" and free: "used_blocks s \<noteq> all_blocks (pmm_st s)"
  obtains f s1 s2 t where "alloc_block (cli s) = (f, s1)" "memset f 0 4096 s1 = Ret f s2" "vmm_map_page f f 3 s2 = Ret () t"
    "vm_ok t" "extends (cli s) t" "frame_aligned f" "f \<noteq> 0" "block_of f \<notin> used_blocks s" "used_blocks t = insert (block_of f) (used_blocks s)"
    "unat f + 4096 \<le> ram_top t" "\<not> walk_frame (mem t) (current_page_directory t) f"
    "\<And>b. vm_lookup t b = (if vpn b = vpn f then Some (f OR 3) else vm_lookup s b)"
    "\<And>a. \<not> in_frame f a \<Longrightarrow>
       mem t a = wr32 (frame_of (pde_of (mem s) (current_page_directory s) (pdx f)) + 4 * ptx f) (f OR 3) (mem s) a"
proof -
  obtain f q where al: "pmm_alloc_block (pmm_st s) = (f, q)" by (metis surj_pair)
  have f0: "f \<noteq> 0"
    using free fa.alloc_null_iff [OF vm_okD(1,2) [OF ok(1)]] al by (simp add: all_blocks_def)
  note fr = fresh_frame [OF ok(1) al f0]
  define s1 where "s1 = (cli s)\<lparr>pmm_st := q\<rparr>"
  define m where "m = (\<lambda>a. if in_frame f a then 0 else mem s a)"
  define s2 where "s2 = s1\<lparr>mem := m\<rparr>"
  have s1: "mem s1 = mem s" "pmm_st s1 = q" "current_page_directory s1 = current_page_directory s"
    by (simp_all add: s1_def cli_def)
  have ok1: "vm_ok s1" by (rule vm_ok_alloc [OF ok(1) al f0]) (simp_all add: s1_def cli_def)
  have ram: "unat f + 4096 \<le> ram_top s1" using fr(3,6) by (simp add: s1)
  have nw: "\<not> walk_frame (mem s1) (current_page_directory s1) f" using fr(7) by (simp add: s1)
  have ms: "memset f 0 4096 s1 = Ret f s2"
    using memset_frame [OF fr(1) ident_under_frame [OF ok1 fr(1) ram nw], of 0]
    by (simp add: s2_def m_def s1 cong: if_cong)
  have out: "m a = mem s1 a" if "\<not> in_frame f a" for a using that by (simp add: m_def s1)
  have ok2: "vm_ok s2" unfolding s2_def by (rule data_write(3) [OF ok1 nw out])
  have s2: "pmm_st s2 = q" "current_page_directory s2 = current_page_directory s" "paging_on s2" "mem s2 = m"
    using s1 ok(2) by (simp_all add: s2_def s1_def cli_def paging_on_def)
  have w2: "walk_frame (mem s2) (current_page_directory s2) g = walk_frame (mem s) (current_page_directory s) g" for g
    using data_write(2) [OF ok1 nw out, of g] by (simp add: s2 s1)
  have nw2: "\<not> walk_frame (mem s2) (current_page_directory s2) f" using w2 nw by (simp add: s1)
  have fl: "(3::u32) AND 1 \<noteq> 0" "(3::u32) AND 0xFFFFF000 = 0" by simp_all
  have ram2: "unat f + 4096 \<le> ram_top s2" "block_of f \<in> used_blocks s2" using ram fr(4) by (simp_all add: s2 s1)
  obtain t where t: "vmm_map_page f f 3 s2 = Ret () t" "vm_ok t" "extends s2 t" "pmm_st t = pmm_st s2"
    "\<not> walk_frame (mem t) (current_page_directory t) f"
    "\<And>b. vm_lookup t b = (if vpn b = vpn f then Some (f OR 3) else vm_lookup s2 b)"
    "mem t = wr32 (frame_of (pde_of (mem s2) (current_page_directory s2) (pdx f)) + 4 * ptx f) (f OR 3) (mem s2)"
    by (rule remap_ram_frame [OF ok2 s2(3) fr(1) ram2 nw2 fl]) (rule that)
  have ext: "extends (cli s) t"
  proof -
    have "t = (cli s)\<lparr>mem := mem t, tlb := tlb t, pmm_st := pmm_st t\<rparr>"
      using t(3) by (auto simp: extends_def s2_def s1_def cli_def)
    moreover have "mem t a = mem s a" if "block_of g \<in> used_blocks s" "\<not> walk_frame (mem s) (current_page_directory s) g" "in_frame g a" for g a
    proof -
      have "\<not> in_frame f a" using that(1,3) fr(2) in_frame_unique by metis
      then show ?thesis using extends_frame [OF t(3), of g a] w2 that fr(4) by (simp add: s2 m_def)
    qed
    ultimately show ?thesis using t(3,4) fr(4,6) w2 by (auto simp: extends_def s2 cli_def)
  qed
  have "pde_of m (current_page_directory s) i = pde_of (mem s) (current_page_directory s) i" if "unat i < 1024" for i
    using vm_okD(4) [OF ok(1)] that nw by (intro rd32_entry_cong) (auto simp: m_def s1 walk_frame_def dest: in_frame_unique)
  then have pde: "pde_of m (current_page_directory s) (pdx f) = pde_of (mem s) (current_page_directory s) (pdx f)" by simp
  have look: "vm_lookup s2 b = vm_lookup s b" for b using data_write(1) [OF ok1 nw out, of b] by (simp add: s2 s1)
  have run: "alloc_block (cli s) = (f, s1)" by (simp add: alloc_block_def s1_def al cli_def)
  have same: "mem t a = wr32 (frame_of (pde_of (mem s) (current_page_directory s) (pdx f)) + 4 * ptx f) (f OR 3) (mem s) a"
    if "\<not> in_frame f a" for a
    using t(7) that by (simp add: s2 pde) (simp add: wr32_def m_def)
  show thesis
    by (rule that [OF run ms t(1,2) ext fr(1) f0 fr(2)])
      (use t(4-6) same look ram2(1) fr(4) extends_fields(12) [OF t(3)] in \<open>simp_all add: s2\<close>)
qed

text \<open>The words of the first switch, where \<open>build_frame\<close> puts them.\<close>

definition frame_entries :: "symbols \<Rightarrow> u32 \<Rightarrow> (u32 \<times> u32) list" where
  "frame_entries syms ke = [(1023, ke), (1022, sym_task_exit syms), (1021, sym_task_kernel_bootstrap syms),
     (1020, 0), (1019, 0), (1018, 0), (1017, 0)]"

lemma frame_entries_idx: "\<forall>(i, v) \<in> set (frame_entries syms ke). unat i < 1024"
  by (simp add: frame_entries_def)

lemma frame_entries_read:
  assumes "frame_aligned f" "k < 7"
  shows "rd32 (fold (\<lambda>(i, v). wr32 (f + 4 * i) v) (frame_entries syms ke) m) (f + 4 * (1017 + of_nat k)) = first_frame syms ke ! k"
proof -
  have "unat (1017 + of_nat k :: u32) < 1024" using assms(2) by (simp add: unat_plus_small unat_of_nat)
  note rd = rd32_entries [OF assms(1) frame_entries_idx this]
  consider "k = 0" | "k = 1" | "k = 2" | "k = 3" | "k = 4" | "k = 5" | "k = 6" using assms(2) by linarith
  then show ?thesis unfolding rd by cases (simp_all add: frame_entries_def first_frame_def)
qed

text \<open>\<open>task_create\<close> up to the point where the task is linked into the list.\<close>

lemma task_create_run:
  fixes s :: "'a kern_scheme" and entry page_dir :: u32
  assumes ok: "vm_ok s" "paging_on s" and len: "length (task_table s) = MAX_TASKS"
    and slot: "find_slot (task_table s) = Some i" and free: "used_blocks s \<noteq> all_blocks (pmm_st s)"
    and ke: "ke = (if is_user then sym_task_user_bootstrap syms else entry)"
    and dir: "dir = (if page_dir \<noteq> 0 then page_dir else cr3 s)"
  obtains t f where "task_create syms entry page_dir is_user s = obind (append_task i t) (\<lambda>_ t. Ret (Some i) t)"
    "vm_ok t" "paging_on t" "\<not> iflag t" "next_pid t = next_pid s + 1"
    "frame_aligned f" "f \<noteq> 0" "block_of f \<notin> used_blocks s" "used_blocks t = insert (block_of f) (used_blocks s)"
    "ram_top t = ram_top s" "cr3 t = cr3 s" "current_page_directory t = current_page_directory s"
    "\<not> walk_frame (mem t) (current_page_directory t) f"
    "task_table t = (task_table s)[i := fresh_task (next_pid s) f entry dir (task_table s ! i)]"
    "task_list t = task_list s" "current_task t = current_task s"
    "\<And>k. k < 7 \<Longrightarrow> rd32 (mem t) (f + 4 * (1017 + of_nat k)) = first_frame syms ke ! k"
    "\<And>b. vm_lookup t b = (if vpn b = vpn f then Some (f OR 3) else vm_lookup s b)"
    "\<And>g. block_of g \<in> used_blocks s \<Longrightarrow> \<not> walk_frame (mem s) (current_page_directory s) g \<Longrightarrow>
       \<not> walk_frame (mem t) (current_page_directory t) g \<and> (\<forall>a. in_frame g a \<longrightarrow> mem t a = mem s a)"
    "reg_esp t = reg_esp s"
    "\<And>a. \<not> in_frame f a \<Longrightarrow>
       mem t a = wr32 (frame_of (pde_of (mem s) (current_page_directory s) (pdx f)) + 4 * ptx f) (f OR 3) (mem s) a"
proof -
  obtain f s1 s2 s3 where st: "alloc_block (cli s) = (f, s1)" "memset f 0 4096 s1 = Ret f s2" "vmm_map_page f f 3 s2 = Ret () s3"
    "vm_ok s3" "extends (cli s) s3" "frame_aligned f" "f \<noteq> 0" "block_of f \<notin> used_blocks s" "used_blocks s3 = insert (block_of f) (used_blocks s)"
    "unat f + 4096 \<le> ram_top s3" "\<not> walk_frame (mem s3) (current_page_directory s3) f"
    "\<And>b. vm_lookup s3 b = (if vpn b = vpn f then Some (f OR 3) else vm_lookup s b)"
    "\<And>a. \<not> in_frame f a \<Longrightarrow>
       mem s3 a = wr32 (frame_of (pde_of (mem s) (current_page_directory s) (pdx f)) + 4 * ptx f) (f OR 3) (mem s) a"
    by (rule create_stack [OF ok free]) (rule that)
  note e3 = extends_fields [OF st(5)]
  obtain m3 l3 q3 where s3: "s3 = (cli s)\<lparr>mem := m3, tlb := l3, pmm_st := q3\<rparr>" using st(5) by (auto simp: extends_def)
  define s4 where "s4 = upd_task i (\<lambda>t. t\<lparr>t_pid := next_pid s3, t_state := 0,
      t_page_directory := (if page_dir \<noteq> 0 then page_dir else read_cr3 s3),
      t_kstack := f + 4096, t_eip := entry\<rparr>) (s3\<lparr>next_pid := next_pid s3 + 1\<rparr>)"
  have ok4: "vm_ok s4" using st(4) by (simp add: s4_def)
  have s4: "mem s4 = mem s3" "pmm_st s4 = pmm_st s3" "current_page_directory s4 = current_page_directory s3"
    by (simp_all add: s4_def upd_task_def)
  define m5 where "m5 = fold (\<lambda>(i, v). wr32 (f + 4 * i) v) (frame_entries syms ke) (mem s3)"
  have bf: "build_frame syms (f + 4096) ke s4 = Ret () (s4\<lparr>mem := m5\<rparr>)" "vm_ok (s4\<lparr>mem := m5\<rparr>)"
    "\<not> walk_frame m5 (current_page_directory s4) f"
    using store_entries [OF ok4 st(6) _ _ frame_entries_idx] st(10,11)
    unfolding build_frame_eq frame_entries_def [symmetric] s4 m5_def by simp_all
  have i: "i < 32" using slot by (auto simp: find_slot_def find_Some_iff)
  define t where "t = upd_task i (t_esp_update (\<lambda>_. f + 4096 - 28)) (s4\<lparr>mem := m5\<rparr>)"
  have t: "mem t = m5" "pmm_st t = pmm_st s3" "current_page_directory t = current_page_directory s" "cr3 t = cr3 s"
    "\<not> iflag t" "paging_on t" "next_pid t = next_pid s + 1" "task_list t = task_list s"
    "current_task t = current_task s" "reg_esp t = reg_esp s" "vm_ok t"
    using ok(2) bf(2) by (simp_all add: t_def) (simp_all add: s4_def upd_task_def s3 cli_def paging_on_def)
  have tbl: "task_table t = (task_table s)[i := fresh_task (next_pid s) f entry dir (task_table s ! i)]"
    using i len by (simp add: t_def s4_def upd_task_def fresh_task_def dir read_cr3_def s3 cli_def)
  have m5: "m5 a = mem s3 a" if "\<not> in_frame f a" for a
    unfolding m5_def by (rule fold_wr32_outside [OF st(6) frame_entries_idx that])
  have "find_slot (task_table (cli s)) = Some i" "(1::u32) OR 2 = 3" using slot by (simp_all add: cli_def)
  then have run: "task_create syms entry page_dir is_user s = obind (append_task i t) (\<lambda>_ t. Ret (Some i) t)"
    using st(1-3,7) bf(1) unfolding t_def by (simp add: task_create_def Let_def ke s4_def [symmetric])
  have nw4: "\<not> walk_frame (mem s4) (current_page_directory s4) f" using st(11) by (simp add: s4)
  have cd: "current_page_directory s3 = current_page_directory s" "ram_top s3 = ram_top s" using e3(9,12) by (simp_all add: cli_def)
  have look: "vm_lookup t b = (if vpn b = vpn f then Some (f OR 3) else vm_lookup s b)" for b
    using data_write(1) [OF ok4 nw4, of m5 b] m5 st(12) by (simp add: t s4 cd)
  have keep: "\<not> walk_frame (mem t) (current_page_directory t) g \<and> (\<forall>a. in_frame g a \<longrightarrow> mem t a = mem s a)"
    if g: "block_of g \<in> used_blocks s" "\<not> walk_frame (mem s) (current_page_directory s) g" for g
  proof -
    have w: "\<not> walk_frame (mem s3) (current_page_directory s) g" "\<And>a. in_frame g a \<Longrightarrow> mem s3 a = mem s a"
      using st(5) g by (auto simp: extends_def cli_def)
    have "g \<noteq> f" using g(1) st(8) by auto
    then have "mem t a = mem s a" if "in_frame g a" for a using m5 [of a] w(2) [OF that] that in_frame_unique by (metis t(1))
    then show ?thesis using data_write(2) [OF ok4 nw4, of m5 g] m5 w(1) by (simp add: t s4 cd)
  qed
  show thesis
    by (rule that [OF run t(11,6,5,7) st(6-8) _ _ t(4,3) _ tbl t(8,9) _ look keep t(10)])
      (use st(9,13) bf(3) m5 frame_entries_read [OF st(6)] in \<open>simp_all add: t s4 cd\<close>, simp add: m5_def)
qed

text \<open>Linking a slot that is not on the list keeps the scheduler's invariant.\<close>

lemma append_task_inv:
  assumes inv: "sched_inv xs s" and i: "i \<notin> set xs" "i < MAX_TASKS"
    and t: "task_table t = (task_table s)[i := r]" "task_list t = task_list s" "current_task t = current_task s"
    and r: "t_pid r \<noteq> 0" "t_state r = TASK_STATE_READY"
  obtains u where "append_task i t = Ret () u" "sched_inv (xs @ [i]) u" "task_table u ! i = r\<lparr>t_next := None\<rparr>"
    "u = t\<lparr>task_table := task_table u\<rparr>" "\<And>j. j \<noteq> i \<Longrightarrow> \<exists>n. task_table u ! j = (task_table s ! j)\<lparr>t_next := n\<rparr>"
proof -
  have len: "length (task_table s) = 32" and ch: "chain (task_table s) (task_list s) xs" "distinct xs"
    using inv by (auto simp: sched_inv_def)
  have xs: "xs \<noteq> []" "task_list s = Some (hd xs)"
    using inv by (cases xs; auto simp: sched_inv_def)+
  have ch': "chain (task_table t) (task_list t) xs"
    using ch i(1) by (auto simp: t nth_update_if intro!: chain_cong [of "task_table s"])
  then have last: "last_task (task_table t) (hd xs) = Some (last xs)"
    using xs t(2) by (intro last_task_chain) simp
  define u where "u = upd_task i (t_next_update (\<lambda>_. None)) (upd_task (last xs) (t_next_update (\<lambda>_. Some i)) t)"
  have app: "append_task i t = Ret () u"
    using last xs(2) by (simp add: append_task_def t(2) u_def)
  have lx: "last xs \<noteq> i" using xs(1) i(1) by (auto dest: last_in_set)
  have tbl: "task_table u = (let tb = (task_table t)[last xs := (task_table t ! last xs)\<lparr>t_next := Some i\<rparr>]
      in tb[i := (tb ! i)\<lparr>t_next := None\<rparr>])"
    by (simp add: u_def upd_task_def Let_def)
  have ti: "task_table u ! i = r\<lparr>t_next := None\<rparr>"
    using i(2) len lx by (simp add: tbl t(1) Let_def)
  have tj: "t_state (task_table u ! j) = t_state (task_table s ! j)" "t_pid (task_table u ! j) = t_pid (task_table s ! j)"
    if "j \<noteq> i" for j
    using that by (simp_all add: tbl t(1) Let_def nth_update_if)
  have old: "\<exists>n. task_table u ! j = (task_table s ! j)\<lparr>t_next := n\<rparr>" if "j \<noteq> i" for j
  proof (cases "j = last xs \<and> j < length (task_table s)")
    case True
    then show ?thesis using that by (auto simp: tbl t(1) Let_def nth_update_if)
  next
    case False
    then have "task_table u ! j = (task_table s ! j)\<lparr>t_next := t_next (task_table s ! j)\<rparr>"
      using that by (auto simp: tbl t(1) Let_def nth_update_if)
    then show ?thesis ..
  qed
  have cur: "current_task u = current_task s" "task_list u = task_list s"
    using t(2,3) by (simp_all add: u_def upd_task_def)
  have "chain (task_table u) (task_list u) (xs @ [i])"
    using chain_append [of "task_table t" "hd xs" xs i] ch' xs(2) i ch(2) len
    by (simp add: tbl cur t(1,2) Let_def)
  moreover obtain k where k: "k < length xs" "current_task s = Some (xs ! k)" "t_state (task_table s ! (xs ! k)) \<in> {1, 3}"
    using inv by (auto simp: sched_inv_def)
  then have "xs ! k \<noteq> i" using i(1) by auto
  with k have "\<exists>k < length (xs @ [i]). current_task u = Some ((xs @ [i]) ! k) \<and>
      t_state (task_table u ! ((xs @ [i]) ! k)) \<in> {1, 3}"
    by (intro exI [of _ k]) (simp add: cur tj nth_append)
  moreover have "t_state (task_table u ! j) \<in> {0, 3}" if "j \<in> set (xs @ [i])" "Some j \<noteq> current_task u" for j
  proof (cases "j = i")
    case True
    then show ?thesis by (simp add: ti r)
  next
    case False
    with that have "j \<in> set xs" "Some j \<noteq> current_task s" by (auto simp: cur)
    then show ?thesis using inv tj(1) [OF False] unfolding sched_inv_def by metis
  qed
  moreover have "j \<in> set (xs @ [i]) \<longleftrightarrow> t_pid (task_table u ! j) \<noteq> 0" if "j < 32" for j
    using that inv tj(2) [of j] ti r(1) by (cases "j = i") (auto simp: sched_inv_def)
  moreover have "length (task_table u) = 32" using len by (simp add: tbl t(1) Let_def)
  moreover have "distinct (xs @ [i])" using ch(2) i(1) by simp
  ultimately have "sched_inv (xs @ [i]) u" unfolding sched_inv_def by blast
  moreover have "u = t\<lparr>task_table := task_table u\<rparr>" by (simp add: u_def upd_task_def)
  ultimately show thesis
    using app ti old by (intro that [of u])
qed

text \<open>
  Linking a slot that is still on the list, not in the last place: the list now ends there.
\<close>

lemma append_task_listed:
  assumes inv: "sched_inv xs s" and k: "Suc k < length xs" "xs ! k = i"
    and t: "task_table t = (task_table s)[i := r]" "task_list t = task_list s" and r: "t_next r = t_next (task_table s ! i)"
  obtains u where "append_task i t = Ret () u" "chain (task_table u) (task_list u) (take (Suc k) xs)"
    "\<And>j. j \<noteq> i \<Longrightarrow> t_state (task_table u ! j) = t_state (task_table s ! j)" "current_task u = current_task t"
proof -
  have len: "length (task_table s) = 32" and ch: "chain (task_table s) (task_list s) xs" "distinct xs"
    using inv by (auto simp: sched_inv_def)
  have xs: "xs \<noteq> []" "task_list s = Some (hd xs)"
    using inv by (cases xs; auto simp: sched_inv_def)+
  have iset: "i \<in> set xs" using k by auto
  have ch': "chain (task_table t) (task_list t) xs"
    using ch r by (auto simp: t nth_update_if intro!: chain_cong [of "task_table s"])
  then have last: "last_task (task_table t) (hd xs) = Some (last xs)"
    using xs t(2) by (intro last_task_chain) simp
  define u where "u = upd_task i (t_next_update (\<lambda>_. None)) (upd_task (last xs) (t_next_update (\<lambda>_. Some i)) t)"
  have app: "append_task i t = Ret () u"
    using last xs(2) by (simp add: append_task_def t(2) u_def)
  have u: "task_list u = task_list t" "current_task u = current_task t" "length (task_table u) = length (task_table t)"
    "\<And>j. t_next (task_table u ! j) = (if j = i \<and> i < length (task_table t) then None
       else if j = last xs \<and> j < length (task_table t) then Some i else t_next (task_table t ! j))"
    "\<And>j. j \<noteq> i \<Longrightarrow> t_state (task_table u ! j) = t_state (task_table s ! j)"
    by (auto simp: u_def upd_task_def nth_update_if t(1))
  have il: "i < length (task_table t)" using chain_bound [OF ch' iset] .
  have "chain (task_table u) p (take (Suc n) ys)"
    if "chain (task_table t) p ys" "Suc n < length ys" "ys ! n = i" "distinct ys" "last ys = last xs" for p ys n
    using that
  proof (induction n arbitrary: p ys)
    case 0
    then obtain y ys' where "ys = y # ys'" by (cases ys) auto
    with 0 u(3,4) il show ?case by (cases ys') auto
  next
    case (Suc n)
    then obtain y ys' where ys: "ys = y # ys'" by (cases ys) auto
    have "ys' \<noteq> []" using Suc.prems ys by auto
    then have "last xs \<in> set ys'" "i \<in> set ys'"
      using Suc.prems ys last_in_set [of ys'] by auto
    then have ne: "y \<noteq> i" "y \<noteq> last xs" using Suc.prems ys by auto
    with Suc.prems ys \<open>ys' \<noteq> []\<close> Suc.IH [of "t_next (task_table t ! y)" ys'] u(3,4) show ?case by auto
  qed
  from this [OF ch' k ch(2) refl] show thesis
    using app u(1,2,5) by (intro that [of u]) auto
qed

subsection \<open>Every reachable state\<close>

text \<open>
  A view of the state that neither memory, the allocator nor the TLB is part of is not changed
  by the operations on memory and page tables.
\<close>

locale machine_view =
  fixes view :: "'a sys_scheme \<Rightarrow> 'v"
  assumes view_mem [simp]: "view (s\<lparr>mem := m\<rparr>) = view s"
    and view_pmm [simp]: "view (s\<lparr>pmm_st := p\<rparr>) = view s"
    and view_invlpg [simp]: "view (invlpg a s) = view s"
begin

lemma store8_same: "store8 a v s = Ret u t \<Longrightarrow> view t = view s"
  by (auto simp: store8_def split: option.splits)

lemma store32_same: "store32 a v s = Ret u t \<Longrightarrow> view t = view s"
  by (auto dest!: store32_fields)

lemma load32_same: "load32 a s = Ret v t \<Longrightarrow> view t = view s"
  by (auto dest: load32_fields)

lemma foreach_same:
  assumes "foreach is body s = Ret u t" "\<And>i s t u. body i s = Ret u t \<Longrightarrow> view t = view s"
  shows "view t = view s"
  using assms(1) by (induction "is" arbitrary: s) (auto elim!: obind_RetE dest!: assms(2))

lemma memset_same: "memset d v n s = Ret r t \<Longrightarrow> view t = view s"
  unfolding memset_def by (auto elim!: obind_RetE dest!: foreach_same store8_same)

lemma alloc_block_same: "alloc_block s = (r, t) \<Longrightarrow> view t = view s"
  by (auto simp: alloc_block_def split: prod.splits)

lemma get_page_table_same: "get_page_table i e s = Ret r t \<Longrightarrow> view t = view s"
  unfolding get_page_table_def
  by (auto split: if_splits prod.splits elim!: obind_RetE dest!: alloc_block_same memset_same store32_same)

lemma map_page_same: "vmm_map_page p a fl s = Ret r t \<Longrightarrow> view t = view s"
  unfolding vmm_map_page_def Let_def
  by (auto elim!: obind_RetE dest!: load32_same get_page_table_same store32_same)

lemma build_frame_same: "build_frame syms p k s = Ret r t \<Longrightarrow> view t = view s"
  unfolding build_frame_def by (drule foreach_same) (auto dest: store32_same)

end

text \<open>The variables of \<^verbatim>\<open>task.c\<close> are such a view.\<close>

definition task_vars :: "'a kern_scheme \<Rightarrow> task list \<times> nat option \<times> nat option \<times> u32" where
  "task_vars s = (task_table s, task_list s, current_task s, next_pid s)"

interpretation vars: machine_view task_vars
  by unfold_locales (simp_all add: task_vars_def invlpg_def)

lemma task_create_unused:
  assumes inv: "sched_inv xs s" and slot: "find_slot (task_table s) = Some i" "t_pid (task_table s ! i) = 0"
    and pid: "next_pid s \<noteq> 0" and run: "task_create syms entry dir is_user s = Ret r t"
  shows "r = None \<and> sched_inv xs t \<or> r = Some i \<and> sched_inv (xs @ [i]) t"
proof -
  obtain stack s1 where al: "alloc_block (cli s) = (stack, s1)" by (cases "alloc_block (cli s)")
  note v1 = vars.alloc_block_same [OF al]
  have c: "find_slot (task_table (cli s)) = Some i" using slot by (simp add: cli_def)
  have i: "i < 32" "i \<notin> set xs"
    using slot inv by (auto simp: find_slot_def find_Some_iff sched_inv_def)
  show ?thesis
  proof (cases "stack = 0")
    case True
    then have "r = None" "t = s1" using run by (simp_all add: task_create_def Let_def al c)
    moreover have "sched_view s1 = sched_view s" using v1 by (simp add: task_vars_def sched_view_def cli_def)
    ultimately show ?thesis using sched_inv_view [OF inv] by simp
  next
    case s0: False
  from run obtain u s2 s3 s4 where u: "memset stack 0 4096 s1 = Ret stack s2"
    "vmm_map_page stack stack 3 s2 = Ret () s3"
    "build_frame syms (stack + 4096) (if is_user then sym_task_user_bootstrap syms else entry)
      (upd_task i (\<lambda>t. t\<lparr>t_pid := next_pid s3, t_state := 0, t_page_directory := (if dir \<noteq> 0 then dir else read_cr3 s3),
        t_kstack := stack + 4096, t_eip := entry\<rparr>) (s3\<lparr>next_pid := next_pid s3 + 1\<rparr>)) = Ret () s4"
    "append_task i (upd_task i (t_esp_update (\<lambda>_. stack + 4096 - 28)) s4) = Ret () t" "r = Some i"
    by (simp add: task_create_def Let_def al c s0)
      (auto elim!: obind_RetE simp: memset_def)
  note v = vars.memset_same [OF u(1)] vars.map_page_same [OF u(2)] vars.build_frame_same [OF u(3)]
  let ?t = "upd_task i (t_esp_update (\<lambda>_. stack + 4096 - 28)) s4"
  have "\<exists>q. task_table ?t = (task_table s)[i := q] \<and> t_pid q = next_pid s \<and> t_state q = 0"
    using v v1 i inv by (auto simp: task_vars_def upd_task_def cli_def sched_inv_def)
  then obtain q where q: "task_table ?t = (task_table s)[i := q]" "t_pid q \<noteq> 0" "t_state q = 0" using pid by auto
  have l: "task_list ?t = task_list s" "current_task ?t = current_task s"
    using v v1 by (auto simp: task_vars_def upd_task_def cli_def)
  show ?thesis
    by (rule append_task_inv [OF inv i(2,1) q(1) l q(2,3)]) (use u in auto)
  qed
qed


text \<open>A view that has none of the variables of \<^verbatim>\<open>task.c\<close> either is not changed by creating a task.\<close>

locale kern_view = machine_view view for view :: "'a kern_scheme \<Rightarrow> 'v" +
  assumes view_table [simp]: "view (s\<lparr>task_table := tb\<rparr>) = view s"
    and view_list [simp]: "view (s\<lparr>task_list := l\<rparr>) = view s"
    and view_pid [simp]: "view (s\<lparr>next_pid := n\<rparr>) = view s"
    and view_current [simp]: "view (s\<lparr>current_task := c\<rparr>) = view s"
    and view_iflag [simp]: "view (s\<lparr>iflag := b\<rparr>) = view s"
begin

lemma upd_task_same [simp]: "view (upd_task i f s) = view s"
  by (simp add: upd_task_def)

lemma cli_same [simp]: "view (cli s) = view s"
  by (simp add: cli_def)

lemma append_task_same: "append_task i s = Ret u t \<Longrightarrow> view t = view s"
  by (auto simp: append_task_def split: option.splits)

lemma task_create_same:
  assumes "task_create syms entry dir is_user s = Ret r t"
  shows "view t = view s"
  using assms unfolding task_create_def Let_def
  by (auto split: option.splits prod.splits if_splits elim!: obind_RetE
      dest!: alloc_block_same memset_same map_page_same build_frame_same append_task_same)

lemma scheduler_init_same: "view (scheduler_init s) = view s"
  by (simp add: scheduler_init_def Let_def)

end

text \<open>The interrupt table and the variables of the file system are such views.\<close>

interpretation idtab: kern_view idt_st
  by unfold_locales (simp_all add: invlpg_def)

interpretation rest: kern_view kern.more
  by unfold_locales (simp_all add: invlpg_def)

lemma scheduler_init_inv: "sched_inv [0] (scheduler_init s)"
proof -
  have "task_table (scheduler_init s) ! i = (if i = 0 then task_zero\<lparr>t_pid := 1, t_state := 1, t_page_directory := cr3 s\<rparr> else task_zero)"
    if "i < 32" for i
    using that by (auto simp: scheduler_init_def upd_task_def Let_def nth_list_update task_zero_def read_cr3_def cli_def)
  moreover have "length (task_table (scheduler_init s)) = 32" "task_list (scheduler_init s) = Some 0"
    "current_task (scheduler_init s) = Some 0"
    by (simp_all add: scheduler_init_def upd_task_def Let_def)
  ultimately show ?thesis
    by (auto simp: sched_inv_def task_zero_def)
qed

lemma find_others:
  assumes "List.find P (others xs k) = Some c"
  shows "c \<in> set xs \<and> P c"
proof -
  have "c \<in> set (others xs k)" "P c" using assms by (auto simp: find_Some_iff)
  then show ?thesis by (auto simp: others_def dest: in_set_takeD in_set_dropD)
qed

lemma schedule_inv:
  assumes "sched_inv xs s" "schedule s = Ret r t"
  shows "sched_inv xs t"
proof -
  obtain k where k: "k < length xs" "current_task s = Some (xs ! k)" "t_state (task_table s ! (xs ! k)) \<noteq> 0"
    using assms(1) by (auto simp: sched_inv_def)
  note st = schedule_step [OF assms(1) k(2,1) assms(2)]
  show ?thesis
  proof (cases "List.find (ready (task_table s)) (others xs k)")
    case None
    with st assms(1) show ?thesis by (auto intro: sched_inv_view)
  next
    case (Some c)
    then have "c \<in> set xs" "xs ! k \<noteq> c" using find_others [OF Some] k(3) by auto
    from hand_over_inv [OF assms(1) k(2) this] st Some show ?thesis by (auto intro: sched_inv_view)
  qed
qed

lemma sched_inv_zombie:
  assumes "sched_inv xs s" "current_task s = Some c"
  shows "sched_inv xs (upd_task c (t_state_update (\<lambda>_. TASK_STATE_ZOMBIE)) s)"
proof -
  have "chain (task_table (upd_task c (t_state_update (\<lambda>_. 3)) s)) (task_list s) xs"
    using assms(1) by (auto simp: sched_inv_def upd_task_def nth_update_if intro!: chain_cong [of "task_table s"])
  then show ?thesis
    using assms by (auto simp: sched_inv_def upd_task_def nth_update_if)
qed

text \<open>
  The histories of the scheduler: it is initialised once, then the running code is interrupted
  by timer ticks (\<open>schedule\<close>), yields, exits and creates tasks, in any order; in between it
  changes anything but the scheduler's own variables. Slots of exited tasks are not recycled
  and the pid counter has not wrapped.
\<close>

inductive sched_reach :: "kern \<Rightarrow> bool" where
  init: "sched_reach (scheduler_init s)"
| tick: "sched_reach s \<Longrightarrow> schedule s = Ret r t \<Longrightarrow> sched_reach t"
| yield: "sched_reach s \<Longrightarrow> task_yield s = Ret r t \<Longrightarrow> sched_reach t"
| exit: "sched_reach s \<Longrightarrow> task_exit s = Ret r t \<Longrightarrow> sched_reach t"
| create: "sched_reach s \<Longrightarrow> task_create syms entry dir is_user s = Ret r t \<Longrightarrow> next_pid s \<noteq> 0 \<Longrightarrow>
    find_slot (task_table s) = Some i \<Longrightarrow> t_pid (task_table s ! i) = 0 \<Longrightarrow> sched_reach t"
| run: "sched_reach s \<Longrightarrow> sched_view t = sched_view s \<Longrightarrow> sched_reach t"

lemma task_yield_inv:
  assumes "sched_inv xs s" "task_yield s = Ret r t"
  shows "sched_inv xs t"
proof -
  have "sched_inv xs (cli s)" by (rule sched_inv_view [OF assms(1)]) simp
  moreover obtain r' t' where "schedule (cli s) = Ret r' t'" "sched_view t = sched_view t'"
    using assms(2) unfolding task_yield_def by (auto elim!: obind_RetE split: option.splits)
  ultimately show ?thesis using schedule_inv sched_inv_view by blast
qed

lemma task_exit_inv:
  assumes "sched_inv xs s" "task_exit s = Ret r t"
  shows "sched_inv xs t"
proof -
  have c: "sched_inv xs (cli s)" by (rule sched_inv_view [OF assms(1)]) simp
  then obtain p where p: "current_task (cli s) = Some p" by (auto simp: sched_inv_def)
  have "schedule (upd_task p (t_state_update (\<lambda>_. 3)) (cli s)) = Ret (Some r) t"
    using assms(2) p unfolding task_exit_def by (auto simp: Let_def elim!: obind_RetE split: option.splits)
  with schedule_inv [OF sched_inv_zombie [OF c p]] show ?thesis .
qed

lemma sched_reach_inv: "sched_reach s \<Longrightarrow> \<exists>xs. sched_inv xs s"
proof (induction rule: sched_reach.induct)
  case (init s)
  then show ?case using scheduler_init_inv by blast
next
  case (create s syms entry dir is_user r t i)
  then show ?case using task_create_unused by metis
qed (blast intro: schedule_inv task_yield_inv task_exit_inv sched_inv_view)+

subsection \<open>A new task and its first switch\<close>

lemma task_create_new:
  fixes s :: "'a kern_scheme" and entry page_dir :: u32
  assumes ok: "vm_ok s" "paging_on s" and inv: "sched_inv xs s"
    and slot: "find_slot (task_table s) = Some i" "t_pid (task_table s ! i) = 0" and pid: "next_pid s \<noteq> 0"
    and free: "used_blocks s \<noteq> all_blocks (pmm_st s)"
    and ke: "ke = (if is_user then sym_task_user_bootstrap syms else entry)"
    and dir: "dir = (if page_dir \<noteq> 0 then page_dir else cr3 s)"
  obtains t f where "task_create syms entry page_dir is_user s = Ret (Some i) t"
    "vm_ok t" "paging_on t" "\<not> iflag t" "next_pid t = next_pid s + 1" "sched_inv (xs @ [i]) t"
    "frame_aligned f" "f \<noteq> 0" "block_of f \<notin> used_blocks s" "used_blocks t = insert (block_of f) (used_blocks s)"
    "ram_top t = ram_top s" "cr3 t = cr3 s" "current_page_directory t = current_page_directory s"
    "\<not> walk_frame (mem t) (current_page_directory t) f"
    "task_table t ! i = (fresh_task (next_pid s) f entry dir (task_table s ! i))\<lparr>t_next := None\<rparr>"
    "current_task t = current_task s"
    "\<And>k. k < 7 \<Longrightarrow> rd32 (mem t) (f + 4 * (1017 + of_nat k)) = first_frame syms ke ! k"
    "\<And>b. vm_lookup t b = (if vpn b = vpn f then Some (f OR 3) else vm_lookup s b)"
    "\<And>g. block_of g \<in> used_blocks s \<Longrightarrow> \<not> walk_frame (mem s) (current_page_directory s) g \<Longrightarrow>
       \<not> walk_frame (mem t) (current_page_directory t) g \<and> (\<forall>a. in_frame g a \<longrightarrow> mem t a = mem s a)"
    "reg_esp t = reg_esp s"
    "\<And>j. j \<noteq> i \<Longrightarrow> \<exists>n. task_table t ! j = (task_table s ! j)\<lparr>t_next := n\<rparr>"
    "\<And>a. \<not> in_frame f a \<Longrightarrow>
       mem t a = wr32 (frame_of (pde_of (mem s) (current_page_directory s) (pdx f)) + 4 * ptx f) (f OR 3) (mem s) a"
proof -
  have len: "length (task_table s) = 32" using inv by (simp add: sched_inv_def)
  have i: "i < 32" "i \<notin> set xs"
    using slot inv by (auto simp: find_slot_def find_Some_iff sched_inv_def)
  obtain t f where t: "task_create syms entry page_dir is_user s = obind (append_task i t) (\<lambda>_ t. Ret (Some i) t)"
    "vm_ok t" "paging_on t" "\<not> iflag t" "next_pid t = next_pid s + 1"
    "frame_aligned f" "f \<noteq> 0" "block_of f \<notin> used_blocks s" "used_blocks t = insert (block_of f) (used_blocks s)"
    "ram_top t = ram_top s" "cr3 t = cr3 s" "current_page_directory t = current_page_directory s"
    "\<not> walk_frame (mem t) (current_page_directory t) f"
    "task_table t = (task_table s)[i := fresh_task (next_pid s) f entry dir (task_table s ! i)]"
    "task_list t = task_list s" "current_task t = current_task s"
    "\<And>k. k < 7 \<Longrightarrow> rd32 (mem t) (f + 4 * (1017 + of_nat k)) = first_frame syms ke ! k"
    "\<And>b. vm_lookup t b = (if vpn b = vpn f then Some (f OR 3) else vm_lookup s b)"
    "\<And>g. block_of g \<in> used_blocks s \<Longrightarrow> \<not> walk_frame (mem s) (current_page_directory s) g \<Longrightarrow>
       \<not> walk_frame (mem t) (current_page_directory t) g \<and> (\<forall>a. in_frame g a \<longrightarrow> mem t a = mem s a)"
    "reg_esp t = reg_esp s"
    "\<And>a. \<not> in_frame f a \<Longrightarrow>
       mem t a = wr32 (frame_of (pde_of (mem s) (current_page_directory s) (pdx f)) + 4 * ptx f) (f OR 3) (mem s) a"
    by (rule task_create_run [OF ok len slot(1) free ke dir]) (rule that)
  have r: "t_pid (fresh_task (next_pid s) f entry dir (task_table s ! i)) \<noteq> 0"
    "t_state (fresh_task (next_pid s) f entry dir (task_table s ! i)) = 0"
    using pid by (simp_all add: fresh_task_def)
  obtain u where u: "append_task i t = Ret () u" "sched_inv (xs @ [i]) u"
    "task_table u ! i = (fresh_task (next_pid s) f entry dir (task_table s ! i))\<lparr>t_next := None\<rparr>"
    "u = t\<lparr>task_table := task_table u\<rparr>" "\<And>j. j \<noteq> i \<Longrightarrow> \<exists>n. task_table u ! j = (task_table s ! j)\<lparr>t_next := n\<rparr>"
    by (rule append_task_inv [OF inv i(2,1) t(14,15,16) r]) (rule that)
  have uf: "mem u = mem t" "pmm_st u = pmm_st t" "cr3 u = cr3 t" "current_page_directory u = current_page_directory t"
    "iflag u = iflag t" "next_pid u = next_pid t" "current_task u = current_task t" "reg_esp u = reg_esp t"
    "paging_on u = paging_on t" "vm_ok u = vm_ok t"
    by (subst u(4), simp add: paging_on_def)+ (subst u(4), rule vm_ok_cong, simp_all)
  show thesis
  proof (rule that [of u f])
    show "\<not> walk_frame (mem u) (current_page_directory u) g \<and> (\<forall>a. in_frame g a \<longrightarrow> mem u a = mem s a)"
      if "block_of g \<in> used_blocks s" "\<not> walk_frame (mem s) (current_page_directory s) g" for g
      using t(19) [OF that] by (simp add: uf)
  qed (use t(1-13,16-18,20,21) u(1,2,3,5) t(14) len i in \<open>simp_all add: uf\<close>)
qed


lemma load_directory_same [simp]: "load_directory (cr3 s) s = s"
  by (simp add: load_directory_def)

lemma hand_over_machine [simp]:
  "vm_ok (hand_over p c s) = vm_ok s" "paging_on (hand_over p c s) = paging_on s" "cr3 (hand_over p c s) = cr3 s"
  "mem (hand_over p c s) = mem s" "pmm_st (hand_over p c s) = pmm_st s" "reg_esp (hand_over p c s) = reg_esp s"
  "current_page_directory (hand_over p c s) = current_page_directory s"
proof -
  have "hand_over p c s = s\<lparr>task_table := task_table (hand_over p c s), current_task := Some c\<rparr>"
    by (simp add: hand_over_def upd_task_def Let_def)
  then obtain tb where h: "hand_over p c s = s\<lparr>task_table := tb, current_task := Some c\<rparr>" by blast
  show "vm_ok (hand_over p c s) = vm_ok s" unfolding h by (rule vm_ok_cong) simp_all
qed (simp_all add: hand_over_def upd_task_def Let_def paging_on_def)

lemma hand_over_task:
  "p \<noteq> c \<Longrightarrow> c < length (task_table s) \<Longrightarrow> task_table (hand_over p c s) ! c = (task_table s ! c)\<lparr>t_state := 1\<rparr>"
  by (simp add: hand_over_def upd_task_def Let_def)

text \<open>The switch to a task that shares the active directory and has the frame of a new task.\<close>

lemma first_switch:
  fixes t :: "'a kern_scheme"
  assumes ok: "vm_ok t" "paging_on t" and st: "stack_at t (cr3 t) g j" and ne: "p \<noteq> i" "p < length (task_table t)" "g \<noteq> f"
    and i: "i < length (task_table t)" "t_esp (task_table t ! i) = f + 4096 - 28" "t_page_directory (task_table t ! i) = cr3 t"
    and f: "frame_aligned f" "unat f + 4096 \<le> ram_top t" "\<not> walk_frame (mem t) (current_page_directory t) f"
    and fr: "\<And>k. k < 7 \<Longrightarrow> rd32 (mem t) (f + 4 * (1017 + of_nat k)) = first_frame syms ke ! k"
  obtains u where "switch_task p i t = Ret (sym_task_kernel_bootstrap syms) u" "vm_ok u" "paging_on u"
    "sched_view u = sched_view t" "reg_esp u = f + 4 * 1022" "reg_ebp u = 0" "esp0 (tss (gdt_st u)) = t_kstack (task_table t ! i)"
    "rd32 (mem u) (f + 4 * 1022) = sym_task_exit syms" "rd32 (mem u) (f + 4 * 1023) = ke"
    "cr3 u = cr3 t" "current_page_directory u = current_page_directory t" "ram_top u = ram_top t"
    "\<not> walk_frame (mem u) (current_page_directory u) f"
    "task_table u = (task_table t)[p := (task_table t ! p)\<lparr>t_esp := g + 4 * (j - 4)\<rparr>]"
proof -
  define m where "m = fold (\<lambda>(i, v). wr32 (g + 4 * i) v) (saved_regs j t) (mem t)"
  have sa: "frame_aligned g" "\<not> walk_frame (mem t) (current_page_directory t) g" "4 \<le> unat j" "unat j \<le> 1024"
    using st by (auto simp: stack_at_def)
  have cx: "context_at t i f 1017" using i f(1,2) by (simp add: context_at_def)
  have ld: "load_directory (t_page_directory (task_table t ! i)) t = t" by (simp add: i(3))
  note sw = switch_task_spec [OF ok(1), of i, unfolded ld, OF ok(1), unfolded i(3), OF st cx ne(1) ne(3) [symmetric] ne(2), folded m_def]
  define u where "u = (set_kernel_stack (t_kstack (task_table t ! i)) (load_directory (cr3 t)
       (upd_task p (t_esp_update (\<lambda>_. g + 4 * (j - 4))) (t\<lparr>mem := m\<rparr>))))
     \<lparr>reg_esp := f + 4 * (1017 + 5), reg_edi := rd32 (mem t) (f + 4 * 1017), reg_esi := rd32 (mem t) (f + 4 * (1017 + 1)),
      reg_ebx := rd32 (mem t) (f + 4 * (1017 + 2)), reg_ebp := rd32 (mem t) (f + 4 * (1017 + 3))\<rparr>"
  have ld2: "load_directory (cr3 t) (upd_task p h (t\<lparr>mem := m\<rparr>)) = upd_task p h (t\<lparr>mem := m\<rparr>)" for h
    by (simp add: load_directory_def upd_task_def)
  note u = u_def [unfolded ld2]
  have rd: "rd32 m (f + 4 * l) = rd32 (mem t) (f + 4 * l)" if "unat l < 1024" for l
    unfolding m_def by (rule rd32_other_frame [OF sa(1) f(1) ne(3) saved_regs_index [OF sa(3,4)] that])
  have out: "m a = mem t a" if "\<not> in_frame g a" for a
    unfolding m_def by (rule fold_wr32_outside [OF sa(1) saved_regs_index [OF sa(3,4)] that])
  have nw: "\<not> walk_frame m (current_page_directory t) f"
    using data_write(2) [OF ok(1) sa(2) out, of f] f(3) by simp
  have vm: "vm_ok (t\<lparr>mem := m\<rparr>)" by (rule data_write(3) [OF ok(1) sa(2) out])
  have fk: "rd32 (mem t) (f + 4 * 1020) = 0" "rd32 (mem t) (f + 4 * 1021) = sym_task_kernel_bootstrap syms"
    "rd32 (mem t) (f + 4 * 1022) = sym_task_exit syms" "rd32 (mem t) (f + 4 * 1023) = ke"
    using fr [of 3] fr [of 4] fr [of 5] fr [of 6] by (simp_all add: first_frame_def)
  have run: "switch_task p i t = Ret (sym_task_kernel_bootstrap syms) u"
    using sw(1) fk(2) unfolding u_def by simp
  show thesis
  proof (rule that [OF run])
    show "vm_ok u" using vm unfolding u by simp
    show "sched_view u = sched_view t" by (rule switch_task_view [OF run])
  qed (use ok(2) nw fk rd [of 1022] rd [of 1023] in \<open>simp_all add: u set_kernel_stack_def upd_task_def tss_set_kernel_stack_def paging_on_def\<close>)
qed


text \<open>What a switch leaves on the stack page it was called on: the saved registers.\<close>

lemma switch_saves:
  fixes s :: "'a kern_scheme"
  defines "pd \<equiv> \<lambda>nxt. t_page_directory (task_table s ! nxt)"
  assumes ok: "vm_ok s" "vm_ok (load_directory (pd nxt) s)"
    and st: "stack_at s (pd nxt) g j" and cx: "context_at s nxt h l"
    and ne: "cur \<noteq> nxt" "h \<noteq> g" "cur < length (task_table s)" and j: "unat j < 1024"
    and run: "switch_task cur nxt s = Ret a t"
  shows "t_esp (task_table t ! cur) = g + 4 * (j - 4)" "ram_top t = ram_top s"
    "rd32 (mem t) (g + 4 * (j - 4)) = reg_edi s" "rd32 (mem t) (g + 4 * (j - 4 + 1)) = reg_esi s"
    "rd32 (mem t) (g + 4 * (j - 4 + 2)) = reg_ebx s" "rd32 (mem t) (g + 4 * (j - 4 + 3)) = reg_ebp s"
    "rd32 (mem t) (g + 4 * (j - 4 + 4)) = rd32 (mem s) (reg_esp s)"
proof -
  define m where "m = fold (\<lambda>(i, v). wr32 (g + 4 * i) v) (saved_regs j s) (mem s)"
  have sa: "frame_aligned g" "reg_esp s = g + 4 * j" "4 \<le> unat j" "unat j \<le> 1024"
    using st by (auto simp: stack_at_def)
  note sw = switch_task_spec(1) [OF ok [unfolded pd_def] st [unfolded pd_def] cx ne, folded m_def]
  have t: "task_table t ! cur = (task_table s ! cur)\<lparr>t_esp := g + 4 * (j - 4)\<rparr>" "mem t = m" "pmm_st t = pmm_st s"
    using run ne(3) unfolding sw by (auto simp: set_kernel_stack_def load_directory_kern upd_task_def)
  then show "t_esp (task_table t ! cur) = g + 4 * (j - 4)" "ram_top t = ram_top s" by simp_all
  have idx: "unat (j - 1) < 1024" "unat (j - 2) < 1024" "unat (j - 3) < 1024" "unat (j - 4) < 1024"
    using sa(3,4) by (simp_all add: unat_minus_small)
  have sub: "j - 4 + 1 = j - 3" "j - 4 + 2 = j - 2" "j - 4 + 3 = j - 1" "j - 4 + 4 = j" by simp_all
  note rd = rd32_entries [OF sa(1) saved_regs_index [OF sa(3,4), where s = s], where m = "mem s", folded m_def]
  show "rd32 (mem t) (g + 4 * (j - 4)) = reg_edi s" "rd32 (mem t) (g + 4 * (j - 4 + 1)) = reg_esi s"
    "rd32 (mem t) (g + 4 * (j - 4 + 2)) = reg_ebx s" "rd32 (mem t) (g + 4 * (j - 4 + 3)) = reg_ebp s"
    "rd32 (mem t) (g + 4 * (j - 4 + 4)) = rd32 (mem s) (reg_esp s)"
    unfolding sub t(2) sa(2) rd [OF idx(1)] rd [OF idx(2)] rd [OF idx(3)] rd [OF idx(4)] rd [OF j]
    by (simp_all add: saved_regs_def)
qed

subsection \<open>When the switch succeeds\<close>

text \<open>
  The switch to \<open>c\<close> can be carried out: the running task's stack has room for the registers,
  \<open>c\<close> has a saved context on another page, and the directory of \<open>c\<close> is a good one.
\<close>

definition switchable :: "'a kern_scheme \<Rightarrow> nat \<Rightarrow> bool" where
  "switchable s c \<longleftrightarrow> (let pd = t_page_directory (task_table s ! c) in
     (\<exists>g j h l. stack_at s pd g j \<and> context_at s c h l \<and> h \<noteq> g) \<and> vm_ok s \<and> vm_ok (load_directory pd s))"

lemma schedule_total:
  assumes inv: "sched_inv xs s" and k: "k < length xs" "current_task s = Some (xs ! k)"
    and c: "List.find (ready (task_table s)) (others xs k) = Some c" and sw: "switchable s c"
  shows "\<exists>a t. schedule s = Ret (Some a) t"
proof -
  let ?pd = "t_page_directory (task_table s ! c)"
  obtain g j h l where st: "stack_at s ?pd g j" and cx: "context_at s c h l" and ne: "h \<noteq> g"
    and ok: "vm_ok s" "vm_ok (load_directory ?pd s)"
    using sw by (auto simp: switchable_def Let_def)
  have len: "length (task_table s) = 32" using inv by (simp add: sched_inv_def)
  have p: "xs ! k \<in> set xs" using k by simp
  have cs: "c \<in> set xs" "ready (task_table s) c" using find_others [OF c] by simp_all
  have b: "xs ! k < length (task_table s)" "c < length (task_table s)"
    using sched_inv_bound [OF inv p] sched_inv_bound [OF inv cs(1)] len by simp_all
  have pc: "xs ! k \<noteq> c" using cs(2) inv k by (auto simp: sched_inv_def)
  define u where "u = hand_over (xs ! k) c s"
  have u: "vm_ok u" "mem u = mem s" "pmm_st u = pmm_st s" "current_page_directory u = current_page_directory s"
    "reg_esp u = reg_esp s" "length (task_table u) = length (task_table s)"
    "task_table u ! c = (task_table s ! c)\<lparr>t_state := 1\<rparr>"
    using ok(1) hand_over_fields(3) [OF b] hand_over_task [OF pc b(2)] by (simp_all add: u_def)
  have "vm_ok (load_directory ?pd u) = vm_ok (load_directory ?pd s)"
    by (rule vm_ok_cong) (simp_all add: u_def load_directory_def write_cr3_def hand_over_def upd_task_def Let_def)
  then have "vm_ok (load_directory (t_page_directory (task_table u ! c)) u)" using ok(2) u(7) by simp
  moreover have "stack_at u (t_page_directory (task_table u ! c)) g j" using st by (simp add: stack_at_def u)
  moreover have "context_at u c h l" using cx by (simp add: context_at_def u)
  moreover have "xs ! k < length (task_table u)" using b u(6) by simp
  ultimately have "\<exists>a t. switch_task (xs ! k) c u = Ret a t"
    using switch_task_spec(1) [OF u(1) _ _ _ pc ne] by blast
  then show ?thesis
    using schedule_eq [OF inv k(2,1)] c by (auto simp: u_def)
qed

subsection \<open>A machine with one task\<close>

definition small_kern :: kern where
  "small_kern = \<lparr>mem = (\<lambda>_. 0), cr0 = 0x11, cr2 = 0, cr3 = 0, iflag = False, tlb = (\<lambda>_. None),
     console = console small_sys, pmm_st = small_pmm, gdt_st = gdt_boot, idt_st = idt_st small_sys, ports = [],
     current_page_directory = 0, task_table = [], task_list = None, current_task = None, next_pid = 1, tick = 0,
     reg_esp = 0x800, reg_ebp = 11, reg_ebx = 12, reg_esi = 13, reg_edi = 14\<rparr>"

definition demo_symbols :: symbols where
  "demo_symbols = \<lparr>sym_task_kernel_bootstrap = 0x101000, sym_task_user_bootstrap = 0x102000, sym_task_exit = 0x103000\<rparr>"

text \<open>After \<open>vmm_init\<close> and \<open>scheduler_init\<close>, with the stack pointer in the middle of block 0.\<close>

definition one_task :: "kern \<Rightarrow> kern" where
  "one_task s = (scheduler_init s)\<lparr>reg_esp := 0x800\<rparr>"

lemma small_kern_vm:
  obtains s where "vmm_init small_kern = Ret () s" "vm_ok s" "paging_on s" "ram_top s = 0x8000" "card (used_blocks s) = 3"
    "0 \<in> used_blocks s" "\<not> walk_frame (mem s) (current_page_directory s) 0"
    "handlers (idt_st s) = (replicate 256 None)[14 := Some Page_fault_handler]" "identity_upto 8 s"
proof -
  have k: "\<not> paging_on small_kern" "pmm_st small_kern = small_pmm" "handlers (idt_st small_kern) = replicate 256 None"
    by (simp_all add: small_kern_def small_sys_def paging_on_def)
  have p: "pmm_inv (pmm_st small_kern)" "0 \<in> used_blocks small_kern"
    "card (used_blocks small_kern) + 1 + (unat (pmm_total_blocks (pmm_st small_kern)) + 1023) div 1024
      \<le> unat (pmm_total_blocks (pmm_st small_kern))"
    by (simp_all add: k small_pmm_ok)
  obtain s where s: "vmm_init small_kern = Ret () s" "vm_ok s" "paging_on s"
    "identity_upto (unat (pmm_total_blocks (pmm_st small_kern))) s"
    "handlers (idt_st s) = (handlers (idt_st small_kern))[14 := Some Page_fault_handler]"
    "ram_top s = 4096 * unat (pmm_total_blocks (pmm_st small_kern))" "used_blocks small_kern \<subseteq> used_blocks s"
    "card (used_blocks s) = card (used_blocks small_kern) + 1 + (unat (pmm_total_blocks (pmm_st small_kern)) + 1023) div 1024"
    "\<And>f. block_of f \<in> used_blocks small_kern \<Longrightarrow> \<not> walk_frame (mem s) (current_page_directory s) f"
    by (rule vmm_init_spec [OF k(1) p]) (rule that)
  show thesis
    using s by (intro that [OF s(1)]) (auto simp: k small_pmm_ok)
qed

lemma small_kern_boot:
  obtains s where "vmm_init small_kern = Ret () s" "vm_ok (one_task s)" "paging_on (one_task s)"
    "sched_inv [0] (one_task s)" "ram_top (one_task s) = 0x8000" "card (used_blocks (one_task s)) = 3"
    "\<not> walk_frame (mem (one_task s)) (current_page_directory (one_task s)) 0" "0 \<in> used_blocks (one_task s)"
    "used_blocks (one_task s) \<noteq> all_blocks (pmm_st (one_task s))"
proof -
  obtain s where s: "vmm_init small_kern = Ret () s" "vm_ok s" "paging_on s" "ram_top s = 0x8000" "card (used_blocks s) = 3"
    "0 \<in> used_blocks s" "\<not> walk_frame (mem s) (current_page_directory s) 0"
    by (rule small_kern_vm) (rule that)
  have o: "mem (one_task s) = mem s" "pmm_st (one_task s) = pmm_st s" "paging_on (one_task s) = paging_on s"
    "current_page_directory (one_task s) = current_page_directory s" "cr3 (one_task s) = cr3 s" "tlb (one_task s) = tlb s" "cr0 (one_task s) = cr0 s"
    by (simp_all add: one_task_def scheduler_init_def upd_task_def cli_def Let_def paging_on_def)
  have vm: "vm_ok (one_task s)" using vm_ok_cong [of "one_task s" s] s(2) o by simp
  have "sched_view (one_task s) = sched_view (scheduler_init s)" by (simp add: one_task_def)
  then have inv: "sched_inv [0] (one_task s)" using scheduler_init_inv by (rule sched_inv_view [rotated])
  have r: "ram_top (one_task s) = 0x8000" "card (used_blocks (one_task s)) = 3"
    using s(4,5) o by simp_all
  then have "card (used_blocks (one_task s)) \<noteq> card (all_blocks (pmm_st (one_task s)))"
    by (simp add: all_blocks_def)
  then have "used_blocks (one_task s) \<noteq> all_blocks (pmm_st (one_task s))" by metis
  then show thesis
    using s(3,6,7) o inv r vm by (intro that [OF s(1)]) auto
qed


lemma one_task_vars:
  "find_slot (task_table (one_task s)) = Some 1" "t_pid (task_table (one_task s) ! 1) = 0" "next_pid (one_task s) = 2"
  "current_task (one_task s) = Some 0" "reg_esp (one_task s) = 0x800" "t_state (task_table (one_task s) ! 0) = 1"
  "t_page_directory (task_table (one_task s) ! 0) = cr3 (one_task s)"
  by (simp_all add: one_task_def scheduler_init_def upd_task_def Let_def find_slot_def upt_rec slot_free_def task_zero_def read_cr3_def cli_def)

text \<open>The same machine after one task was created: where the two stacks are.\<close>

lemma two_task_boot:
  obtains s t f where "vmm_init small_kern = Ret () s" "task_create demo_symbols 0x104000 0 False (one_task s) = Ret (Some 1) t"
    "vm_ok t" "paging_on t" "sched_inv [0, 1] t" "current_task t = Some 0" "stack_at t (cr3 t) 0 0x200" "f \<noteq> 0"
    "frame_aligned f" "unat f + 4096 \<le> ram_top t" "\<not> walk_frame (mem t) (current_page_directory t) f"
    "t_esp (task_table t ! 1) = f + 4096 - 28" "t_page_directory (task_table t ! 1) = cr3 t" "ready (task_table t) 1"
    "t_page_directory (task_table t ! 0) = cr3 t"
    "\<And>k. k < 7 \<Longrightarrow> rd32 (mem t) (f + 4 * (1017 + of_nat k)) = first_frame demo_symbols 0x104000 ! k"
    "block_of f \<in> used_blocks t" "t_state (task_table t ! 0) = TASK_STATE_RUNNING"
proof -
  obtain s where s: "vmm_init small_kern = Ret () s" "vm_ok (one_task s)" "paging_on (one_task s)"
    "sched_inv [0] (one_task s)" "ram_top (one_task s) = 0x8000"
    "\<not> walk_frame (mem (one_task s)) (current_page_directory (one_task s)) 0" "0 \<in> used_blocks (one_task s)"
    "used_blocks (one_task s) \<noteq> all_blocks (pmm_st (one_task s))"
    by (rule small_kern_boot) (rule that)
  have pid: "next_pid (one_task s) \<noteq> 0" and
    ke: "(0x104000 :: u32) = (if False then sym_task_user_bootstrap demo_symbols else 0x104000)" and
    dir: "cr3 (one_task s) = (if (0 :: u32) \<noteq> 0 then 0 else cr3 (one_task s))"
    by (simp_all add: one_task_vars)
  obtain t f where t: "task_create demo_symbols 0x104000 0 False (one_task s) = Ret (Some 1) t"
    "vm_ok t" "paging_on t" "sched_inv ([0] @ [1]) t" "frame_aligned f" "f \<noteq> 0"
    "used_blocks t = insert (block_of f) (used_blocks (one_task s))" "ram_top t = ram_top (one_task s)" "cr3 t = cr3 (one_task s)"
    "\<not> walk_frame (mem t) (current_page_directory t) f"
    "task_table t ! 1 = (fresh_task (next_pid (one_task s)) f 0x104000 (cr3 (one_task s)) (task_table (one_task s) ! 1))\<lparr>t_next := None\<rparr>"
    "current_task t = current_task (one_task s)"
    "\<And>k. k < 7 \<Longrightarrow> rd32 (mem t) (f + 4 * (1017 + of_nat k)) = first_frame demo_symbols 0x104000 ! k"
    "\<And>g. block_of g \<in> used_blocks (one_task s) \<Longrightarrow> \<not> walk_frame (mem (one_task s)) (current_page_directory (one_task s)) g \<Longrightarrow>
       \<not> walk_frame (mem t) (current_page_directory t) g \<and> (\<forall>a. in_frame g a \<longrightarrow> mem t a = mem (one_task s) a)"
    "reg_esp t = reg_esp (one_task s)" "\<And>j. j \<noteq> 1 \<Longrightarrow> \<exists>n. task_table t ! j = (task_table (one_task s) ! j)\<lparr>t_next := n\<rparr>"
    by (rule task_create_new [OF s(2-4) one_task_vars(1,2) pid s(8) ke dir]) (rule that)
  have cr: "cr3 t = current_page_directory t" using vm_okD(5) [OF t(2,3)] .
  have fb: "unat f + 4096 \<le> ram_top t"
    using used_in_ram [OF t(5), of t] t(7) by simp
  have st: "stack_at t (cr3 t) 0 0x200"
    using t(14) [of 0] s(5-7) t(8,15) by (simp add: stack_at_def cr one_task_vars frame_aligned_def)
  have "t_page_directory (task_table t ! 0) = cr3 t" "t_state (task_table t ! 0) = 1"
    using t(16) [of 0] t(9) by (auto simp: one_task_vars)
  then show thesis
    using t(1-15) s(1) fb st by (intro that [of s t f]) (simp_all add: one_task_vars fresh_task_def)
qed

lemma find_append:
  "List.find P (xs @ ys) = (case List.find P xs of Some x \<Rightarrow> Some x | None \<Rightarrow> List.find P ys)"
  by (induction xs) auto

lemma schedule_new:
  fixes t :: "'a kern_scheme"
  assumes ok: "vm_ok t" "paging_on t" and inv: "sched_inv xs t" and cur: "k < length xs" "current_task t = Some (xs ! k)"
    and st: "stack_at t (cr3 t) g j" "g \<noteq> f" and nxt: "List.find (ready (task_table t)) (others xs k) = Some i"
    and i: "t_esp (task_table t ! i) = f + 4096 - 28" "t_page_directory (task_table t ! i) = cr3 t"
    and f: "frame_aligned f" "unat f + 4096 \<le> ram_top t" "\<not> walk_frame (mem t) (current_page_directory t) f"
    and fr: "\<And>k. k < 7 \<Longrightarrow> rd32 (mem t) (f + 4 * (1017 + of_nat k)) = first_frame syms ke ! k"
  obtains u where "schedule t = Ret (Some (sym_task_kernel_bootstrap syms)) u" "vm_ok u" "paging_on u"
    "current_task u = Some i" "reg_esp u = f + 4 * 1022" "esp0 (tss (gdt_st u)) = t_kstack (task_table t ! i)"
    "rd32 (mem u) (f + 4 * 1022) = sym_task_exit syms" "rd32 (mem u) (f + 4 * 1023) = ke" "ram_top u = ram_top t"
proof -
  have len: "length (task_table t) = 32" using inv by (simp add: sched_inv_def)
  have p: "xs ! k \<in> set xs" using cur by simp
  have c: "i \<in> set xs" "ready (task_table t) i" using find_others [OF nxt] by simp_all
  have b: "xs ! k < length (task_table t)" "i < length (task_table t)"
    using sched_inv_bound [OF inv p] sched_inv_bound [OF inv c(1)] len by simp_all
  have ne: "xs ! k \<noteq> i" using c(2) inv cur by (auto simp: sched_inv_def)
  define h where "h = hand_over (xs ! k) i t"
  have hm: "vm_ok h" "paging_on h" "mem h = mem t" "cr3 h = cr3 t" "pmm_st h = pmm_st t"
    "current_page_directory h = current_page_directory t" "reg_esp h = reg_esp t"
    using ok by (simp_all add: h_def)
  have hl: "xs ! k < length (task_table h)" "i < length (task_table h)" "current_task h = Some i"
    using hand_over_fields(2,3) [OF b] b by (simp_all add: h_def)
  have ht: "task_table h ! i = (task_table t ! i)\<lparr>t_state := 1\<rparr>" unfolding h_def by (rule hand_over_task [OF ne b(2)])
  have hst: "stack_at h (cr3 h) g j" using st(1) by (simp add: stack_at_def hm)
  have hi: "t_esp (task_table h ! i) = f + 4096 - 28" "t_page_directory (task_table h ! i) = cr3 h"
    using i by (simp_all add: ht hm)
  have hf: "unat f + 4096 \<le> ram_top h" "\<not> walk_frame (mem h) (current_page_directory h) f"
    "\<And>k. k < 7 \<Longrightarrow> rd32 (mem h) (f + 4 * (1017 + of_nat k)) = first_frame syms ke ! k"
    using f fr by (simp_all add: hm)
  obtain u where u: "switch_task (xs ! k) i h = Ret (sym_task_kernel_bootstrap syms) u" "vm_ok u" "paging_on u"
    "sched_view u = sched_view h" "reg_esp u = f + 4 * 1022" "esp0 (tss (gdt_st u)) = t_kstack (task_table h ! i)"
    "rd32 (mem u) (f + 4 * 1022) = sym_task_exit syms" "rd32 (mem u) (f + 4 * 1023) = ke" "ram_top u = ram_top h"
    by (rule first_switch [OF hm(1,2) hst ne hl(1) st(2) hl(2) hi f(1) hf(1,2)], erule hf(3), rule that)
  have "schedule t = Ret (Some (sym_task_kernel_bootstrap syms)) u"
    using schedule_eq [OF inv cur(2,1)] nxt u(1) by (simp add: h_def)
  moreover have "current_task u = Some i" using sched_view_eqD(2) [OF u(4)] hl(3) by simp
  ultimately show thesis
    using u by (intro that [of u]) (simp_all add: ht hm)
qed

subsection \<open>Properties of the scheduler\<close>

text \<open>
  C11 Round robin: with the task list in order, \<^verbatim>\<open>schedule\<close> takes the first READY task behind the
  current one in cyclic order. Without one it returns to its caller with nothing changed;
  with one whose context can be restored it switches to it: the list is intact, that task is
  the current and RUNNING one, and its predecessor is READY again unless it had exited.
\<close>

theorem schedule_round_robin:
  assumes "sched_inv xs s" "k < length xs" "current_task s = Some (xs ! k)"
    and "\<And>c. List.find (ready (task_table s)) (drop (Suc k) xs @ take k xs) = Some c \<Longrightarrow> switchable s c"
  shows "case List.find (ready (task_table s)) (drop (Suc k) xs @ take k xs) of
      None \<Rightarrow> schedule s = Ret None s
    | Some c \<Rightarrow> (\<exists>a t. schedule s = Ret (Some a) t \<and> sched_inv xs t \<and> current_task t = Some c \<and>
        t_state (task_table t ! c) = TASK_STATE_RUNNING \<and>
        t_state (task_table t ! (xs ! k)) =
          (if t_state (task_table s ! (xs ! k)) = TASK_STATE_RUNNING then TASK_STATE_READY else TASK_STATE_ZOMBIE))"
proof (cases "List.find (ready (task_table s)) (others xs k)")
  case None
  then show ?thesis
    using schedule_eq [OF assms(1,3,2)] by (simp add: others_def)
next
  case (Some c)
  then have "c \<in> set xs" "ready (task_table s) c"
    using find_others [OF Some] by simp_all
  moreover have st: "t_state (task_table s ! (xs ! k)) \<in> {1, 3}" and len: "length (task_table s) = 32"
    using assms by (auto simp: sched_inv_def)
  moreover have b: "x < length (task_table s)" if "x \<in> set xs" for x
    using sched_inv_bound [OF assms(1) that] len by simp
  ultimately have c: "c < length (task_table s)" "xs ! k < length (task_table s)" "c \<noteq> xs ! k"
    using assms(2) by auto
  note h = hand_over_fields [OF c(2,1)]
  have "switchable s c" using assms(4) Some by (simp add: others_def)
  then obtain a t where r: "schedule s = Ret (Some a) t"
    using schedule_total [OF assms(1-3) Some] by blast
  have "sched_view t = sched_view (hand_over (xs ! k) c s)"
    using schedule_step [OF assms(1,3,2) r] Some by simp
  note v = sched_view_eqD [OF this]
  have "sched_inv xs t \<and> current_task t = Some c \<and> t_state (task_table t ! c) = 1 \<and>
      t_state (task_table t ! (xs ! k)) = (if t_state (task_table s ! (xs ! k)) = 1 then 0 else 3)"
    using schedule_inv [OF assms(1) r] v(2) v(4) [of c] v(4) [of "xs ! k"] c st h(2,3)
      h(6) [of c] h(6) [of "xs ! k"] by auto
  with Some r show ?thesis by (auto simp: others_def)
qed

theorem schedule_round_robin_witness:
  "\<exists>s t a u. vmm_init small_kern = Ret () s \<and> task_create demo_symbols 0x104000 0 False (one_task s) = Ret (Some 1) t \<and>
     schedule t = Ret (Some a) u \<and> current_task u = Some 1"
proof -
  obtain s t f where t: "vmm_init small_kern = Ret () s" "task_create demo_symbols 0x104000 0 False (one_task s) = Ret (Some 1) t"
    "vm_ok t" "paging_on t" "sched_inv [0, 1] t" "current_task t = Some 0" "stack_at t (cr3 t) 0 0x200" "f \<noteq> 0"
    "frame_aligned f" "unat f + 4096 \<le> ram_top t"
    "t_esp (task_table t ! 1) = f + 4096 - 28" "t_page_directory (task_table t ! 1) = cr3 t" "ready (task_table t) 1"
    by (rule two_task_boot) (rule that)
  have "context_at t 1 f 1017" using t(5,9,10,11) by (simp add: context_at_def sched_inv_def)
  then have "switchable t 1" using t(3,7,8,12) by (auto simp: switchable_def)
  then show ?thesis
    using schedule_round_robin [of "[0, 1]" t 0] t(1,2,5,6,13) by auto
qed

text \<open>
  C13 No starvation: along any run of the scheduler in which nobody else touches its data, every
  READY task on the list becomes the current one after fewer calls of \<^verbatim>\<open>schedule\<close> than there are
  tasks on the list.
\<close>

theorem no_starvation:
  assumes "sched_run (length xs - 1) S" "sched_inv xs (S 0)" "i \<in> set xs" "ready (task_table (S 0)) i"
  shows "\<exists>n < length xs. current_task (S n) = Some i"
proof -
  obtain k where k: "k < length xs" "current_task (S 0) = Some (xs ! k)"
    using assms(2) by (auto simp: sched_inv_def)
  obtain j where j: "j < length xs" "xs ! j = i" using assms(3) by (metis in_set_conv_nth)
  define d where "d = (j + length xs - k) mod length xs"
  have d: "d < length xs" "(k + d) mod length xs = j"
    using k(1) j(1) by (auto simp: d_def mod_add_right_eq intro!: mod_less_divisor)
  then have "sched_run d S" using assms(1) by (simp add: sched_run_def)
  from run_reaches [OF this assms(2) k(2,1) d(1)] d assms(4) j(2) show ?thesis
    using le_less_trans by blast
qed


theorem no_starvation_witness:
  "\<exists>s t r u. vmm_init small_kern = Ret () s \<and> task_create demo_symbols 0x104000 0 False (one_task s) = Ret (Some 1) t \<and>
     schedule t = Ret r u \<and> current_task u = Some 1"
proof -
  obtain s t f where t: "vmm_init small_kern = Ret () s" "task_create demo_symbols 0x104000 0 False (one_task s) = Ret (Some 1) t"
    "vm_ok t" "paging_on t" "sched_inv [0, 1] t" "current_task t = Some 0" "stack_at t (cr3 t) 0 0x200" "f \<noteq> 0"
    "frame_aligned f" "unat f + 4096 \<le> ram_top t" "\<not> walk_frame (mem t) (current_page_directory t) f"
    "t_esp (task_table t ! 1) = f + 4096 - 28" "t_page_directory (task_table t ! 1) = cr3 t" "ready (task_table t) 1"
    "t_page_directory (task_table t ! 0) = cr3 t"
    "\<And>k. k < 7 \<Longrightarrow> rd32 (mem t) (f + 4 * (1017 + of_nat k)) = first_frame demo_symbols 0x104000 ! k"
    by (rule two_task_boot) (rule that)
  have c: "0 < length [0, 1 :: nat]" "current_task t = Some ([0, 1] ! 0)"
    and n: "List.find (ready (task_table t)) (others [0, 1] 0) = Some 1"
    using t(6,14) by (simp_all add: others_def)
  obtain u where "schedule t = Ret (Some (sym_task_kernel_bootstrap demo_symbols)) u"
    by (rule schedule_new [OF t(3-5) c t(7) t(8) [symmetric] n t(12,13) t(9-11)], erule t(16), rule that)
  moreover from this have "sched_run 1 (\<lambda>n. if n = 0 then t else u)" by (auto simp: sched_run_def)
  ultimately show ?thesis
    using no_starvation [of "[0, 1]" "\<lambda>n. if n = 0 then t else u" 1] t(1,2,5,6,14) by (auto split: if_splits)
qed






text \<open>
  The first switch into a new task: after \<^verbatim>\<open>task_create\<close> on the active directory, when no other
  task is READY, \<^verbatim>\<open>schedule\<close> goes on in \<^verbatim>\<open>task_kernel_bootstrap\<close> on the new stack, set up as a call
  whose return address is \<^verbatim>\<open>task_exit\<close> and whose argument is the entry point (for a user task
  \<^verbatim>\<open>task_user_bootstrap\<close>), and the TSS names the end of that stack for entries from ring 3.
\<close>

theorem new_task_enters_bootstrap:
  assumes "vm_ok s" "paging_on s" "sched_inv xs s" "find_slot (task_table s) = Some i" "t_pid (task_table s ! i) = 0"
    and "next_pid s \<noteq> 0" "used_blocks s \<noteq> all_blocks (pmm_st s)"
    and "\<forall>x \<in> set xs. \<not> ready (task_table s) x" "stack_at s (cr3 s) g j" "block_of g \<in> used_blocks s"
  shows "\<exists>t u. task_create syms entry 0 is_user s = Ret (Some i) t \<and>
    schedule t = Ret (Some (sym_task_kernel_bootstrap syms)) u \<and> vm_ok u \<and> current_task u = Some i \<and>
    reg_esp u = t_kstack (task_table t ! i) - 8 \<and> esp0 (tss (gdt_st u)) = t_kstack (task_table t ! i) \<and>
    load32 (reg_esp u) u = Ret (sym_task_exit syms) u \<and>
    load32 (reg_esp u + 4) u = Ret (if is_user then sym_task_user_bootstrap syms else entry) u"
proof -
  have dir: "cr3 s = (if (0 :: u32) \<noteq> 0 then 0 else cr3 s)" by simp
  obtain t f where t: "task_create syms entry 0 is_user s = Ret (Some i) t"
    "vm_ok t" "paging_on t" "sched_inv (xs @ [i]) t" "frame_aligned f" "block_of f \<notin> used_blocks s"
    "used_blocks t = insert (block_of f) (used_blocks s)" "ram_top t = ram_top s" "cr3 t = cr3 s"
    "current_page_directory t = current_page_directory s" "\<not> walk_frame (mem t) (current_page_directory t) f"
    "task_table t ! i = (fresh_task (next_pid s) f entry (cr3 s) (task_table s ! i))\<lparr>t_next := None\<rparr>"
    "current_task t = current_task s"
    "\<And>k. k < 7 \<Longrightarrow> rd32 (mem t) (f + 4 * (1017 + of_nat k)) =
       first_frame syms (if is_user then sym_task_user_bootstrap syms else entry) ! k"
    "\<And>g. block_of g \<in> used_blocks s \<Longrightarrow> \<not> walk_frame (mem s) (current_page_directory s) g \<Longrightarrow>
       \<not> walk_frame (mem t) (current_page_directory t) g \<and> (\<forall>a. in_frame g a \<longrightarrow> mem t a = mem s a)"
    "reg_esp t = reg_esp s" "\<And>j. j \<noteq> i \<Longrightarrow> \<exists>n. task_table t ! j = (task_table s ! j)\<lparr>t_next := n\<rparr>"
    by (rule task_create_new [OF assms(1-7) refl dir]) (rule that)
  obtain k where k: "k < length xs" "current_task s = Some (xs ! k)" using assms(3) by (auto simp: sched_inv_def)
  have i: "i \<notin> set xs" using assms(3-5) by (auto simp: sched_inv_def find_slot_def find_Some_iff)
  have old: "\<not> ready (task_table t) x" if "x \<in> set xs" for x
  proof -
    have "x \<noteq> i" using that i by auto
    from t(17) [OF this] assms(8) that show ?thesis by auto
  qed
  have find_old: "List.find (ready (task_table t)) (drop (Suc k) xs) = None"
    using old by (auto simp: find_None_iff dest: in_set_dropD)
  have "ready (task_table t) i" by (simp add: t(12) fresh_task_def)
  then have n: "List.find (ready (task_table t)) (others (xs @ [i]) k) = Some i"
    using k(1) find_old by (simp add: others_def find_append)
  have kk: "k < length (xs @ [i])" "current_task t = Some ((xs @ [i]) ! k)"
    using k t(13) by (simp_all add: nth_append)
  have cr: "cr3 s = current_page_directory s" "cr3 t = current_page_directory t"
    using vm_okD(5) [OF assms(1,2)] vm_okD(5) [OF t(2,3)] by simp_all
  have st: "stack_at t (cr3 t) g j" and gf: "g \<noteq> f"
    using assms(9,10) t(6,8,10,16) t(15) [of g] cr by (auto simp: stack_at_def)
  have fb: "unat f + 4096 \<le> ram_top t" using used_in_ram [OF t(5), of t] t(7) by simp
  have ti: "t_esp (task_table t ! i) = f + 4096 - 28" "t_page_directory (task_table t ! i) = cr3 t"
    "t_kstack (task_table t ! i) = f + 4096" by (simp_all add: t(9,12) fresh_task_def)
  obtain u where u: "schedule t = Ret (Some (sym_task_kernel_bootstrap syms)) u" "vm_ok u" "paging_on u"
    "current_task u = Some i" "reg_esp u = f + 4 * 1022" "esp0 (tss (gdt_st u)) = t_kstack (task_table t ! i)"
    "rd32 (mem u) (f + 4 * 1022) = sym_task_exit syms"
    "rd32 (mem u) (f + 4 * 1023) = (if is_user then sym_task_user_bootstrap syms else entry)" "ram_top u = ram_top t"
    by (rule schedule_new [OF t(2-4) kk st gf n ti(1,2) t(5) fb t(11)], erule t(14), rule that)
  have fu: "unat f + 4096 \<le> ram_top u" using fb u(9) by simp
  have ix: "unat (1022 :: u32) < 1024" "unat (1023 :: u32) < 1024" by simp_all
  show ?thesis
    by (rule exI [of _ t], rule exI [of _ u])
      (use t(1) u(1,2,4-8) ti(3) frame_load32 [OF u(2) t(5) fu ix(1)] frame_load32 [OF u(2) t(5) fu ix(2)]
       in \<open>simp add: add.commute\<close>)
qed

theorem new_task_enters_bootstrap_witness:
  "\<exists>s t u. vmm_init small_kern = Ret () s \<and> task_create demo_symbols 0x104000 0 True (one_task s) = Ret (Some 1) t \<and>
     schedule t = Ret (Some 0x101000) u \<and> load32 (reg_esp u + 4) u = Ret 0x102000 u"
proof -
  obtain s where s: "vmm_init small_kern = Ret () s" "vm_ok (one_task s)" "paging_on (one_task s)"
    "sched_inv [0] (one_task s)" "ram_top (one_task s) = 0x8000"
    "\<not> walk_frame (mem (one_task s)) (current_page_directory (one_task s)) 0" "0 \<in> used_blocks (one_task s)"
    "used_blocks (one_task s) \<noteq> all_blocks (pmm_st (one_task s))"
    by (rule small_kern_boot) (rule that)
  have "stack_at (one_task s) (cr3 (one_task s)) 0 0x200" "block_of 0 \<in> used_blocks (one_task s)"
    using s(5-7) vm_okD(5) [OF s(2,3)] by (simp_all add: stack_at_def one_task_vars frame_aligned_def)
  from new_task_enters_bootstrap [OF s(2-4) one_task_vars(1,2) _ s(8) _ this, of demo_symbols "0x104000" True] s(1)
  show ?thesis by (auto simp: one_task_vars demo_symbols_def)
qed


text \<open>
  A task resumes where it left off: when a task calls \<^verbatim>\<open>switch_task\<close> and is later switched back
  to, with its stack page and its table entry untouched in between, the switch back
  returns to the address on top of its stack with its four callee-saved registers and its stack
  pointer restored, on its own directory and with its own kernel stack in the TSS.
\<close>

theorem switch_round_trip:
  assumes "vm_ok s" "vm_ok (load_directory (t_page_directory (task_table s ! b)) s)"
    and "stack_at s (t_page_directory (task_table s ! b)) g j" "unat j < 1024" "context_at s b h l"
    and "a \<noteq> b" "h \<noteq> g" "a < length (task_table s)" "switch_task a b s = Ret x s1"
    and "vm_ok s2" "vm_ok (load_directory (t_page_directory (task_table s2 ! a)) s2)"
    and "stack_at s2 (t_page_directory (task_table s2 ! a)) g' j'" "g \<noteq> g'" "ram_top s2 = ram_top s1"
    and "a < length (task_table s2)" "b < length (task_table s2)"
    and "t_esp (task_table s2 ! a) = t_esp (task_table s1 ! a)" "\<And>y. in_frame g y \<Longrightarrow> mem s2 y = mem s1 y"
  shows "\<exists>s3. switch_task b a s2 = Ret (rd32 (mem s) (reg_esp s)) s3 \<and> reg_esp s3 = reg_esp s + 4 \<and>
    reg_ebp s3 = reg_ebp s \<and> reg_ebx s3 = reg_ebx s \<and> reg_esi s3 = reg_esi s \<and> reg_edi s3 = reg_edi s \<and>
    cr3 s3 = t_page_directory (task_table s2 ! a) \<and> esp0 (tss (gdt_st s3)) = t_kstack (task_table s2 ! a)"
proof -
  have sa: "frame_aligned g" "unat g + 4096 \<le> ram_top s" "reg_esp s = g + 4 * j" "4 \<le> unat j"
    using assms(3) by (auto simp: stack_at_def)
  note sv = switch_saves [OF assms(1-3,5-8,4,9)]
  have idx: "unat (j - 4) + 5 \<le> 1024" using sa(4) assms(4) by (simp add: unat_minus_small)
  then have cx: "context_at s2 a g (j - 4)"
    using assms(14,15,17) sa(1,2) sv(1,2) by (simp add: context_at_def)
  note sw = switch_task_spec(1) [OF assms(10-12) cx assms(6) [symmetric] assms(13) assms(16)]
  have rd: "rd32 (mem s2) (g + 4 * (j - 4 + k)) = rd32 (mem s1) (g + 4 * (j - 4 + k))" if "unat k < 5" for k
  proof -
    have "unat (j - 4 + k) < 1024" using idx that by (subst unat_plus_small) auto
    then show ?thesis using assms(18) sa(1) by (intro rd32_entry_cong)
  qed
  have r: "rd32 (mem s2) (g + 4 * (j - 4)) = reg_edi s" "rd32 (mem s2) (g + 4 * (j - 4 + 1)) = reg_esi s"
    "rd32 (mem s2) (g + 4 * (j - 4 + 2)) = reg_ebx s" "rd32 (mem s2) (g + 4 * (j - 4 + 3)) = reg_ebp s"
    "rd32 (mem s2) (g + 4 * (j - 4 + 4)) = rd32 (mem s) (reg_esp s)"
    using sv(3-7) rd [of 0] rd [of 1] rd [of 2] rd [of 3] rd [of 4] by (simp_all only: add_0_right) simp_all
  have "j - 4 + 5 = j + 1" by simp
  then show ?thesis
    unfolding sw r
    by (simp add: set_kernel_stack_def tss_set_kernel_stack_def upd_task_def sa(3) algebra_simps)
qed


theorem switch_round_trip_witness:
  "\<exists>s t t1 x t2. vmm_init small_kern = Ret () s \<and> task_create demo_symbols 0x104000 0 False (one_task s) = Ret (Some 1) t \<and>
     switch_task 0 1 t = Ret x t1 \<and> switch_task 1 0 t1 = Ret (rd32 (mem t) 0x800) t2 \<and> reg_ebp t2 = reg_ebp t"
proof -
  obtain s t f where t: "vmm_init small_kern = Ret () s" "task_create demo_symbols 0x104000 0 False (one_task s) = Ret (Some 1) t"
    "vm_ok t" "paging_on t" "sched_inv [0, 1] t" "current_task t = Some 0" "stack_at t (cr3 t) 0 0x200" "f \<noteq> 0"
    "frame_aligned f" "unat f + 4096 \<le> ram_top t" "\<not> walk_frame (mem t) (current_page_directory t) f"
    "t_esp (task_table t ! 1) = f + 4096 - 28" "t_page_directory (task_table t ! 1) = cr3 t"
    "t_page_directory (task_table t ! 0) = cr3 t"
    "\<And>k. k < 7 \<Longrightarrow> rd32 (mem t) (f + 4 * (1017 + of_nat k)) = first_frame demo_symbols 0x104000 ! k"
    by (rule two_task_boot) (rule that)
  have len: "length (task_table t) = 32" using t(5) by (simp add: sched_inv_def)
  have l: "(0::nat) \<noteq> 1" "0 < length (task_table t)" "1 < length (task_table t)" using len by simp_all
  obtain u where u: "switch_task 0 1 t = Ret (sym_task_kernel_bootstrap demo_symbols) u" "vm_ok u" "paging_on u"
    "reg_esp u = f + 4 * 1022" "cr3 u = cr3 t" "current_page_directory u = current_page_directory t" "ram_top u = ram_top t"
    "\<not> walk_frame (mem u) (current_page_directory u) f"
    "task_table u = (task_table t)[0 := (task_table t ! 0)\<lparr>t_esp := 0 + 4 * (0x200 - 4)\<rparr>]"
    by (rule first_switch [OF t(3,4,7) l(1,2) t(8) [symmetric] l(3) t(12,13) t(9-11)], erule t(15), rule that)
  have d: "load_directory (t_page_directory (task_table t ! 1)) t = t"
    "load_directory (t_page_directory (task_table u ! 0)) u = u" "t_page_directory (task_table u ! 0) = cr3 u"
    using t(13,14) u(5,9) len by (simp_all add: load_directory_def)
  have "stack_at u (cr3 u) f 1022"
    using t(9,10) u(4-8) vm_okD(5) [OF t(3,4)] by (simp add: stack_at_def)
  moreover have "context_at t 1 f 1017" using t(9,10,12) len by (simp add: context_at_def)
  moreover have "reg_esp t = 0x800" using t(7) by (simp add: stack_at_def)
  ultimately show ?thesis
    using switch_round_trip [of t 1 0 "0x200" f 1017 0 _ u u f 1022] t(1,2,3,7,8,13) u(1,2,7,9) d len by auto
qed

text \<open>
  C33 Recycling the slot of an exited task that is still linked in the middle of the list cuts the
  list behind it: \<^verbatim>\<open>task_create\<close> succeeds, but every task behind the recycled one, READY or not, is
  on the list no more and the scheduler will never find it.
\<close>

theorem recycled_slot_cuts_list:
  assumes "vm_ok s" "paging_on s" "sched_inv xs s" "find_slot (task_table s) = Some i"
    and "used_blocks s \<noteq> all_blocks (pmm_st s)" "Suc k < length xs" "xs ! k = i"
  shows "\<exists>t. task_create syms entry page_dir is_user s = Ret (Some i) t \<and>
    chain (task_table t) (task_list t) (take (Suc k) xs) \<and>
    (\<forall>x \<in> set (drop (Suc k) xs). x \<notin> set (take (Suc k) xs) \<and> t_state (task_table t ! x) = t_state (task_table s ! x))"
proof -
  have len: "length (task_table s) = 32" and ds: "distinct xs" using assms(3) by (auto simp: sched_inv_def)
  obtain t f where t: "task_create syms entry page_dir is_user s = obind (append_task i t) (\<lambda>_ t. Ret (Some i) t)"
    "task_table t = (task_table s)[i := fresh_task (next_pid s) f entry (if page_dir \<noteq> 0 then page_dir else cr3 s) (task_table s ! i)]"
    "task_list t = task_list s"
    by (rule task_create_run [OF assms(1,2) len assms(4,5) refl refl]) (rule that)
  have r: "t_next (fresh_task (next_pid s) f entry (if page_dir \<noteq> 0 then page_dir else cr3 s) (task_table s ! i)) =
      t_next (task_table s ! i)" by (simp add: fresh_task_def)
  obtain u where u: "append_task i t = Ret () u" "chain (task_table u) (task_list u) (take (Suc k) xs)"
    "\<And>j. j \<noteq> i \<Longrightarrow> t_state (task_table u ! j) = t_state (task_table s ! j)"
    by (rule append_task_listed [OF assms(3,6,7) t(2,3) r]) (rule that)
  have "set (take (Suc k) xs) \<inter> set (drop (Suc k) xs) = {}" by (rule set_take_disj_set_drop_if_distinct [OF ds]) simp
  moreover have "i \<in> set (take (Suc k) xs)" using assms(6,7) by (auto simp: take_Suc_conv_app_nth)
  ultimately have "x \<notin> set (take (Suc k) xs) \<and> x \<noteq> i" if "x \<in> set (drop (Suc k) xs)" for x
    using that by blast
  then show ?thesis using t(1) u by (intro exI [of _ u]) auto
qed

definition three_tasks :: "kern \<Rightarrow> kern" where
  "three_tasks s = (one_task s)\<lparr>task_table :=
     [task_zero\<lparr>t_pid := 1, t_state := 1, t_next := Some 1\<rparr>, task_zero\<lparr>t_pid := 2, t_state := 3, t_next := Some 2\<rparr>,
      task_zero\<lparr>t_pid := 3\<rparr>] @ replicate 29 task_zero\<rparr>"

theorem recycled_slot_cuts_list_witness:
  "\<exists>s t. vmm_init small_kern = Ret () s \<and> task_create demo_symbols 0x104000 0 False (three_tasks s) = Ret (Some 1) t \<and>
     chain (task_table t) (task_list t) [0, 1] \<and> ready (task_table t) 2"
proof -
  obtain s where s: "vmm_init small_kern = Ret () s" "vm_ok (one_task s)" "paging_on (one_task s)"
    "used_blocks (one_task s) \<noteq> all_blocks (pmm_st (one_task s))"
    by (rule small_kern_boot) (rule that)
  have h: "task_list (three_tasks s) = Some 0" "current_task (three_tasks s) = Some 0"
    by (simp_all add: three_tasks_def one_task_def scheduler_init_def Let_def)
  have z: "t_pid (replicate 29 task_zero ! i) = 0" if "i < 29" for i using that by (simp add: task_zero_def)
  have "sched_inv [0, 1, 2] (three_tasks s)"
    unfolding sched_inv_def h by (auto simp: three_tasks_def task_zero_def nth_append nth_Cons' z)
  moreover have "find_slot (task_table (three_tasks s)) = Some 1"
    by (simp add: three_tasks_def find_slot_def upt_rec slot_free_def task_zero_def)
  moreover have "vm_ok (three_tasks s)" "paging_on (three_tasks s)" "used_blocks (three_tasks s) \<noteq> all_blocks (pmm_st (three_tasks s))"
    using s(2-4) vm_ok_cong [of "three_tasks s" "one_task s"] by (simp_all add: three_tasks_def paging_on_def)
  moreover have "t_state (task_table (three_tasks s) ! 2) = 0" by (simp add: three_tasks_def task_zero_def)
  ultimately show ?thesis
    using recycled_slot_cuts_list [of "three_tasks s" "[0, 1, 2]" 1 1 demo_symbols "0x104000" 0 False] s(1)
    by (auto simp: numeral_2_eq_2)
qed

end
