(* ===== verification/Traps.thy ===== *)
theory Traps
  imports Task
begin

text \<open>
  Memory accesses together with the page fault they may raise. The processor loads the address
  into \<^verbatim>\<open>cr2\<close>, the stub of vector 14 (\<^verbatim>\<open>src/isr.s\<close>) builds the register frame and calls
  \<^verbatim>\<open>isr_dispatch\<close> (\<^verbatim>\<open>src/idt.c\<close>); when the handler returns, the access is repeated. Of the frame
  only the vector and the error code are modelled, the interrupted registers are 0: a handler
  that panics prints another EIP on the real machine; \<open>Stubs\<close> has the whole frame. Vector 14 is only ever given to
  \<^verbatim>\<open>page_fault_handler\<close>; with any other handler there the access counts as refused.
\<close>

definition fault_frame :: "u32 \<Rightarrow> registers" where
  "fault_frame err = \<lparr>r_ds = 0, r_edi = 0, r_esi = 0, r_ebp = 0, r_esp = 0, r_ebx = 0, r_edx = 0,
     r_ecx = 0, r_eax = 0, r_int_no = 14, r_err_code = err, r_eip = 0, r_cs = 0, r_eflags = 0,
     r_useresp = 0, r_ss = 0\<rparr>"

definition page_fault :: "u32 \<Rightarrow> u32 \<Rightarrow> 'a sys_scheme \<Rightarrow> (unit, 'a sys_scheme) outcome" where
  "page_fault err addr s =
     obind (isr_dispatch (\<lambda>h regs s. case h of
         Page_fault_handler \<Rightarrow> obind (page_fault_handler regs s) (\<lambda>r s. Ret (Iret r) s)
       | _ \<Rightarrow> Trap addr s) (fault_frame err) (s\<lparr>cr2 := addr\<rparr>))
     (\<lambda>_ s. Ret () s)"

text \<open>
  \<open>retry\<close>: the access \<open>m\<close>, and once more after the handler returned from the fault. In ring 0
  every present page can be read and written, so the error code has no bit but the write bit.
\<close>

definition retry ::
  "u32 \<Rightarrow> ('a sys_scheme \<Rightarrow> ('b, 'a sys_scheme) outcome) \<Rightarrow> 'a sys_scheme \<Rightarrow> ('b, 'a sys_scheme) outcome" where
  "retry err m s = (case m s of Trap a t \<Rightarrow> obind (page_fault err a t) (\<lambda>_. m) | r \<Rightarrow> r)"

definition kload8 :: "u32 \<Rightarrow> 'a sys_scheme \<Rightarrow> (u8, 'a sys_scheme) outcome" where
  "kload8 a = retry 0 (load8 a)"

definition kload32 :: "u32 \<Rightarrow> 'a sys_scheme \<Rightarrow> (u32, 'a sys_scheme) outcome" where
  "kload32 a = retry 0 (load32 a)"

definition kstore32 :: "u32 \<Rightarrow> u32 \<Rightarrow> 'a sys_scheme \<Rightarrow> (unit, 'a sys_scheme) outcome" where
  "kstore32 a v = retry 2 (store32 a v)"

text \<open>
  Ring 3: the entry must carry the user bit (and the write bit to write). The error code has
  bit 0 for a page that is present but refused, bit 1 for a write and bit 2 for ring 3.
\<close>

definition user_fault :: "bool \<Rightarrow> u32 \<Rightarrow> 'a sys_scheme \<Rightarrow> (unit, 'a sys_scheme) outcome" where
  "user_fault write a s =
     page_fault (4 OR (if write then 2 else 0) OR (if translate s a = None then 0 else 1)) a s"

definition uaccess ::
  "bool \<Rightarrow> u32 \<Rightarrow> ('a sys_scheme \<Rightarrow> ('b, 'a sys_scheme) outcome) \<Rightarrow> 'a sys_scheme \<Rightarrow> ('b, 'a sys_scheme) outcome" where
  "uaccess write a m s =
     (if user_access (mem s) (cr3 s AND 0xFFFFF000) a write then m s
      else obind (user_fault write a s) (\<lambda>_ s.
        if user_access (mem s) (cr3 s AND 0xFFFFF000) a write then m s else Trap a s))"

definition uload8 :: "u32 \<Rightarrow> 'a sys_scheme \<Rightarrow> (u8, 'a sys_scheme) outcome" where
  "uload8 a = uaccess False a (load8 a)"

definition ustore32 :: "u32 \<Rightarrow> u32 \<Rightarrow> 'a sys_scheme \<Rightarrow> (unit, 'a sys_scheme) outcome" where
  "ustore32 a v = uaccess True a (store32 a v)"

subsection \<open>Accesses that do not fault\<close>

lemma kload8_mapped: "translate s a = Some p \<Longrightarrow> kload8 a s = Ret (mem s p) s"
  by (simp add: kload8_def retry_def load8_def)

lemma kload32_mapped: "translate s a = Some p \<Longrightarrow> kload32 a s = Ret (rd32 (mem s) p) s"
  by (simp add: kload32_def retry_def load32_def)

lemma kstore32_mapped: "translate s a = Some p \<Longrightarrow> kstore32 a v s = Ret () (s\<lparr>mem := wr32 p v (mem s)\<rparr>)"
  by (simp add: kstore32_def retry_def store32_def)

subsection \<open>Accesses that the handler resolves\<close>

lemma fault_frame_simps [simp]: "r_err_code (fault_frame e) = e" "r_int_no (fault_frame e) = 14"
  by (simp_all add: fault_frame_def)

lemma page_fault_eq:
  assumes "handlers (idt_st s) ! 14 = Some Page_fault_handler"
  shows "page_fault err a s = obind (page_fault_handler (fault_frame err) (s\<lparr>cr2 := a\<rparr>)) (\<lambda>_ s. Ret () s)"
  using assms by (simp add: page_fault_def isr_dispatch_def obind_assoc)

lemma vm_ok_cr2 [simp]: "vm_ok (s\<lparr>cr2 := a\<rparr>) = vm_ok s"
  by (rule vm_ok_cong) simp_all

lemma page_fault_resolves:
  fixes s :: "'a sys_scheme"
  assumes ok: "vm_ok s" "paging_on s" and h: "handlers (idt_st s) ! 14 = Some Page_fault_handler"
    and a: "vm_lookup s a = None" "demand_fault a err" "fault_need a s \<le> free_blocks s"
  obtains t f where "page_fault err a s = Ret () t" "vm_ok t" "paging_on t" "frame_aligned f" "f \<noteq> 0"
    "block_of f \<notin> used_blocks s" "block_of f \<in> used_blocks t"
    "\<And>b. vm_lookup t b = (if vpn b = vpn a then Some (f OR 7) else vm_lookup s b)"
    "\<And>b. in_frame f b \<Longrightarrow> mem t b = mem s b"
    "\<And>g b. block_of g \<in> used_blocks s \<Longrightarrow> \<not> walk_frame (mem s) (current_page_directory s) g \<Longrightarrow>
       in_frame g b \<Longrightarrow> mem t b = mem s b"
    "t = s\<lparr>mem := mem t, tlb := tlb t, pmm_st := pmm_st t, console := console t, cr2 := a\<rparr>"
    "used_blocks s \<subseteq> used_blocks t" "ram_top t = ram_top s" "card (used_blocks t) = card (used_blocks s) + fault_need a s"
    "\<not> walk_frame (mem t) (current_page_directory t) f"
    "\<And>g. block_of g \<in> used_blocks s \<Longrightarrow> \<not> walk_frame (mem s) (current_page_directory s) g \<Longrightarrow>
       \<not> walk_frame (mem t) (current_page_directory t) g"
proof -
  let ?s = "s\<lparr>cr2 := a\<rparr>"
  have p: "vm_ok ?s" "paging_on ?s" "vm_lookup ?s (cr2 ?s) = None"
    "demand_fault (cr2 ?s) (r_err_code (fault_frame err))" "fault_need (cr2 ?s) ?s \<le> free_blocks ?s"
    using ok a by (simp_all add: paging_on_def fault_need_def free_blocks_def has_table_def)
  obtain t f where t: "page_fault_handler (fault_frame err) ?s = Ret (fault_frame err) t" "vm_ok t" "paging_on t"
    "frame_aligned f" "f \<noteq> 0" "block_of f \<notin> used_blocks ?s" "block_of f \<in> used_blocks t"
    "\<And>b. vm_lookup t b = (if vpn b = vpn (cr2 ?s) then Some (f OR 7) else vm_lookup ?s b)"
    "\<And>g b. block_of g \<in> used_blocks ?s \<Longrightarrow> \<not> walk_frame (mem ?s) (current_page_directory ?s) g \<Longrightarrow>
       in_frame g b \<Longrightarrow> mem t b = mem ?s b"
    "ram_top t = ram_top ?s" "\<And>b. in_frame f b \<Longrightarrow> mem t b = mem ?s b"
    "t = ?s\<lparr>mem := mem t, tlb := tlb t, pmm_st := pmm_st t, console := console t\<rparr>"
    "used_blocks ?s \<subseteq> used_blocks t" "card (used_blocks t) = card (used_blocks ?s) + fault_need (cr2 ?s) ?s"
    "\<not> walk_frame (mem t) (current_page_directory t) f"
    "\<And>g. block_of g \<in> used_blocks ?s \<Longrightarrow> \<not> walk_frame (mem ?s) (current_page_directory ?s) g \<Longrightarrow>
       \<not> walk_frame (mem t) (current_page_directory t) g"
    by (rule page_fault_handler_spec [OF p]) (rule that)
  show thesis
  proof (rule that [of t f])
    show "page_fault err a s = Ret () t" by (simp add: page_fault_eq [OF h] t(1))
    show "t = s\<lparr>mem := mem t, tlb := tlb t, pmm_st := pmm_st t, console := console t, cr2 := a\<rparr>"
      by (subst t(12)) simp
    show "card (used_blocks t) = card (used_blocks s) + fault_need a s"
      using t(14) by (simp add: fault_need_def has_table_def)
  qed (use t(2-11,13,15,16) in simp_all)
qed

end
