(* ===== verification/Timer.thy ===== *)
theory Timer
  imports Traps
begin

text \<open>
  \<^verbatim>\<open>src/timer.c\<close>: the timer interrupt, which counts ticks and calls the scheduler, and the
  initialisation of the 8259 interrupt controllers and the 8253 timer, seen as the sequence of
  port writes. \<^verbatim>\<open>tick\<close> is a field of the kernel state.
\<close>

definition timer_callback :: "registers \<Rightarrow> 'a kern_scheme \<Rightarrow> (handled, 'a kern_scheme) outcome" where
  "timer_callback regs s =
     (let s = s\<lparr>tick := tick s + 1\<rparr>;
          s = (if tick s mod 100 = 0
               then print (puts ''\<newline>'') (print (terminal_writedec (tick s)) (print (puts ''[Timer] Tick: '') s))
               else s)
      in obind (schedule s) (\<lambda>r s. Ret (case r of None \<Rightarrow> Iret regs | Some a \<Rightarrow> Switched a) s))"

text \<open>The remapping of the interrupt controllers: ICW1 to ICW4 and the masks.\<close>

definition pic_remap :: "(u16 \<times> u8) list" where
  "pic_remap = [(0x20, 0x11), (0xA0, 0x11), (0x21, 0x20), (0xA1, 0x28), (0x21, 0x04), (0xA1, 0x02),
     (0x21, 0x01), (0xA1, 0x01), (0x21, 0x00), (0xA1, 0x00)]"

text \<open>
  A division by zero raises exception 0. Should a handler for it return, the division is
  executed again, so the routine does not get past it.
\<close>

definition divide_error :: "'a sys_scheme \<Rightarrow> (unit, 'a sys_scheme) outcome" where
  "divide_error s =
     obind (isr_dispatch (\<lambda>_ regs s. Ret (Iret regs) s) ((fault_frame 0)\<lparr>r_int_no := 0\<rparr>) s) (\<lambda>_ s. Hang s)"

definition timer_init :: "u32 \<Rightarrow> 'a sys_scheme \<Rightarrow> (unit, 'a sys_scheme) outcome" where
  "timer_init frequency s =
     (let s = fold (\<lambda>(port, val). outb port val) pic_remap s in
      if frequency = 0 then divide_error s
      else
        (let divisor = 1193182 div frequency;
             s = outb 0x43 0x36 s;
             s = outb 0x40 (ucast (divisor AND 0xFF)) s;
             s = outb 0x40 (ucast (drop_bit 8 divisor AND 0xFF)) s;
             s = register_handler 32 Timer_callback s;
             s = print (puts ''[Timer] Initialized PIT at '') s;
             s = print (terminal_writedec frequency) s;
             s = print (puts '' Hz.\<newline>'') s
         in Ret () s))"

subsection \<open>The scheduler leaves the tick counter and the devices alone\<close>

definition dev_view :: "'a kern_scheme \<Rightarrow> u32 \<times> (u16 \<times> u8) list \<times> idt_state \<times> terminal" where
  "dev_view s = (tick s, ports s, idt_st s, console s)"

lemma dev_view_updates [simp]:
  "dev_view (s\<lparr>reg_esp := v\<rparr>) = dev_view s" "dev_view (s\<lparr>reg_ebp := v\<rparr>) = dev_view s"
  "dev_view (s\<lparr>reg_ebx := v\<rparr>) = dev_view s" "dev_view (s\<lparr>reg_esi := v\<rparr>) = dev_view s"
  "dev_view (s\<lparr>reg_edi := v\<rparr>) = dev_view s" "dev_view (s\<lparr>mem := m\<rparr>) = dev_view s"
  "dev_view (load_directory pd s) = dev_view s" "dev_view (set_kernel_stack a s) = dev_view s"
  "dev_view (upd_task i f s) = dev_view s" "dev_view (cli s) = dev_view s" "dev_view (sti s) = dev_view s"
  "dev_view (hand_over p c s) = dev_view s"
  by (simp_all add: dev_view_def load_directory_def write_cr3_def set_kernel_stack_def upd_task_def cli_def sti_def
      hand_over_def Let_def)

lemma push_dev: "push v s = Ret u t \<Longrightarrow> dev_view t = dev_view s"
  by (auto simp: push_def elim!: obind_RetE dest!: store32_fields)

lemma pop_dev: "pop s = Ret v t \<Longrightarrow> dev_view t = dev_view s"
  by (auto simp: pop_def elim!: obind_RetE dest!: load32_fields)

lemma switch_task_dev: "switch_task p c s = Ret a t \<Longrightarrow> dev_view t = dev_view s"
  unfolding switch_task_def Let_def by (auto elim!: obind_RetE dest!: push_dev pop_dev)

lemma schedule_dev: "schedule s = Ret r t \<Longrightarrow> dev_view t = dev_view s"
  unfolding schedule_def
  by (auto split: option.splits if_splits elim!: obind_RetE dest!: switch_task_dev)

subsection \<open>The timer interrupt\<close>

lemma timer_callback_eq:
  "timer_callback regs s =
     (let s' = (if (tick s + 1) mod 100 = 0
           then print (puts ''\<newline>'') (print (terminal_writedec (tick s + 1)) (print (puts ''[Timer] Tick: '') (s\<lparr>tick := tick s + 1\<rparr>)))
           else s\<lparr>tick := tick s + 1\<rparr>)
      in obind (schedule s') (\<lambda>r s. Ret (case r of None \<Rightarrow> Iret regs | Some a \<Rightarrow> Switched a) s))"
  by (simp add: timer_callback_def Let_def print_def)

lemma print_views [simp]:
  "sched_view (print f s) = sched_view s" "task_table (print f s) = task_table s" "current_task (print f s) = current_task s"
  "tick (print f s) = tick s"
  by (simp_all add: sched_view_def print_def)

lemma sched_view_tick [simp]: "sched_view (s\<lparr>tick := v\<rparr>) = sched_view s" "sched_view (s\<lparr>ports := p\<rparr>) = sched_view s"
  by (simp_all add: sched_view_def)

lemma timer_callback_step:
  assumes inv: "sched_inv xs s" and k: "k < length xs" "current_task s = Some (xs ! k)"
    and run: "timer_callback regs s = Ret h t"
  shows "tick t = tick s + 1" "ports t = ports s" "sched_inv xs t"
    "current_task t = (case List.find (ready (task_table s)) (others xs k) of None \<Rightarrow> Some (xs ! k) | Some c \<Rightarrow> Some c)"
proof -
  define s' where "s' = (if (tick s + 1) mod 100 = 0
      then print (puts ''\<newline>'') (print (terminal_writedec (tick s + 1)) (print (puts ''[Timer] Tick: '') (s\<lparr>tick := tick s + 1\<rparr>)))
      else s\<lparr>tick := tick s + 1\<rparr>)"
  have v: "sched_view s' = sched_view s" and t': "task_table s' = task_table s" "current_task s' = current_task s"
    "tick s' = tick s + 1" "ports s' = ports s"
    by (simp_all add: s'_def)
  have inv': "sched_inv xs s'" by (rule sched_inv_view [OF inv v])
  obtain r where r: "schedule s' = Ret r t"
    using run unfolding timer_callback_eq s'_def [symmetric] Let_def by (auto elim!: obind_RetE)
  have k': "current_task s' = Some (xs ! k)" using k(2) t'(2) by simp
  note st = schedule_step [OF inv' k' k(1) r]
  show "sched_inv xs t" by (rule schedule_inv [OF inv' r])
  show "tick t = tick s + 1" "ports t = ports s"
    using schedule_dev [OF r] t' by (simp_all add: dev_view_def)
  show "current_task t = (case List.find (ready (task_table s)) (others xs k) of None \<Rightarrow> Some (xs ! k) | Some c \<Rightarrow> Some c)"
    using st k' t'(1) sched_view_eqD(2)
    by (auto split: option.splits simp: hand_over_def Let_def sched_view_def)
qed

subsection \<open>Properties of the timer\<close>

lemma fold_outb: "fold (\<lambda>(port, val). outb port val) ws s = s\<lparr>ports := ports s @ ws\<rparr>"
  by (induction ws arbitrary: s) (auto simp: outb_def)

lemma byte_of_word:
  "unat (ucast (d AND 0xFF) :: u8) = unat (d :: u32) mod 256"
  "unat (ucast (drop_bit 8 d AND 0xFF) :: u8) = unat d div 256 mod 256"
proof -
  have m: "unat (x AND 0xFF) = unat x mod 256" for x :: u32
  proof -
    have "(0xFF :: u32) = mask 8" by (simp add: mask_eq_exp_minus_1)
    then have "x AND 0xFF = take_bit 8 x" by (simp only: take_bit_eq_mask)
    then have "unat (x AND 0xFF) = take_bit 8 (unat x)" by (simp only: unsigned_take_bit_eq)
    then show ?thesis by (simp add: take_bit_eq_mod)
  qed
  show "unat (ucast (d AND 0xFF) :: u8) = unat d mod 256"
    unfolding unsigned_ucast_eq m by (simp add: take_bit_eq_mod)
  show "unat (ucast (drop_bit 8 d AND 0xFF) :: u8) = unat d div 256 mod 256"
    unfolding unsigned_ucast_eq m by (simp add: take_bit_eq_mod unat_drop_bit_u32)
qed



end
