(* ===== verification/Syscall.thy ===== *)
theory Syscall
  imports Timer
begin

text \<open>
  \<^verbatim>\<open>src/syscall.c\<close>: the two system calls and their dispatcher, and the meaning of the handlers in
  the table of \<^verbatim>\<open>src/idt.c\<close>, with which the interrupt dispatchers are closed. The buffer of
  \<^verbatim>\<open>sys_write\<close> is read by the kernel, so an unmapped page of it goes through the page fault
  handler like any other kernel access.
\<close>

abbreviation (input) SYSCALL_WRITE :: u32 where "SYSCALL_WRITE \<equiv> 0"
abbreviation (input) SYSCALL_EXIT :: u32 where "SYSCALL_EXIT \<equiv> 1"

definition sys_write :: "registers \<Rightarrow> 'a sys_scheme \<Rightarrow> (registers, 'a sys_scheme) outcome" where
  "sys_write regs s =
     (let buf = r_ecx regs; len = r_edx regs in
      obind (foreach [0..<unat len] (\<lambda>i s.
          obind (kload8 (buf + of_nat i) s) (\<lambda>c s. Ret () (print (terminal_putchar c) s))) s)
        (\<lambda>_ s. Ret (regs\<lparr>r_eax := len\<rparr>) s))"

definition sys_exit :: "registers \<Rightarrow> 'a kern_scheme \<Rightarrow> (handled, 'a kern_scheme) outcome" where
  "sys_exit regs s =
     (let s = print (puts ''\<newline>[Kernel] Process exited with status '') s;
          c = 48 + ucast (r_ebx regs mod 10);
          s = print (terminal_putchar c) s;
          s = print (puts ''.\<newline>'') s
      in obind (task_exit s) (\<lambda>a s. Ret (Switched a) s))"

definition syscall_dispatch :: "registers \<Rightarrow> 'a kern_scheme \<Rightarrow> (handled, 'a kern_scheme) outcome" where
  "syscall_dispatch regs s =
     (if r_eax regs = SYSCALL_WRITE then obind (sys_write regs s) (\<lambda>r s. Ret (Iret r) s)
      else if r_eax regs = SYSCALL_EXIT then sys_exit regs s
      else Ret (Iret (regs\<lparr>r_eax := - 1\<rparr>)) (print (puts ''[Kernel] Warning: unknown syscall\<newline>'') s))"

definition syscall_init :: "'a sys_scheme \<Rightarrow> 'a sys_scheme" where
  "syscall_init s = register_handler 128 Syscall_dispatch s"

text \<open>The function behind each entry of the handler table.\<close>

definition call_handler :: "isr_handler \<Rightarrow> registers \<Rightarrow> 'a kern_scheme \<Rightarrow> (handled, 'a kern_scheme) outcome" where
  "call_handler h regs s =
     (case h of
        Page_fault_handler \<Rightarrow> obind (page_fault_handler regs s) (\<lambda>r s. Ret (Iret r) s)
      | Syscall_dispatch \<Rightarrow> syscall_dispatch regs s
      | Timer_callback \<Rightarrow> timer_callback regs s)"

subsection \<open>Writing\<close>

lemma print_print [simp]: "print f (print g s) = print (f o g) s"
  by (simp add: print_def)

lemma print_translate [simp]: "translate (print f s) a = translate s a"
  by (simp add: translate_def paging_on_def)

lemma sys_write_mapped:
  assumes "\<And>i. i < unat (r_edx regs) \<Longrightarrow> translate s (r_ecx regs + of_nat i) = Some (p i)"
  shows "sys_write regs s = Ret (regs\<lparr>r_eax := r_edx regs\<rparr>)
    (print (fold terminal_putchar (map (\<lambda>i. mem s (p i)) [0..<unat (r_edx regs)])) s)"
proof -
  have "foreach [0..<n] (\<lambda>i s. obind (kload8 (r_ecx regs + of_nat i) s) (\<lambda>c s. Ret () (print (terminal_putchar c) s))) s =
      Ret () (print (fold terminal_putchar (map (\<lambda>i. mem s (p i)) [0..<n])) s)"
    if "n \<le> unat (r_edx regs)" for n
    using that
  proof (induction n)
    case 0
    then show ?case by (simp add: print_def)
  next
    case (Suc n)
    then have "translate s (r_ecx regs + of_nat n) = Some (p n)" using assms by simp
    with Suc show ?case by (simp add: foreach_append kload8_mapped)
  qed
  then show ?thesis by (simp add: sys_write_def Let_def)
qed

subsection \<open>Exiting\<close>

lemma switchable_cong:
  assumes "mem t = mem s" "cr0 t = cr0 s" "cr3 t = cr3 s" "tlb t = tlb s" "pmm_st t = pmm_st s"
    "current_page_directory t = current_page_directory s" "reg_esp t = reg_esp s"
    "length (task_table t) = length (task_table s)" "t_esp (task_table t ! c) = t_esp (task_table s ! c)"
    "t_page_directory (task_table t ! c) = t_page_directory (task_table s ! c)"
  shows "switchable t c = switchable s c"
proof -
  let ?pd = "t_page_directory (task_table s ! c)"
  have "vm_ok t = vm_ok s" by (rule vm_ok_cong) (fact assms)+
  moreover have "vm_ok (load_directory ?pd t) = vm_ok (load_directory ?pd s)"
    by (rule vm_ok_cong) (simp_all add: assms load_directory_def write_cr3_def)
  ultimately show ?thesis by (simp add: switchable_def stack_at_def context_at_def assms)
qed

text \<open>The first READY task behind position \<open>k\<close>.\<close>

abbreviation next_ready :: "nat list \<Rightarrow> nat \<Rightarrow> 'a kern_scheme \<Rightarrow> nat option" where
  "next_ready xs k s \<equiv> List.find (ready (task_table s)) (drop (Suc k) xs @ take k xs)"

lemma task_exit_outcome:
  assumes inv: "sched_inv xs s" and k: "k < length xs" "current_task s = Some (xs ! k)"
    and sw: "\<And>c. next_ready xs k s = Some c \<Longrightarrow> switchable s c"
  shows "case next_ready xs k s of
      None \<Rightarrow> task_exit s = Hang (upd_task (xs ! k) (t_state_update (\<lambda>_. TASK_STATE_ZOMBIE)) (cli s))
    | Some c \<Rightarrow> (\<exists>a t. task_exit s = Ret a t \<and> dev_view t = dev_view s \<and> sched_inv xs t \<and> current_task t = Some c \<and>
        t_state (task_table t ! (xs ! k)) = TASK_STATE_ZOMBIE \<and> t_state (task_table t ! c) = TASK_STATE_RUNNING)"
proof -
  let ?p = "xs ! k"
  define z where "z = upd_task ?p (t_state_update (\<lambda>_. TASK_STATE_ZOMBIE)) (cli s)"
  have "sched_inv xs (cli s)" by (rule sched_inv_view [OF inv]) simp
  moreover have cur: "current_task (cli s) = Some ?p" using k(2) by (simp add: cli_def)
  ultimately have zi: "sched_inv xs z" unfolding z_def by (rule sched_inv_zombie)
  have zc: "current_task z = Some ?p" using cur by (simp add: z_def upd_task_def)
  have len: "length (task_table s) = 32" and ds: "distinct xs" using inv by (auto simp: sched_inv_def)
  have p: "?p \<in> set xs" using k(1) by simp
  have pl: "?p < length (task_table s)" using sched_inv_bound [OF inv p] len by simp
  have zp: "t_state (task_table z ! ?p) = 3" and zj: "\<And>j. j \<noteq> ?p \<Longrightarrow> task_table z ! j = task_table s ! j"
    using pl by (simp_all add: z_def upd_task_def cli_def)
  have po: "?p \<notin> set (others xs k)"
    using ds k(1) by (auto simp: others_def in_set_conv_nth nth_eq_iff_index_eq)
  have fnd: "List.find (ready (task_table z)) (others xs k) = List.find (ready (task_table s)) (others xs k)"
  proof (rule find_cong [OF refl])
    fix x assume "x \<in> set (others xs k)"
    then have "x \<noteq> ?p" using po by auto
    from zj [OF this] show "ready (task_table z) x = ready (task_table s) x" by (simp only:)
  qed
  have ex: "task_exit s = obind (schedule z) (\<lambda>r s. case r of None \<Rightarrow> Hang s | Some a \<Rightarrow> Ret a s)"
    using cur by (simp add: task_exit_def z_def Let_def)
  show ?thesis
  proof (cases "List.find (ready (task_table s)) (others xs k)")
    case None
    then have "task_exit s = Hang z"
      unfolding ex using schedule_eq [OF zi zc k(1)] fnd by simp
    with None show ?thesis by (simp add: z_def others_def)
  next
    case (Some c)
    then have zf: "List.find (ready (task_table z)) (others xs k) = Some c" by (simp only: fnd)
    have c: "c \<in> set xs" "ready (task_table z) c" using find_others [OF zf] by simp_all
    then have cl: "c < length (task_table z)" "?p < length (task_table z)" "c \<noteq> ?p"
      using sched_inv_bound [OF inv c(1)] pl zp len by (auto simp: z_def upd_task_def cli_def)
    have "switchable z c = switchable s c"
      using cl(3) zj [of c] by (intro switchable_cong) (simp_all add: z_def upd_task_def cli_def)
    moreover have "switchable s c" using sw Some by (simp add: others_def)
    ultimately obtain a t where sc: "schedule z = Ret (Some a) t"
      using schedule_total [OF zi k(1) zc zf] by auto
    have "sched_view t = sched_view (hand_over ?p c z)"
      using schedule_step [OF zi zc k(1) sc] zf by simp
    note v = sched_view_eqD [OF this]
    have "sched_inv xs t \<and> current_task t = Some c \<and> t_state (task_table t ! ?p) = 3 \<and> t_state (task_table t ! c) = 1"
      using schedule_inv [OF zi sc] v(2) v(4) [of c] v(4) [of ?p] hand_over_fields [OF cl(2,1)] cl zp by auto
    moreover have "dev_view t = dev_view s" using schedule_dev [OF sc] by (simp add: z_def)
    moreover have "task_exit s = Ret a t" by (simp add: ex sc)
    ultimately show ?thesis using Some by (auto simp: others_def)
  qed
qed

lemma sys_exit_outcome:
  assumes "sched_inv xs s" "k < length xs" "current_task s = Some (xs ! k)"
    and "handlers (idt_st s) ! 128 = Some Syscall_dispatch" "r_int_no regs = 128" "r_eax regs = 1"
    and "\<And>c. next_ready xs k s = Some c \<Longrightarrow> switchable s c"
  shows "case next_ready xs k s of
      None \<Rightarrow> (\<exists>t. isr_dispatch call_handler regs s = Hang t \<and> t_state (task_table t ! (xs ! k)) = TASK_STATE_ZOMBIE)
    | Some c \<Rightarrow> (\<exists>a t. isr_dispatch call_handler regs s = Ret (Switched a) t \<and> sched_inv xs t \<and> current_task t = Some c \<and>
        t_state (task_table t ! (xs ! k)) = TASK_STATE_ZOMBIE \<and> t_state (task_table t ! c) = TASK_STATE_RUNNING)"
proof -
  define s' where "s' = print (puts ''.\<newline>'') (print (terminal_putchar (48 + ucast (r_ebx regs mod 10)))
      (print (puts ''\<newline>[Kernel] Process exited with status '') s))"
  have v: "sched_view s' = sched_view s" and t': "task_table s' = task_table s" "current_task s' = Some (xs ! k)"
    using assms(3) by (simp_all add: s'_def)
  have inv: "sched_inv xs s'" by (rule sched_inv_view [OF assms(1) v])
  have sw: "switchable s' c = switchable s c" for c
    by (rule switchable_cong) (simp_all add: s'_def print_def)
  have run: "isr_dispatch call_handler regs s = obind (task_exit s') (\<lambda>a s. Ret (Switched a) s)"
    using assms(4-6) by (simp add: isr_dispatch_def call_handler_def syscall_dispatch_def sys_exit_def s'_def Let_def comp_assoc)
  have "length (task_table s) = 32" using assms(1) by (simp add: sched_inv_def)
  moreover have "xs ! k \<in> set xs" using assms(2) by simp
  ultimately have "xs ! k < length (task_table s')"
    using sched_inv_bound [OF assms(1)] t'(1) by simp
  then have z: "t_state (task_table (upd_task (xs ! k) (t_state_update (\<lambda>_. 3)) (cli s')) ! (xs ! k)) = 3"
    by (simp add: upd_task_def cli_def)
  show ?thesis
    using task_exit_outcome [OF inv assms(2) t'(2)] assms(7) sw z unfolding run t'
    by (auto split: option.splits)
qed

subsection \<open>The timer interrupt\<close>

lemma outb_fields [simp]:
  "idt_st (outb port v s) = idt_st s" "sched_view (outb port v t) = sched_view t"
  "task_table (outb port v t) = task_table t" "current_task (outb port v t) = current_task t" "tick (outb port v t) = tick t"
  "ports (outb port v s) = ports s @ [(port, v)]"
  by (simp_all add: outb_def sched_view_def)

lemma switchable_outb [simp]: "switchable (outb port v s) c = switchable s c"
  by (rule switchable_cong) (simp_all add: outb_def)

lemma timer_callback_total:
  assumes inv: "sched_inv xs s" and k: "k < length xs" "current_task s = Some (xs ! k)"
    and sw: "\<And>c. next_ready xs k s = Some c \<Longrightarrow> switchable s c"
  shows "\<exists>h t. timer_callback regs s = Ret h t"
proof -
  define s' where "s' = (if (tick s + 1) mod 100 = 0
      then print (puts ''\<newline>'') (print (terminal_writedec (tick s + 1)) (print (puts ''[Timer] Tick: '') (s\<lparr>tick := tick s + 1\<rparr>)))
      else s\<lparr>tick := tick s + 1\<rparr>)"
  have v: "sched_view s' = sched_view s" and t': "task_table s' = task_table s" "current_task s' = Some (xs ! k)"
    using k(2) by (simp_all add: s'_def)
  have inv': "sched_inv xs s'" by (rule sched_inv_view [OF inv v])
  have sw': "switchable s' c = switchable s c" for c
    by (rule switchable_cong) (simp_all add: s'_def print_def)
  have "\<exists>r t. schedule s' = Ret r t"
  proof (cases "next_ready xs k s")
    case None
    then have "List.find (ready (task_table s')) (others xs k) = None" by (simp add: t' others_def)
    then have "schedule s' = Ret None s'" using schedule_eq [OF inv' t'(2) k(1)] by simp
    then show ?thesis by blast
  next
    case (Some c)
    then have "List.find (ready (task_table s')) (others xs k) = Some c" "switchable s' c"
      using sw sw' by (simp_all add: t' others_def)
    then show ?thesis using schedule_total [OF inv' k(1) t'(2)] by blast
  qed
  then show ?thesis
    unfolding timer_callback_eq s'_def [symmetric] Let_def by auto
qed

subsection \<open>Properties of the system calls and the timer interrupt\<close>

text \<open>
  Preemption: the timer interrupt, through \<^verbatim>\<open>irq_dispatch\<close>, acknowledges the interrupt controller
  exactly once, before the task can be switched away, counts one tick and passes the
  processor to the first READY task behind the current one (or stays when there is none),
  with the task list intact.
\<close>

theorem timer_interrupt_preempts:
  assumes "sched_inv xs s" "k < length xs" "current_task s = Some (xs ! k)"
    and "handlers (idt_st s) ! 32 = Some Timer_callback" "r_int_no regs = 32"
    and "\<And>c. next_ready xs k s = Some c \<Longrightarrow> switchable s c"
  shows "\<exists>h t. irq_dispatch call_handler regs s = Ret h t \<and> ports t = ports s @ [(0x20, 0x20)] \<and>
    tick t = tick s + 1 \<and> sched_inv xs t \<and>
    current_task t = (case next_ready xs k s of None \<Rightarrow> current_task s | Some c \<Rightarrow> Some c)"
proof -
  let ?s = "outb 0x20 0x20 s"
  have i: "sched_inv xs ?s" by (rule sched_inv_view [OF assms(1)]) simp
  have c: "current_task ?s = Some (xs ! k)" using assms(3) by simp
  obtain h t where r: "timer_callback regs ?s = Ret h t"
    using timer_callback_total [OF i assms(2) c, of regs] assms(6) by auto
  have "irq_dispatch call_handler regs s = Ret h t"
    using r assms(4,5) by (simp add: irq_dispatch_def call_handler_def)
  then show ?thesis
    using timer_callback_step [OF i assms(2) c r] assms(3) by (auto simp: others_def split: option.split)
qed

text \<open>A kernel with all handlers registered.\<close>

definition wired :: "kern \<Rightarrow> kern" where
  "wired s = s\<lparr>idt_st := (idt_st s)\<lparr>handlers := (replicate 256 None)[14 := Some Page_fault_handler,
     32 := Some Timer_callback, 128 := Some Syscall_dispatch]\<rparr>\<rparr>"

lemma wired_simps [simp]:
  "handlers (idt_st (wired s)) ! 14 = Some Page_fault_handler" "handlers (idt_st (wired s)) ! 32 = Some Timer_callback"
  "handlers (idt_st (wired s)) ! 128 = Some Syscall_dispatch" "sched_view (wired s) = sched_view s"
  "task_table (wired s) = task_table s" "current_task (wired s) = current_task s" "ports (wired s) = ports s"
  "mem (wired s) = mem s" "paging_on (wired s) = paging_on s" "current_page_directory (wired s) = current_page_directory s"
  "tick (wired s) = tick s" "pmm_st (wired s) = pmm_st s" "switchable (wired s) c = switchable s c"
  "vm_ok (wired s) = vm_ok s" "console (wired s) = console s"
proof -
  show "switchable (wired s) c = switchable s c" by (rule switchable_cong) (simp_all add: wired_def)
  show "vm_ok (wired s) = vm_ok s" by (rule vm_ok_cong) (simp_all add: wired_def)
qed (simp_all add: wired_def sched_view_def paging_on_def)

lemma two_task_switchable:
  obtains s t where "vmm_init small_kern = Ret () s" "task_create demo_symbols 0x104000 0 False (one_task s) = Ret (Some 1) t"
    "sched_inv [0, 1] (wired t)" "current_task t = Some 0" "switchable t 1" "ready (task_table t) 1"
proof -
  obtain s t f where t: "vmm_init small_kern = Ret () s" "task_create demo_symbols 0x104000 0 False (one_task s) = Ret (Some 1) t"
    "vm_ok t" "paging_on t" "sched_inv [0, 1] t" "current_task t = Some 0" "stack_at t (cr3 t) 0 0x200" "f \<noteq> 0"
    "frame_aligned f" "unat f + 4096 \<le> ram_top t"
    "t_esp (task_table t ! 1) = f + 4096 - 28" "t_page_directory (task_table t ! 1) = cr3 t" "ready (task_table t) 1"
    by (rule two_task_boot) (rule that)
  have "context_at t 1 f 1017" using t(5,9,10,11) by (simp add: context_at_def sched_inv_def)
  then have "switchable t 1" using t(3,7,8,12) by (auto simp: switchable_def)
  moreover have "sched_inv [0, 1] (wired t)" by (rule sched_inv_view [OF t(5)]) simp
  ultimately show thesis using t by (intro that [of s t])
qed

theorem timer_interrupt_preempts_witness:
  "\<exists>s t h u. vmm_init small_kern = Ret () s \<and> task_create demo_symbols 0x104000 0 False (one_task s) = Ret (Some 1) t \<and>
     irq_dispatch call_handler ((fault_frame 0)\<lparr>r_int_no := 32\<rparr>) (wired t) = Ret h u \<and> current_task u = Some 1"
proof -
  obtain s t where t: "vmm_init small_kern = Ret () s" "task_create demo_symbols 0x104000 0 False (one_task s) = Ret (Some 1) t"
    "sched_inv [0, 1] (wired t)" "current_task t = Some 0" "switchable t 1" "ready (task_table t) 1"
    by (rule two_task_switchable) (rule that)
  then show ?thesis
    using timer_interrupt_preempts [of "[0, 1]" "wired t" 0 "(fault_frame 0)\<lparr>r_int_no := 32\<rparr>"] by auto
qed

text \<open>
  \<^verbatim>\<open>sys_write\<close> through \<^verbatim>\<open>INT 0x80\<close>: when every byte of the buffer is mapped, exactly those bytes
  are put on the console in order, the caller gets the count in EAX with all its other
  registers unchanged, and nothing else in the system changes.
\<close>

theorem sys_write_prints:
  assumes "handlers (idt_st s) ! 128 = Some Syscall_dispatch" "r_int_no regs = 128" "r_eax regs = 0"
    and "\<And>i. i < unat (r_edx regs) \<Longrightarrow> translate s (r_ecx regs + of_nat i) = Some (p i)"
  shows "isr_dispatch call_handler regs s = Ret (Iret (regs\<lparr>r_eax := r_edx regs\<rparr>))
    (s\<lparr>console := fold terminal_putchar (map (\<lambda>i. mem s (p i)) [0..<unat (r_edx regs)]) (console s)\<rparr>)"
  using assms(1-3) sys_write_mapped [OF assms(4)]
  by (simp add: isr_dispatch_def call_handler_def syscall_dispatch_def print_def)

theorem sys_write_prints_witness:
  "isr_dispatch call_handler ((fault_frame 0)\<lparr>r_int_no := 128, r_edx := 1\<rparr>) (wired small_kern) =
     Ret (Iret ((fault_frame 0)\<lparr>r_int_no := 128, r_edx := 1, r_eax := 1\<rparr>))
       ((wired small_kern)\<lparr>console := terminal_putchar 0 (console (wired small_kern))\<rparr>)"
proof -
  have "\<not> paging_on (wired small_kern)" "mem (wired small_kern) = (\<lambda>_. 0)"
    by (simp_all add: small_kern_def paging_on_def wired_def)
  then show ?thesis
    using sys_write_prints [of "wired small_kern" "(fault_frame 0)\<lparr>r_int_no := 128, r_edx := 1\<rparr>" of_nat]
    by (simp add: translate_off fault_frame_def)
qed

text \<open>
  C35 \<^verbatim>\<open>sys_exit\<close> through \<^verbatim>\<open>INT 0x80\<close> never comes back to the caller: the task becomes a ZOMBIE and
  the first READY task behind it takes over; when there is none the kernel halts.
\<close>

theorem sys_exit_runs_next:
  assumes "sched_inv xs s" "k < length xs" "current_task s = Some (xs ! k)"
    and "handlers (idt_st s) ! 128 = Some Syscall_dispatch" "r_int_no regs = 128" "r_eax regs = 1"
    and "\<And>c. next_ready xs k s = Some c \<Longrightarrow> switchable s c"
  shows "case next_ready xs k s of
      None \<Rightarrow> (\<exists>t. isr_dispatch call_handler regs s = Hang t \<and> t_state (task_table t ! (xs ! k)) = TASK_STATE_ZOMBIE)
    | Some c \<Rightarrow> (\<exists>a t. isr_dispatch call_handler regs s = Ret (Switched a) t \<and> sched_inv xs t \<and> current_task t = Some c \<and>
        t_state (task_table t ! (xs ! k)) = TASK_STATE_ZOMBIE \<and> t_state (task_table t ! c) = TASK_STATE_RUNNING)"
  using sys_exit_outcome [OF assms] .

theorem sys_exit_runs_next_witness:
  "\<exists>s t a u. vmm_init small_kern = Ret () s \<and> task_create demo_symbols 0x104000 0 False (one_task s) = Ret (Some 1) t \<and>
     isr_dispatch call_handler ((fault_frame 0)\<lparr>r_int_no := 128, r_eax := 1\<rparr>) (wired t) = Ret (Switched a) u \<and>
     current_task u = Some 1"
proof -
  obtain s t where t: "vmm_init small_kern = Ret () s" "task_create demo_symbols 0x104000 0 False (one_task s) = Ret (Some 1) t"
    "sched_inv [0, 1] (wired t)" "current_task t = Some 0" "switchable t 1" "ready (task_table t) 1"
    by (rule two_task_switchable) (rule that)
  then show ?thesis
    using sys_exit_runs_next [of "[0, 1]" "wired t" 0 "(fault_frame 0)\<lparr>r_int_no := 128, r_eax := 1\<rparr>"] by auto
qed

text \<open>
  C36 \<^verbatim>\<open>sys_write\<close> does not check that the caller may read the buffer: a byte of a page that is
  mapped without the user bit, which ring 3 cannot read, is printed all the same.
\<close>

theorem sys_write_ignores_privilege:
  assumes "vm_ok s" "paging_on s" "vm_lookup s a = Some pte" "pte AND 4 = 0"
    and "handlers (idt_st s) ! 128 = Some Syscall_dispatch"
    and "r_int_no regs = 128" "r_eax regs = 0" "r_ecx regs = a" "r_edx regs = 1"
  shows "\<not> user_access (mem s) (current_page_directory s) a False \<and>
    isr_dispatch call_handler regs s = Ret (Iret (regs\<lparr>r_eax := 1\<rparr>))
      (s\<lparr>console := terminal_putchar (mem s (frame_of pte OR (a AND 0xFFF))) (console s)\<rparr>)"
proof -
  have "\<not> user_access (mem s) (current_page_directory s) a False"
    using assms(3,4) by (simp add: user_access_iff [OF vm_okD(3) [OF assms(1)]])
  moreover have "translate s a = Some (frame_of pte OR (a AND 0xFFF))"
    using assms(2,3) by (simp add: translate_lookup [OF assms(1)])
  then have "sys_write regs s = Ret (regs\<lparr>r_eax := 1\<rparr>) (print (terminal_putchar (mem s (frame_of pte OR (a AND 0xFFF)))) s)"
    using sys_write_mapped [of regs s "\<lambda>_. frame_of pte OR (a AND 0xFFF)"] assms(8,9) by simp
  ultimately show ?thesis
    using assms(5-7) by (simp add: isr_dispatch_def call_handler_def syscall_dispatch_def print_def)
qed

theorem sys_write_ignores_privilege_witness:
  "\<exists>s t u. vmm_init small_kern = Ret () s \<and> vmm_map_page 0x5000 0xD0000000 3 s = Ret () t \<and>
     isr_dispatch call_handler ((fault_frame 0)\<lparr>r_int_no := 128, r_ecx := 0xD0000000, r_edx := 1\<rparr>) (wired t) = Ret u
       ((wired t)\<lparr>console := terminal_putchar (mem t 0x5000) (console t)\<rparr>)"
proof -
  obtain s where s: "vmm_init small_kern = Ret () s" "vm_ok s" "paging_on s" "ram_top s = 0x8000" "card (used_blocks s) = 3"
    by (rule small_kern_vm) (rule that)
  have "free_blocks s \<noteq> 0" using s(4,5) by (simp add: free_blocks_def)
  then have "has_room s 0xD0000000" by (simp add: has_room_def free_blocks_0)
  moreover have "window_safe 0xD0000000 (0x5000 OR 3) s" using s(4) by (simp add: window_safe_def)
  ultimately obtain t where t: "vmm_map_page 0x5000 0xD0000000 3 s = Ret () t" "vm_ok t" "extends s t"
    "vm_lookup t 0xD0000000 = Some 0x5003"
    using vm.map_law [OF s(2), of "0xD0000000" "0x5000" 3] by auto
  have "paging_on t" using extends_fields(11) [OF t(3)] s(3) by simp
  then show ?thesis
    using sys_write_ignores_privilege [of "wired t" "0xD0000000" "0x5003"
        "(fault_frame 0)\<lparr>r_int_no := 128, r_ecx := 0xD0000000, r_edx := 1\<rparr>"] s(1) t
    by (auto simp: fault_frame_def)
qed

text \<open>
  An unknown system call number is refused: the caller gets -1 in EAX, a warning is printed and
  nothing else changes.
\<close>

theorem unknown_syscall_refused:
  assumes "handlers (idt_st s) ! 128 = Some Syscall_dispatch" "r_int_no regs = 128" "1 < r_eax regs"
  shows "isr_dispatch call_handler regs s = Ret (Iret (regs\<lparr>r_eax := 0xFFFFFFFF\<rparr>))
    (s\<lparr>console := puts ''[Kernel] Warning: unknown syscall\<newline>'' (console s)\<rparr>)"
proof -
  have "r_eax regs \<noteq> 0" "r_eax regs \<noteq> 1" using assms(3) by auto
  with assms(1,2) show ?thesis
    by (simp add: isr_dispatch_def call_handler_def syscall_dispatch_def print_def)
qed

theorem unknown_syscall_refused_witness:
  "\<exists>t. isr_dispatch call_handler ((fault_frame 0)\<lparr>r_int_no := 128, r_eax := 7\<rparr>) (wired small_kern) =
     Ret (Iret ((fault_frame 0)\<lparr>r_int_no := 128, r_eax := 0xFFFFFFFF\<rparr>)) t"
  using unknown_syscall_refused [of "wired small_kern" "(fault_frame 0)\<lparr>r_int_no := 128, r_eax := 7\<rparr>"] by simp

end
