(* ===== verification/UserMode.thy ===== *)
theory UserMode
  imports Syscall
begin

text \<open>
  \<^verbatim>\<open>src/user_mode.c\<close> and the user program \<^verbatim>\<open>src/test_program.c\<close>: code that runs in ring 3. Its
  memory accesses need the user bit, its only way into the kernel is \<^verbatim>\<open>INT 0x80\<close>. The addresses
  the linker gives to the string literals, the stacks and the entry point are parameters.
\<close>

text \<open>\<^verbatim>\<open>INT 0x80\<close> with the four registers an inline assembly sets.\<close>

definition int80 :: "u32 \<Rightarrow> u32 \<Rightarrow> u32 \<Rightarrow> u32 \<Rightarrow> 'a kern_scheme \<Rightarrow> (handled, 'a kern_scheme) outcome" where
  "int80 eax ebx ecx edx s = isr_dispatch call_handler
     ((fault_frame 0)\<lparr>r_int_no := 128, r_eax := eax, r_ebx := ebx, r_ecx := ecx, r_edx := edx, r_cs := 0x1B\<rparr>) s"

text \<open>Execution goes on behind the interrupt only when the handler returns to it.\<close>

definition resume ::
  "(handled, 'a kern_scheme) outcome \<Rightarrow> ('a kern_scheme \<Rightarrow> (handled, 'a kern_scheme) outcome) \<Rightarrow>
   (handled, 'a kern_scheme) outcome" where
  "resume m f = obind m (\<lambda>h s. case h of Iret _ \<Rightarrow> f s | Switched a \<Rightarrow> Ret (Switched a) s)"

definition syscall_write :: "u32 \<Rightarrow> u32 \<Rightarrow> 'a kern_scheme \<Rightarrow> (handled, 'a kern_scheme) outcome" where
  "syscall_write str len = int80 0 1 str len"

text \<open>The registers ECX and EDX are whatever they were; \<^verbatim>\<open>sys_exit\<close> does not look at them.\<close>

definition syscall_exit :: "u32 \<Rightarrow> 'a kern_scheme \<Rightarrow> (handled, 'a kern_scheme) outcome" where
  "syscall_exit status = int80 1 status 0 0"

text \<open>
  The counting loop. Its index is a 32-bit number: a string without NUL in the whole address
  space is scanned over and over again, so after \<open>2 ^ 32\<close> steps the loop counts as endless.
\<close>

fun strlen_loop :: "nat \<Rightarrow> u32 \<Rightarrow> u32 \<Rightarrow> 'a sys_scheme \<Rightarrow> (u32, 'a sys_scheme) outcome" where
  "strlen_loop k str n s =
     (if k = 0 then Hang s
      else obind (uload8 (str + n) s) (\<lambda>c s. if c \<noteq> 0 then strlen_loop (k - 1) str (n + 1) s else Ret n s))"

declare strlen_loop.simps [simp del]

definition user_strlen :: "u32 \<Rightarrow> 'a sys_scheme \<Rightarrow> (u32, 'a sys_scheme) outcome" where
  "user_strlen str = strlen_loop (2 ^ 32) str 0"

text \<open>\<^verbatim>\<open>user_program\<close>, with the addresses of its three messages.\<close>

definition user_program :: "u32 \<Rightarrow> u32 \<Rightarrow> u32 \<Rightarrow> 'a kern_scheme \<Rightarrow> (handled, 'a kern_scheme) outcome" where
  "user_program msg1 msg2 msg3 s =
     obind (user_strlen msg1 s) (\<lambda>n s. resume (syscall_write msg1 n s) (\<lambda>s.
     obind (user_strlen msg2 s) (\<lambda>n s. resume (syscall_write msg2 n s) (\<lambda>s.
     obind (user_strlen msg3 s) (\<lambda>n s. resume (syscall_write msg3 n s) (\<lambda>s.
     obind (ustore32 0xD0000000 0xBAD1DEA s) (\<lambda>_ s.
     resume (syscall_exit 0 s) (\<lambda>s. Hang s))))))))"

record user_symbols =
  sym_kernel_stack :: u32
  sym_user_stack :: u32
  sym_user_program :: u32

definition run_user_demo :: "user_symbols \<Rightarrow> 'a kern_scheme \<Rightarrow> (u32, 'a kern_scheme) outcome" where
  "run_user_demo syms s =
     (let kstack_top = (case get_current_task s of
            Some i \<Rightarrow> t_kstack (task_table s ! i)
          | None \<Rightarrow> sym_kernel_stack syms + 4096);
          ustack_top = sym_user_stack syms + 4096;
          s = set_kernel_stack kstack_top s
      in enter_user_mode (sym_user_program syms) ustack_top s)"

text \<open>
  \<^verbatim>\<open>_start\<close> of the ELF program. The length is an \<^verbatim>\<open>int\<close>, the same 32 bits. \<^verbatim>\<open>hlt\<close> is privileged: were it
  reached, it would raise the general protection exception.
\<close>

definition test_start :: "u32 \<Rightarrow> 'a kern_scheme \<Rightarrow> (handled, 'a kern_scheme) outcome" where
  "test_start msg s =
     obind (strlen_loop (2 ^ 32) msg 0 s) (\<lambda>len s.
     resume (int80 0 1 msg len s) (\<lambda>s.
     resume (int80 1 5 0 0 s) (\<lambda>s.
       isr_dispatch call_handler ((fault_frame 0)\<lparr>r_int_no := 13, r_cs := 0x1B\<rparr>) s)))"

subsection \<open>Strings the user may read\<close>

text \<open>\<open>user_string s a bs\<close>: ring 3 can read the bytes \<open>bs\<close>, none of them 0, and a NUL at \<open>a\<close>.\<close>

definition user_string :: "'a sys_scheme \<Rightarrow> u32 \<Rightarrow> u8 list \<Rightarrow> bool" where
  "user_string s a bs \<longleftrightarrow> 0 \<notin> set bs \<and> length bs < 2 ^ 32 \<and>
     (\<forall>i \<le> length bs. user_access (mem s) (cr3 s AND 0xFFFFF000) (a + of_nat i) False \<and>
        load8 (a + of_nat i) s = Ret ((bs @ [0]) ! i) s)"

lemma strlen_loop_string:
  assumes "user_string s a bs" "n \<le> length bs" "length bs - n < k"
  shows "strlen_loop k a (of_nat n) s = Ret (of_nat (length bs)) s"
  using assms(2,3)
proof (induction "length bs - n" arbitrary: n k)
  case 0
  then have n: "n = length bs" by simp
  then have "uload8 (a + of_nat n) s = Ret 0 s"
    using assms(1) by (auto simp: user_string_def uload8_def uaccess_def nth_append)
  with 0 n show ?case by (subst strlen_loop.simps) simp
next
  case (Suc d)
  then have n: "n < length bs" by simp
  then have "uload8 (a + of_nat n) s = Ret (bs ! n) s"
    using assms(1) by (auto simp: user_string_def uload8_def uaccess_def nth_append)
  moreover have "bs ! n \<noteq> 0" using assms(1) n nth_mem by (fastforce simp: user_string_def)
  moreover have "strlen_loop (k - 1) a (of_nat (Suc n)) s = Ret (of_nat (length bs)) s"
    using Suc n by (intro Suc.hyps) auto
  ultimately show ?case using Suc.prems n by (subst strlen_loop.simps) (simp add: add.commute)
qed

lemma user_strlen_string: "user_string s a bs \<Longrightarrow> user_strlen a s = Ret (of_nat (length bs)) s"
  using strlen_loop_string [of s a bs 0 "2 ^ 32"] by (simp add: user_strlen_def user_string_def)

lemma user_string_print [simp]: "user_string (print f s) a bs = user_string s a bs"
proof -
  have "load8 b (print f s) = Ret v (print f s) \<longleftrightarrow> load8 b s = Ret v s" for b v
    by (simp add: load8_def split: option.split)
  then show ?thesis by (simp add: user_string_def)
qed

lemma load8_RetD: "load8 a s = Ret v t \<Longrightarrow> \<exists>p. translate s a = Some p \<and> mem s p = v"
  by (auto simp: load8_def split: option.splits)

text \<open>Writing such a string prints its bytes.\<close>

lemma int80_write:
  assumes h: "handlers (idt_st s) ! 128 = Some Syscall_dispatch" and str: "user_string s a bs"
  shows "\<exists>r. int80 0 1 a (of_nat (length bs)) s = Ret (Iret r) (print (fold terminal_putchar bs) s)"
proof -
  have len: "length bs < 2 ^ 32" using str by (simp add: user_string_def)
  have "\<forall>i. \<exists>p. i < length bs \<longrightarrow> translate s (a + of_nat i) = Some p \<and> mem s p = bs ! i"
    using str load8_RetD [of "a + of_nat _" s] by (fastforce simp: user_string_def nth_append)
  then obtain p where p: "\<And>i. i < length bs \<Longrightarrow> translate s (a + of_nat i) = Some (p i) \<and> mem s (p i) = bs ! i"
    by metis
  have bytes: "map (\<lambda>i. mem s (p i)) [0..<length bs] = bs"
    by (rule nth_equalityI) (simp_all add: p)
  let ?r = "(fault_frame 0)\<lparr>r_int_no := 128, r_eax := 0, r_ebx := 1, r_ecx := a, r_edx := of_nat (length bs), r_cs := 0x1B\<rparr>"
  have n: "unat (of_nat (length bs) :: u32) = length bs" using len by (simp add: unat_of_nat)
  have "sys_write ?r s = Ret (?r\<lparr>r_eax := r_edx ?r\<rparr>)
      (print (fold terminal_putchar (map (\<lambda>i. mem s (p i)) [0..<unat (r_edx ?r)])) s)"
    by (rule sys_write_mapped) (simp add: n p)
  then show ?thesis
    using h by (simp add: int80_def isr_dispatch_def call_handler_def syscall_dispatch_def n bytes)
qed

lemma write_string:
  assumes "handlers (idt_st s) ! 128 = Some Syscall_dispatch" "user_string s a bs"
  shows "obind (user_strlen a s) (\<lambda>n s. resume (syscall_write a n s) f) = f (print (fold terminal_putchar bs) s)"
  using int80_write [OF assms] user_strlen_string [OF assms(2)]
  by (auto simp: resume_def syscall_write_def)

subsection \<open>Properties of the user programs\<close>


text \<open>A string of one byte in block 0 of a machine whose page \<^verbatim>\<open>0xD0000000\<close> is closed to ring 3.\<close>

definition with_string :: "kern \<Rightarrow> kern" where
  "with_string s = wired (s\<lparr>mem := (mem s)(0x10 := 72, 0x11 := 0)\<rparr>)"

lemma with_string_spec:
  obtains s t where "vmm_init small_kern = Ret () s" "vmm_map_page 0x5000 0xD0000000 3 s = Ret () t"
    "vm_ok (with_string t)" "paging_on (with_string t)" "user_string (with_string t) 0x10 [72]"
    "vm_lookup (with_string t) 0xD0000000 = Some 0x5003"
proof -
  obtain s where s: "vmm_init small_kern = Ret () s" "vm_ok s" "paging_on s" "ram_top s = 0x8000" "card (used_blocks s) = 3"
    "0 \<in> used_blocks s" "\<not> walk_frame (mem s) (current_page_directory s) 0" "identity_upto 8 s"
    by (rule small_kern_vm) (rule that)
  have "free_blocks s \<noteq> 0" using s(4,5) by (simp add: free_blocks_def)
  then have "has_room s 0xD0000000" by (simp add: has_room_def free_blocks_0)
  moreover have "window_safe 0xD0000000 (0x5000 OR 3) s" using s(4) by (simp add: window_safe_def)
  ultimately obtain t where t: "vmm_map_page 0x5000 0xD0000000 3 s = Ret () t" "vm_ok t" "extends s t"
    "\<And>b. vm_lookup t b = (if vpn b = vpn 0xD0000000 then Some 0x5003 else vm_lookup s b)"
    using vm.map_law [OF s(2), of "0xD0000000" "0x5000" 3] by auto
  define m where "m = (mem t)(0x10 := 72, 0x11 := 0)"
  have b0: "block_of 0 \<in> used_blocks s" using s(6) by simp
  have nw: "\<not> walk_frame (mem t) (current_page_directory t) 0"
    using t(3) b0 s(7) extends_fields(9) [OF t(3)] by (auto simp: extends_def)
  have out: "m a = mem t a" if "\<not> in_frame 0 a" for a
  proof -
    have "a \<noteq> 0x10" "a \<noteq> 0x11" using that by (auto simp: in_frame_def)
    then show ?thesis by (simp add: m_def)
  qed
  have dw: "vm_ok (t\<lparr>mem := m\<rparr>)" "\<And>b. vm_lookup (t\<lparr>mem := m\<rparr>) b = vm_lookup t b"
    by (rule data_write(3) [OF t(2) nw out], assumption) (rule data_write(1) [OF t(2) nw out], assumption)
  let ?u = "with_string t"
  have u: "vm_ok ?u" "paging_on ?u" "mem ?u = m" "current_page_directory ?u = current_page_directory t"
    using dw(1) extends_fields(11) [OF t(3)] s(3) unfolding with_string_def m_def [symmetric] by simp_all
  have lk: "vm_lookup ?u b = vm_lookup t b" for b using dw(2) by (simp add: u)
  have tr: "translate ?u a = Some a \<and> user_access (mem ?u) (cr3 ?u AND 0xFFFFF000) a False" if "a = 0x10 \<or> a = 0x11" for a
  proof -
    have l: "vm_lookup ?u a = Some 7" using that s(8) unfolding lk t(4) by (auto simp: identity_upto_def)
    have "frame_of (cr3 ?u) = current_page_directory ?u"
      using vm_okD(4) [OF u(1)] vm_okD(5) [OF u(1,2)] by (simp add: frame_of_aligned)
    then have "user_access (mem ?u) (cr3 ?u AND 0xFFFFF000) a False"
      using l by (simp add: user_access_iff [OF vm_okD(3) [OF u(1)]])
    moreover have "translate ?u a = Some a"
      using l that by (auto simp: translate_lookup [OF u(1)] u(2))
    ultimately show ?thesis by simp
  qed
  have "user_string ?u 0x10 [72]"
    unfolding user_string_def
  proof (intro conjI allI impI)
    fix i assume "i \<le> length [72 :: u8]"
    then consider "i = 0" | "i = 1" by fastforce
    then show "user_access (mem ?u) (cr3 ?u AND 0xFFFFF000) (0x10 + of_nat i) False"
      "load8 (0x10 + of_nat i) ?u = Ret (([72] @ [0]) ! i) ?u"
      using tr [of "0x10"] tr [of "0x11"] u(3) by (cases; simp add: access_ident m_def)+
  qed simp_all
  moreover have "vm_lookup ?u 0xD0000000 = Some 0x5003" unfolding lk t(4) by simp
  ultimately show thesis using s(1) t(1) u by (intro that [of s t])
qed


text \<open>
  The ELF program does what it is there for: with its message readable it prints it and exits,
  so that the task ends as a ZOMBIE and the next READY task runs (or the kernel halts when there
  is none); the endless loop behind the exit is not reached.
\<close>

theorem test_program_prints_and_exits:
  assumes "sched_inv xs s" "k < length xs" "current_task s = Some (xs ! k)"
    and "handlers (idt_st s) ! 128 = Some Syscall_dispatch" "user_string s msg bs"
    and "\<And>c. next_ready xs k s = Some c \<Longrightarrow> switchable s c"
  shows "test_start msg s = int80 1 5 0 0 (s\<lparr>console := fold terminal_putchar bs (console s)\<rparr>) \<and>
    (case next_ready xs k s of
      None \<Rightarrow> (\<exists>t. test_start msg s = Hang t \<and> t_state (task_table t ! (xs ! k)) = TASK_STATE_ZOMBIE)
    | Some c \<Rightarrow> (\<exists>a t. test_start msg s = Ret (Switched a) t \<and> sched_inv xs t \<and> current_task t = Some c \<and>
        t_state (task_table t ! (xs ! k)) = TASK_STATE_ZOMBIE))"
proof -
  let ?s = "print (fold terminal_putchar bs) s"
  let ?r = "(fault_frame 0)\<lparr>r_int_no := 128, r_eax := 1, r_ebx := 5, r_ecx := 0, r_edx := 0, r_cs := 0x1B\<rparr>"
  have i: "sched_inv xs ?s" by (rule sched_inv_view [OF assms(1)]) simp
  have c: "current_task ?s = Some (xs ! k)" and h: "handlers (idt_st ?s) ! 128 = Some Syscall_dispatch"
    using assms(3,4) by simp_all
  have sw: "switchable ?s c = switchable s c" for c by (rule switchable_cong) (simp_all add: print_def)
  have r: "r_int_no ?r = 128" "r_eax ?r = 1" by simp_all
  note ex = sys_exit_outcome [OF i assms(2) c h r]
  have out: "case next_ready xs k s of
      None \<Rightarrow> (\<exists>t. int80 1 5 0 0 ?s = Hang t \<and> t_state (task_table t ! (xs ! k)) = TASK_STATE_ZOMBIE)
    | Some c \<Rightarrow> (\<exists>a t. int80 1 5 0 0 ?s = Ret (Switched a) t \<and> sched_inv xs t \<and> current_task t = Some c \<and>
        t_state (task_table t ! (xs ! k)) = TASK_STATE_ZOMBIE)"
    using ex assms(6) sw unfolding int80_def by (auto split: option.splits)
  from this have "resume (int80 1 5 0 0 ?s) f = int80 1 5 0 0 ?s" for f
    by (auto simp: resume_def split: option.splits)
  then have eq: "test_start msg s = int80 1 5 0 0 ?s"
    using int80_write [OF assms(4,5)] user_strlen_string [OF assms(5)]
    by (auto simp: test_start_def user_strlen_def resume_def)
  show ?thesis
    unfolding eq using out by (intro conjI) (simp add: print_def)
qed

lemma user_string_cong:
  assumes "mem t = mem s" "cr0 t = cr0 s" "cr3 t = cr3 s"
  shows "user_string t a bs = user_string s a bs"
proof -
  have "translate t b = translate s b" for b using assms by (simp add: translate_def paging_on_def)
  then have "load8 b t = Ret v t \<longleftrightarrow> load8 b s = Ret v s" for b v
    using assms by (simp add: load8_def split: option.split)
  then show ?thesis using assms by (simp add: user_string_def)
qed

theorem test_program_prints_and_exits_witness:
  "\<exists>s t u. vmm_init small_kern = Ret () s \<and> vmm_map_page 0x5000 0xD0000000 3 s = Ret () t \<and>
     test_start 0x10 (scheduler_init (with_string t)) = Hang u"
proof -
  obtain s t where t: "vmm_init small_kern = Ret () s" "vmm_map_page 0x5000 0xD0000000 3 s = Ret () t"
    "user_string (with_string t) 0x10 [72]"
    by (rule with_string_spec) (rule that)
  let ?u = "scheduler_init (with_string t)"
  have f: "mem ?u = mem (with_string t)" "cr0 ?u = cr0 (with_string t)" "cr3 ?u = cr3 (with_string t)"
    "idt_st ?u = idt_st (with_string t)" "current_task ?u = Some ([0] ! 0)"
    by (simp_all add: scheduler_init_def upd_task_def cli_def Let_def)
  have h: "handlers (idt_st ?u) ! 128 = Some Syscall_dispatch" unfolding f(4) by (simp add: with_string_def)
  have "user_string ?u 0x10 [72]" using t(3) user_string_cong [OF f(1-3)] by simp
  moreover have "0 < length [0 :: nat]" "\<And>c. next_ready [0] 0 ?u = Some c \<Longrightarrow> switchable ?u c" by simp_all
  ultimately have "\<exists>u. test_start 0x10 ?u = Hang u"
    using test_program_prints_and_exits [OF scheduler_init_inv _ f(5) h, THEN conjunct2] by fastforce
  with t(1,2) show ?thesis by blast
qed

end
