(* ===== verification/Vfs.thy ===== *)
theory Vfs
  imports UserMode "HOL-Library.Monad_Syntax"
begin

text \<open>
  The virtual file system layer, \<^verbatim>\<open>src/vfs.h\<close> and \<^verbatim>\<open>src/vfs.c\<close>. The only nodes of the system are the
  root and the entries of the RAM disk table, so a \<^verbatim>\<open>fs_node_t *\<close> is one of those (NULL is \<open>None\<close>).
  A function pointer that some file system fills in is the name of its function; no file system
  provides \<^verbatim>\<open>write\<close>, \<^verbatim>\<open>open\<close> or \<^verbatim>\<open>close\<close>, so these are code addresses. What a pointer's function
  does is an argument of the operations that call it. Strings are byte lists that end with
  their object, as in \<^verbatim>\<open>KString\<close>; the outer \<open>None\<close> of a lookup is a string operation that ran past
  the end of its object.
\<close>

abbreviation (input) FS_FILE :: u32 where "FS_FILE \<equiv> 1"
abbreviation (input) FS_DIRECTORY :: u32 where "FS_DIRECTORY \<equiv> 2"

datatype node_ref = Tar_root | Tar_node nat

datatype read_type_t = Tar_read
datatype readdir_type_t = Tar_readdir
datatype finddir_type_t = Tar_finddir

record fs_node =
  fs_name :: "u8 list"
  fs_mask :: u32
  fs_uid :: u32
  fs_gid :: u32
  fs_flags :: u32
  fs_inode :: u32
  fs_length :: u32
  fs_impl :: u32
  fs_read :: "read_type_t option"
  fs_write :: u32
  fs_open :: u32
  fs_close :: u32
  fs_readdir :: "readdir_type_t option"
  fs_finddir :: "finddir_type_t option"
  fs_ptr :: "node_ref option"

record dirent =
  d_name :: "u8 list"
  d_ino :: u32

text \<open>The variables of \<^verbatim>\<open>vfs.c\<close> and \<^verbatim>\<open>tar.c\<close>.\<close>

record fs = kern +
  tar_nodes :: "fs_node list"
  tar_file_count :: nat
  tar_root :: fs_node
  dirent_buf :: dirent
  fs_root :: "node_ref option"

definition node_at :: "node_ref \<Rightarrow> 'a fs_scheme \<Rightarrow> fs_node" where
  "node_at r s = (case r of Tar_root \<Rightarrow> tar_root s | Tar_node i \<Rightarrow> tar_nodes s ! i)"

definition read_fs ::
  "(read_type_t \<Rightarrow> node_ref \<Rightarrow> u32 \<Rightarrow> u32 \<Rightarrow> u32 \<Rightarrow> 'a fs_scheme \<Rightarrow> (u32, 'a fs_scheme) outcome) \<Rightarrow>
   node_ref option \<Rightarrow> u32 \<Rightarrow> u32 \<Rightarrow> u32 \<Rightarrow> 'a fs_scheme \<Rightarrow> (u32, 'a fs_scheme) outcome" where
  "read_fs call node offset len buffer s =
     (case node of
        None \<Rightarrow> Ret 0 s
      | Some n \<Rightarrow> (case fs_read (node_at n s) of None \<Rightarrow> Ret 0 s | Some f \<Rightarrow> call f n offset len buffer s))"

definition write_fs ::
  "(u32 \<Rightarrow> node_ref \<Rightarrow> u32 \<Rightarrow> u32 \<Rightarrow> u32 \<Rightarrow> 'a fs_scheme \<Rightarrow> (u32, 'a fs_scheme) outcome) \<Rightarrow>
   node_ref option \<Rightarrow> u32 \<Rightarrow> u32 \<Rightarrow> u32 \<Rightarrow> 'a fs_scheme \<Rightarrow> (u32, 'a fs_scheme) outcome" where
  "write_fs call node offset len buffer s =
     (case node of
        None \<Rightarrow> Ret 0 s
      | Some n \<Rightarrow> if fs_write (node_at n s) \<noteq> 0 then call (fs_write (node_at n s)) n offset len buffer s else Ret 0 s)"

definition open_fs ::
  "(u32 \<Rightarrow> node_ref \<Rightarrow> 'a fs_scheme \<Rightarrow> (unit, 'a fs_scheme) outcome) \<Rightarrow> node_ref option \<Rightarrow> 'a fs_scheme \<Rightarrow> (unit, 'a fs_scheme) outcome" where
  "open_fs call node s =
     (case node of
        None \<Rightarrow> Ret () s
      | Some n \<Rightarrow> if fs_open (node_at n s) \<noteq> 0 then call (fs_open (node_at n s)) n s else Ret () s)"

definition close_fs ::
  "(u32 \<Rightarrow> node_ref \<Rightarrow> 'a fs_scheme \<Rightarrow> (unit, 'a fs_scheme) outcome) \<Rightarrow> node_ref option \<Rightarrow> 'a fs_scheme \<Rightarrow> (unit, 'a fs_scheme) outcome" where
  "close_fs call node s =
     (case node of
        None \<Rightarrow> Ret () s
      | Some n \<Rightarrow> if fs_close (node_at n s) \<noteq> 0 then call (fs_close (node_at n s)) n s else Ret () s)"

definition readdir_fs ::
  "(readdir_type_t \<Rightarrow> node_ref \<Rightarrow> u32 \<Rightarrow> 'a fs_scheme \<Rightarrow> (dirent option \<times> 'a fs_scheme) option) \<Rightarrow>
   node_ref option \<Rightarrow> u32 \<Rightarrow> 'a fs_scheme \<Rightarrow> (dirent option \<times> 'a fs_scheme) option" where
  "readdir_fs call node index s =
     (case node of
        None \<Rightarrow> Some (None, s)
      | Some n \<Rightarrow> (if fs_flags (node_at n s) AND 7 = FS_DIRECTORY then
           (case fs_readdir (node_at n s) of None \<Rightarrow> Some (None, s) | Some f \<Rightarrow> call f n index s)
         else Some (None, s)))"

definition finddir_fs ::
  "(finddir_type_t \<Rightarrow> node_ref \<Rightarrow> u8 list \<Rightarrow> 'a fs_scheme \<Rightarrow> node_ref option option) \<Rightarrow>
   node_ref option \<Rightarrow> u8 list \<Rightarrow> 'a fs_scheme \<Rightarrow> node_ref option option" where
  "finddir_fs call node name s =
     (case node of
        None \<Rightarrow> Some None
      | Some n \<Rightarrow> (if fs_flags (node_at n s) AND 7 = FS_DIRECTORY then
           (case fs_finddir (node_at n s) of None \<Rightarrow> Some None | Some f \<Rightarrow> call f n name s)
         else Some None))"

subsection \<open>Paths\<close>

text \<open>
  The inner loop of \<^verbatim>\<open>find_node_by_path\<close>: the characters up to the next slash or NUL, of which the
  first 127 go into the token, and the path behind them.
\<close>

fun next_token :: "u8 list \<Rightarrow> u8 list \<Rightarrow> (u8 list \<times> u8 list) option" where
  "next_token token [] = None"
| "next_token token (c # cs) =
     (if c \<noteq> 47 \<and> c \<noteq> 0 then next_token (if length token < 127 then token @ [c] else token) cs
      else Some (token, c # cs))"

lemma next_token_length: "next_token token path = Some (t, rest) \<Longrightarrow> length rest \<le> length path \<and> (path \<noteq> [] \<and> hd path \<noteq> 47 \<and> hd path \<noteq> 0 \<longrightarrow> length rest < length path)"
  by (induction token path rule: next_token.induct) (fastforce split: if_splits)+

lemma next_token_hd: "next_token token path = Some (t, rest) \<Longrightarrow> rest \<noteq> [] \<and> (hd rest = 47 \<or> hd rest = 0)"
  by (induction token path rule: next_token.induct) (auto split: if_splits)

text \<open>
  The outer loop, on the path from position \<open>i\<close> on. After the token a slash is skipped; the
  token buffer holds the token and its NUL.
\<close>

function walk_path ::
  "(node_ref option \<Rightarrow> u8 list \<Rightarrow> node_ref option option) \<Rightarrow> node_ref option \<Rightarrow> u8 list \<Rightarrow> node_ref option option" where
  "walk_path finddir cur [] = None"
| "walk_path finddir cur (c # cs) =
     (if c = 0 then Some cur
      else case next_token [] (c # cs) of
        None \<Rightarrow> None
      | Some (token, rest) \<Rightarrow>
          (let rest' = (if hd rest = 47 then tl rest else rest) in
           if token \<noteq> [] then
             (case finddir cur (token @ [0]) of
                None \<Rightarrow> None
              | Some None \<Rightarrow> Some None
              | Some (Some n) \<Rightarrow> walk_path finddir (Some n) rest')
           else walk_path finddir cur rest'))"
  by pat_completeness auto
termination
proof (relation "measure (length o snd o snd)", simp, goal_cases)
  case (1 finddir cur c cs x token rest rest' y n)
  then show ?case
    using next_token_length [of "[]" "c # cs" token rest] next_token_hd [of "[]" "c # cs" token rest]
    by (auto split: if_splits)
next
  case (2 finddir cur c cs x token rest rest')
  then show ?case
    using next_token_length [of "[]" "c # cs" token rest] next_token_hd [of "[]" "c # cs" token rest]
    by (auto split: if_splits)
qed

definition find_node_by_path ::
  "(finddir_type_t \<Rightarrow> node_ref \<Rightarrow> u8 list \<Rightarrow> 'a fs_scheme \<Rightarrow> node_ref option option) \<Rightarrow>
   u8 list \<Rightarrow> 'a fs_scheme \<Rightarrow> node_ref option option" where
  "find_node_by_path call path s =
     (case path of
        [] \<Rightarrow> None
      | c # cs \<Rightarrow>
          if c \<noteq> 47 then Some None
          else (case cs of
             [] \<Rightarrow> None
           | d # _ \<Rightarrow> if d = 0 then Some (fs_root s)
                     else walk_path (\<lambda>cur token. finddir_fs call cur token s) (fs_root s) cs))"

subsection \<open>Path resolution\<close>

text \<open>The components of a path: the nonempty pieces between slashes.\<close>

fun components :: "u8 list \<Rightarrow> u8 list \<Rightarrow> u8 list list" where
  "components acc [] = (if acc = [] then [] else [acc])"
| "components acc (c # cs) =
     (if c = 47 then (if acc = [] then [] else [acc]) @ components [] cs else components (acc @ [c]) cs)"

text \<open>Resolution as it should be: one directory lookup per component, stopping at the first failure.\<close>

fun resolve :: "(node_ref option \<Rightarrow> u8 list \<Rightarrow> node_ref option option) \<Rightarrow> node_ref option \<Rightarrow> u8 list list \<Rightarrow> node_ref option option" where
  "resolve finddir cur [] = Some cur"
| "resolve finddir cur (t # ts) =
     (case finddir cur (t @ [0]) of
        None \<Rightarrow> None
      | Some None \<Rightarrow> Some None
      | Some (Some n) \<Rightarrow> resolve finddir (Some n) ts)"

lemma next_token_plain:
  "0 \<notin> set xs \<Longrightarrow> 47 \<notin> set xs \<Longrightarrow> length acc + length xs \<le> 127 \<Longrightarrow> c = 47 \<or> c = 0 \<Longrightarrow>
   next_token acc (xs @ c # rest) = Some (acc @ xs, c # rest)"
  by (induction xs arbitrary: acc) auto

lemma components_plain: "47 \<notin> set xs \<Longrightarrow> components acc (xs @ 47 # ys) = (if acc @ xs = [] then [] else [acc @ xs]) @ components [] ys"
  by (induction xs arbitrary: acc) auto

lemma components_last: "47 \<notin> set xs \<Longrightarrow> components acc xs = (if acc @ xs = [] then [] else [acc @ xs])"
  by (induction xs arbitrary: acc) auto

lemma takeWhile_split:
  "47 \<in> set xs \<Longrightarrow> \<exists>ys zs. xs = ys @ 47 # zs \<and> (47 :: u8) \<notin> set ys"
  by (meson split_list_first)

lemma walk_path_step:
  assumes "p \<noteq> []" "hd p \<noteq> 0" "next_token [] p = Some (token, rest)"
  shows "walk_path fd cur p =
    (let rest' = (if hd rest = 47 then tl rest else rest) in
     if token \<noteq> [] then
       (case fd cur (token @ [0]) of
          None \<Rightarrow> None | Some None \<Rightarrow> Some None | Some (Some n) \<Rightarrow> walk_path fd (Some n) rest')
     else walk_path fd cur rest')"
  using assms by (cases p) (simp_all only: walk_path.simps list.sel option.case prod.case if_False simp_thms)

lemma walk_path_resolve:
  assumes "0 \<notin> set p" "\<forall>t \<in> set (components [] p). length t \<le> 127"
  shows "walk_path fd cur (p @ 0 # r) = resolve fd cur (components [] p)"
  using assms
proof (induction "length p" arbitrary: p cur rule: less_induct)
  case less
  show ?case
  proof (cases p)
    case Nil
    then show ?thesis by simp
  next
    case (Cons c cs)
    show ?thesis
    proof (cases "47 \<in> set p")
      case True
      then obtain ys zs where p: "p = ys @ 47 # zs" "47 \<notin> set ys" using takeWhile_split by blast
      have comp: "components [] p = (if ys = [] then [] else [ys]) @ components [] zs"
        using components_plain [OF p(2), of "[]" zs] p(1) by simp
      have nt: "next_token [] (p @ 0 # r) = Some (ys, 47 # zs @ 0 # r)"
        using next_token_plain [of ys "[]" 47 "zs @ 0 # r"] less.prems p comp by (auto split: if_splits)
      have ih: "walk_path fd cur' (zs @ 0 # r) = resolve fd cur' (components [] zs)" for cur'
        using less.prems p(1) comp by (intro less.hyps) auto
      have "p @ 0 # r \<noteq> []" "hd (p @ 0 # r) \<noteq> 0" using less.prems(1) Cons by auto
      show ?thesis
        unfolding walk_path_step [OF \<open>p @ 0 # r \<noteq> []\<close> \<open>hd (p @ 0 # r) \<noteq> 0\<close> nt] comp
        by (auto simp: ih split: option.split)
    next
      case False
      have comp: "components [] p = [p]" using components_last [OF False, of "[]"] Cons by simp
      have nt: "next_token [] (p @ 0 # r) = Some (p, 0 # r)"
        using next_token_plain [of p "[]" 0 r] less.prems False comp by auto
      have "p @ 0 # r \<noteq> []" "hd (p @ 0 # r) \<noteq> 0" using less.prems(1) Cons by auto
      moreover have "p \<noteq> []" using Cons by simp
      ultimately show ?thesis
        unfolding walk_path_step [OF \<open>p @ 0 # r \<noteq> []\<close> \<open>hd (p @ 0 # r) \<noteq> 0\<close> nt] comp
        by (auto split: option.split)
    qed
  qed
qed

lemma find_node_by_path_resolve:
  assumes "0 \<notin> set p" "\<forall>t \<in> set (components [] p). length t \<le> 127"
  shows "find_node_by_path call (47 # p @ [0]) s =
      resolve (\<lambda>cur token. finddir_fs call cur token s) (fs_root s) (components [] p)"
proof (cases p)
  case Nil
  then show ?thesis by (simp add: find_node_by_path_def)
next
  case (Cons c cs)
  then have "c \<noteq> 0" using assms(1) by auto
  then have "find_node_by_path call (47 # p @ [0]) s =
      walk_path (\<lambda>cur token. finddir_fs call cur token s) (fs_root s) (p @ [0])"
    using Cons by (simp add: find_node_by_path_def del: walk_path.simps)
  then show ?thesis by (simp only: walk_path_resolve [OF assms])
qed

lemma components_texts: "c \<in> set (components acc p) \<Longrightarrow> 0 \<notin> set acc \<Longrightarrow> 0 \<notin> set p \<Longrightarrow> 0 \<notin> set c"
  by (induction acc p rule: components.induct) (auto split: if_splits)

subsection \<open>Directory trees\<close>

text \<open>
  What the layer needs of a file system to walk a path: \<open>wf\<close> is the invariant of its tables,
  \<open>valid\<close> says which nodes exist and \<open>child\<close> is the entry of a directory with a given name. Then
  every lookup returns, and it is the walk in the tree.
\<close>

definition searchable :: "'a fs_scheme \<Rightarrow> node_ref \<Rightarrow> bool" where
  "searchable s n \<longleftrightarrow> fs_flags (node_at n s) AND 7 = FS_DIRECTORY \<and> fs_finddir (node_at n s) \<noteq> None"

fun follow :: "('n \<Rightarrow> bool) \<Rightarrow> ('n \<Rightarrow> 'c \<Rightarrow> 'n option) \<Rightarrow> 'n option \<Rightarrow> 'c list \<Rightarrow> 'n option" where
  "follow dir child cur [] = cur"
| "follow dir child None (t # ts) = None"
| "follow dir child (Some n) (t # ts) =
     (if dir n then (case child n t of None \<Rightarrow> None | Some m \<Rightarrow> follow dir child (Some m) ts) else None)"

locale directory_tree =
  fixes call :: "finddir_type_t \<Rightarrow> node_ref \<Rightarrow> u8 list \<Rightarrow> 'a fs_scheme \<Rightarrow> node_ref option option"
    and wf :: "'a fs_scheme \<Rightarrow> bool"
    and valid :: "'a fs_scheme \<Rightarrow> node_ref \<Rightarrow> bool"
    and child :: "'a fs_scheme \<Rightarrow> node_ref \<Rightarrow> u8 list \<Rightarrow> node_ref option"
  assumes search_law: "wf s \<Longrightarrow> valid s n \<Longrightarrow> 0 \<notin> set t \<Longrightarrow> call f n (t @ [0]) s = Some (child s n t)"
    and child_valid: "wf s \<Longrightarrow> valid s n \<Longrightarrow> child s n t = Some m \<Longrightarrow> valid s m"
begin

lemma finddir_child:
  assumes "wf s" "valid s n" "0 \<notin> set t"
  shows "finddir_fs call (Some n) (t @ [0]) s = Some (if searchable s n then child s n t else None)"
  using search_law [OF assms] by (auto simp: finddir_fs_def searchable_def split: option.split)

lemma resolve_follow:
  assumes "wf s" "\<And>n. cur = Some n \<Longrightarrow> valid s n" "\<forall>t \<in> set ts. 0 \<notin> set t"
  shows "resolve (\<lambda>cur token. finddir_fs call cur token s) cur ts = Some (follow (searchable s) (child s) cur ts)"
  using assms(2,3)
proof (induction ts arbitrary: cur)
  case (Cons t ts)
  show ?case
  proof (cases cur)
    case None
    then show ?thesis by (simp add: finddir_fs_def)
  next
    case (Some n)
    have fd: "finddir_fs call (Some n) (t @ [0]) s = Some (if searchable s n then child s n t else None)"
      using Cons.prems Some by (intro finddir_child [OF assms(1)]) auto
    show ?thesis
    proof (cases "if searchable s n then child s n t else None")
      case None
      then show ?thesis using fd by (auto simp: Some split: if_splits)
    next
      case m: (Some m)
      then have c: "searchable s n" "child s n t = Some m" by (auto split: if_splits)
      have "valid s m" using child_valid [OF assms(1) _ c(2)] Cons.prems(1) Some by simp
      then have "resolve (\<lambda>cur token. finddir_fs call cur token s) (Some m) ts = Some (follow (searchable s) (child s) (Some m) ts)"
        using Cons.prems(2) by (intro Cons.IH) auto
      then show ?thesis using fd c by (simp add: Some)
    qed
  qed
qed simp

lemma find_follow:
  assumes "wf s" "\<And>n. fs_root s = Some n \<Longrightarrow> valid s n" "0 \<notin> set p" "\<forall>t \<in> set (components [] p). length t \<le> 127"
  shows "find_node_by_path call (47 # p @ [0]) s = Some (follow (searchable s) (child s) (fs_root s) (components [] p))"
  unfolding find_node_by_path_resolve [OF assms(3,4)]
  using components_texts [of _ "[]" p] assms(3) by (intro resolve_follow [OF assms(1,2)]) auto

end

text \<open>
  C37 Path lookup resolves a path component by component: for an absolute path whose components
  have at most 127 characters, \<^verbatim>\<open>find_node_by_path\<close> looks up each nonempty component in the node
  found so far, starting at the root, and yields NULL at the first component that is missing;
  repeated and trailing slashes do not matter, and a path that is not absolute yields NULL.
\<close>

theorem path_lookup_resolves:
  assumes "0 \<notin> set p" "\<forall>t \<in> set (components [] p). length t \<le> 127"
  shows "find_node_by_path call (47 # p @ [0]) s =
      resolve (\<lambda>cur token. finddir_fs call cur token s) (fs_root s) (components [] p) \<and>
    (p \<noteq> [] \<and> hd p \<noteq> 47 \<longrightarrow> find_node_by_path call (p @ [0]) s = Some None)"
  using find_node_by_path_resolve [OF assms, of call s] by (cases p) (auto simp: find_node_by_path_def)

definition node_zero :: fs_node where
  "node_zero = \<lparr>fs_name = replicate 128 0, fs_mask = 0, fs_uid = 0, fs_gid = 0, fs_flags = 0, fs_inode = 0, fs_length = 0,
     fs_impl = 0, fs_read = None, fs_write = 0, fs_open = 0, fs_close = 0, fs_readdir = None, fs_finddir = None, fs_ptr = None\<rparr>"

definition small_fs :: fs where
  "small_fs = \<lparr>mem = (\<lambda>_. 0), cr0 = 0x11, cr2 = 0, cr3 = 0, iflag = False, tlb = (\<lambda>_. None),
     console = console small_sys, pmm_st = small_pmm, gdt_st = gdt_boot, idt_st = idt_st small_sys, ports = [],
     current_page_directory = 0, task_table = [], task_list = None, current_task = None, next_pid = 1, tick = 0,
     reg_esp = 0x800, reg_ebp = 11, reg_ebx = 12, reg_esi = 13, reg_edi = 14,
     tar_nodes = replicate 128 node_zero, tar_file_count = 0, tar_root = node_zero,
     dirent_buf = \<lparr>d_name = replicate 128 0, d_ino = 0\<rparr>, fs_root = None\<rparr>"

theorem path_lookup_resolves_witness:
  "find_node_by_path (\<lambda>_ _ _ _. Some (Some (Tar_node 7))) (47 # map of_char ''/bin//ls'' @ [0])
     (small_fs\<lparr>fs_root := Some Tar_root, tar_root := (tar_root small_fs)\<lparr>fs_flags := 2\<rparr>\<rparr>) = Some None"
  using path_lookup_resolves [of "map of_char ''/bin//ls''" "\<lambda>_ _ _ _. Some (Some (Tar_node 7))"
     "small_fs\<lparr>fs_root := Some Tar_root, tar_root := (tar_root small_fs)\<lparr>fs_flags := 2\<rparr>\<rparr>"]
  by (simp add: finddir_fs_def node_at_def small_fs_def node_zero_def)

end
