(* ===== verification/Tar.thy ===== *)
theory Tar
  imports Vfs "HOL-Library.While_Combinator"
begin

text \<open>
  The RAM disk: \<^verbatim>\<open>src/tar.h\<close> and \<^verbatim>\<open>src/tar.c\<close>. A header is the list of its 512 bytes, fetched through
  the page tables; a field is the list from its first byte to the end of the header, so a name
  that fills its 100 bytes runs on into the mode field as it does in memory. A string that has
  no NUL up to the end of the header, or does not fit into its 128-byte destination, is the
  outcome \<open>Trap\<close>: what the code does then depends on what lies behind. Loops over the node table
  are recursions over its used entries; the loop over the headers is \<open>while_option\<close>, and when it
  never ends \<^verbatim>\<open>tar_init\<close> does not return.
\<close>

abbreviation (input) MAX_TAR_FILES :: nat where "MAX_TAR_FILES \<equiv> 128"

fun octal_loop :: "u32 \<Rightarrow> u8 list \<Rightarrow> nat \<Rightarrow> u32 option" where
  "octal_loop out cs 0 = Some out"
| "octal_loop out [] (Suc n) = None"
| "octal_loop out (c # cs) (Suc n) =
     (if c = 0 then Some out
      else if 48 \<le> c \<and> c \<le> 55 then octal_loop (out * 8 + (ucast c - 48)) cs n
      else if c = 32 then Some out
      else octal_loop out cs n)"

definition get_octal :: "u8 list \<Rightarrow> nat \<Rightarrow> u32 option" where
  "get_octal cs len = octal_loop 0 cs len"

definition tar_read :: "node_ref \<Rightarrow> u32 \<Rightarrow> u32 \<Rightarrow> u32 \<Rightarrow> 'a fs_scheme \<Rightarrow> (u32, 'a fs_scheme) outcome" where
  "tar_read node offset len buffer s =
     (let n = node_at node s in
      if offset \<ge> fs_length n then Ret 0 s
      else
        (let len = (if offset + len > fs_length n then fs_length n - offset else len)
         in obind (memcpy buffer (fs_impl n + offset) len s) (\<lambda>_ s. Ret len s)))"

text \<open>The scan for a slash that is not the last character.\<close>

fun no_inner_slash :: "u8 list \<Rightarrow> bool option" where
  "no_inner_slash [] = None"
| "no_inner_slash (c # cs) =
     (if c = 0 then Some True
      else if c = 47 then (case cs of [] \<Rightarrow> None | d # _ \<Rightarrow> Some (d = 0))
      else no_inner_slash cs)"

definition is_direct_child :: "u8 list \<Rightarrow> u8 list \<Rightarrow> bool option" where
  "is_direct_child dir child =
     do {
       dir_len \<leftarrow> strlen dir;
       root \<leftarrow> strcmp dir (cstr ''/'');
       if root = 0 \<or> dir_len = 0 then no_inner_slash child
       else do {
         d \<leftarrow> strncmp dir child dir_len;
         if d \<noteq> 0 then Some False else no_inner_slash (drop dir_len child)
       }
     }"

definition match_name :: "u8 list \<Rightarrow> u8 list \<Rightarrow> bool option" where
  "match_name rel_name search_name =
     do {
       len1 \<leftarrow> strlen rel_name;
       len2 \<leftarrow> strlen search_name;
       let len1 = (if len1 > 0 \<and> rel_name ! (len1 - 1) = 47 then len1 - 1 else len1);
       if len1 \<noteq> len2 then Some False
       else do { d \<leftarrow> strncmp rel_name search_name len1; Some (d = 0) }
     }"

definition dir_prefix :: "node_ref \<Rightarrow> 'a fs_scheme \<Rightarrow> u8 list" where
  "dir_prefix node s = (if node = Tar_root then cstr '''' else fs_name (node_at node s))"

definition table :: "'a fs_scheme \<Rightarrow> (nat \<times> u8 list) list" where
  "table s = enumerate 0 (map fs_name (take (tar_file_count s) (tar_nodes s)))"

fun readdir_loop :: "u8 list \<Rightarrow> nat \<Rightarrow> nat \<Rightarrow> (nat \<times> u8 list) list \<Rightarrow> (nat \<times> u8 list) option option" where
  "readdir_loop prefix index count [] = Some None"
| "readdir_loop prefix index count ((i, name) # es) =
     do {
       same \<leftarrow> strcmp name prefix;
       if same = 0 then readdir_loop prefix index count es
       else do {
         child \<leftarrow> is_direct_child prefix name;
         if child then
           (if count = index then Some (Some (i, name)) else readdir_loop prefix index (count + 1) es)
         else readdir_loop prefix index count es
       }
     }"

definition tar_readdir :: "node_ref \<Rightarrow> u32 \<Rightarrow> 'a fs_scheme \<Rightarrow> (dirent option \<times> 'a fs_scheme) option" where
  "tar_readdir node index s =
     do {
       hit \<leftarrow> readdir_loop (dir_prefix node s) (unat index) 0 (table s);
       case hit of
         None \<Rightarrow> Some (None, s)
       | Some (i, name) \<Rightarrow>
           do {
             plen \<leftarrow> strlen (dir_prefix node s);
             let rel = drop plen name;
             len \<leftarrow> strlen rel;
             let len = (if len > 0 \<and> rel ! (len - 1) = 47 then len - 1 else len);
             let len = (if len \<ge> 128 then 127 else len);
             let d = \<lparr>d_name = (take len rel @ drop len (d_name (dirent_buf s)))[len := 0], d_ino = of_nat i\<rparr>;
             Some (Some d, s\<lparr>dirent_buf := d\<rparr>)
           }
     }"

fun finddir_loop :: "u8 list \<Rightarrow> u8 list \<Rightarrow> (nat \<times> u8 list) list \<Rightarrow> nat option option" where
  "finddir_loop prefix name [] = Some None"
| "finddir_loop prefix name ((i, entry) # es) =
     do {
       same \<leftarrow> strcmp entry prefix;
       if same = 0 then finddir_loop prefix name es
       else do {
         child \<leftarrow> is_direct_child prefix entry;
         if child then do {
           plen \<leftarrow> strlen prefix;
           hit \<leftarrow> match_name (drop plen entry) name;
           if hit then Some (Some i) else finddir_loop prefix name es
         }
         else finddir_loop prefix name es
       }
     }"

definition tar_finddir :: "node_ref \<Rightarrow> u8 list \<Rightarrow> 'a fs_scheme \<Rightarrow> node_ref option option" where
  "tar_finddir node name s = map_option (map_option Tar_node) (finddir_loop (dir_prefix node s) name (table s))"

subsection \<open>Mounting\<close>

text \<open>The bytes of an object in memory.\<close>

primrec load_bytes :: "u32 \<Rightarrow> nat \<Rightarrow> 'a machine_scheme \<Rightarrow> (u8 list, 'a machine_scheme) outcome" where
  "load_bytes a 0 s = Ret [] s"
| "load_bytes a (Suc n) s = obind (load8 a s) (\<lambda>c s. obind (load_bytes (a + 1) n s) (\<lambda>cs s. Ret (c # cs) s))"

text \<open>The fields of a \<^verbatim>\<open>struct tar_header\<close> by their offsets.\<close>

definition hdr_size :: "u8 list \<Rightarrow> u8 list" where
  "hdr_size hdr = drop 124 hdr"

definition hdr_typeflag :: "u8 list \<Rightarrow> u8" where
  "hdr_typeflag hdr = hdr ! 156"

definition hdr_magic :: "u8 list \<Rightarrow> u8 list" where
  "hdr_magic hdr = drop 257 hdr"

definition raw_name :: "u8 list \<Rightarrow> u8 list" where
  "raw_name hdr = (if hdr ! 0 = 46 \<and> hdr ! 1 = 47 then drop 2 hdr else hdr)"

definition tar_debug :: "u8 list \<Rightarrow> 'a sys_scheme \<Rightarrow> 'a sys_scheme" where
  "tar_debug hdr s =
     (let s = print (puts ''  [TAR DBG] name[0]=0x'') s;
          s = print (terminal_writehex (ucast (hdr ! 0))) s;
          s = print (puts '' magic='') s;
          s = print (terminal_writestring (hdr_magic hdr)) s
      in print (puts ''\<newline>'') s)"

definition tar_make_node :: "u32 \<Rightarrow> u8 list \<Rightarrow> u32 \<Rightarrow> fs_node option" where
  "tar_make_node ptr hdr file_size =
     do {
       name \<leftarrow> strcpy (fs_name node_zero) (raw_name hdr);
       let node = node_zero\<lparr>fs_name := name, fs_length := file_size, fs_impl := ptr + 512, fs_read := Some Tar_read\<rparr>;
       n \<leftarrow> strlen hdr;
       Some (if hdr_typeflag hdr = 53 \<or> hdr ! (n - 1) = 47
         then node\<lparr>fs_flags := FS_DIRECTORY, fs_readdir := Some Tar_readdir, fs_finddir := Some Tar_finddir\<rparr>
         else node\<lparr>fs_flags := FS_FILE\<rparr>)
     }"

definition tar_add_node :: "fs_node \<Rightarrow> 'a fs_scheme \<Rightarrow> 'a fs_scheme" where
  "tar_add_node node s =
     (let s = s\<lparr>tar_nodes := (tar_nodes s)[tar_file_count s := node], tar_file_count := tar_file_count s + 1\<rparr>;
          s = print (puts ''  -> Found file: '') s;
          s = print (terminal_writestring (fs_name node)) s;
          s = print (puts '' ('') s;
          s = print (terminal_writedec (fs_length node)) s
      in print (puts '' bytes)\<newline>'') s)"

text \<open>One iteration of the loop over the headers: where it goes on, or how the loop ends.\<close>

definition tar_step :: "u32 \<Rightarrow> u32 \<Rightarrow> 'a fs_scheme \<Rightarrow> u32 \<times> 'a fs_scheme + (unit, 'a fs_scheme) outcome" where
  "tar_step limit ptr s =
     (if \<not> ptr < limit then Inr (Ret () s)
      else case load_bytes ptr 512 s of
        Trap a t \<Rightarrow> Inr (Trap a t)
      | Hang t \<Rightarrow> Inr (Hang t)
      | Ret hdr s \<Rightarrow>
          if \<not> terminated (hdr_magic hdr) then Inr (Trap (ptr + 512) s)
          else
            (let s = tar_debug hdr s in
             if hdr ! 0 = 0 then Inr (Ret () s)
             else case get_octal (hdr_size hdr) 11 of
               None \<Rightarrow> Inr (Trap (ptr + 512) s)
             | Some file_size \<Rightarrow>
                 (let nxt = ptr + (512 + ((file_size + 511) AND 0xFFFFFE00)) in
                  if tar_file_count s < MAX_TAR_FILES then
                    (case tar_make_node ptr hdr file_size of
                       None \<Rightarrow> Inr (Trap (ptr + 512) s)
                     | Some node \<Rightarrow> Inl (nxt, tar_add_node node s))
                  else Inl (nxt, s))))"

definition tar_loop :: "u32 \<Rightarrow> u32 \<Rightarrow> 'a fs_scheme \<Rightarrow> (unit, 'a fs_scheme) outcome" where
  "tar_loop limit ptr s =
     (case while_option isl (\<lambda>st. case projl st of (ptr, s) \<Rightarrow> tar_step limit ptr s) (Inl (ptr, s)) of
        Some (Inr r) \<Rightarrow> r
      | _ \<Rightarrow> Hang s)"

definition tar_init :: "u32 \<Rightarrow> u32 \<Rightarrow> 'a fs_scheme \<Rightarrow> (node_ref, 'a fs_scheme) outcome" where
  "tar_init address len s =
     (let s = s\<lparr>tar_file_count := 0\<rparr>;
          s = print (puts ''[TAR] Initializing RAM disk filesystem at address '') s;
          s = print (terminal_writehex address) s;
          s = print (puts ''...\<newline>'') s
      in obind (tar_loop (address + len) address s) (\<lambda>_ s.
           let s = s\<lparr>tar_root := node_zero\<lparr>fs_name := 47 # replicate 127 0, fs_flags := FS_DIRECTORY,
                 fs_readdir := Some Tar_readdir, fs_finddir := Some Tar_finddir\<rparr>\<rparr>;
               s = s\<lparr>fs_root := Some Tar_root\<rparr>;
               s = print (puts ''[TAR] RAM disk filesystem initialized successfully.\<newline>'') s
           in Ret Tar_root s))"

text \<open>The functions behind the pointers of the nodes.\<close>

definition call_read :: "read_type_t \<Rightarrow> node_ref \<Rightarrow> u32 \<Rightarrow> u32 \<Rightarrow> u32 \<Rightarrow> 'a fs_scheme \<Rightarrow> (u32, 'a fs_scheme) outcome" where
  "call_read f = (case f of Tar_read \<Rightarrow> tar_read)"

definition call_readdir :: "readdir_type_t \<Rightarrow> node_ref \<Rightarrow> u32 \<Rightarrow> 'a fs_scheme \<Rightarrow> (dirent option \<times> 'a fs_scheme) option" where
  "call_readdir f = (case f of Tar_readdir \<Rightarrow> tar_readdir)"

definition call_finddir :: "finddir_type_t \<Rightarrow> node_ref \<Rightarrow> u8 list \<Rightarrow> 'a fs_scheme \<Rightarrow> node_ref option option" where
  "call_finddir f = (case f of Tar_finddir \<Rightarrow> tar_finddir)"

subsection \<open>Names\<close>

text \<open>A name in the table without a slash except for a trailing one, and the name without that.\<close>

definition plain :: "u8 list \<Rightarrow> bool" where
  "plain t \<longleftrightarrow> 47 \<notin> set (butlast t)"

definition strip :: "u8 list \<Rightarrow> u8 list" where
  "strip t = (if t \<noteq> [] \<and> last t = 47 then butlast t else t)"

lemma no_inner_slash_eq: "terminated bs \<Longrightarrow> no_inner_slash bs = Some (plain (text_of bs))"
proof (induction bs)
  case (Cons c cs)
  show ?case
  proof (cases "c = 47 \<or> c = 0")
    case True
    then show ?thesis using Cons.prems by (cases cs) (auto simp: plain_def)
  next
    case False
    then show ?thesis using Cons by (auto simp: plain_def)
  qed
qed simp

text \<open>The texts that make \<open>e\<close> an entry of directory \<open>d\<close>, and its name there.\<close>

definition entry_of :: "u8 list \<Rightarrow> u8 list \<Rightarrow> bool" where
  "entry_of d e \<longleftrightarrow> (if d = [47] then plain e else take (length d) e = d \<and> plain (drop (length d) e))"

lemma text_of_drop: "n \<le> length (text_of bs) \<Longrightarrow> text_of (drop n bs) = drop n (text_of bs)"
proof (induction n arbitrary: bs)
  case (Suc n)
  then show ?case by (cases bs) (auto split: if_splits)
qed simp

lemma terminated_drop: "terminated bs \<Longrightarrow> n \<le> length (text_of bs) \<Longrightarrow> terminated (drop n bs)"
proof (induction n arbitrary: bs)
  case (Suc n)
  then show ?case by (cases bs) (auto split: if_splits)
qed simp

lemma cstr_text [simp]: "text_of (cstr ''/'') = [47]" "terminated (cstr ''/'')" "text_of (cstr '''') = []" "terminated (cstr '''')"
  by (simp_all add: cstr_def)

lemma is_direct_child_eq:
  assumes "terminated d" "terminated e"
  shows "is_direct_child d e = Some (entry_of (text_of d) (text_of e))"
proof -
  obtain r where r: "strcmp d (cstr ''/'') = Some r" using strcmp_returns [OF assms(1) cstr_text(2)] by blast
  have r0: "r = 0 \<longleftrightarrow> text_of d = [47]" using strcmp_eq_0 [OF assms(1) cstr_text(2)] r by simp
  obtain q where q: "strncmp d e (length (text_of d)) = Some q" using strncmp_returns [OF assms] by blast
  have q0: "q = 0 \<longleftrightarrow> take (length (text_of d)) (text_of e) = text_of d"
    using strncmp_prefix [OF assms] q by simp
  show ?thesis
  proof (cases "text_of d = [47] \<or> text_of d = []")
    case True
    then show ?thesis
      using assms r r0 by (auto simp: is_direct_child_def strlen_eq no_inner_slash_eq entry_of_def)
  next
    case False
    have "length (text_of d) \<le> length (text_of e)" if "q = 0"
      using that q0 by (metis length_take min.cobounded1 min.commute)
    then show ?thesis
      using assms r r0 q q0 False
      by (auto simp: is_direct_child_def strlen_eq entry_of_def no_inner_slash_eq text_of_drop terminated_drop)
  qed
qed

lemma text_of_nth: "i < length (text_of bs) \<Longrightarrow> bs ! i = text_of bs ! i"
  by (induction bs arbitrary: i) (auto simp: nth_Cons' split: if_splits)

lemma strip_length:
  "length (strip t) = (if t \<noteq> [] \<and> last t = 47 then length t - 1 else length t)" "strip t = take (length (strip t)) t"
  by (simp_all add: strip_def butlast_conv_take)

lemma match_name_eq:
  assumes "terminated a" "terminated b"
  shows "match_name a b = Some (strip (text_of a) = text_of b)"
proof -
  let ?a = "text_of a" and ?b = "text_of b"
  have l: "(if 0 < length ?a \<and> a ! (length ?a - 1) = 47 then length ?a - 1 else length ?a) = length (strip ?a)"
    using text_of_nth [of "length ?a - 1" a] by (auto simp: strip_length(1) last_conv_nth)
  obtain q where q: "strncmp a b (length (strip ?a)) = Some q" using strncmp_returns [OF assms] by blast
  have "q = 0 \<longleftrightarrow> strip ?a = take (length (strip ?a)) ?b"
    using strncmp_eq_0 [OF assms, of "length (strip ?a)"] q strip_length(2) [of ?a] by simp
  then have "length (strip ?a) = length ?b \<Longrightarrow> q = 0 \<longleftrightarrow> strip ?a = ?b" by simp
  with q assms l show ?thesis
    unfolding match_name_def strlen_eq by (auto simp: Let_def)
qed

text \<open>What a directory search means: the entries of directory \<open>d\<close> other than itself, in table order.\<close>

definition in_dir :: "u8 list \<Rightarrow> nat \<times> u8 list \<Rightarrow> bool" where
  "in_dir d e \<longleftrightarrow> text_of (snd e) \<noteq> d \<and> entry_of d (text_of (snd e))"

definition rel_name :: "u8 list \<Rightarrow> u8 list \<Rightarrow> u8 list" where
  "rel_name d e = strip (drop (length d) e)"

lemma finddir_loop_eq:
  assumes "terminated d" "terminated name" "\<forall>e \<in> set es. terminated (snd e)" "text_of d \<noteq> [47]"
  shows "finddir_loop d name es = Some (map_option fst (List.find (\<lambda>e. in_dir (text_of d) e \<and>
    rel_name (text_of d) (text_of (snd e)) = text_of name) es))"
  using assms(3)
proof (induction es)
  case (Cons e es)
  obtain i bs where e: "e = (i, bs)" by (cases e)
  have t: "terminated bs" using Cons.prems e by simp
  obtain r where r: "strcmp bs d = Some r" using strcmp_returns [OF t assms(1)] by blast
  have r0: "r = 0 \<longleftrightarrow> text_of bs = text_of d" using strcmp_eq_0 [OF t assms(1)] r by simp
  have c: "is_direct_child d bs = Some (entry_of (text_of d) (text_of bs))" by (rule is_direct_child_eq [OF assms(1) t])
  have m: "match_name (drop (length (text_of d)) bs) name = Some (rel_name (text_of d) (text_of bs) = text_of name)"
    if "entry_of (text_of d) (text_of bs)"
  proof -
    have le: "length (text_of d) \<le> length (text_of bs)"
      using that assms(4) by (auto simp: entry_of_def) (metis length_take min.cobounded1 min.commute)
    show ?thesis
      using match_name_eq [OF terminated_drop [OF t le] assms(2)] text_of_drop [OF le] by (simp add: rel_name_def)
  qed
  show ?case
    using Cons r r0 c m assms(1) by (auto simp: e in_dir_def strlen_eq)
qed simp

lemma readdir_loop_eq:
  assumes "terminated d" "\<forall>e \<in> set es. terminated (snd e)" "n \<le> k"
  shows "readdir_loop d k n es = Some (let xs = filter (in_dir (text_of d)) es in
    if k - n < length xs then Some (xs ! (k - n)) else None)"
  using assms(2,3)
proof (induction es arbitrary: n)
  case (Cons e es)
  obtain i bs where e: "e = (i, bs)" by (cases e)
  have t: "terminated bs" using Cons.prems e by simp
  obtain r where r: "strcmp bs d = Some r" using strcmp_returns [OF t assms(1)] by blast
  have r0: "r = 0 \<longleftrightarrow> text_of bs = text_of d" using strcmp_eq_0 [OF t assms(1)] r by simp
  have c: "is_direct_child d bs = Some (entry_of (text_of d) (text_of bs))" by (rule is_direct_child_eq [OF assms(1) t])
  have ih: "n \<noteq> k \<Longrightarrow> readdir_loop d k (Suc n) es = Some (let xs = filter (in_dir (text_of d)) es in
    if k - Suc n < length xs then Some (xs ! (k - Suc n)) else None)"
    using Cons by (intro Cons.IH) auto
  have ih0: "readdir_loop d k n es = Some (let xs = filter (in_dir (text_of d)) es in
    if k - n < length xs then Some (xs ! (k - n)) else None)"
    using Cons by (intro Cons.IH) auto
  show ?case
  proof (cases "in_dir (text_of d) e")
    case False
    then have "readdir_loop d k n (e # es) = readdir_loop d k n es"
      using r r0 c by (auto simp: e in_dir_def)
    with False ih0 show ?thesis by simp
  next
    case True
    then have step: "readdir_loop d k n (e # es) = (if n = k then Some (Some e) else readdir_loop d k (Suc n) es)"
      using r r0 c by (auto simp: e in_dir_def)
    show ?thesis
    proof (cases "n = k")
      case False
      then have "k - n = Suc (k - Suc n)" using Cons.prems(2) by linarith
      with True step False ih show ?thesis by (simp add: Let_def)
    qed (use True step in simp)
  qed
qed simp

subsection \<open>Octal numbers\<close>

text \<open>The \<open>k\<close> low octal digits of a number, as the size field of an archive has them.\<close>

primrec octal :: "nat \<Rightarrow> nat \<Rightarrow> u8 list" where
  "octal 0 n = []"
| "octal (Suc k) n = octal k (n div 8) @ [48 + of_nat (n mod 8)]"

lemma length_octal [simp]: "length (octal k n) = k"
  by (induction k arbitrary: n) auto

lemma octal_digit:
  assumes "d < 8"
  shows "48 \<le> (48 + of_nat d :: u8)" "(48 + of_nat d :: u8) \<le> 55" "(48 + of_nat d :: u8) \<noteq> 0" "(ucast (48 + of_nat d :: u8) :: u32) - 48 = of_nat d"
proof -
  have "d \<in> {0, 1, 2, 3, 4, 5, 6, 7}" using assms by auto
  then show "48 \<le> (48 + of_nat d :: u8)" "(48 + of_nat d :: u8) \<le> 55" "(48 + of_nat d :: u8) \<noteq> 0"
    "(ucast (48 + of_nat d :: u8) :: u32) - 48 = of_nat d" by auto
qed

lemma octal_loop_append:
  "octal_loop out (octal k n @ cs) (k + m) = octal_loop (out * 8 ^ k + of_nat (n mod 8 ^ k)) cs m"
proof (induction k arbitrary: n cs m)
  case (Suc k)
  have v: "(out * 8 ^ k + of_nat (n div 8 mod 8 ^ k)) * 8 + of_nat (n mod 8) =
      out * 8 ^ Suc k + (of_nat (n mod 8 ^ Suc k) :: u32)"
  proof -
    have "n mod 8 ^ Suc k = 8 * (n div 8 mod 8 ^ k) + n mod 8"
      using mod_mult2_eq [of n 8 "8 ^ k"] by simp
    then show ?thesis by (simp add: algebra_simps)
  qed
  have "octal_loop out (octal (Suc k) n @ cs) (Suc k + m) = octal_loop out (octal k (n div 8) @ (48 + of_nat (n mod 8)) # cs) (k + Suc m)"
    by simp
  also have "\<dots> = octal_loop ((out * 8 ^ k + of_nat (n div 8 mod 8 ^ k)) * 8 + of_nat (n mod 8)) cs m"
    unfolding Suc.IH using octal_digit [of "n mod 8"] by simp
  finally show ?case unfolding v .
qed simp

lemma get_octal_octal: "get_octal (octal k n @ rest) k = Some (of_nat (n mod 8 ^ k))"
  using octal_loop_append [of 0 k n rest 0] by (simp add: get_octal_def)

subsection \<open>Objects in memory\<close>

definition reads :: "'a machine_scheme \<Rightarrow> u32 \<Rightarrow> u8 list \<Rightarrow> bool" where
  "reads s a bs \<longleftrightarrow> (\<forall>i < length bs. load8 (a + of_nat i) s = Ret (bs ! i) s)"

lemma reads_Cons: "reads s a (c # cs) \<longleftrightarrow> load8 a s = Ret c s \<and> reads s (a + 1) cs"
proof -
  have "reads s a (c # cs) \<longleftrightarrow> (\<forall>i < Suc (length cs). load8 (a + of_nat i) s = Ret ((c # cs) ! i) s)"
    by (simp add: reads_def)
  also have "\<dots> \<longleftrightarrow> load8 a s = Ret c s \<and> (\<forall>i < length cs. load8 (a + of_nat (Suc i)) s = Ret (cs ! i) s)"
    unfolding All_less_Suc2 by simp
  finally show ?thesis by (simp add: reads_def add.assoc)
qed

lemma load_bytes_reads: "reads s a bs \<Longrightarrow> load_bytes a (length bs) s = Ret bs s"
  by (induction bs arbitrary: a) (auto simp: reads_Cons)

lemma reads_cong:
  assumes "mem t = mem s" "cr0 t = cr0 s" "cr3 t = cr3 s"
  shows "reads t a bs = reads s a bs"
proof -
  have "translate t b = translate s b" for b using assms by (simp add: translate_def paging_on_def)
  then have "load8 b t = Ret v t \<longleftrightarrow> load8 b s = Ret v s" for b v
    using assms by (simp add: load8_def split: option.split)
  then show ?thesis by (simp add: reads_def)
qed

subsection \<open>Archives\<close>

text \<open>A file of an archive, and what its header says about it.\<close>

record entry =
  a_name :: "u8 list"
  a_type :: u8
  a_data :: "u8 list"

definition header_of :: "u8 list \<Rightarrow> entry \<Rightarrow> bool" where
  "header_of hdr e \<longleftrightarrow> length hdr = 512 \<and> terminated hdr \<and> text_of hdr = a_name e \<and> a_name e \<noteq> [] \<and>
     hdr_typeflag hdr = a_type e \<and> get_octal (hdr_size hdr) 11 = Some (of_nat (length (a_data e))) \<and>
     length (a_data e) < 2 ^ 32 \<and> terminated (hdr_magic hdr)"

definition next_header :: "u32 \<Rightarrow> entry \<Rightarrow> u32" where
  "next_header ptr e = ptr + (512 + ((of_nat (length (a_data e)) + 511) AND 0xFFFFFE00))"

fun archive_at :: "'a machine_scheme \<Rightarrow> u32 \<Rightarrow> u32 \<Rightarrow> entry list \<Rightarrow> bool" where
  "archive_at s limit ptr [] \<longleftrightarrow> ptr < limit \<longrightarrow>
     (\<exists>hdr. length hdr = 512 \<and> reads s ptr hdr \<and> hdr ! 0 = 0 \<and> terminated (hdr_magic hdr))"
| "archive_at s limit ptr (e # es) \<longleftrightarrow> ptr < limit \<and> (\<exists>hdr. reads s ptr hdr \<and> header_of hdr e) \<and>
     reads s (ptr + 512) (a_data e) \<and> archive_at s limit (next_header ptr e) es"

text \<open>The name without a leading \<^verbatim>\<open>./\<close>, and the node a file becomes.\<close>

definition clean_name :: "u8 list \<Rightarrow> u8 list" where
  "clean_name n = (if take 2 n = [46, 47] then drop 2 n else n)"

definition is_dir :: "entry \<Rightarrow> bool" where
  "is_dir e \<longleftrightarrow> a_type e = 53 \<or> last (a_name e) = 47"

definition node_of :: "u32 \<Rightarrow> entry \<Rightarrow> fs_node" where
  "node_of ptr e = node_zero\<lparr>
     fs_name := clean_name (a_name e) @ replicate (128 - length (clean_name (a_name e))) 0,
     fs_flags := (if is_dir e then FS_DIRECTORY else FS_FILE),
     fs_length := of_nat (length (a_data e)), fs_impl := ptr + 512, fs_read := Some Tar_read,
     fs_readdir := (if is_dir e then Some Tar_readdir else None),
     fs_finddir := (if is_dir e then Some Tar_finddir else None)\<rparr>"

primrec nodes_of :: "u32 \<Rightarrow> entry list \<Rightarrow> fs_node list" where
  "nodes_of ptr [] = []"
| "nodes_of ptr (e # es) = node_of ptr e # nodes_of (next_header ptr e) es"

lemma length_nodes_of [simp]: "length (nodes_of ptr es) = length es"
  by (induction es arbitrary: ptr) auto

lemma raw_name_text:
  assumes "terminated hdr" "text_of hdr \<noteq> []"
  shows "text_of (raw_name hdr) = clean_name (text_of hdr) \<and> terminated (raw_name hdr)"
proof -
  obtain a r where h: "hdr = a # r" "a \<noteq> 0" using assms by (cases hdr) (auto split: if_splits)
  then obtain b r' where r: "r = b # r'" using assms(1) by (cases r) auto
  show ?thesis using assms h r by (cases "b = 0") (auto simp: raw_name_def clean_name_def)
qed

lemma tar_make_node_header:
  assumes "header_of hdr e" "length (clean_name (a_name e)) < 128"
  shows "tar_make_node ptr hdr (of_nat (length (a_data e))) = Some (node_of ptr e)"
proof -
  let ?n = "clean_name (a_name e)"
  have h: "terminated hdr" "text_of hdr = a_name e" "a_name e \<noteq> []" "hdr_typeflag hdr = a_type e"
    using assms(1) by (auto simp: header_of_def)
  have raw: "text_of (raw_name hdr) = ?n" "terminated (raw_name hdr)"
    using raw_name_text [OF h(1)] h(2,3) by simp_all
  have "drop (Suc (length ?n)) (replicate 128 (0 :: u8)) = replicate (127 - length ?n) 0" by simp
  moreover have "0 # replicate (127 - length ?n) (0 :: u8) = replicate (128 - length ?n) 0"
    using assms(2) by (simp add: replicate_Suc [symmetric] Suc_diff_le del: replicate_Suc)
  ultimately have cp: "strcpy (fs_name node_zero) (raw_name hdr) = Some (?n @ replicate (128 - length ?n) 0)"
    using raw assms(2) by (simp add: strcpy_eq node_zero_def)
  have last: "hdr ! (length (a_name e) - 1) = last (a_name e)"
    using text_of_nth [of "length (a_name e) - 1" hdr] h(2,3) by (simp add: last_conv_nth)
  show ?thesis
    using h cp last by (simp add: tar_make_node_def strlen_eq node_of_def is_dir_def node_zero_def)
qed

subsection \<open>Mounting an archive\<close>

definition tar_run :: "u32 \<Rightarrow> u32 \<times> 'a fs_scheme \<Rightarrow> (u32 \<times> 'a fs_scheme + (unit, 'a fs_scheme) outcome) option" where
  "tar_run limit st = while_option isl (\<lambda>st. case projl st of (ptr, s) \<Rightarrow> tar_step limit ptr s) (Inl st)"

lemma tar_run_unfold:
  "tar_run limit (ptr, s) = (case tar_step limit ptr s of Inl st \<Rightarrow> tar_run limit st | Inr r \<Rightarrow> Some (Inr r))"
proof (cases "tar_step limit ptr s")
  case (Inl st)
  then show ?thesis unfolding tar_run_def by (subst while_option_unfold) simp
next
  case (Inr r)
  have "while_option isl (\<lambda>st. case projl st of (ptr, s) \<Rightarrow> tar_step limit ptr s) (Inr r) = Some (Inr r)"
    by (subst while_option_unfold) simp
  with Inr show ?thesis unfolding tar_run_def by (subst while_option_unfold) simp
qed

lemma tar_loop_run: "tar_loop limit ptr s = (case tar_run limit (ptr, s) of Some (Inr r) \<Rightarrow> r | _ \<Rightarrow> Hang s)"
  by (simp add: tar_loop_def tar_run_def)

text \<open>The part of the state mounting does not touch.\<close>

definition same_system :: "'a fs_scheme \<Rightarrow> 'a fs_scheme \<Rightarrow> bool" where
  "same_system s t \<longleftrightarrow> (\<exists>c n k r f. t = s\<lparr>console := c, tar_nodes := n, tar_file_count := k, tar_root := r, fs_root := f\<rparr>)"

lemma same_system_fields:
  assumes "same_system s t"
  shows "mem t = mem s" "cr0 t = cr0 s" "cr3 t = cr3 s" "pmm_st t = pmm_st s" "task_table t = task_table s"
    "current_page_directory t = current_page_directory s" "iflag t = iflag s" "tlb t = tlb s" "idt_st t = idt_st s"
    "task_list t = task_list s" "current_task t = current_task s" "reg_esp t = reg_esp s"
  using assms unfolding same_system_def by auto

lemma same_system_refl [simp]: "same_system s s"
  unfolding same_system_def by (cases s) auto

lemma same_system_trans: "same_system s t \<Longrightarrow> same_system t u \<Longrightarrow> same_system s u"
  unfolding same_system_def by clarsimp (intro exI, rule refl)

lemma same_system_updates [simp]:
  "same_system s (print f s)" "same_system s (s\<lparr>tar_nodes := n, tar_file_count := k\<rparr>)"
  "same_system s (s\<lparr>tar_file_count := k\<rparr>)" "same_system s (s\<lparr>tar_root := r\<rparr>)" "same_system s (s\<lparr>fs_root := x\<rparr>)"
  unfolding same_system_def print_def by (cases s, auto)+

lemma print_fs_fields [simp]:
  "tar_nodes (print f s) = tar_nodes s" "tar_file_count (print f s) = tar_file_count s" "tar_root (print f s) = tar_root s"
  "fs_root (print f s) = fs_root s"
  by (simp_all add: print_def)

lemma tar_debug_fields [simp]:
  "tar_nodes (tar_debug hdr s) = tar_nodes s" "tar_file_count (tar_debug hdr s) = tar_file_count s"
  "same_system s (tar_debug hdr s)"
  by (simp_all add: tar_debug_def Let_def)

lemma tar_add_node_fields [simp]:
  "tar_nodes (tar_add_node n s) = (tar_nodes s)[tar_file_count s := n]" "tar_file_count (tar_add_node n s) = tar_file_count s + 1"
  "same_system s (tar_add_node n s)"
  by (simp_all add: tar_add_node_def Let_def)
     (rule same_system_trans [OF _ same_system_updates(1)], simp)

lemma archive_at_cong: "same_system s t \<Longrightarrow> archive_at t limit ptr es = archive_at s limit ptr es"
proof (induction es arbitrary: ptr)
  case Nil
  then show ?case using reads_cong [OF same_system_fields(1-3) [OF Nil]] by simp
next
  case (Cons e es)
  then show ?case using reads_cong [OF same_system_fields(1-3) [OF Cons.prems]] by simp
qed

lemma tar_step_entry:
  assumes "ptr < limit" "reads s ptr hdr" "header_of hdr e" "length (clean_name (a_name e)) < 128" "tar_file_count s < 128"
  shows "tar_step limit ptr s = Inl (next_header ptr e, tar_add_node (node_of ptr e) (tar_debug hdr s))"
proof -
  have h: "length hdr = 512" "terminated (hdr_magic hdr)" "get_octal (hdr_size hdr) 11 = Some (of_nat (length (a_data e)))"
    "hdr ! 0 \<noteq> 0"
    using assms(3) by (auto simp: header_of_def) (cases hdr; auto split: if_splits)
  have ld: "load_bytes ptr 512 s = Ret hdr s" using load_bytes_reads [OF assms(2)] h(1) by simp
  show ?thesis
    using assms(1,5) h ld tar_make_node_header [OF assms(3,4), of ptr]
    by (simp add: tar_step_def next_header_def Let_def)
qed

lemma tar_run_archive:
  assumes "archive_at s limit ptr es" "\<forall>e \<in> set es. length (clean_name (a_name e)) < 128"
    "tar_file_count s + length es \<le> 128" "length (tar_nodes s) = 128"
  shows "\<exists>t. tar_run limit (ptr, s) = Some (Inr (Ret () t)) \<and> same_system s t \<and>
    tar_file_count t = tar_file_count s + length es \<and> length (tar_nodes t) = 128 \<and>
    take (tar_file_count t) (tar_nodes t) = take (tar_file_count s) (tar_nodes s) @ nodes_of ptr es"
  using assms
proof (induction es arbitrary: ptr s)
  case Nil
  show ?case
  proof (cases "ptr < limit")
    case False
    then show ?thesis using Nil.prems by (subst tar_run_unfold) (simp add: tar_step_def)
  next
    case True
    then obtain hdr where h: "length hdr = 512" "reads s ptr hdr" "hdr ! 0 = 0" "terminated (hdr_magic hdr)"
      using Nil.prems(1) by auto
    have "load_bytes ptr 512 s = Ret hdr s" using load_bytes_reads [OF h(2)] h(1) by simp
    then have "tar_step limit ptr s = Inr (Ret () (tar_debug hdr s))"
      using True h(3,4) by (simp add: tar_step_def Let_def)
    then show ?thesis using Nil.prems by (subst tar_run_unfold) simp
  qed
next
  case (Cons e es)
  then obtain hdr where h: "reads s ptr hdr" "header_of hdr e" and lt: "ptr < limit" by auto
  let ?u = "tar_add_node (node_of ptr e) (tar_debug hdr s)"
  have st: "tar_step limit ptr s = Inl (next_header ptr e, ?u)"
    using Cons.prems by (intro tar_step_entry [OF lt h]) auto
  have sys: "same_system s ?u"
    by (rule same_system_trans [OF tar_debug_fields(3) tar_add_node_fields(3)])
  have "archive_at ?u limit (next_header ptr e) es" using Cons.prems(1) archive_at_cong [OF sys] by simp
  then obtain t where t: "tar_run limit (next_header ptr e, ?u) = Some (Inr (Ret () t))" "same_system ?u t"
    "tar_file_count t = tar_file_count ?u + length es" "length (tar_nodes t) = 128"
    "take (tar_file_count t) (tar_nodes t) = take (tar_file_count ?u) (tar_nodes ?u) @ nodes_of (next_header ptr e) es"
    using Cons.IH [of ?u "next_header ptr e"] Cons.prems(2-4) by auto
  have "take (Suc (tar_file_count s)) ((tar_nodes s)[tar_file_count s := node_of ptr e]) =
      take (tar_file_count s) (tar_nodes s) @ [node_of ptr e]"
    using Cons.prems(3,4) by (simp add: take_Suc_conv_app_nth)
  with t(5) have "take (tar_file_count t) (tar_nodes t) = take (tar_file_count s) (tar_nodes s) @ nodes_of ptr (e # es)" by simp
  then show ?case
    using t(1,3,4) st same_system_trans [OF sys t(2)] by (subst tar_run_unfold) simp
qed

subsection \<open>Copying between objects\<close>

text \<open>
  \<open>stays s P a p\<close>: the address \<open>a\<close> is translated to \<open>p\<close>, whatever is written to the physical
  addresses in \<open>P\<close>. \<open>object_at s a n p\<close>: the \<open>n\<close> bytes from \<open>a\<close> on are mapped to the pairwise
  different physical addresses \<open>p 0\<close>, \<open>p 1\<close>, \<dots>, none of which holds a page table in use for them.
\<close>

definition stays :: "'a machine_scheme \<Rightarrow> u32 set \<Rightarrow> u32 \<Rightarrow> u32 \<Rightarrow> bool" where
  "stays s P a p \<longleftrightarrow> (\<forall>m. (\<forall>b. b \<notin> P \<longrightarrow> m b = mem s b) \<longrightarrow> translate (s\<lparr>mem := m\<rparr>) a = Some p)"

definition object_at :: "'a machine_scheme \<Rightarrow> u32 \<Rightarrow> nat \<Rightarrow> (nat \<Rightarrow> u32) \<Rightarrow> bool" where
  "object_at s a n p \<longleftrightarrow> inj_on p {..<n} \<and> (\<forall>i < n. stays s (p ` {..<n}) (a + of_nat i) (p i))"

lemma stays_mono: "stays s P a p \<Longrightarrow> Q \<subseteq> P \<Longrightarrow> stays s Q a p"
  unfolding stays_def by blast

lemma staysD: "stays s P a p \<Longrightarrow> (\<And>b. b \<notin> P \<Longrightarrow> m b = mem s b) \<Longrightarrow> translate (s\<lparr>mem := m\<rparr>) a = Some p"
  unfolding stays_def by blast

lemma stays_now: "stays s P a p \<Longrightarrow> translate s a = Some p"
  using staysD [of s P a p "mem s"] by simp

lemma stays_off: "\<not> paging_on s \<Longrightarrow> stays s P a a"
  by (simp add: stays_def translate_off)

lemma stays_cong:
  assumes "mem t = mem s" "cr0 t = cr0 s" "cr3 t = cr3 s"
  shows "stays t P a p = stays s P a p"
  using assms by (simp add: stays_def translate_def paging_on_def)

lemma object_at_cong:
  assumes "mem t = mem s" "cr0 t = cr0 s" "cr3 t = cr3 s"
  shows "object_at t a n p = object_at s a n p"
  using stays_cong [OF assms] by (simp add: object_at_def)

lemma object_at_shorter: "object_at s a n p \<Longrightarrow> k \<le> n \<Longrightarrow> object_at s a k p"
  unfolding object_at_def
  by (auto intro: inj_on_subset stays_mono [where P = "p ` {..<n}"])

lemma memcpy_object:
  assumes obj: "object_at s dest (unat n) p"
    and src: "\<And>i. i < unat n \<Longrightarrow> stays s (p ` {..<unat n}) (src + of_nat i) (q i)"
    and apart: "\<And>i. i < unat n \<Longrightarrow> q i \<notin> p ` {..<unat n}"
  shows "\<exists>m. memcpy dest src n s = Ret dest (s\<lparr>mem := m\<rparr>) \<and> (\<forall>i < unat n. m (p i) = mem s (q i)) \<and>
    (\<forall>b. b \<notin> p ` {..<unat n} \<longrightarrow> m b = mem s b)"
proof -
  let ?P = "p ` {..<unat n}"
  let ?body = "\<lambda>i t. obind (load8 (src + of_nat i) t) (\<lambda>b u. store8 (dest + of_nat i) b u)"
  let ?inv = "\<lambda>k t. \<exists>m. t = s\<lparr>mem := m\<rparr> \<and> (\<forall>i < k. m (p i) = mem s (q i)) \<and> (\<forall>b. b \<notin> ?P \<longrightarrow> m b = mem s b)"
  have inj: "inj_on p {..<unat n}" and dst: "\<And>i. i < unat n \<Longrightarrow> stays s ?P (dest + of_nat i) (p i)"
    using obj by (auto simp: object_at_def)
  have "\<exists>t. foreach [0..<unat n] ?body s = Ret () t \<and> ?inv (unat n) t"
  proof (rule foreach_upt_rule [where P = ?inv])
    show "?inv 0 s" by (rule exI [of _ "mem s"]) simp
  next
    fix i t assume i: "i < unat n" and "?inv i t"
    then obtain m where t: "t = s\<lparr>mem := m\<rparr>" and cp: "\<forall>j < i. m (p j) = mem s (q j)" and out: "\<forall>b. b \<notin> ?P \<longrightarrow> m b = mem s b"
      by blast
    have l: "load8 (src + of_nat i) t = Ret (mem s (q i)) t"
      using staysD [OF src [OF i], of m] out apart [OF i] by (simp add: load8_def t)
    have w: "store8 (dest + of_nat i) v t = Ret () (s\<lparr>mem := m(p i := v)\<rparr>)" for v
      using staysD [OF dst [OF i], of m] out by (simp add: store8_def t)
    have "\<forall>j < Suc i. (m(p i := mem s (q i))) (p j) = mem s (q j)"
      using cp inj i by (auto simp: less_Suc_eq inj_on_def)
    moreover have "\<forall>b. b \<notin> ?P \<longrightarrow> (m(p i := mem s (q i))) b = mem s b" using out i by auto
    ultimately have "?inv (Suc i) (s\<lparr>mem := m(p i := mem s (q i))\<rparr>)" by (intro exI conjI) (rule refl, simp_all)
    moreover have "?body i t = Ret () (s\<lparr>mem := m(p i := mem s (q i))\<rparr>)" by (simp add: l w)
    ultimately show "\<exists>u. ?body i t = Ret () u \<and> ?inv (Suc i) u" by (intro exI [of _ "s\<lparr>mem := m(p i := mem s (q i))\<rparr>"] conjI)
  qed
  then show ?thesis unfolding memcpy_def by auto
qed

subsection \<open>Reading a file\<close>

text \<open>What is read of \<open>data\<close> by a request for \<open>n\<close> bytes from \<open>k\<close> on.\<close>

definition file_part :: "nat \<Rightarrow> nat \<Rightarrow> u8 list \<Rightarrow> u8 list" where
  "file_part k n data = take n (drop k data)"

lemma length_file_part: "length (file_part k n data) = min n (length data - k)"
  by (simp add: file_part_def min.commute)

text \<open>
  \<open>holds_data s nd P data\<close>: the node \<open>nd\<close> is a file with the contents \<open>data\<close>, which stay in place when the
  physical addresses in \<open>P\<close> are written.
\<close>

definition holds_data :: "'a fs_scheme \<Rightarrow> fs_node \<Rightarrow> u32 set \<Rightarrow> u8 list \<Rightarrow> bool" where
  "holds_data s nd P data \<longleftrightarrow> length data < 2 ^ 32 \<and> fs_length nd = of_nat (length data) \<and>
     (\<forall>i < length data. \<exists>q. q \<notin> P \<and> stays s P (fs_impl nd + of_nat i) q \<and> mem s q = data ! i)"

lemma tar_read_len:
  assumes "length data < 2 ^ 32" "unat off + unat n < 2 ^ 32" "unat off < length data"
  shows "unat (if off + n > of_nat (length data) then of_nat (length data) - off else n :: u32) = length (file_part (unat off) (unat n) data)"
proof -
  have s: "unat (off + n) = unat off + unat n" using assms(2) by (simp add: unat_word_ariths)
  have l: "unat (of_nat (length data) :: u32) = length data" using assms(1) by (simp add: unat_of_nat take_bit_eq_mod)
  have "off \<le> of_nat (length data)" using assms(3) l by (simp add: word_le_nat_alt)
  then have "unat (of_nat (length data) - off) = length data - unat off" using l by (simp add: unat_sub)
  then show ?thesis using s l by (simp add: length_file_part word_less_nat_alt)
qed

lemma tar_read_slice:
  assumes data: "holds_data s (node_at r s) (p ` {..<unat n}) data" and obj: "object_at s buffer (unat n) p"
    and fits: "unat off + unat n < 2 ^ 32"
  shows "\<exists>m. tar_read r off n buffer s = Ret (of_nat (length (file_part (unat off) (unat n) data))) (s\<lparr>mem := m\<rparr>) \<and>
    (\<forall>i < length (file_part (unat off) (unat n) data). m (p i) = file_part (unat off) (unat n) data ! i) \<and>
    (\<forall>b. b \<notin> p ` {..<length (file_part (unat off) (unat n) data)} \<longrightarrow> m b = mem s b)"
proof -
  let ?d = "file_part (unat off) (unat n) data"
  let ?P = "p ` {..<length ?d}"
  have d: "length data < 2 ^ 32" "fs_length (node_at r s) = of_nat (length data)"
    "\<And>i. i < length data \<Longrightarrow> \<exists>q. q \<notin> p ` {..<unat n} \<and> stays s (p ` {..<unat n}) (fs_impl (node_at r s) + of_nat i) q \<and> mem s q = data ! i"
    using data by (auto simp: holds_data_def)
  have l: "unat (of_nat (length data) :: u32) = length data" using d(1) by (simp add: unat_of_nat take_bit_eq_mod)
  show ?thesis
  proof (cases "unat off < length data")
    case False
    then have "off \<ge> fs_length (node_at r s)" using d(2) l by (simp add: word_le_nat_alt)
    moreover have "?d = []" using False by (simp add: file_part_def)
    ultimately show ?thesis by (intro exI [of _ "mem s"]) (simp add: tar_read_def Let_def)
  next
    case True
    define k :: u32 where "k = (if off + n > of_nat (length data) then of_nat (length data) - off else n)"
    have k: "unat k = length ?d" unfolding k_def by (rule tar_read_len [OF d(1) fits True])
    have le: "length ?d \<le> unat n" by (simp add: length_file_part)
    have sub: "?P \<subseteq> p ` {..<unat n}" using le by (intro image_mono) auto
    have "\<forall>i. \<exists>q. i < length ?d \<longrightarrow> q \<notin> ?P \<and> stays s ?P (fs_impl (node_at r s) + off + of_nat i) q \<and> mem s q = ?d ! i"
    proof
      fix i
      show "\<exists>q. i < length ?d \<longrightarrow> q \<notin> ?P \<and> stays s ?P (fs_impl (node_at r s) + off + of_nat i) q \<and> mem s q = ?d ! i"
      proof (cases "i < length ?d")
        case i: True
        then have "unat off + i < length data" unfolding length_file_part by linarith
        from d(3) [OF this] obtain q where q: "q \<notin> p ` {..<unat n}"
          "stays s (p ` {..<unat n}) (fs_impl (node_at r s) + of_nat (unat off + i)) q" "mem s q = data ! (unat off + i)" by blast
        have "?d ! i = data ! (unat off + i)" using i \<open>unat off + i < length data\<close> by (simp add: file_part_def)
        with q sub stays_mono [OF q(2) sub] show ?thesis by (intro exI [of _ q]) (auto simp: add.assoc)
      qed simp
    qed
    then obtain q where q: "\<And>i. i < length ?d \<Longrightarrow> q i \<notin> ?P \<and> stays s ?P (fs_impl (node_at r s) + off + of_nat i) (q i) \<and> mem s (q i) = ?d ! i"
      by metis
    have "\<exists>m. memcpy buffer (fs_impl (node_at r s) + off) k s = Ret buffer (s\<lparr>mem := m\<rparr>) \<and>
        (\<forall>i < unat k. m (p i) = mem s (q i)) \<and> (\<forall>b. b \<notin> p ` {..<unat k} \<longrightarrow> m b = mem s b)"
      using object_at_shorter [OF obj le] q by (intro memcpy_object) (auto simp: k)
    then obtain m where m: "memcpy buffer (fs_impl (node_at r s) + off) k s = Ret buffer (s\<lparr>mem := m\<rparr>)"
      "\<forall>i < length ?d. m (p i) = ?d ! i" "\<forall>b. b \<notin> ?P \<longrightarrow> m b = mem s b"
      using q by (auto simp: k)
    have nk: "\<not> off \<ge> fs_length (node_at r s)" using True d(2) l by (simp add: word_le_nat_alt)
    have "k = of_nat (length ?d)" using k by (simp add: word_unat_eq_iff unat_of_nat take_bit_eq_mod k [symmetric])
    moreover have "tar_read r off n buffer s = obind (memcpy buffer (fs_impl (node_at r s) + off) k s) (\<lambda>_ s. Ret k s)"
      using nk d(2) by (simp add: tar_read_def Let_def k_def)
    ultimately show ?thesis using m by (intro exI [of _ m]) simp
  qed
qed

subsection \<open>The table as a directory tree\<close>

text \<open>
  The invariant of the node table: every name is terminated, none is a lone slash. A directory
  is the root or a used entry; its entry with the name \<open>t\<close> is the first in table order.
\<close>

definition tar_wf :: "'a fs_scheme \<Rightarrow> bool" where
  "tar_wf s \<longleftrightarrow> tar_file_count s \<le> length (tar_nodes s) \<and>
     (\<forall>i < tar_file_count s. terminated (fs_name (tar_nodes s ! i)) \<and> text_of (fs_name (tar_nodes s ! i)) \<noteq> [47])"

definition tar_valid :: "'a fs_scheme \<Rightarrow> node_ref \<Rightarrow> bool" where
  "tar_valid s n \<longleftrightarrow> (case n of Tar_root \<Rightarrow> True | Tar_node i \<Rightarrow> i < tar_file_count s)"

definition dir_text :: "'a fs_scheme \<Rightarrow> node_ref \<Rightarrow> u8 list" where
  "dir_text s n = text_of (dir_prefix n s)"

definition tar_child :: "'a fs_scheme \<Rightarrow> node_ref \<Rightarrow> u8 list \<Rightarrow> node_ref option" where
  "tar_child s n t = map_option (Tar_node o fst) (List.find (\<lambda>e. in_dir (dir_text s n) e \<and>
     rel_name (dir_text s n) (text_of (snd e)) = t) (table s))"

lemma table_nth:
  assumes "tar_wf s" "i < tar_file_count s"
  shows "table s ! i = (i, fs_name (tar_nodes s ! i))"
  using assms by (simp add: table_def tar_wf_def nth_enumerate_eq)

lemma length_table: "tar_wf s \<Longrightarrow> length (table s) = tar_file_count s"
  by (simp add: table_def tar_wf_def)

lemma table_entries:
  assumes "tar_wf s" "e \<in> set (table s)"
  shows "fst e < tar_file_count s" "terminated (snd e)"
proof -
  obtain i where "i < tar_file_count s" "e = table s ! i"
    using assms by (metis in_set_conv_nth length_table)
  then show "fst e < tar_file_count s" "terminated (snd e)"
    using assms(1) table_nth [OF assms(1)] by (simp_all add: tar_wf_def)
qed

lemma dir_prefix_terminated:
  assumes "tar_wf s" "tar_valid s n"
  shows "terminated (dir_prefix n s)" "dir_text s n \<noteq> [47]"
  using assms by (cases n; simp add: dir_prefix_def dir_text_def tar_wf_def tar_valid_def node_at_def)+

lemma tar_finddir_child:
  assumes "tar_wf s" "tar_valid s n" "terminated name"
  shows "tar_finddir n name s = Some (tar_child s n (text_of name))"
proof -
  have "finddir_loop (dir_prefix n s) name (table s) = Some (map_option fst (List.find (\<lambda>e. in_dir (dir_text s n) e \<and>
    rel_name (dir_text s n) (text_of (snd e)) = text_of name) (table s)))"
    unfolding dir_text_def using table_entries(2) [OF assms(1)] dir_prefix_terminated [OF assms(1,2)] assms(3)
    by (intro finddir_loop_eq) (auto simp: dir_text_def)
  then show ?thesis by (simp add: tar_finddir_def tar_child_def option.map_comp)
qed

lemma tar_child_valid:
  assumes "tar_wf s" "tar_child s n t = Some m"
  shows "tar_valid s m"
  using assms table_entries(1) [OF assms(1)]
  by (auto simp: tar_child_def tar_valid_def find_Some_iff) (metis nth_mem)

interpretation tar: directory_tree call_finddir tar_wf tar_valid tar_child
proof
  fix s :: "'a fs_scheme" and n :: node_ref and t :: "u8 list" and f
  assume "tar_wf s" "tar_valid s n" "0 \<notin> set t"
  then show "call_finddir f n (t @ [0]) s = Some (tar_child s n t)"
    using tar_finddir_child [of s n "t @ [0]"] by (simp add: call_finddir_def split: finddir_type_t.split)
qed (auto intro: tar_child_valid)

subsection \<open>The table of a mounted archive\<close>

text \<open>\<open>mounted s address es t\<close>: the system \<open>s\<close> with the archive of the files \<open>es\<close> mounted.\<close>

definition tar_root_node :: fs_node where
  "tar_root_node = node_zero\<lparr>fs_name := 47 # replicate 127 0, fs_flags := FS_DIRECTORY,
     fs_readdir := Some Tar_readdir, fs_finddir := Some Tar_finddir\<rparr>"

definition mounted :: "'a fs_scheme \<Rightarrow> u32 \<Rightarrow> entry list \<Rightarrow> 'a fs_scheme \<Rightarrow> bool" where
  "mounted s address es t \<longleftrightarrow> same_system s t \<and> length (tar_nodes t) = 128 \<and> tar_file_count t = length es \<and>
     take (length es) (tar_nodes t) = nodes_of address es \<and> tar_root t = tar_root_node \<and> fs_root t = Some Tar_root"

lemma tar_init_mounted:
  assumes "archive_at s (address + len) address es" "\<forall>e \<in> set es. length (clean_name (a_name e)) < 128"
    "length es \<le> 128" "length (tar_nodes s) = 128"
  shows "\<exists>t. tar_init address len s = Ret Tar_root t \<and> mounted s address es t"
proof -
  define s1 where "s1 = print (puts ''...\<newline>'') (print (terminal_writehex address)
    (print (puts ''[TAR] Initializing RAM disk filesystem at address '') (s\<lparr>tar_file_count := 0\<rparr>)))"
  have s1: "tar_file_count s1 = 0" "tar_nodes s1 = tar_nodes s" by (simp_all add: s1_def)
  have sys: "same_system s s1"
    unfolding s1_def by (intro same_system_trans [OF _ same_system_updates(1)] same_system_updates)
  obtain t where t: "tar_run (address + len) (address, s1) = Some (Inr (Ret () t))" "same_system s1 t"
    "tar_file_count t = length es" "length (tar_nodes t) = 128" "take (length es) (tar_nodes t) = nodes_of address es"
    using tar_run_archive [of s1 "address + len" address es] archive_at_cong [OF sys] assms s1 by auto
  let ?u = "print (puts ''[TAR] RAM disk filesystem initialized successfully.\<newline>'') (t\<lparr>tar_root := tar_root_node, fs_root := Some Tar_root\<rparr>)"
  have run: "tar_loop (address + len) address s1 = Ret () t" by (simp add: tar_loop_run t(1))
  have "tar_init address len s = Ret Tar_root ?u"
    unfolding tar_init_def Let_def s1_def [symmetric] run by (simp add: tar_root_node_def)
  moreover have "same_system t ?u" unfolding same_system_def print_def by (cases t) auto
  then have "mounted s address es ?u"
    using same_system_trans [OF sys same_system_trans [OF t(2)]] t(3-5) by (auto simp: mounted_def)
  ultimately show ?thesis by blast
qed

subsection \<open>Archives as they are written\<close>

text \<open>
  The bytes of a USTAR archive, as \<^verbatim>\<open>tar\<close> writes them: a header, the contents padded to a multiple
  of 512, and two zero blocks at the end. Fields the kernel does not read are left zero.
\<close>

definition ustar_header :: "entry \<Rightarrow> u8 list" where
  "ustar_header e = a_name e @ replicate (124 - length (a_name e)) 0 @ octal 11 (length (a_data e)) @ replicate 21 0 @
     [a_type e] @ replicate 100 0 @ map of_char ''ustar'' @ replicate 250 0"

definition padding :: "nat \<Rightarrow> nat" where
  "padding n = (511 - (n + 511) mod 512)"

primrec archive_bytes :: "entry list \<Rightarrow> u8 list" where
  "archive_bytes [] = replicate 1024 0"
| "archive_bytes (e # es) = ustar_header e @ a_data e @ replicate (padding (length (a_data e))) 0 @ archive_bytes es"

definition entry_ok :: "entry \<Rightarrow> bool" where
  "entry_ok e \<longleftrightarrow> a_name e \<noteq> [] \<and> 0 \<notin> set (a_name e) \<and> length (a_name e) \<le> 100"

lemma length_ustar_header: "length (a_name e) \<le> 100 \<Longrightarrow> length (ustar_header e) = 512"
  by (simp add: ustar_header_def)

lemma ustar_header_of:
  assumes "entry_ok e" "length (a_data e) < 2 ^ 32"
  shows "header_of (ustar_header e) e"
proof -
  let ?n = "length (a_name e)"
  have n: "?n \<le> 100" "a_name e \<noteq> []" "0 \<notin> set (a_name e)" using assms(1) by (auto simp: entry_ok_def)
  have "replicate (124 - ?n) (0 :: u8) = 0 # replicate (123 - ?n) 0"
    using n(1) by (simp add: replicate_Suc [symmetric] Suc_diff_le del: replicate_Suc)
  then have tx: "text_of (ustar_header e) = a_name e" "terminated (ustar_header e)"
    using n(3) by (simp_all add: ustar_header_def)
  have sz: "hdr_size (ustar_header e) = octal 11 (length (a_data e)) @ replicate 21 0 @
     [a_type e] @ replicate 100 0 @ map of_char ''ustar'' @ replicate 250 0"
    using n(1) by (simp add: hdr_size_def ustar_header_def)
  have "\<not> 156 - ?n < 124 - ?n" using n(1) by linarith
  then have tp: "hdr_typeflag (ustar_header e) = a_type e"
    using n(1) by (simp add: hdr_typeflag_def ustar_header_def nth_append)
  have "0 \<in> set (hdr_magic (ustar_header e))"
    using n(1) by (simp add: hdr_magic_def ustar_header_def)
  then have mg: "terminated (hdr_magic (ustar_header e))" by (simp add: terminated_def)
  have "get_octal (hdr_size (ustar_header e)) 11 = Some (of_nat (length (a_data e)))"
    unfolding sz get_octal_octal using assms(2) by simp
  then show ?thesis
    using n tx tp mg assms(2) length_ustar_header [OF n(1)] by (simp add: header_of_def)
qed

lemma reads_append: "reads s a (xs @ ys) \<longleftrightarrow> reads s a xs \<and> reads s (a + of_nat (length xs)) ys"
  by (induction xs arbitrary: a) (auto simp: reads_Cons add.assoc, simp add: reads_def)

lemma unat_mask512: "unat ((a :: u32) AND 0xFFFFFE00) = unat a div 512 * 512"
proof -
  have m: "(0xFFFFFE00 :: u32) = NOT (mask 9)" by (simp add: mask_eq_exp_minus_1)
  have "push_bit 9 (drop_bit 9 a) = a AND 0xFFFFFE00"
    unfolding m by (rule bit_word_eqI) (auto simp: bit_simps)
  moreover have "unat (push_bit 9 (drop_bit 9 a)) = unat a div 512 * 512"
  proof -
    have "unat a div 512 * 512 < 2 ^ 32"
      using unsigned_less [of a, where 'a = nat] by (simp add: le_less_trans [OF div_times_less_eq_dividend])
    then show ?thesis by (simp add: push_bit_eq_mult unat_word_ariths unat_drop_bit_u32)
  qed
  ultimately show ?thesis by simp
qed

lemma round_up: "(n + 511) div 512 * 512 = n + padding n"
proof -
  have "(n + 511) div 512 * 512 + (n + 511) mod 512 = n + 511" by simp
  moreover have "(n + 511) mod 512 \<le> 511" by (simp add: less_Suc_eq_le [symmetric])
  ultimately show ?thesis unfolding padding_def by linarith
qed

lemma next_header_eq:
  assumes "length (a_data e) + 512 < 2 ^ 32"
  shows "next_header ptr e = ptr + of_nat (512 + (length (a_data e) + padding (length (a_data e))))"
proof -
  let ?n = "length (a_data e)"
  have "unat (of_nat ?n + 511 :: u32) = ?n + 511"
    using assms unat_of_nat [of "?n + 511", where 'a = 32] by (simp add: take_bit_eq_mod)
  then have "unat ((of_nat ?n + 511 :: u32) AND 0xFFFFFE00) = ?n + padding ?n" by (simp add: unat_mask512 round_up)
  then have "(of_nat ?n + 511 :: u32) AND 0xFFFFFE00 = of_nat (?n + padding ?n)" by (simp only: word_unat_eq_iff unat_of_nat take_bit_eq_mod) (metis mod_less unsigned_less)
  then show ?thesis by (simp add: next_header_def)
qed

lemma archive_bytes_at:
  assumes "reads s ptr (archive_bytes es)" "\<forall>e \<in> set es. entry_ok e" "unat ptr + length (archive_bytes es) < 2 ^ 32"
  shows "archive_at s (ptr + of_nat (length (archive_bytes es))) ptr es"
  using assms
proof (induction es arbitrary: ptr)
  case Nil
  have "reads s ptr (replicate 512 0)"
    using Nil.prems(1) reads_append [of s ptr "replicate 512 0" "replicate 512 0"] by (simp add: replicate_add [symmetric])
  moreover have "terminated (hdr_magic (replicate 512 0))" by (simp add: hdr_magic_def terminated_def)
  ultimately have "\<exists>hdr. length hdr = 512 \<and> reads s ptr hdr \<and> hdr ! 0 = 0 \<and> terminated (hdr_magic hdr)"
    by (intro exI [of _ "replicate 512 0"]) simp
  then show ?case by simp
next
  case (Cons e es)
  let ?n = "length (a_data e)"
  let ?k = "512 + (?n + padding ?n)"
  have ok: "entry_ok e" "length (ustar_header e) = 512" using Cons.prems(2) by (auto simp: entry_ok_def length_ustar_header)
  have len: "length (archive_bytes (e # es)) = ?k + length (archive_bytes es)" using ok(2) by simp
  have b: "unat ptr + ?k + length (archive_bytes es) < 2 ^ 32" using Cons.prems(3) len by linarith
  have n32: "?n < 2 ^ 32" "?n + 512 < 2 ^ 32" using b by linarith+
  have lt: "ptr < ptr + of_nat (length (archive_bytes (e # es)))"
    using b len unat_add_of_nat [of ptr "length (archive_bytes (e # es))"] by (simp add: word_less_nat_alt)
  have r: "reads s ptr (ustar_header e)" "reads s (ptr + 512) (a_data e)" "reads s (ptr + of_nat ?k) (archive_bytes es)"
    using Cons.prems(1) ok(2) by (simp_all add: reads_append add.assoc)
  have "archive_at s (ptr + of_nat ?k + of_nat (length (archive_bytes es))) (ptr + of_nat ?k) es"
    using r(3) Cons.prems(2) b unat_add_of_nat [of ptr ?k] by (intro Cons.IH) auto
  then have "archive_at s (ptr + of_nat (length (archive_bytes (e # es)))) (next_header ptr e) es"
    unfolding len next_header_eq [OF n32(2)] by (simp add: add.assoc)
  then show ?case using lt r(1,2) ustar_header_of [OF ok(1) n32(1)] by auto
qed

subsection \<open>Files of a mounted archive\<close>

definition header_addr :: "u32 \<Rightarrow> entry list \<Rightarrow> nat \<Rightarrow> u32" where
  "header_addr ptr es i = foldl next_header ptr (take i es)"

lemma nodes_of_nth: "i < length es \<Longrightarrow> nodes_of ptr es ! i = node_of (header_addr ptr es i) (es ! i)"
proof (induction es arbitrary: ptr i)
  case (Cons e es)
  then show ?case by (cases i) (simp_all add: header_addr_def)
qed simp

lemma archive_data: "archive_at s limit ptr es \<Longrightarrow> i < length es \<Longrightarrow> reads s (header_addr ptr es i + 512) (a_data (es ! i))"
proof (induction es arbitrary: ptr i)
  case (Cons e es)
  then show ?case by (cases i) (simp_all add: header_addr_def)
qed simp

lemma node_of_simps [simp]:
  "fs_length (node_of ptr e) = of_nat (length (a_data e))" "fs_impl (node_of ptr e) = ptr + 512"
  "fs_read (node_of ptr e) = Some Tar_read" "fs_finddir (node_of ptr e) = (if is_dir e then Some Tar_finddir else None)"
  "fs_flags (node_of ptr e) = (if is_dir e then FS_DIRECTORY else FS_FILE)"
  by (simp_all add: node_of_def)

lemma node_of_name:
  assumes "0 \<notin> set (clean_name (a_name e))" "length (clean_name (a_name e)) < 128"
  shows "text_of (fs_name (node_of ptr e)) = clean_name (a_name e)" "terminated (fs_name (node_of ptr e))"
proof -
  let ?n = "clean_name (a_name e)"
  have "replicate (128 - length ?n) (0 :: u8) = 0 # replicate (127 - length ?n) 0"
    using assms(2) by (simp add: replicate_Suc [symmetric] Suc_diff_le del: replicate_Suc)
  then have "fs_name (node_of ptr e) = ?n @ 0 # replicate (127 - length ?n) 0" by (simp add: node_of_def)
  then show "text_of (fs_name (node_of ptr e)) = ?n" "terminated (fs_name (node_of ptr e))" using assms(1) by simp_all
qed

text \<open>Entries whose name is not just a slash.\<close>

definition names_ok :: "entry list \<Rightarrow> bool" where
  "names_ok es \<longleftrightarrow> (\<forall>e \<in> set es. entry_ok e \<and> clean_name (a_name e) \<noteq> [47])"

lemma entry_ok_clean: "entry_ok e \<Longrightarrow> 0 \<notin> set (clean_name (a_name e)) \<and> length (clean_name (a_name e)) < 128"
  by (auto simp: entry_ok_def clean_name_def dest: in_set_dropD)

lemma names_ok_nth: "names_ok es \<Longrightarrow> i < length es \<Longrightarrow> entry_ok (es ! i) \<and> clean_name (a_name (es ! i)) \<noteq> [47]"
  by (simp add: names_ok_def)

lemma mounted_node:
  assumes "mounted s address es t" "i < length es"
  shows "tar_nodes t ! i = node_of (header_addr address es i) (es ! i)"
proof -
  have "tar_nodes t ! i = take (length es) (tar_nodes t) ! i" using assms(2) by simp
  also have "\<dots> = nodes_of address es ! i" using assms(1) by (simp add: mounted_def)
  finally show ?thesis using assms(2) by (simp add: nodes_of_nth)
qed

lemma mounted_wf:
  assumes "mounted s address es t" "names_ok es"
  shows "tar_wf t"
proof -
  have "length es \<le> length (tar_nodes t)" "tar_file_count t = length es"
    using assms(1) unfolding mounted_def by (metis length_nodes_of length_take min.cobounded1, simp)
  then show ?thesis
    using mounted_node [OF assms(1)] names_ok_nth [OF assms(2)] entry_ok_clean
    by (simp add: tar_wf_def node_of_name)
qed

lemma mounted_entry:
  assumes "mounted s address es t" "names_ok es" "i < length es"
  shows "fst (table t ! i) = i" "text_of (snd (table t ! i)) = clean_name (a_name (es ! i))"
proof -
  have "tar_file_count t = length es" using assms(1) by (simp add: mounted_def)
  then have "table t ! i = (i, fs_name (node_of (header_addr address es i) (es ! i)))"
    using table_nth [OF mounted_wf [OF assms(1,2)]] assms(3) by (simp add: mounted_node [OF assms(1,3)])
  then show "fst (table t ! i) = i" "text_of (snd (table t ! i)) = clean_name (a_name (es ! i))"
    using names_ok_nth [OF assms(2,3)] entry_ok_clean [of "es ! i"] by (simp_all add: node_of_name)
qed

text \<open>A name that the root directory shows: the first entry with it is found.\<close>

lemma mounted_find:
  assumes m: "mounted s address es t" and ok: "names_ok es" and i: "i < length es"
    and name: "strip (clean_name (a_name (es ! i))) = name" "plain (clean_name (a_name (es ! i)))" "name \<noteq> []" "length name \<le> 127"
    and first: "\<forall>j < i. strip (clean_name (a_name (es ! j))) \<noteq> name"
  shows "find_node_by_path call_finddir (47 # name @ [0]) t = Some (Some (Tar_node i))"
proof -
  let ?c = "\<lambda>j. clean_name (a_name (es ! j))"
  have wf: "tar_wf t" by (rule mounted_wf [OF m ok])
  have len: "length (table t) = length es" using length_table [OF wf] m by (simp add: mounted_def)
  have root: "fs_root t = Some Tar_root" "searchable t Tar_root"
    using m by (simp_all add: mounted_def searchable_def node_at_def tar_root_node_def)
  have dt: "dir_text t Tar_root = []" by (simp add: dir_text_def dir_prefix_def)
  have nul: "0 \<notin> set name" using name(1) names_ok_nth [OF ok i] entry_ok_clean [of "es ! i"]
    by (auto simp: strip_def split: if_splits dest: in_set_butlastD)
  have sl: "47 \<notin> set name"
  proof (cases "?c i \<noteq> [] \<and> last (?c i) = 47")
    case False
    then have eq: "name = ?c i" using name(1) by (auto simp: strip_def)
    then have "name = butlast name @ [last name]" "last name \<noteq> 47" using name(3) False by auto
    moreover have "47 \<notin> set (butlast name)" using name(2) eq by (simp add: plain_def)
    ultimately show ?thesis by (metis Un_iff empty_iff insert_iff list.set(1) list.simps(15) set_append)
  qed (use name(1,2) in \<open>simp add: strip_def plain_def\<close>)
  have hit: "in_dir [] (table t ! i) \<and> rel_name [] (text_of (snd (table t ! i))) = name"
    using mounted_entry [OF m ok i] name by (auto simp: in_dir_def entry_of_def rel_name_def strip_def)
  have miss: "\<not> (in_dir [] (table t ! j) \<and> rel_name [] (text_of (snd (table t ! j))) = name)" if "j < i" for j
    using mounted_entry [OF m ok, of j] first that i by (auto simp: rel_name_def)
  have "List.find (\<lambda>e. in_dir [] e \<and> rel_name [] (text_of (snd e)) = name) (table t) = Some (table t ! i)"
    unfolding find_Some_iff using hit miss i len by (intro exI [of _ i]) auto
  then have child: "tar_child t Tar_root name = Some (Tar_node i)"
    using mounted_entry [OF m ok i] by (simp add: tar_child_def dt)
  have comp: "components [] name = [name]" using components_last [OF sl, of "[]"] name(3) by simp
  have "find_node_by_path call_finddir (47 # name @ [0]) t =
      Some (follow (searchable t) (tar_child t) (fs_root t) (components [] name))"
    using nul comp name(4) by (intro tar.find_follow [OF wf]) (auto simp: root tar_valid_def)
  then show ?thesis by (simp add: comp root child)
qed

text \<open>The bytes at \<open>a\<close> are mapped outside \<open>P\<close>, and stay so when \<open>P\<close> is written.\<close>

definition undisturbed :: "'a machine_scheme \<Rightarrow> u32 set \<Rightarrow> u32 \<Rightarrow> nat \<Rightarrow> bool" where
  "undisturbed s P a n \<longleftrightarrow> (\<forall>i < n. \<exists>q. q \<notin> P \<and> stays s P (a + of_nat i) q)"

lemma mounted_holds_data:
  assumes "mounted s address es t" "i < length es" "archive_at s limit address es" "length (a_data (es ! i)) < 2 ^ 32"
    "undisturbed s P (header_addr address es i + 512) (length (a_data (es ! i)))"
  shows "holds_data t (node_at (Tar_node i) t) P (a_data (es ! i))"
proof -
  let ?a = "header_addr address es i + 512"
  have sys: "mem t = mem s" "cr0 t = cr0 s" "cr3 t = cr3 s"
    using assms(1) same_system_fields(1-3) unfolding mounted_def by blast+
  have "\<exists>q. q \<notin> P \<and> stays t P (?a + of_nat j) q \<and> mem t q = a_data (es ! i) ! j" if j: "j < length (a_data (es ! i))" for j
  proof -
    obtain q where q: "q \<notin> P" "stays s P (?a + of_nat j) q" using assms(5) j unfolding undisturbed_def by blast
    have "load8 (?a + of_nat j) s = Ret (a_data (es ! i) ! j) s"
      using archive_data [OF assms(3,2)] j by (simp add: reads_def)
    then have "mem s q = a_data (es ! i) ! j" using stays_now [OF q(2)] by (simp add: load8_def)
    with q show ?thesis using stays_cong [OF sys] sys(1) by (intro exI [of _ q]) simp
  qed
  then show ?thesis
    using assms(4) by (simp add: holds_data_def node_at_def mounted_node [OF assms(1,2)])
qed

subsection \<open>Listing a directory\<close>

lemma strip_buffer:
  assumes "terminated rel" "n = length (text_of rel)"
  shows "(if n > 0 \<and> rel ! (n - 1) = 47 then n - 1 else n) = length (strip (text_of rel))"
    "take (length (strip (text_of rel))) rel = strip (text_of rel)"
proof -
  show "(if n > 0 \<and> rel ! (n - 1) = 47 then n - 1 else n) = length (strip (text_of rel))"
    using text_of_nth [of "n - 1" rel] assms(2) by (auto simp: strip_length(1) last_conv_nth)
  obtain r where "rel = text_of rel @ 0 # r" using terminated_text_ofD [OF assms(1)] by blast
  then have "take (length (strip (text_of rel))) rel = take (length (strip (text_of rel))) (text_of rel)"
    by (metis append_Nil2 append_same_eq diff_is_0_eq length_take linorder_le_cases min.cobounded1 strip_length(2) take0 take_all_iff take_append)
  then show "take (length (strip (text_of rel))) rel = strip (text_of rel)" using strip_length(2) by metis
qed

lemma text_of_upto: "0 \<notin> set xs \<Longrightarrow> length xs < length bs \<Longrightarrow>
  text_of ((xs @ drop (length xs) bs)[length xs := 0]) = xs \<and> terminated ((xs @ drop (length xs) bs)[length xs := 0])"
  by (cases "drop (length xs) bs") auto

text \<open>The directory entry the buffer holds after entry \<open>e\<close> of directory \<open>d\<close> was found.\<close>

definition dirent_for :: "u8 list \<Rightarrow> nat \<times> u8 list \<Rightarrow> dirent \<Rightarrow> bool" where
  "dirent_for d e de \<longleftrightarrow> terminated (d_name de) \<and> text_of (d_name de) = rel_name d (text_of (snd e)) \<and>
     d_ino de = of_nat (fst e) \<and> length (d_name de) = 128"

definition buffers_ok :: "'a fs_scheme \<Rightarrow> bool" where
  "buffers_ok s \<longleftrightarrow> length (d_name (dirent_buf s)) = 128 \<and> (\<forall>i < tar_file_count s. length (fs_name (tar_nodes s ! i)) = 128)"

lemma tar_readdir_hit:
  assumes wf: "tar_wf s" "tar_valid s n" "buffers_ok s" and e: "e \<in> set (table s)" "in_dir (dir_text s n) e"
    and hit: "readdir_loop (dir_prefix n s) (unat index) 0 (table s) = Some (Some e)"
  shows "\<exists>de. tar_readdir n index s = Some (Some de, s\<lparr>dirent_buf := de\<rparr>) \<and> dirent_for (dir_text s n) e de"
proof -
  obtain i name where ie: "e = (i, name)" by (cases e)
  have t: "terminated name" using table_entries(2) [OF wf(1) e(1)] ie by simp
  obtain k where "k < tar_file_count s" "e = table s ! k" using e(1) length_table [OF wf(1)] by (metis in_set_conv_nth)
  then have l128: "length name = 128" using table_nth [OF wf(1)] wf(3) ie by (simp add: buffers_ok_def)
  let ?d = "dir_text s n"
  have d: "terminated (dir_prefix n s)" "?d \<noteq> [47]" using dir_prefix_terminated [OF wf(1,2)] .
  have le: "length ?d \<le> length (text_of name)"
    using e(2) d(2) ie by (auto simp: in_dir_def entry_of_def) (metis length_take min.cobounded1 min.commute)
  define rel where "rel = drop (length ?d) name"
  have rel: "terminated rel" "text_of rel = drop (length ?d) (text_of name)"
    unfolding rel_def by (rule terminated_drop [OF t le], rule text_of_drop [OF le])
  have rn: "strip (text_of rel) = rel_name ?d (text_of name)" by (simp add: rel rel_name_def)
  let ?r = "rel_name ?d (text_of name)"
  obtain r where "name = text_of name @ 0 # r" using terminated_text_ofD [OF t] by blast
  then have "length (text_of name) < 128" using l128 by (metis add_Suc_right length_Cons length_append less_add_Suc1)
  then have short: "length ?r < 128" unfolding rn [symmetric] strip_length(1) rel(2) by auto
  have nul: "0 \<notin> set ?r"
    using text_of_nul_free [of name] by (auto simp: rel_name_def strip_def split: if_splits dest: in_set_dropD in_set_butlastD)
  note b = strip_buffer [OF rel(1) refl, unfolded rn]
  let ?de = "\<lparr>d_name = (?r @ drop (length ?r) (d_name (dirent_buf s)))[length ?r := 0], d_ino = of_nat i\<rparr>"
  have "strlen (dir_prefix n s) = Some (length ?d)" using d(1) by (simp add: strlen_eq dir_text_def)
  moreover have "strlen rel = Some (length (text_of rel))" using rel(1) by (simp add: strlen_eq)
  ultimately have "tar_readdir n index s = Some (Some ?de, s\<lparr>dirent_buf := ?de\<rparr>)"
    using hit b short by (simp add: tar_readdir_def ie rel_def [symmetric] Let_def)
  moreover have "dirent_for ?d e ?de"
    using text_of_upto [of ?r "d_name (dirent_buf s)"] nul short wf(3) by (simp add: dirent_for_def ie buffers_ok_def)
  ultimately show ?thesis by blast
qed

lemma tar_readdir_eq:
  fixes s :: "'a fs_scheme" and n index
  defines "xs \<equiv> filter (in_dir (dir_text s n)) (table s)"
  assumes wf: "tar_wf s" "tar_valid s n" "buffers_ok s"
  shows "unat index < length xs \<Longrightarrow> \<exists>de. tar_readdir n index s = Some (Some de, s\<lparr>dirent_buf := de\<rparr>) \<and>
      dirent_for (dir_text s n) (xs ! unat index) de"
    and "length xs \<le> unat index \<Longrightarrow> tar_readdir n index s = Some (None, s)"
proof -
  have r: "readdir_loop (dir_prefix n s) (unat index) 0 (table s) = Some (if unat index < length xs then Some (xs ! unat index) else None)"
    using readdir_loop_eq [OF dir_prefix_terminated(1) [OF wf(1,2)], of "table s" 0 "unat index"] table_entries(2) [OF wf(1)]
    by (auto simp: xs_def dir_text_def Let_def)
  show "\<exists>de. tar_readdir n index s = Some (Some de, s\<lparr>dirent_buf := de\<rparr>) \<and> dirent_for (dir_text s n) (xs ! unat index) de"
    if "unat index < length xs"
  proof -
    have "xs ! unat index \<in> set xs" using that by simp
    then have "xs ! unat index \<in> set (table s)" "in_dir (dir_text s n) (xs ! unat index)" by (auto simp: xs_def)
    then show ?thesis using r that by (intro tar_readdir_hit [OF wf]) simp_all
  qed
  show "tar_readdir n index s = Some (None, s)" if "length xs \<le> unat index"
    using r that by (simp add: tar_readdir_def)
qed

text \<open>A listed name is found again.\<close>

lemma listed_found:
  assumes "tar_wf s" "tar_valid s n" "e \<in> set (table s)" "in_dir (dir_text s n) e" "dirent_for (dir_text s n) e de"
  shows "\<exists>i. tar_finddir n (d_name de) s = Some (Some (Tar_node i)) \<and> i < tar_file_count s \<and>
    rel_name (dir_text s n) (text_of (fs_name (tar_nodes s ! i))) = text_of (d_name de)"
proof -
  let ?P = "\<lambda>x. in_dir (dir_text s n) x \<and> rel_name (dir_text s n) (text_of (snd x)) = text_of (d_name de)"
  have "?P e" using assms(4,5) by (simp add: dirent_for_def)
  then have "List.find ?P (table s) \<noteq> None" using find_None_iff [of ?P "table s"] assms(3) by blast
  then obtain f where f: "List.find ?P (table s) = Some f" by blast
  then have "f \<in> set (table s)" "?P f" by (auto simp: find_Some_iff)
  moreover then have "snd f = fs_name (tar_nodes s ! fst f)"
    using table_nth [OF assms(1)] length_table [OF assms(1)] by (auto simp: in_set_conv_nth)
  ultimately show ?thesis
    using f table_entries(1) [OF assms(1)] tar_finddir_child [OF assms(1,2), of "d_name de"] assms(5)
    by (auto simp: dirent_for_def tar_child_def)
qed

subsection \<open>Headers that make the scan stand still\<close>

lemma tar_step_repeats:
  assumes "ptr < limit" "length hdr = 512" "reads s ptr hdr" "terminated hdr" "hdr ! 0 \<noteq> 0" "length (clean_name (text_of hdr)) < 128"
    "terminated (hdr_magic hdr)" "get_octal (hdr_size hdr) 11 = Some sz" "512 + ((sz + 511) AND 0xFFFFFE00) = 0"
  shows "\<exists>t. tar_step limit ptr s = Inl (ptr, t) \<and> same_system s t"
proof -
  have "text_of hdr \<noteq> []" using assms(2,5) by (cases hdr) auto
  then have raw: "text_of (raw_name hdr) = clean_name (text_of hdr)" "terminated (raw_name hdr)"
    using raw_name_text [OF assms(4)] by simp_all
  have "strcpy (fs_name node_zero) (raw_name hdr) \<noteq> None" using raw assms(6) by (simp add: strcpy_eq node_zero_def)
  then obtain nd where nd: "tar_make_node ptr hdr sz = Some nd"
    using assms(4) by (auto simp: tar_make_node_def strlen_eq Let_def)
  have ld: "load_bytes ptr 512 s = Ret hdr s" using load_bytes_reads [OF assms(3)] assms(2) by simp
  let ?u = "tar_debug hdr s"
  have "tar_step limit ptr s = Inl (ptr, if tar_file_count s < 128 then tar_add_node nd ?u else ?u)"
    using assms(1,5,7-9) ld nd by (simp add: tar_step_def Let_def)
  moreover have "same_system s (if tar_file_count s < 128 then tar_add_node nd ?u else ?u)"
    using same_system_trans [OF tar_debug_fields(3) [of s hdr] tar_add_node_fields(3) [of ?u nd]] by simp
  ultimately show ?thesis by blast
qed

lemma tar_run_repeats:
  fixes s :: "'a fs_scheme"
  assumes "\<And>u. same_system s u \<Longrightarrow> \<exists>t. tar_step limit ptr u = Inl (ptr, t) \<and> same_system u t"
  shows "tar_run limit (ptr, s) = None"
proof -
  let ?c = "\<lambda>st :: u32 \<times> 'a fs_scheme + (unit, 'a fs_scheme) outcome. case projl st of (ptr, s) \<Rightarrow> tar_step limit ptr s"
  have inv: "\<exists>u. (?c ^^ k) (Inl (ptr, s)) = Inl (ptr, u) \<and> same_system s u" for k
  proof (induction k)
    case (Suc k)
    then obtain u where u: "(?c ^^ k) (Inl (ptr, s)) = Inl (ptr, u)" "same_system s u" by blast
    obtain t where "tar_step limit ptr u = Inl (ptr, t)" "same_system u t" using assms [OF u(2)] by blast
    with u show ?case using same_system_trans [OF u(2)] by auto
  qed simp
  then have "\<forall>k. isl ((?c ^^ k) (Inl (ptr, s)))" by (metis sum.disc(1))
  then show ?thesis unfolding tar_run_def while_option_def by simp
qed

lemma tar_init_endless:
  assumes "address < address + len" "length hdr = 512" "reads s address hdr" "terminated hdr" "hdr ! 0 \<noteq> 0"
    "length (clean_name (text_of hdr)) < 128" "terminated (hdr_magic hdr)" "get_octal (hdr_size hdr) 11 = Some sz"
    "0xFFFFFC00 < unat sz" "unat sz \<le> 0xFFFFFE00"
  shows "\<exists>t. tar_init address len s = Hang t"
proof -
  have "unat (sz + 511) = unat sz + 511" using assms(10) by (simp add: unat_word_ariths)
  moreover have "(unat sz + 511) div 512 = 8388607"
    using assms(9,10) by (intro div_nat_eqI) simp_all
  ultimately have "unat ((sz + 511) AND 0xFFFFFE00) = 0xFFFFFE00" by (simp add: unat_mask512)
  then have "(sz + 511) AND 0xFFFFFE00 = 0xFFFFFE00" by (simp add: word_unat_eq_iff)
  then have z: "512 + ((sz + 511) AND 0xFFFFFE00) = 0" by simp
  define s1 where "s1 = print (puts ''...\<newline>'') (print (terminal_writehex address)
    (print (puts ''[TAR] Initializing RAM disk filesystem at address '') (s\<lparr>tar_file_count := 0\<rparr>)))"
  have sys: "same_system s s1"
    unfolding s1_def by (intro same_system_trans [OF _ same_system_updates(1)] same_system_updates)
  have "\<exists>t. tar_step (address + len) address u = Inl (address, t) \<and> same_system u t" if "same_system s1 u" for u
  proof -
    have "reads u address hdr"
      using assms(3) reads_cong [OF same_system_fields(1-3) [OF same_system_trans [OF sys that]]] by simp
    then show ?thesis using assms z by (intro tar_step_repeats)
  qed
  then have "tar_loop (address + len) address s1 = Hang s1" using tar_run_repeats [of s1] by (simp add: tar_loop_run)
  then show ?thesis unfolding tar_init_def Let_def s1_def [symmetric] by simp
qed

subsection \<open>A small archive\<close>

lemma archive_entry_length: "i < length es \<Longrightarrow> length (a_data (es ! i)) \<le> length (archive_bytes es)"
proof (induction es arbitrary: i)
  case (Cons e es)
  then show ?case by (cases i) (auto intro: le_trans [OF Cons.IH])
qed simp

definition hello_file :: entry where
  "hello_file = \<lparr>a_name = [46, 47, 104, 105], a_type = 48, a_data = [72, 105]\<rparr>"

definition image :: "u8 list \<Rightarrow> fs" where
  "image bs = small_fs\<lparr>mem := (\<lambda>a. if unat a < length bs then bs ! unat a else 0)\<rparr>"

lemma image_off: "\<not> paging_on (image bs)"
  by (simp add: image_def small_fs_def paging_on_def)

lemma image_reads: "length bs < 2 ^ 32 \<Longrightarrow> reads (image bs) 0 bs"
  using image_off [of bs] by (auto simp: reads_def load8_def translate_off image_def unat_of_nat take_bit_eq_mod)

definition hello_disk :: fs where
  "hello_disk = image (archive_bytes [hello_file])"

lemma hello_facts: "length (archive_bytes [hello_file]) = 2048" "names_ok [hello_file]" "length (tar_nodes hello_disk) = 128"
  "clean_name (a_name hello_file) = [104, 105]" "\<not> is_dir hello_file"
proof -
  have "length (ustar_header hello_file) = 512" by (rule length_ustar_header) (simp add: hello_file_def)
  then show "length (archive_bytes [hello_file]) = 2048" by (simp add: hello_file_def padding_def)
qed (simp_all add: names_ok_def entry_ok_def hello_file_def clean_name_def hello_disk_def image_def small_fs_def is_dir_def)

lemma hello_reads: "reads hello_disk 0 (archive_bytes [hello_file])" "\<not> paging_on hello_disk"
  unfolding hello_disk_def by (rule image_reads) (simp_all only: hello_facts image_off, simp_all)

lemma hello_archive: "archive_at hello_disk 2048 0 [hello_file]"
  using archive_bytes_at [OF hello_reads(1), unfolded hello_facts(1)] hello_facts(2) by (simp add: names_ok_def)

subsection \<open>Properties of the RAM disk\<close>









text \<open>
  C39 The scan of \<^verbatim>\<open>tar_init\<close> need not end: a header whose size field denotes a number from
  \<^verbatim>\<open>0xFFFFFC01\<close> to \<^verbatim>\<open>0xFFFFFE00\<close> makes the step to the next header 0 in 32 bits, so the same header is
  visited forever and \<^verbatim>\<open>tar_init\<close> does not return.
\<close>

theorem oversized_entry_hangs_mount:
  assumes "address < address + len" "length hdr = 512" "reads s address hdr" "terminated hdr" "hdr ! 0 \<noteq> 0"
    and "length (clean_name (text_of hdr)) < 128" "terminated (hdr_magic hdr)"
    and "take 11 (hdr_size hdr) = octal 11 k" "0xFFFFFC00 < k" "k \<le> 0xFFFFFE00"
  shows "\<exists>t. tar_init address len s = Hang t"
proof -
  have "hdr_size hdr = octal 11 k @ drop 11 (hdr_size hdr)" using assms(8) append_take_drop_id [of 11 "hdr_size hdr"] by simp
  then have "get_octal (hdr_size hdr) 11 = Some (of_nat (k mod 8 ^ 11))" using get_octal_octal by metis
  then have sz: "get_octal (hdr_size hdr) 11 = Some (of_nat k)" using assms(10) by simp
  have u: "unat (of_nat k :: u32) = k" using assms(10) by (simp add: unat_of_nat take_bit_eq_mod)
  show ?thesis
    by (rule tar_init_endless [OF assms(1-7) sz]) (use assms(9,10) u in simp_all)
qed

definition bad_header :: "u8 list" where
  "bad_header = 97 # replicate 123 0 @ octal 11 0xFFFFFE00 @ replicate 377 0"

theorem oversized_entry_hangs_mount_witness: "\<exists>t. tar_init 0 1024 (image bad_header) = Hang t"
proof -
  have l: "length bad_header = 512" by (simp add: bad_header_def)
  have "hdr_size bad_header = octal 11 0xFFFFFE00 @ replicate 377 0" by (simp add: bad_header_def hdr_size_def drop_Cons')
  moreover have "terminated (hdr_magic bad_header)" by (simp add: bad_header_def hdr_magic_def terminated_def drop_Cons' del: octal.simps)
  moreover have "replicate 123 (0 :: u8) = 0 # replicate 122 0" by (simp add: numeral_eq_Suc)
  moreover from this have "text_of bad_header = [97]" by (simp add: bad_header_def del: octal.simps)
  moreover have "terminated bad_header" "bad_header ! 0 \<noteq> 0"
    by (simp_all add: bad_header_def terminated_def del: octal.simps)
  moreover have "reads (image bad_header) 0 bad_header" by (rule image_reads) (simp add: l)
  ultimately show ?thesis
    using l by (intro oversized_entry_hangs_mount [of 0 1024 bad_header _ "0xFFFFFE00"]) (simp_all add: clean_name_def del: octal.simps)
qed

text \<open>
  \<^verbatim>\<open>tar_read\<close> adds offset and length in 32 bits: when the sum wraps around to at most the length
  of the file, the request is not cut at the end of the file, and as many bytes as requested
  are copied, also from behind the file.
\<close>

theorem tar_read_wraps:
  assumes "unat off < unat (fs_length (node_at r s))" "2 ^ 32 \<le> unat off + unat n"
    and "unat off + unat n \<le> 2 ^ 32 + unat (fs_length (node_at r s))"
  shows "tar_read r off n buffer s = obind (memcpy buffer (fs_impl (node_at r s) + off) n s) (\<lambda>_ t. Ret n t) \<and>
    unat (fs_length (node_at r s)) < unat off + unat n"
proof -
  have "unat (off + n) = unat off + unat n - 2 ^ 32"
    using assms(2) unsigned_less [of off, where 'a = nat] unsigned_less [of n, where 'a = nat]
    by (simp add: unat_word_ariths mod_nat_eqI)
  then have "\<not> off + n > fs_length (node_at r s)" using assms(3) by (simp add: word_less_nat_alt)
  moreover have "\<not> off \<ge> fs_length (node_at r s)" using assms(1) by (simp add: word_le_nat_alt)
  ultimately show ?thesis
    using assms(2) unsigned_less [of "fs_length (node_at r s)", where 'a = nat] by (simp add: tar_read_def)
qed

theorem tar_read_wraps_witness:
  "tar_read Tar_root 8 0xFFFFFFF8 0 (small_fs\<lparr>tar_root := node_zero\<lparr>fs_length := 16\<rparr>\<rparr>) =
     obind (memcpy 0 8 0xFFFFFFF8 (small_fs\<lparr>tar_root := node_zero\<lparr>fs_length := 16\<rparr>\<rparr>)) (\<lambda>_ t. Ret 0xFFFFFFF8 t)"
  using tar_read_wraps [of 8 Tar_root "small_fs\<lparr>tar_root := node_zero\<lparr>fs_length := 16\<rparr>\<rparr>" "0xFFFFFFF8" 0]
  by (simp add: node_at_def node_zero_def)

end
