(* ===== verification/Elf.thy ===== *)
theory Elf
  imports Tar
begin

text \<open>
  The program loader, \<^verbatim>\<open>src/elf.h\<close> and \<^verbatim>\<open>src/elf.c\<close>. The two headers are local variables: where the
  stack has them are parameters, \<^verbatim>\<open>read_fs\<close> writes their bytes into memory, and the records are
  what these bytes say. The segment loop is \<open>map_segment\<close>, the loop over the program headers
  \<open>load_headers\<close>; both end early when something fails. The result is \<open>None\<close> for -1, otherwise the
  entry point and the new page directory.
\<close>

abbreviation (input) ELF_MAGIC :: u32 where "ELF_MAGIC \<equiv> 0x464C457F"
abbreviation (input) PT_LOAD :: u32 where "PT_LOAD \<equiv> 1"
abbreviation (input) MAX_SEGMENT_BLOCKS :: nat where "MAX_SEGMENT_BLOCKS \<equiv> 64"

record Elf32_Ehdr =
  e_ident :: "u8 list"
  e_type :: u16
  e_machine :: u16
  e_version :: u32
  e_entry :: u32
  e_phoff :: u32
  e_shoff :: u32
  e_flags :: u32
  e_ehsize :: u16
  e_phentsize :: u16
  e_phnum :: u16
  e_shentsize :: u16
  e_shnum :: u16
  e_shstrndx :: u16

record Elf32_Phdr =
  p_type :: u32
  p_offset :: u32
  p_vaddr :: u32
  p_paddr :: u32
  p_filesz :: u32
  p_memsz :: u32
  p_flags :: u32
  p_align :: u32

text \<open>Little-endian fields of a structure in memory.\<close>

definition le16 :: "u8 list \<Rightarrow> nat \<Rightarrow> u16" where
  "le16 bs k = ucast (bs ! k) OR push_bit 8 (ucast (bs ! (k + 1)))"

definition le32 :: "u8 list \<Rightarrow> nat \<Rightarrow> u32" where
  "le32 bs k = ucast (bs ! k) OR push_bit 8 (ucast (bs ! (k + 1))) OR push_bit 16 (ucast (bs ! (k + 2)))
     OR push_bit 24 (ucast (bs ! (k + 3)))"

definition decode_ehdr :: "u8 list \<Rightarrow> Elf32_Ehdr" where
  "decode_ehdr bs = \<lparr>e_ident = take 16 bs, e_type = le16 bs 16, e_machine = le16 bs 18, e_version = le32 bs 20,
     e_entry = le32 bs 24, e_phoff = le32 bs 28, e_shoff = le32 bs 32, e_flags = le32 bs 36, e_ehsize = le16 bs 40,
     e_phentsize = le16 bs 42, e_phnum = le16 bs 44, e_shentsize = le16 bs 46, e_shnum = le16 bs 48, e_shstrndx = le16 bs 50\<rparr>"

definition decode_phdr :: "u8 list \<Rightarrow> Elf32_Phdr" where
  "decode_phdr bs = \<lparr>p_type = le32 bs 0, p_offset = le32 bs 4, p_vaddr = le32 bs 8, p_paddr = le32 bs 12,
     p_filesz = le32 bs 16, p_memsz = le32 bs 20, p_flags = le32 bs 24, p_align = le32 bs 28\<rparr>"

text \<open>\<^verbatim>\<open>current_page_directory = pd\<close> and the move to \<^verbatim>\<open>cr3\<close>.\<close>

definition switch_directory :: "u32 \<Rightarrow> 'a sys_scheme \<Rightarrow> 'a sys_scheme" where
  "switch_directory pd s = write_cr3 pd (s\<lparr>current_page_directory := pd\<rparr>)"

text \<open>
  The pages of a segment. Both bounds are multiples of the page size, so the counter reaches
  the end without wrapping around.
\<close>

definition segment_pages :: "Elf32_Phdr \<Rightarrow> u32 list" where
  "segment_pages phdr =
     (let start_vaddr = p_vaddr phdr;
          end_vaddr = start_vaddr + p_memsz phdr;
          page_aligned_start = start_vaddr AND 0xFFFFF000;
          page_aligned_end = (end_vaddr + 4095) AND 0xFFFFF000
      in map (\<lambda>i. page_aligned_start + of_nat i * PMM_BLOCK_SIZE)
           [0..<(unat page_aligned_end - unat page_aligned_start) div 4096])"

text \<open>The blocks tracked so far, and whether all pages were mapped.\<close>

fun map_segment :: "u32 list \<Rightarrow> u32 list \<Rightarrow> 'a sys_scheme \<Rightarrow> (u32 list \<times> bool, 'a sys_scheme) outcome" where
  "map_segment [] seg_blocks s = Ret (seg_blocks, True) s"
| "map_segment (vaddr # vaddrs) seg_blocks s =
     (let (phys, s) = alloc_block s in
      if phys = 0 then Ret (seg_blocks, False) (print (puts ''[ELF] Error: Out of physical memory for segment\<newline>'') s)
      else
        (let seg_blocks = (if length seg_blocks < MAX_SEGMENT_BLOCKS then seg_blocks @ [phys] else seg_blocks)
         in obind (vmm_map_page phys vaddr (VMM_FLAG_PRESENT OR VMM_FLAG_WRITE OR VMM_FLAG_USER) s) (\<lambda>_ s.
            obind (memset vaddr 0 PMM_BLOCK_SIZE s) (\<lambda>_ s.
            map_segment vaddrs seg_blocks s))))"

definition load_segment ::
  "node_ref \<Rightarrow> Elf32_Phdr \<Rightarrow> u32 \<Rightarrow> u32 list \<Rightarrow> 'a fs_scheme \<Rightarrow> (u32 list \<times> bool, 'a fs_scheme) outcome" where
  "load_segment file phdr proc_pd seg_blocks s =
     (let old_pd = current_page_directory s;
          s = cli s;
          s = switch_directory proc_pd s
      in obind (map_segment (segment_pages phdr) seg_blocks s) (\<lambda>(seg_blocks, ok) s.
         if \<not> ok then Ret (seg_blocks, False) (sti (switch_directory old_pd s))
         else obind (read_fs call_read (Some file) (p_offset phdr) (p_filesz phdr) (p_vaddr phdr) s) (\<lambda>_ s.
           Ret (seg_blocks, True) (sti (switch_directory old_pd s)))))"

fun load_headers ::
  "node_ref \<Rightarrow> Elf32_Ehdr \<Rightarrow> u32 \<Rightarrow> u32 \<Rightarrow> nat list \<Rightarrow> u32 list \<Rightarrow> 'a fs_scheme \<Rightarrow> (u32 list \<times> bool, 'a fs_scheme) outcome" where
  "load_headers file ehdr phdr_addr proc_pd [] seg_blocks s = Ret (seg_blocks, True) s"
| "load_headers file ehdr phdr_addr proc_pd (i # is) seg_blocks s =
     (let offset = e_phoff ehdr + of_nat i * ucast (e_phentsize ehdr)
      in obind (read_fs call_read (Some file) offset 32 phdr_addr s) (\<lambda>n s.
         if n < 32 then Ret (seg_blocks, False) (print (puts ''[ELF] Error: Failed to read program header\<newline>'') s)
         else obind (load_bytes phdr_addr 32 s) (\<lambda>bs s.
           let phdr = decode_phdr bs in
           if p_type phdr = PT_LOAD then
             obind (load_segment file phdr proc_pd seg_blocks s) (\<lambda>(seg_blocks, ok) s.
               if \<not> ok then Ret (seg_blocks, False) s
               else load_headers file ehdr phdr_addr proc_pd is seg_blocks s)
           else load_headers file ehdr phdr_addr proc_pd is seg_blocks s)))"

definition elf_cleanup :: "u32 list \<Rightarrow> u32 \<Rightarrow> 'a sys_scheme \<Rightarrow> 'a sys_scheme" where
  "elf_cleanup seg_blocks proc_pd s =
     (let s = print (puts ''[ELF] Cleaning up allocated segment blocks after failure...\<newline>'') s;
          s = fold free_block seg_blocks s
      in free_block proc_pd s)"

definition elf_error :: "string \<Rightarrow> 'a sys_scheme \<Rightarrow> ((u32 \<times> u32) option, 'a sys_scheme) outcome" where
  "elf_error msg s = Ret None (print (puts msg) s)"

text \<open>The tests on the header, with the message of the first that fails.\<close>

definition elf_check :: "Elf32_Ehdr \<Rightarrow> string option" where
  "elf_check ehdr =
     (if le32 (e_ident ehdr) 0 \<noteq> ELF_MAGIC then Some ''[ELF] Error: Invalid ELF signature\<newline>''
      else if e_ident ehdr ! 4 \<noteq> 1 then Some ''[ELF] Error: Executable is not 32-bit\<newline>''
      else if e_machine ehdr \<noteq> 3 then Some ''[ELF] Error: Executable is not for x86 architecture\<newline>''
      else if e_type ehdr \<noteq> 2 then Some ''[ELF] Error: File is not an executable\<newline>''
      else None)"

text \<open>From the page directory of the new process on.\<close>

definition elf_build ::
  "node_ref \<Rightarrow> Elf32_Ehdr \<Rightarrow> u32 \<Rightarrow> 'a fs_scheme \<Rightarrow> ((u32 \<times> u32) option, 'a fs_scheme) outcome" where
  "elf_build file ehdr phdr_addr s =
     (let (proc_pd, s) = alloc_block s in
      if proc_pd = 0 then elf_error ''[ELF] Error: Failed to allocate Page Directory\<newline>'' s
      else obind (memcpy proc_pd (current_page_directory s) PMM_BLOCK_SIZE s) (\<lambda>_ s.
        obind (load_headers file ehdr phdr_addr proc_pd [0..<unat (e_phnum ehdr)] [] s) (\<lambda>(seg_blocks, ok) s.
        if ok then Ret (Some (e_entry ehdr, proc_pd)) s
        else Ret None (elf_cleanup seg_blocks proc_pd s))))"

definition elf_load :: "u8 list \<Rightarrow> u32 \<Rightarrow> u32 \<Rightarrow> 'a fs_scheme \<Rightarrow> ((u32 \<times> u32) option, 'a fs_scheme) outcome" where
  "elf_load path ehdr_addr phdr_addr s =
     (case find_node_by_path call_finddir path s of
        None \<Rightarrow> Trap 0 s
      | Some None \<Rightarrow>
          Ret None (print (puts ''\<newline>'') (print (terminal_writestring path)
            (print (puts ''[ELF] Error: Executable file not found: '') s)))
      | Some (Some file) \<Rightarrow>
          obind (read_fs call_read (Some file) 0 52 ehdr_addr s) (\<lambda>n s.
          if n < 52 then elf_error ''[ELF] Error: Failed to read ELF header\<newline>'' s
          else obind (load_bytes ehdr_addr 52 s) (\<lambda>bs s.
            let ehdr = decode_ehdr bs in
            case elf_check ehdr of
              Some msg \<Rightarrow> elf_error msg s
            | None \<Rightarrow> elf_build file ehdr phdr_addr s)))"

subsection \<open>Filling objects\<close>

lemma memset_object:
  assumes obj: "object_at s dest (unat n) p"
  shows "memset dest v n s = Ret dest (s\<lparr>mem := (\<lambda>a. if a \<in> p ` {..<unat n} then ucast v else mem s a)\<rparr>)"
proof -
  let ?P = "p ` {..<unat n}"
  let ?m = "\<lambda>k a. if a \<in> p ` {..<k} then ucast v else mem s a"
  have dst: "\<And>i. i < unat n \<Longrightarrow> stays s ?P (dest + of_nat i) (p i)" using obj by (auto simp: object_at_def)
  have "\<exists>t. foreach [0..<unat n] (\<lambda>i. store8 (dest + of_nat i) (ucast v)) s = Ret () t \<and> t = s\<lparr>mem := ?m (unat n)\<rparr>"
  proof (rule foreach_upt_rule [where P = "\<lambda>k t. t = s\<lparr>mem := ?m k\<rparr>"])
    fix i t assume i: "i < unat n" and t: "t = s\<lparr>mem := ?m i\<rparr>"
    have "translate t (dest + of_nat i) = Some (p i)"
      unfolding t by (rule staysD [OF dst [OF i]]) (use i in auto)
    moreover have "(?m i)(p i := ucast v) = ?m (Suc i)" by (auto simp: fun_eq_iff lessThan_Suc)
    ultimately show "\<exists>u. store8 (dest + of_nat i) (ucast v) t = Ret () u \<and> u = s\<lparr>mem := ?m (Suc i)\<rparr>"
      by (simp add: store8_def t)
  qed simp
  then show ?thesis by (simp add: memset_def)
qed

subsection \<open>Two directories\<close>

text \<open>
  While a program is loaded there are two directories: the active one of the new process and
  the one \<open>old\<close> it was copied from, which is not a frame of the new one and whose tables the
  new one shares. Everything RAM needs is in the shared tables.
\<close>

definition dual :: "u32 \<Rightarrow> 'a sys_scheme \<Rightarrow> bool" where
  "dual old s \<longleftrightarrow> vm_ok s \<and> paging_on s \<and> pd_wf (mem s) old (used_blocks s) \<and>
     \<not> walk_frame (mem s) (current_page_directory s) old \<and> \<not> walk_frame (mem s) old (current_page_directory s) \<and>
     (\<forall>i. unat i < 1024 \<and> pde_of (mem s) old i AND 1 \<noteq> 0 \<longrightarrow>
        pde_of (mem s) (current_page_directory s) i = pde_of (mem s) old i) \<and>
     (\<forall>a. unat a < ram_top s \<longrightarrow> pde_of (mem s) old (pdx a) AND 1 \<noteq> 0)"

lemma dualD:
  assumes "dual old s"
  shows "vm_ok s" "paging_on s" "pd_wf (mem s) old (used_blocks s)" "\<not> walk_frame (mem s) (current_page_directory s) old"
    "\<not> walk_frame (mem s) old (current_page_directory s)" "frame_aligned old" "block_of old \<in> used_blocks s"
    "\<And>i. unat i < 1024 \<Longrightarrow> pde_of (mem s) old i AND 1 \<noteq> 0 \<Longrightarrow> pde_of (mem s) (current_page_directory s) i = pde_of (mem s) old i"
    "\<And>a. unat a < ram_top s \<Longrightarrow> pde_of (mem s) old (pdx a) AND 1 \<noteq> 0"
  using assms by (auto simp: dual_def pd_wf_def)

lemma dual_walk: "dual old s \<Longrightarrow> pde_of (mem s) old (pdx a) AND 1 \<noteq> 0 \<Longrightarrow> page_walk (mem s) old a = vm_lookup s a"
  using dualD(8) [of old s "pdx a"] by (simp add: page_walk_def)

lemma dual_frames: "dual old s \<Longrightarrow> walk_frame (mem s) old f \<Longrightarrow> f = old \<or> walk_frame (mem s) (current_page_directory s) f"
  using dualD(8) [of old s] by (auto simp: walk_frame_def)

lemma switch_directory_simps [simp]:
  "mem (switch_directory pd s) = mem s" "cr0 (switch_directory pd s) = cr0 s" "cr3 (switch_directory pd s) = pd"
  "current_page_directory (switch_directory pd s) = pd" "pmm_st (switch_directory pd s) = pmm_st s"
  "tlb (switch_directory pd s) = (\<lambda>_. None)" "paging_on (switch_directory pd s) = paging_on s"
  "iflag (switch_directory pd s) = iflag s" "console (switch_directory pd s) = console s"
  by (simp_all add: switch_directory_def write_cr3_def paging_on_def)

lemma dual_back: "dual old s \<Longrightarrow> vm_ok (switch_directory old s)"
  using vm_okD(1,2,6) [of s] dualD [of old s] dual_walk [of old s]
  by (auto simp: vm_ok_def ram_window_def tlb_coherent_def)

text \<open>Writes outside all page tables.\<close>

lemma dual_data:
  assumes d: "dual old s" and m: "\<And>f a. walk_frame (mem s) (current_page_directory s) f \<or> f = old \<Longrightarrow> in_frame f a \<Longrightarrow> m a = mem s a"
  shows "dual old (s\<lparr>mem := m\<rparr>)" "\<And>b. page_walk m (current_page_directory s) b = vm_lookup s b"
    "\<And>f. walk_frame m (current_page_directory s) f = walk_frame (mem s) (current_page_directory s) f"
proof -
  let ?pd = "current_page_directory s"
  note dd = dualD [OF d]
  have al: "frame_aligned ?pd" by (rule vm_okD(4) [OF dd(1)])
  have same: "m a = mem s a" if "walk_frame (mem s) ?pd f" "in_frame f a" for f a using m that by blast
  have pde: "pde_of m ?pd i = pde_of (mem s) ?pd i" if "unat i < 1024" for i
    using al that same [of ?pd] by (intro rd32_entry_cong) (auto simp: walk_frame_def)
  have pdo: "pde_of m old i = pde_of (mem s) old i" if "unat i < 1024" for i
    using dd(6) that m by (intro rd32_entry_cong) auto
  show look: "page_walk m ?pd b = vm_lookup s b" for b using al same by (rule page_walk_same)
  show wf: "walk_frame m ?pd f = walk_frame (mem s) ?pd f" for f using pde by (auto simp: walk_frame_def)
  have wfo: "walk_frame m old f = walk_frame (mem s) old f" for f using pdo by (auto simp: walk_frame_def)
  have "pd_wf m ?pd (used_blocks s)" "pd_wf m old (used_blocks s)"
    using pd_wf_cong [OF vm_okD(3) [OF dd(1)] pde] pd_wf_cong [OF dd(3) pdo] by auto
  moreover from this have "vm_ok (s\<lparr>mem := m\<rparr>)"
    using dd(1) look by (simp add: vm_ok_def ram_window_def tlb_coherent_def)
  ultimately show "dual old (s\<lparr>mem := m\<rparr>)"
    using dd(2,4,5,8,9) pde pdo wf wfo by (auto simp: dual_def)
qed

lemma dual_alloc:
  assumes d: "dual old s" and al: "pmm_alloc_block (pmm_st s) = (f, q)" "f \<noteq> 0"
  shows "dual old (s\<lparr>pmm_st := q\<rparr>)"
proof -
  note fr = fresh_frame [OF dualD(1) [OF d] al]
  have "vm_ok (s\<lparr>pmm_st := q\<rparr>)" by (rule vm_ok_alloc [OF dualD(1) [OF d] al]) simp_all
  moreover have "pd_wf (mem s) old (blocks_in_use q)"
    by (rule pd_wf_mono [OF dualD(3) [OF d]]) (use fr(4) in auto)
  ultimately show ?thesis using dualD [OF d] fr(6) by (simp add: dual_def)
qed

lemma map_keeps_pdes:
  assumes ok: "vm_ok s" and run: "vmm_map_page phys va fl s = Ret () t" and tab: "has_table s j" and j: "unat j < 1024"
  shows "pde_of (mem t) (current_page_directory s) j = pde_of (mem s) (current_page_directory s) j"
proof (cases "has_table s (pdx va)")
  case True
  have "t = invlpg va (store_pte va (phys OR fl) s)" using run map_present [OF ok True] by simp
  then show ?thesis
    using write_pte(1) [OF vm_okD(3) [OF ok] True [unfolded has_table_def] j]
    by (simp add: invlpg_def store_pte_def)
next
  case False
  have full: "used_blocks s \<noteq> all_blocks (pmm_st s)"
    using run map_no_memory [OF ok False] by auto
  obtain f q where al: "pmm_alloc_block (pmm_st s) = (f, q)" by (metis surj_pair)
  have f: "f \<noteq> 0" using fa.alloc_null_iff [OF vm_okD(1,2) [OF ok]] al full by (simp add: all_blocks_def)
  let ?s = "add_table (pdx va) f q s"
  note fr = fresh_frame [OF ok al f]
  note ad = add_table_spec [OF ok False _ al f, simplified]
  have tab': "has_table ?s (pdx va)" using ad(3) by simp
  have cpd: "current_page_directory ?s = current_page_directory s" by (simp add: add_table_def)
  have f7: "frame_of (f OR 7) = f" using fr(1) by (simp add: frame_or_flags)
  have "vmm_map_page phys va fl s = Ret () (invlpg va (store_pte va (phys OR fl) ?s))"
    using access_ident(2) [OF pd_translate [OF ok, of "pdx va"]]
      get_page_table_absent [OF ok False _ al f]
      access_ident(4) [OF pt_translate [OF ad(1) tab'], unfolded cpd ad(4) f7]
    by (simp add: vmm_map_page_def store_pte_def cpd ad(4) f7 Let_def)
  then have "mem t = mem (store_pte va (phys OR fl) ?s)" using run by (simp add: invlpg_def)
  then have "pde_of (mem t) (current_page_directory s) j = pde_of (mem ?s) (current_page_directory s) j"
    using write_pte(1) [OF vm_okD(3) [OF ad(1)] tab' [unfolded has_table_def] j] by (simp add: store_pte_def cpd)
  also have "\<dots> = pde_of (mem s) (current_page_directory s) j"
  proof -
    have "j \<noteq> pdx va" using False tab by auto
    then show ?thesis
      using install_table(1) [OF vm_okD(3) [OF ok] False [unfolded has_table_def not_not] _ fr(1,2) j]
      by (simp add: add_table_def)
  qed
  finally show ?thesis .
qed

lemma dual_map:
  assumes d: "dual old s" and run: "vmm_map_page phys va fl s = Ret () t" and t: "vm_ok t" "extends s t"
  shows "dual old t"
proof -
  let ?pd = "current_page_directory s"
  note dd = dualD [OF d] and ef = extends_fields [OF t(2)]
  have o: "\<not> walk_frame (mem t) ?pd old" "\<And>a. in_frame old a \<Longrightarrow> mem t a = mem s a"
    using t(2) dd(4,7) by (auto simp: extends_def)
  have pdo: "pde_of (mem t) old i = pde_of (mem s) old i" if "unat i < 1024" for i
    using dd(6) that o(2) by (intro rd32_entry_cong) auto
  have pde: "pde_of (mem t) ?pd i = pde_of (mem s) old i" if "unat i < 1024" "pde_of (mem s) old i AND 1 \<noteq> 0" for i
    using map_keeps_pdes [OF dd(1) run _ that(1)] dd(8) [OF that] that(2) by (simp add: has_table_def)
  have "walk_frame (mem t) old f = walk_frame (mem s) old f" for f using pdo by (auto simp: walk_frame_def)
  moreover have "pd_wf (mem t) old (used_blocks t)"
    using pd_wf_mono [OF pd_wf_cong [OF dd(3) pdo] ef(13)] by simp
  ultimately show ?thesis
    using t(1) dd(2,5,9) o(1) pdo pde by (auto simp: dual_def ef(9,11,12))
qed

subsection \<open>Pages with frames of their own\<close>

lemma page_walk_vpn: "vpn a = vpn b \<Longrightarrow> page_walk m pd a = page_walk m pd b"
proof -
  assume "vpn a = vpn b"
  then have "pdx a = pdx b" "ptx a = ptx b" using same_page_iff [of a b] by blast+
  then show ?thesis unfolding page_walk_def by (simp only:)
qed

lemma stays_data:
  assumes "vm_ok s" "paging_on s" "translate s a = Some p"
    and "\<And>b. b \<in> P \<Longrightarrow> \<not> walk_frame (mem s) (current_page_directory s) (frame_of b)"
  shows "stays s P a p"
  unfolding stays_def
proof (intro allI impI)
  fix m assume m: "\<forall>b. b \<notin> P \<longrightarrow> m b = mem s b"
  have "m c = mem s c" if "walk_frame (mem s) (current_page_directory s) f" "in_frame f c" for f c
    using that assms(4) [of c] m by (auto simp: in_frame_def)
  then have "page_walk m (current_page_directory s) va = vm_lookup s va" for va
    by (intro page_walk_same) (simp_all add: vm_okD(4) [OF assms(1)])
  then have "translate (s\<lparr>mem := m\<rparr>) a = translate s a"
    using vm_okD(4,5) [OF assms(1)] by (simp add: translate_def frame_of_aligned)
  then show "translate (s\<lparr>mem := m\<rparr>) a = Some p" using assms(3) by simp
qed

text \<open>
  \<open>placed s vs fr\<close>: each page of \<open>vs\<close> is mapped for ring 3 to a data frame of its own, \<open>fr\<close>.
\<close>

definition placed :: "'a sys_scheme \<Rightarrow> u32 set \<Rightarrow> (u32 \<Rightarrow> u32) \<Rightarrow> bool" where
  "placed s vs fr \<longleftrightarrow> inj_on fr vs \<and> (\<forall>v \<in> vs. vm_lookup s v = Some (fr v OR 7) \<and> frame_aligned (fr v) \<and>
     block_of (fr v) \<in> used_blocks s \<and> \<not> walk_frame (mem s) (current_page_directory s) (fr v))"

definition place :: "(u32 \<Rightarrow> u32) \<Rightarrow> u32 \<Rightarrow> u32" where
  "place fr a = fr (frame_of a) OR (a AND 0xFFF)"

lemma frame_of_place: "frame_aligned (fr (frame_of a)) \<Longrightarrow> frame_of (place fr a) = fr (frame_of a)"
  unfolding place_def by (simp add: frame_or_flags and.assoc)

lemma place_off: "frame_aligned (fr (frame_of a)) \<Longrightarrow> place fr a AND 0xFFF = a AND 0xFFF"
  unfolding place_def by (simp add: flag_or_frame and.assoc)

lemma placed_translate:
  assumes "vm_ok s" "paging_on s" "placed s vs fr" "frame_of a \<in> vs"
  shows "translate s a = Some (place fr a)"
proof -
  have f: "vm_lookup s (frame_of a) = Some (fr (frame_of a) OR 7)" "frame_aligned (fr (frame_of a))"
    using assms(3,4) by (auto simp: placed_def)
  have "vm_lookup s a = Some (fr (frame_of a) OR 7)"
    using f(1) page_walk_vpn [OF frame_same_page(1)] by metis
  then show ?thesis
    using assms(2) f(2) by (simp add: translate_lookup [OF assms(1)] place_def frame_or_flags)
qed

lemma place_inj:
  assumes "placed s vs fr" "frame_of a \<in> vs" "frame_of b \<in> vs" "place fr a = place fr b"
  shows "a = b"
proof -
  have al: "frame_aligned (fr (frame_of a))" "frame_aligned (fr (frame_of b))" using assms(1-3) by (auto simp: placed_def)
  have "fr (frame_of a) = fr (frame_of b)" using frame_of_place [of fr a, OF al(1)] frame_of_place [of fr b, OF al(2)] assms(4) by simp
  then have "frame_of a = frame_of b" using assms(1-3) by (auto simp: placed_def inj_on_def)
  moreover have "a AND 0xFFF = b AND 0xFFF" using place_off [of fr a, OF al(1)] place_off [of fr b, OF al(2)] assms(4) by simp
  ultimately show ?thesis using frame_or_off [of a] frame_or_off [of b] by metis
qed

lemma placed_object:
  assumes "vm_ok s" "paging_on s" "placed s vs fr" "\<And>i. i < n \<Longrightarrow> frame_of (a + of_nat i) \<in> vs" "n \<le> 2 ^ 32"
  shows "object_at s a n (\<lambda>i. place fr (a + of_nat i))"
  unfolding object_at_def
proof (intro conjI allI impI)
  show "inj_on (\<lambda>i. place fr (a + of_nat i)) {..<n}"
  proof (rule inj_onI)
    fix i j assume i: "i \<in> {..<n}" "j \<in> {..<n}" and e: "place fr (a + of_nat i) = place fr (a + of_nat j)"
    have "frame_of (a + of_nat i) \<in> vs" "frame_of (a + of_nat j) \<in> vs" using i assms(4) by blast+
    from place_inj [OF assms(3) this e] have "a + of_nat i = a + of_nat j" .
    then have "unat (of_nat i :: u32) = unat (of_nat j :: u32)" by simp
    moreover have "unat (of_nat k :: u32) = k" if "k < n" for k
      using that assms(5) by (simp add: unat_of_nat take_bit_eq_mod)
    ultimately show "i = j" using i by simp
  qed
  fix i assume "i < n"
  then have tr: "translate s (a + of_nat i) = Some (place fr (a + of_nat i))"
    using assms(4) by (intro placed_translate [OF assms(1-3)]) simp
  have "\<not> walk_frame (mem s) (current_page_directory s) (frame_of b)" if "b \<in> (\<lambda>i. place fr (a + of_nat i)) ` {..<n}" for b
    using that assms(3,4) frame_of_place [of fr] by (auto simp: placed_def)
  then show "stays s ((\<lambda>i. place fr (a + of_nat i)) ` {..<n}) (a + of_nat i) (place fr (a + of_nat i))"
    by (intro stays_data [OF assms(1,2) tr])
qed

lemma aligned_off: "frame_aligned v \<Longrightarrow> k < 4096 \<Longrightarrow> frame_of (v + of_nat k) = v \<and> (v + of_nat k) AND 0xFFF = of_nat k"
proof -
  assume a: "frame_aligned v" "k < 4096"
  have f: "frame_of (v + of_nat k) = v" using in_frame_byte [OF a] by (simp add: in_frame_def)
  have "v + ((v + of_nat k) AND 0xFFF) = v + of_nat k" using frame_plus_off [of "v + of_nat k"] f by simp
  with f show ?thesis by simp
qed

subsection \<open>Mapping a segment\<close>

lemma extends_data:
  assumes "extends s t" and "\<And>f. walk_frame m (current_page_directory s) f = walk_frame (mem t) (current_page_directory s) f"
    and "\<And>f a. block_of f \<in> used_blocks s \<Longrightarrow> \<not> walk_frame (mem s) (current_page_directory s) f \<Longrightarrow> in_frame f a \<Longrightarrow> m a = mem t a"
  shows "extends s (t\<lparr>mem := m\<rparr>)"
proof -
  obtain m' l p where "t = s\<lparr>mem := m', tlb := l, pmm_st := p\<rparr>" using assms(1) by (auto simp: extends_def)
  then have "t\<lparr>mem := m\<rparr> = s\<lparr>mem := m, tlb := tlb t, pmm_st := pmm_st t\<rparr>" by simp
  with assms show ?thesis unfolding extends_def by simp blast
qed

lemma page_bytes:
  assumes "frame_aligned va" "frame_aligned f"
  shows "a \<in> (\<lambda>i. place (\<lambda>_. f) (va + of_nat i)) ` {..<4096} \<longleftrightarrow> in_frame f a"
proof
  assume "a \<in> (\<lambda>i. place (\<lambda>_. f) (va + of_nat i)) ` {..<4096}"
  then show "in_frame f a" using frame_of_place [of "\<lambda>_. f"] assms(2) by (auto simp: in_frame_def)
next
  assume a: "in_frame f a"
  let ?k = "unat (a AND 0xFFF)"
  have k: "?k < 4096" by (simp add: unat_page_off)
  have "place (\<lambda>_. f) (va + of_nat ?k) = f OR (a AND 0xFFF)"
    using aligned_off [OF assms(1) k] by (simp add: place_def)
  also have "\<dots> = a" using a frame_or_off [of a] by (simp add: in_frame_def)
  finally show "a \<in> (\<lambda>i. place (\<lambda>_. f) (va + of_nat i)) ` {..<4096}" using k by (metis imageI lessThan_iff)
qed

lemma free_blocks_alloc:
  assumes "vm_ok s" "pmm_alloc_block (pmm_st s) = (f, q)" "f \<noteq> 0"
  shows "free_blocks s = free_blocks (s\<lparr>pmm_st := q\<rparr>) + 1"
proof -
  note fr = fresh_frame [OF assms]
  have fin: "finite (used_blocks s)" by (rule finite_subset [OF blocks_in_use_subset]) (simp add: all_blocks_def)
  have "card (blocks_in_use q) = card (used_blocks s) + 1" using fr(2,4) fin by simp
  moreover have "card (blocks_in_use q) \<le> unat (pmm_total_blocks q)"
    using card_mono [OF _ blocks_in_use_subset [of q]] by (simp add: all_blocks_def)
  ultimately show ?thesis using fr(6) by (simp add: free_blocks_def)
qed

lemma map_one_page:
  assumes d: "dual old s" and va: "frame_aligned va" "ram_top s \<le> unat va" and free: "fault_need va s \<le> free_blocks s"
  obtains f t where "map_segment (va # vs) segs s = map_segment vs (if length segs < 64 then segs @ [f] else segs) t"
    "dual old t" "extends s t" "frame_aligned f" "block_of f \<notin> used_blocks s" "block_of f \<in> used_blocks t"
    "\<not> walk_frame (mem t) (current_page_directory t) f"
    "\<And>b. vm_lookup t b = (if vpn b = vpn va then Some (f OR 7) else vm_lookup s b)"
    "\<And>a. in_frame f a \<Longrightarrow> mem t a = 0" "free_blocks s = free_blocks t + fault_need va s"
    "\<And>j. unat j < 1024 \<Longrightarrow> has_table t j \<longleftrightarrow> j = pdx va \<or> has_table s j"
proof -
  note ok = dualD(1) [OF d]
  have room0: "used_blocks s \<noteq> all_blocks (pmm_st s)" using free free_blocks_0 [of s] by (auto simp: fault_need_def split: if_splits)
  obtain f q where al: "pmm_alloc_block (pmm_st s) = (f, q)" by (metis surj_pair)
  have f: "f \<noteq> 0" using fa.alloc_null_iff [OF vm_okD(1,2) [OF ok]] al room0 by (simp add: all_blocks_def)
  note fr = fresh_frame [OF ok al f]
  let ?s = "s\<lparr>pmm_st := q\<rparr>"
  have d1: "dual old ?s" by (rule dual_alloc [OF d al f])
  have ex1: "extends s ?s" using fr(4,6) by (auto simp: extends_def)
  have free1: "free_blocks s = free_blocks ?s + 1" by (rule free_blocks_alloc [OF ok al f])
  have tab: "has_table ?s j = has_table s j" for j by (simp add: has_table_def)
  have room: "has_table ?s (pdx va) \<or> used_blocks ?s \<noteq> all_blocks (pmm_st ?s)"
    using free free1 free_blocks_0 [of ?s] unfolding tab by (auto simp: fault_need_def split: if_splits)
  have win: "window_safe va (f OR 7) ?s"
    using va fr(6) by (simp add: window_safe_def frame_of_aligned)
  obtain u where u: "vmm_map_page f va 7 ?s = Ret () u" "vm_ok u" "extends ?s u"
    "\<And>b. vm_lookup u b = (if vpn b = vpn va then (if (f OR 7) AND 1 = 0 then None else Some (f OR 7)) else vm_lookup ?s b)"
    "card (used_blocks u) = card (used_blocks ?s) + (if has_table ?s (pdx va) then 0 else 1)"
    "\<And>j. unat j < 1024 \<Longrightarrow> has_table u j \<longleftrightarrow> j = pdx va \<or> has_table ?s j"
    by (rule map_page_spec [OF dualD(1) [OF d1] win room]) (rule that)
  have du: "dual old u" by (rule dual_map [OF d1 u(1-3)])
  note efu = extends_fields [OF u(3)]
  have cpd: "current_page_directory u = current_page_directory s" using efu(9) by simp
  have f7: "(f OR 7) AND 1 = 1" using fr(1) by (simp add: flag_or_frame)
  have fu: "block_of f \<in> used_blocks u" using efu(13) fr(4) by auto
  have fw: "\<not> walk_frame (mem u) (current_page_directory u) f"
    using u(3) fr(4,7) cpd by (auto simp: extends_def)
  have pl: "placed u {va} (\<lambda>_. f)"
    using u(4) [of va] f7 fr(1) fu fw by (simp add: placed_def)
  have "object_at u va (unat (4096 :: u32)) (\<lambda>i. place (\<lambda>_. f) (va + of_nat i))"
    using aligned_off [OF va(1)] by (intro placed_object [OF u(2) dualD(2) [OF du] pl]) auto
  from memset_object [OF this, of 0]
  have ms: "memset va 0 4096 u = Ret va (u\<lparr>mem := (\<lambda>a. if in_frame f a then 0 else mem u a)\<rparr>)"
    using page_bytes [OF va(1) fr(1)] by (simp cong: if_cong)
  let ?m = "\<lambda>a. if in_frame f a then 0 else mem u a" and ?t = "u\<lparr>mem := \<lambda>a. if in_frame f a then 0 else mem u a\<rparr>"
  have fo: "f \<noteq> old" using fr(2) dualD(7) [OF d] by auto
  have keep: "?m a = mem u a" if "walk_frame (mem u) (current_page_directory u) g \<or> g = old" "in_frame g a" for g a
    using that fw fo by (auto dest: in_frame_unique)
  note dd = dual_data [OF du keep]
  have "extends s ?t"
  proof (rule extends_data [OF extends_trans [OF ex1 u(3)]])
    show "walk_frame ?m (current_page_directory s) g = walk_frame (mem u) (current_page_directory s) g" for g
      using dd(3) unfolding cpd .
    show "?m a = mem u a" if "block_of g \<in> used_blocks s" "in_frame g a" for g a
      using that fr(2) by (auto dest: in_frame_unique)
  qed
  moreover have "map_segment (va # vs) segs s = map_segment vs (if length segs < 64 then segs @ [f] else segs) ?t"
    using f al u(1) ms by (simp add: alloc_block_def or.assoc)
  moreover have "free_blocks s = free_blocks ?t + fault_need va s"
    using free free1 u(5) efu(12) unfolding tab by (auto simp: free_blocks_def fault_need_def split: if_splits)
  moreover have "has_table ?t j \<longleftrightarrow> j = pdx va \<or> has_table s j" if "unat j < 1024" for j
  proof -
    have "pde_of ?m (current_page_directory u) j = pde_of (mem u) (current_page_directory u) j"
      by (rule rd32_entry_cong [OF vm_okD(4) [OF u(2)] that]) (rule keep, auto simp: walk_frame_def)
    then show ?thesis using u(6) [OF that] unfolding tab by (simp add: has_table_def)
  qed
  ultimately show thesis
    using dd(1) fr(1,2) fu fw f7 u(4) dd(2,3) by (intro that [of f ?t]) (auto simp: cpd)
qed

subsection \<open>All pages of a segment\<close>

lemma map_segment_spec:
  assumes "dual old s" "distinct vs" "\<forall>v \<in> set vs. frame_aligned v \<and> ram_top s \<le> unat v" "2 * length vs \<le> free_blocks s"
  shows "\<exists>fr t segs'. map_segment vs segs s = Ret (segs', True) t \<and> dual old t \<and> extends s t \<and> placed t (set vs) fr \<and>
    (\<forall>v \<in> set vs. block_of (fr v) \<notin> used_blocks s) \<and>
    (\<forall>b. vm_lookup t b = (if frame_of b \<in> set vs then Some (fr (frame_of b) OR 7) else vm_lookup s b)) \<and>
    (\<forall>v \<in> set vs. \<forall>a. in_frame (fr v) a \<longrightarrow> mem t a = 0) \<and> free_blocks s \<le> free_blocks t + 2 * length vs"
  using assms
proof (induction vs arbitrary: s segs)
  case Nil
  then show ?case by (intro exI [of _ id] exI [of _ s]) (simp add: placed_def)
next
  case (Cons va vs)
  have va: "frame_aligned va" "ram_top s \<le> unat va" "fault_need va s \<le> free_blocks s" "va \<notin> set vs"
    using Cons.prems by (auto simp: fault_need_def)
  let ?segs = "\<lambda>f. if length segs < 64 then segs @ [f] else segs"
  obtain f t1 where run: "map_segment (va # vs) segs s = map_segment vs (?segs f) t1"
    and t1: "dual old t1" "extends s t1" "frame_aligned f" "block_of f \<notin> used_blocks s" "block_of f \<in> used_blocks t1"
    "\<not> walk_frame (mem t1) (current_page_directory t1) f"
    "\<And>b. vm_lookup t1 b = (if vpn b = vpn va then Some (f OR 7) else vm_lookup s b)"
    "\<And>a. in_frame f a \<Longrightarrow> mem t1 a = 0" "free_blocks s = free_blocks t1 + fault_need va s"
    by (rule map_one_page [OF Cons.prems(1) va(1-3)]) (rule that)
  have "fault_need va s \<le> 2" by (simp add: fault_need_def)
  then have fb: "free_blocks s \<le> free_blocks t1 + 2" using t1(9) by simp
  have "ram_top t1 = ram_top s" using extends_fields(12) [OF t1(2)] .
  then have "\<forall>v \<in> set vs. frame_aligned v \<and> ram_top t1 \<le> unat v" "2 * length vs \<le> free_blocks t1" "distinct vs"
    using Cons.prems fb by auto
  from Cons.IH [OF t1(1) this(3,1,2), of "?segs f"] obtain fr t segs' where
    t: "map_segment vs (?segs f) t1 = Ret (segs', True) t" "dual old t" "extends t1 t" "placed t (set vs) fr"
      "\<And>v. v \<in> set vs \<Longrightarrow> block_of (fr v) \<notin> used_blocks t1"
      "\<And>b. vm_lookup t b = (if frame_of b \<in> set vs then Some (fr (frame_of b) OR 7) else vm_lookup t1 b)"
      "\<And>v a. v \<in> set vs \<Longrightarrow> in_frame (fr v) a \<Longrightarrow> mem t a = 0" "free_blocks t1 \<le> free_blocks t + 2 * length vs"
    by blast
  let ?fr = "fr(va := f)"
  have fva: "frame_of va = va" using va(1) by (simp add: frame_of_aligned)
  have page: "vpn b = vpn va \<longleftrightarrow> frame_of b = va" for b using vpn_iff_frame [of b va] fva by simp
  have old: "used_blocks s \<subseteq> used_blocks t1" "used_blocks t1 \<subseteq> used_blocks t"
    using extends_fields(13) [OF t1(2)] extends_fields(13) [OF t(3)] by auto
  have cpd: "current_page_directory t = current_page_directory t1" using extends_fields(9) [OF t(3)] .
  have fw: "\<not> walk_frame (mem t) (current_page_directory t) f" "\<And>a. in_frame f a \<Longrightarrow> mem t a = 0"
    using t(3) t1(5,6,8) cpd by (auto simp: extends_def)
  have look: "vm_lookup t b = (if frame_of b \<in> set (va # vs) then Some (?fr (frame_of b) OR 7) else vm_lookup s b)" for b
    using t(6) t1(7) va(4) by (simp add: page)
  have ne: "fr v \<noteq> f" if "v \<in> set vs" for v using t(5) [OF that] t1(5) by auto
  have "placed t (set (va # vs)) ?fr"
  proof -
    have "inj_on ?fr (set (va # vs))" using t(4) ne va(4) by (auto simp: placed_def inj_on_def)
    moreover have "vm_lookup t va = Some (?fr va OR 7)" using look [of va] fva by simp
    ultimately show ?thesis
      using t(4) t1(3,5) old(2) fw(1) va(4) by (auto simp: placed_def)
  qed
  moreover have "\<forall>v \<in> set (va # vs). block_of (?fr v) \<notin> used_blocks s" using t(5) t1(4) old(1) va(4) by auto
  moreover have "\<forall>v \<in> set (va # vs). \<forall>a. in_frame (?fr v) a \<longrightarrow> mem t a = 0" using t(7) fw(2) va(4) by auto
  moreover have "free_blocks s \<le> free_blocks t + 2 * length (va # vs)" using t(8) fb by simp
  ultimately show ?case
    using run t(1,2) extends_trans [OF t1(2) t(3)] look
    by (intro exI [of _ ?fr] exI [of _ t] exI [of _ segs']) (simp only: simp_thms)
qed

subsection \<open>Resident data\<close>

text \<open>
  An address in a frame that is in use, but for neither of the two directories: the kernel
  reaches it under its own address whichever directory is active.
\<close>

definition resident :: "u32 \<Rightarrow> u32 \<Rightarrow> 'a sys_scheme \<Rightarrow> u32 \<Rightarrow> bool" where
  "resident old pd s a \<longleftrightarrow> block_of a \<in> used_blocks s \<and> \<not> walk_frame (mem s) pd (frame_of a) \<and> frame_of a \<noteq> old"

lemma block_of_frame [simp]: "block_of (frame_of a) = block_of a"
  by (simp add: unat_frame)

lemma used_translate:
  assumes "vm_ok s" "block_of a \<in> used_blocks s"
  shows "translate s a = Some a"
proof -
  have "block_of a < unat (pmm_total_blocks (pmm_st s))"
    using assms(2) blocks_in_use_subset [of "pmm_st s"] by (auto simp: all_blocks_def)
  then have "unat a < ram_top s" using dividend_less_times_div [of 4096 "unat a"] by linarith
  then show ?thesis by (rule window_translate [OF assms(1)])
qed

lemma resident_extends:
  assumes "resident old (current_page_directory s) s a" "extends s t"
  shows "resident old (current_page_directory s) t a" "mem t a = mem s a"
proof -
  have a: "block_of (frame_of a) \<in> used_blocks s" "\<not> walk_frame (mem s) (current_page_directory s) (frame_of a)" "frame_of a \<noteq> old"
    using assms(1) by (auto simp: resident_def)
  have "\<not> walk_frame (mem t) (current_page_directory s) (frame_of a) \<and> (\<forall>b. in_frame (frame_of a) b \<longrightarrow> mem t b = mem s b)"
    using assms(2) a(1,2) unfolding extends_def by blast
  moreover have "in_frame (frame_of a) a" by (simp add: in_frame_def)
  ultimately show "resident old (current_page_directory s) t a" "mem t a = mem s a"
    using a extends_fields(9,13) [OF assms(2)] by (auto simp: resident_def)
qed

lemma resident_back:
  assumes "dual old s" "resident old (current_page_directory s) s a"
  shows "\<not> walk_frame (mem s) old (frame_of a)"
  using dual_frames [OF assms(1)] assms(2) by (auto simp: resident_def)

lemma ram_object:
  assumes "vm_ok s" "paging_on s" "n < 2 ^ 32" "\<And>i. i < n \<Longrightarrow> block_of (a + of_nat i) \<in> used_blocks s"
    "\<And>i. i < n \<Longrightarrow> \<not> walk_frame (mem s) (current_page_directory s) (frame_of (a + of_nat i))"
  shows "object_at s a n (\<lambda>i. a + of_nat i)"
  unfolding object_at_def
proof (intro conjI allI impI)
  show "inj_on (\<lambda>i. a + of_nat i) {..<n}"
  proof (rule inj_onI)
    fix i j assume i: "i \<in> {..<n}" "j \<in> {..<n}" and e: "a + of_nat i = a + of_nat j"
    have "unat (of_nat k :: u32) = k" if "k < n" for k using that assms(3) by (simp add: unat_of_nat take_bit_eq_mod)
    moreover have "unat (of_nat i :: u32) = unat (of_nat j :: u32)" using e by simp
    ultimately show "i = j" using i by simp
  qed
  fix i assume i: "i < n"
  show "stays s ((\<lambda>i. a + of_nat i) ` {..<n}) (a + of_nat i) (a + of_nat i)"
    using assms(5) by (intro stays_data [OF assms(1,2) used_translate [OF assms(1) assms(4) [OF i]]]) auto
qed

lemma ram_data:
  assumes "vm_ok s" "paging_on s" "length data < 2 ^ 32" "fs_length nd = of_nat (length data)"
    and "\<And>i. i < length data \<Longrightarrow> block_of (fs_impl nd + of_nat i) \<in> used_blocks s \<and> mem s (fs_impl nd + of_nat i) = data ! i \<and>
      fs_impl nd + of_nat i \<notin> P"
    and "\<And>b. b \<in> P \<Longrightarrow> \<not> walk_frame (mem s) (current_page_directory s) (frame_of b)"
  shows "holds_data s nd P data"
  unfolding holds_data_def
proof (intro conjI allI impI)
  fix i assume i: "i < length data"
  have "stays s P (fs_impl nd + of_nat i) (fs_impl nd + of_nat i)"
    using assms(5) [OF i] assms(6) by (intro stays_data [OF assms(1,2)] used_translate [OF assms(1)]) auto
  then show "\<exists>q. q \<notin> P \<and> stays s P (fs_impl nd + of_nat i) q \<and> mem s q = data ! i"
    using assms(5) [OF i] by blast
qed (use assms(3,4) in simp_all)

subsection \<open>The pages of a segment\<close>

lemma segment_pages_facts:
  fixes ph defines "v \<equiv> unat (p_vaddr ph)" and "n \<equiv> unat (p_memsz ph)"
  assumes fits: "v + n + 4095 < 2 ^ 32"
  shows "distinct (segment_pages ph)" "\<And>p. p \<in> set (segment_pages ph) \<Longrightarrow> frame_aligned p \<and> unat (frame_of (p_vaddr ph)) \<le> unat p"
    "\<And>i. i < n \<Longrightarrow> frame_of (p_vaddr ph + of_nat i) \<in> set (segment_pages ph)"
proof -
  define b where "b = v div 4096"
  define k where "k = (v + n + 4095) div 4096 - b"
  have "unat (p_vaddr ph + p_memsz ph) = v + n" using fits by (simp add: unat_word_ariths v_def n_def)
  then have "unat (p_vaddr ph + p_memsz ph + 4095) = v + n + 4095" using fits by (simp add: unat_word_ariths)
  then have e: "unat ((p_vaddr ph + p_memsz ph + 4095) AND 0xFFFFF000) = (v + n + 4095) div 4096 * 4096" by (simp add: unat_frame)
  have st: "unat (frame_of (p_vaddr ph)) = b * 4096" by (simp add: unat_frame b_def v_def)
  have "((v + n + 4095) div 4096 * 4096 - b * 4096) div 4096 = k"
    unfolding k_def by (simp flip: diff_mult_distrib)
  then have pages: "segment_pages ph = map (\<lambda>i. frame_of (p_vaddr ph) + of_nat i * 4096) [0..<k]"
    by (simp add: segment_pages_def Let_def e st)
  have top: "b + k \<le> 2 ^ 20 - 1" if "0 < k"
  proof -
    have "(v + n + 4095) div 4096 < 2 ^ 20" using fits by (intro less_mult_imp_div_less) simp
    then show ?thesis using that by (simp add: k_def)
  qed
  have un: "unat (frame_of (p_vaddr ph) + of_nat i * 4096) = (b + i) * 4096" if "i < k" for i
  proof -
    have "b + k \<le> 1048575" using top that by simp
    then have "(b + i) * 4096 < 2 ^ 32" using that by simp
    moreover have "of_nat i * 4096 = (of_nat (i * 4096) :: u32)" by simp
    ultimately show ?thesis using unat_add_of_nat [of "frame_of (p_vaddr ph)" "i * 4096"] by (simp add: st algebra_simps)
  qed
  show "distinct (segment_pages ph)"
  proof -
    have "inj_on (\<lambda>i. frame_of (p_vaddr ph) + of_nat i * 4096) {0..<k}"
    proof (rule inj_onI)
      fix i j assume ij: "i \<in> {0..<k}" "j \<in> {0..<k}" "frame_of (p_vaddr ph) + of_nat i * 4096 = frame_of (p_vaddr ph) + of_nat j * 4096"
      have "i < k" "j < k" using ij(1,2) by auto
      from un [OF this(1)] un [OF this(2)] have "(b + i) * 4096 = (b + j) * 4096" unfolding ij(3) by (rule trans [OF sym])
      then show "i = j" by simp
    qed
    then show ?thesis by (simp add: pages distinct_map)
  qed
  show "frame_aligned p \<and> unat (frame_of (p_vaddr ph)) \<le> unat p" if "p \<in> set (segment_pages ph)" for p
    using that un by (auto simp: pages frame_aligned_iff st)
  show "frame_of (p_vaddr ph + of_nat i) \<in> set (segment_pages ph)" if i: "i < n" for i
  proof -
    let ?q = "(v + i) div 4096"
    have "unat (p_vaddr ph + of_nat i) = v + i" using fits i by (simp add: unat_add_of_nat v_def)
    then have fr: "unat (frame_of (p_vaddr ph + of_nat i)) = ?q * 4096" by (simp add: unat_frame)
    have bq: "b \<le> ?q" by (simp add: b_def div_le_mono)
    have "?q * 4096 \<le> v + i" by simp
    moreover have "v + n + 4095 < ((v + n + 4095) div 4096 + 1) * 4096" using dividend_less_div_times [of 4096 "v + n + 4095"] by simp
    ultimately have "?q < (v + n + 4095) div 4096" using i by linarith
    then have "?q - b < k" using bq by (simp add: k_def)
    moreover from this have "frame_of (p_vaddr ph) + of_nat (?q - b) * 4096 = frame_of (p_vaddr ph + of_nat i)"
      using un [of "?q - b"] fr bq by (simp add: word_unat_eq_iff)
    ultimately show ?thesis unfolding pages by (auto intro: image_eqI [of _ _ "?q - b"])
  qed
qed

subsection \<open>Loading a segment\<close>

text \<open>\<open>old\<close> is active, and \<open>pd\<close> is the directory of the program that is being loaded.\<close>

definition staged :: "u32 \<Rightarrow> u32 \<Rightarrow> 'a sys_scheme \<Rightarrow> bool" where
  "staged old pd s \<longleftrightarrow> current_page_directory s = old \<and> vm_ok s \<and> paging_on s \<and> dual old (switch_directory pd s)"

definition kept :: "u32 \<Rightarrow> u32 \<Rightarrow> 'a sys_scheme \<Rightarrow> 'a sys_scheme \<Rightarrow> bool" where
  "kept old pd s t \<longleftrightarrow> used_blocks s \<subseteq> used_blocks t \<and> ram_top t = ram_top s \<and>
     (\<forall>a. resident old pd s a \<longrightarrow> resident old pd t a \<and> mem t a = mem s a)"

text \<open>The same, except for the bytes at the addresses \<open>P\<close>.\<close>

definition kept_but :: "u32 set \<Rightarrow> u32 \<Rightarrow> u32 \<Rightarrow> 'a sys_scheme \<Rightarrow> 'a sys_scheme \<Rightarrow> bool" where
  "kept_but P old pd s t \<longleftrightarrow> used_blocks s \<subseteq> used_blocks t \<and> ram_top t = ram_top s \<and>
     (\<forall>a. resident old pd s a \<longrightarrow> resident old pd t a \<and> (a \<notin> P \<longrightarrow> mem t a = mem s a))"

lemma kept_but_refl [simp]: "kept_but P old pd s s"
  by (simp add: kept_but_def)

lemma kept_but_trans: "kept_but P old pd s t \<Longrightarrow> kept_but P old pd t u \<Longrightarrow> kept_but P old pd s u"
  by (auto simp: kept_but_def)

lemma kept_kept_but: "kept old pd s t \<Longrightarrow> kept_but P old pd s t"
  by (auto simp: kept_def kept_but_def)

text \<open>The file lies in resident memory.\<close>

definition file_ok :: "u32 \<Rightarrow> u32 \<Rightarrow> 'a sys_scheme \<Rightarrow> fs_node \<Rightarrow> u8 list \<Rightarrow> bool" where
  "file_ok old pd s nd data \<longleftrightarrow> length data < 2 ^ 32 \<and> fs_length nd = of_nat (length data) \<and> fs_read nd = Some Tar_read \<and>
     (\<forall>i < length data. resident old pd s (fs_impl nd + of_nat i) \<and> mem s (fs_impl nd + of_nat i) = data ! i)"

text \<open>A segment that fits into the file and into the address space above RAM.\<close>

definition segment_ok :: "'a sys_scheme \<Rightarrow> u8 list \<Rightarrow> Elf32_Phdr \<Rightarrow> bool" where
  "segment_ok s data ph \<longleftrightarrow> unat (p_vaddr ph) + unat (p_memsz ph) + 4095 < 2 ^ 32 \<and> unat (p_filesz ph) \<le> unat (p_memsz ph) \<and>
     unat (p_offset ph) + unat (p_filesz ph) \<le> length data \<and> ram_top s \<le> unat (frame_of (p_vaddr ph))"

text \<open>What a byte of the segment's pages should be.\<close>

definition segment_byte :: "u8 list \<Rightarrow> Elf32_Phdr \<Rightarrow> u32 \<Rightarrow> u8" where
  "segment_byte data ph a =
     (if unat (a - p_vaddr ph) < unat (p_filesz ph) then data ! (unat (p_offset ph) + unat (a - p_vaddr ph)) else 0)"

lemma dual_reset:
  assumes "dual old t" "mem u = mem t" "cr0 u = cr0 t" "pmm_st u = pmm_st t"
  shows "dual old (switch_directory (current_page_directory t) u)"
proof -
  note dd = dualD [OF assms(1)]
  have p: "paging_on u" using dd(2) assms(3) by (simp add: paging_on_def)
  have "ram_window t" using vm_okD(6) [OF dd(1,2)] .
  then have "vm_ok (switch_directory (current_page_directory t) u)"
    using dd(1) p assms(2,4) by (simp add: vm_ok_def ram_window_def tlb_coherent_def)
  then show ?thesis using assms(1,2,4) p by (simp add: dual_def)
qed

lemma extends_node_at:
  fixes s t :: "'a fs_scheme"
  assumes "extends s t"
  shows "node_at r t = node_at r s"
proof -
  obtain m l p where "t = s\<lparr>mem := m, tlb := l, pmm_st := p\<rparr>" using assms by (auto simp: extends_def)
  then show ?thesis by (cases r) (simp_all add: node_at_def)
qed

lemma node_at_updates [simp]:
  "node_at r (s\<lparr>mem := m\<rparr>) = node_at r s" "node_at r (cli s) = node_at r s" "node_at r (sti s) = node_at r s"
  "node_at r (switch_directory pd s) = node_at r s" "node_at r (s\<lparr>pmm_st := q\<rparr>) = node_at r s" "node_at r (print f s) = node_at r s"
  by (cases r; simp add: node_at_def cli_def sti_def switch_directory_def write_cr3_def print_def)+

lemma read_segment:
  fixes u :: "'a fs_scheme"
  assumes d: "dual old u" and pl: "placed u vs fr" and fresh: "\<And>v. v \<in> vs \<Longrightarrow> block_of (fr v) \<notin> U"
    and fl: "file_ok old (current_page_directory u) u (node_at file u) data"
      "\<And>i. i < length data \<Longrightarrow> block_of (fs_impl (node_at file u) + of_nat i) \<in> U"
    and fits: "unat (p_offset ph) + unat (p_filesz ph) \<le> length data"
    and rng: "\<And>i. i < unat (p_filesz ph) \<Longrightarrow> frame_of (p_vaddr ph + of_nat i) \<in> vs"
    and zero: "\<And>v a. v \<in> vs \<Longrightarrow> in_frame (fr v) a \<Longrightarrow> mem u a = 0"
  obtains m n where "read_fs call_read (Some file) (p_offset ph) (p_filesz ph) (p_vaddr ph) u = Ret n (u\<lparr>mem := m\<rparr>)"
    "\<And>a. frame_of a \<in> vs \<Longrightarrow> m (place fr a) = segment_byte data ph a"
    "\<And>a. frame_of a \<notin> fr ` vs \<Longrightarrow> m a = mem u a"
proof -
  let ?n = "unat (p_filesz ph)" and ?nd = "node_at file u"
  let ?p = "\<lambda>i. place fr (p_vaddr ph + of_nat i)"
  let ?P = "?p ` {..<?n}"
  note dd = dualD [OF d]
  have f: "length data < 2 ^ 32" "fs_length ?nd = of_nat (length data)" "fs_read ?nd = Some Tar_read"
    "\<And>i. i < length data \<Longrightarrow> resident old (current_page_directory u) u (fs_impl ?nd + of_nat i)"
    "\<And>i. i < length data \<Longrightarrow> mem u (fs_impl ?nd + of_nat i) = data ! i"
    using fl(1) by (auto simp: file_ok_def)
  have frP: "frame_of b \<in> fr ` vs" if "b \<in> ?P" for b
    using that rng pl frame_of_place [of fr] by (auto simp: placed_def)
  have nwP: "\<not> walk_frame (mem u) (current_page_directory u) (frame_of b)" if "b \<in> ?P" for b
    using frP [OF that] pl by (auto simp: placed_def)
  have blk: "block_of b \<notin> U" if "frame_of b \<in> fr ` vs" for b
    using that fresh by (metis block_of_frame imageE)
  have "holds_data u ?nd ?P data"
  proof (rule ram_data [OF dd(1,2) f(1,2) _ nwP])
    fix i assume i: "i < length data"
    show "block_of (fs_impl ?nd + of_nat i) \<in> used_blocks u \<and> mem u (fs_impl ?nd + of_nat i) = data ! i \<and> fs_impl ?nd + of_nat i \<notin> ?P"
      using f(4,5) [OF i] fl(2) [OF i] frP blk by (auto simp: resident_def)
  qed
  moreover have "object_at u (p_vaddr ph) ?n ?p"
    by (rule placed_object [OF dd(1,2) pl rng]) (use unsigned_less [of "p_filesz ph", where 'a = nat] in simp_all)
  ultimately obtain m where m: "tar_read file (p_offset ph) (p_filesz ph) (p_vaddr ph) u =
      Ret (of_nat (length (file_part (unat (p_offset ph)) ?n data))) (u\<lparr>mem := m\<rparr>)"
    "\<And>i. i < length (file_part (unat (p_offset ph)) ?n data) \<Longrightarrow> m (?p i) = file_part (unat (p_offset ph)) ?n data ! i"
    "\<And>b. b \<notin> ?p ` {..<length (file_part (unat (p_offset ph)) ?n data)} \<Longrightarrow> m b = mem u b"
    using tar_read_slice [of u "file" ?p "p_filesz ph" data "p_vaddr ph" "p_offset ph"] fits f(1) by auto
  have len: "length (file_part (unat (p_offset ph)) ?n data) = ?n" using fits by (simp add: length_file_part)
  have nth: "file_part (unat (p_offset ph)) ?n data ! i = data ! (unat (p_offset ph) + i)" if "i < ?n" for i
    using that fits by (simp add: file_part_def)
  show thesis
  proof (rule that)
    show "read_fs call_read (Some file) (p_offset ph) (p_filesz ph) (p_vaddr ph) u =
        Ret (of_nat (length (file_part (unat (p_offset ph)) ?n data))) (u\<lparr>mem := m\<rparr>)"
      using m(1) f(3) by (simp add: read_fs_def call_read_def)
    show "m a = mem u a" if "frame_of a \<notin> fr ` vs" for a
      using that frP by (intro m(3)) (auto simp: len)
    show "m (place fr a) = segment_byte data ph a" if a: "frame_of a \<in> vs" for a
    proof (cases "unat (a - p_vaddr ph) < ?n")
      case True
      have "p_vaddr ph + of_nat (unat (a - p_vaddr ph)) = a" by simp
      then show ?thesis using m(2) [of "unat (a - p_vaddr ph)"] nth True by (simp add: len segment_byte_def)
    next
      case False
      have "place fr a \<notin> ?P"
      proof
        assume "place fr a \<in> ?P"
        then obtain i where i: "i < ?n" "place fr a = ?p i" by auto
        have "a = p_vaddr ph + of_nat i" by (rule place_inj [OF pl a rng [OF i(1)] i(2)])
        then have "unat (a - p_vaddr ph) = unat (of_nat i :: u32)" by simp
        also have "\<dots> = i" using i(1) unsigned_less [of "p_filesz ph", where 'a = nat] by (simp add: unat_of_nat take_bit_eq_mod)
        finally show False using False i(1) by simp
      qed
      then have "m (place fr a) = mem u (place fr a)" using m(3) by (simp add: len)
      also have "\<dots> = 0"
        using zero [OF a, of "place fr a"] a pl frame_of_place [of fr a] by (auto simp: in_frame_def placed_def)
      finally show ?thesis using False by (simp add: segment_byte_def)
    qed
  qed
qed

subsection \<open>The loader on one segment\<close>

lemma dual_cong:
  assumes "mem t = mem s" "cr0 t = cr0 s" "cr3 t = cr3 s" "tlb t = tlb s" "pmm_st t = pmm_st s"
    "current_page_directory t = current_page_directory s"
  shows "dual old t = dual old s"
  using vm_ok_cong [OF assms] assms by (simp add: dual_def paging_on_def)

lemma resident_cong: "mem t = mem s \<Longrightarrow> pmm_st t = pmm_st s \<Longrightarrow> resident old pd t a = resident old pd s a"
  by (simp add: resident_def)

text \<open>
  The address \<open>a\<close> of the program is mapped for ring 3, to a resident byte with the value \<open>b\<close>
  outside the blocks \<open>U\<close>.
\<close>

definition has_byte :: "u32 \<Rightarrow> u32 \<Rightarrow> nat set \<Rightarrow> 'a sys_scheme \<Rightarrow> u32 \<Rightarrow> u8 \<Rightarrow> bool" where
  "has_byte old pd U s a b \<longleftrightarrow> (\<exists>pte. page_walk (mem s) pd a = Some pte \<and> pte AND 7 = 7 \<and>
     (let p = frame_of pte OR (a AND 0xFFF) in block_of p \<notin> U \<and> resident old pd s p \<and> mem s p = b))"

lemma has_byte_kept:
  assumes "has_byte old pd U s a b" "kept old pd s t" "page_walk (mem t) pd a = page_walk (mem s) pd a"
  shows "has_byte old pd U t a b"
  using assms by (auto simp: has_byte_def kept_def Let_def)

text \<open>The pages of a segment are mapped in the new directory and the file is read into them.\<close>

lemma load_segment_run:
  fixes s :: "'a fs_scheme"
  assumes st: "staged old pd s" and fl: "file_ok old pd s (node_at r s) data" and seg: "segment_ok s data ph"
    and free: "2 * length (segment_pages ph) \<le> free_blocks s"
  obtains u m fr segs' where "load_segment r ph pd segs s = Ret (segs', True) (sti (switch_directory old (u\<lparr>mem := m\<rparr>)))"
    "dual old u" "extends (switch_directory pd (cli s)) u" "current_page_directory u = pd" "placed u (set (segment_pages ph)) fr"
    "\<And>v. v \<in> set (segment_pages ph) \<Longrightarrow> block_of (fr v) \<notin> used_blocks s"
    "\<And>b. vm_lookup u b = (if frame_of b \<in> set (segment_pages ph) then Some (fr (frame_of b) OR 7) else page_walk (mem s) pd b)"
    "free_blocks s \<le> free_blocks u + 2 * length (segment_pages ph)"
    "\<And>a. frame_of a \<in> set (segment_pages ph) \<Longrightarrow> m (place fr a) = segment_byte data ph a"
    "\<And>a. frame_of a \<notin> fr ` set (segment_pages ph) \<Longrightarrow> m a = mem u a"
    "\<And>a. resident old pd s a \<Longrightarrow> resident old pd u a \<and> mem u a = mem s a"
proof -
  let ?vs = "segment_pages ph" and ?A = "switch_directory pd (cli s)"
  have so: "current_page_directory s = old" "dual old (switch_directory pd s)" using st by (auto simp: staged_def)
  have A: "mem ?A = mem s" "pmm_st ?A = pmm_st s" "cr0 ?A = cr0 s" "current_page_directory ?A = pd" by (simp_all add: cli_def)
  have dA: "dual old ?A" using so(2) dual_cong [of ?A "switch_directory pd s" old] by (simp add: cli_def)
  have sg: "unat (p_vaddr ph) + unat (p_memsz ph) + 4095 < 2 ^ 32" "unat (p_filesz ph) \<le> unat (p_memsz ph)"
    "unat (p_offset ph) + unat (p_filesz ph) \<le> length data" "ram_top s \<le> unat (frame_of (p_vaddr ph))"
    using seg by (auto simp: segment_ok_def)
  note pg = segment_pages_facts [OF sg(1)]
  have al: "\<forall>v \<in> set ?vs. frame_aligned v \<and> ram_top ?A \<le> unat v" using pg(2) sg(4) A(2) by (auto intro: order_trans)
  have fA: "2 * length ?vs \<le> free_blocks ?A" using free A(2) by (simp add: free_blocks_def)
  obtain fr u segs' where u: "map_segment ?vs segs ?A = Ret (segs', True) u" "dual old u" "extends ?A u" "placed u (set ?vs) fr"
    "\<And>v. v \<in> set ?vs \<Longrightarrow> block_of (fr v) \<notin> used_blocks s"
    "\<And>b. vm_lookup u b = (if frame_of b \<in> set ?vs then Some (fr (frame_of b) OR 7) else page_walk (mem s) pd b)"
    "\<And>v a. v \<in> set ?vs \<Longrightarrow> in_frame (fr v) a \<Longrightarrow> mem u a = 0" "free_blocks ?A \<le> free_blocks u + 2 * length ?vs"
    using map_segment_spec [OF dA pg(1) al fA, of segs] unfolding A by blast
  have cpd: "current_page_directory u = pd" using extends_fields(9) [OF u(3)] A(4) by simp
  have nd: "node_at r u = node_at r s" using extends_node_at [OF u(3), of r] by simp
  have res: "resident old pd u a \<and> mem u a = mem s a" if "resident old pd s a" for a
    using resident_extends [of old ?A a u] u(3) that resident_cong [OF A(1,2)] A(1,4) by simp
  have fu: "file_ok old (current_page_directory u) u (node_at r u) data"
    using fl res unfolding nd cpd by (simp add: file_ok_def)
  have inU: "block_of (fs_impl (node_at r u) + of_nat i) \<in> used_blocks s" if "i < length data" for i
    using fl that unfolding nd by (simp add: file_ok_def resident_def)
  have rng: "frame_of (p_vaddr ph + of_nat i) \<in> set ?vs" if "i < unat (p_filesz ph)" for i
    using pg(3) [of i] that sg(2) by simp
  obtain m n where m: "read_fs call_read (Some r) (p_offset ph) (p_filesz ph) (p_vaddr ph) u = Ret n (u\<lparr>mem := m\<rparr>)"
    "\<And>a. frame_of a \<in> set ?vs \<Longrightarrow> m (place fr a) = segment_byte data ph a"
    "\<And>a. frame_of a \<notin> fr ` set ?vs \<Longrightarrow> m a = mem u a"
    by (rule read_segment [OF u(2,4,5) fu inU sg(3) rng u(7)]) (assumption | rule that)+
  have run: "load_segment r ph pd segs s = Ret (segs', True) (sti (switch_directory old (u\<lparr>mem := m\<rparr>)))"
    using u(1) m(1) so(1) by (simp add: load_segment_def Let_def cli_def)
  have fb: "free_blocks s \<le> free_blocks u + 2 * length ?vs" using u(8) A(2) by (simp add: free_blocks_def)
  show thesis by (rule that [OF run u(2,3) cpd u(4-6) fb m(2,3) res])
qed

text \<open>A byte of a placed page, read through the new directory.\<close>

lemma placed_has_byte:
  assumes pl: "placed u vs fr" "current_page_directory u = pd" "frame_of a \<in> vs" and fresh: "block_of (fr (frame_of a)) \<notin> insert (block_of old) U"
    and t: "pmm_st t = pmm_st u" "\<And>f. walk_frame (mem t) pd f = walk_frame (mem u) pd f"
      "page_walk (mem t) pd a = Some (fr (frame_of a) OR 7)" "mem t (place fr a) = b"
  shows "has_byte old pd U t a b"
proof -
  have fr: "frame_aligned (fr (frame_of a))" "block_of (fr (frame_of a)) \<in> used_blocks u" "\<not> walk_frame (mem u) pd (fr (frame_of a))"
    using pl by (auto simp: placed_def)
  have fp: "frame_of (place fr a) = fr (frame_of a)" using frame_of_place [of fr a] fr(1) by simp
  have f7: "frame_of (fr (frame_of a) OR 7) = fr (frame_of a)" "(fr (frame_of a) OR 7) AND 7 = 7"
    using fr(1) by (simp_all add: frame_or_flags flag_or_frame)
  have blk: "block_of (place fr a) = block_of (fr (frame_of a))" using fp by (metis block_of_frame)
  have "resident old pd t (place fr a)" using fr fp blk fresh by (auto simp: resident_def t)
  then show ?thesis using t(3,4) f7 blk fresh by (simp add: has_byte_def place_def)
qed

lemma load_segment_spec:
  fixes s :: "'a fs_scheme"
  assumes st: "staged old pd s" and fl: "file_ok old pd s (node_at r s) data" and seg: "segment_ok s data ph"
    and free: "2 * length (segment_pages ph) \<le> free_blocks s" and U: "U \<subseteq> used_blocks s"
  obtains t segs' where "load_segment r ph pd segs s = Ret (segs', True) t" "staged old pd t" "kept old pd s t"
    "t = s\<lparr>mem := mem t, tlb := tlb t, pmm_st := pmm_st t, iflag := True\<rparr>"
    "\<And>a. frame_of a \<in> set (segment_pages ph) \<Longrightarrow> has_byte old pd U t a (segment_byte data ph a)"
    "\<And>a. frame_of a \<notin> set (segment_pages ph) \<Longrightarrow> page_walk (mem t) pd a = page_walk (mem s) pd a"
    "free_blocks s \<le> free_blocks t + 2 * length (segment_pages ph)"
proof -
  let ?vs = "segment_pages ph" and ?A = "switch_directory pd (cli s)"
  have so: "current_page_directory s = old" "vm_ok s" "paging_on s" "dual old (switch_directory pd s)"
    using st by (auto simp: staged_def)
  have A: "pmm_st ?A = pmm_st s" by (simp add: cli_def)
  obtain u m fr segs' where u: "load_segment r ph pd segs s = Ret (segs', True) (sti (switch_directory old (u\<lparr>mem := m\<rparr>)))"
    "dual old u" "extends ?A u" "current_page_directory u = pd" "placed u (set ?vs) fr" "\<And>v. v \<in> set ?vs \<Longrightarrow> block_of (fr v) \<notin> used_blocks s"
    "\<And>b. vm_lookup u b = (if frame_of b \<in> set ?vs then Some (fr (frame_of b) OR 7) else page_walk (mem s) pd b)"
    "free_blocks s \<le> free_blocks u + 2 * length ?vs"
    "\<And>a. frame_of a \<in> set ?vs \<Longrightarrow> m (place fr a) = segment_byte data ph a" "\<And>a. frame_of a \<notin> fr ` set ?vs \<Longrightarrow> m a = mem u a"
    "\<And>a. resident old pd s a \<Longrightarrow> resident old pd u a \<and> mem u a = mem s a"
    by (rule load_segment_run [OF st fl seg free, of segs]) (rule that)
  have same: "m a = mem u a" if "walk_frame (mem u) (current_page_directory u) f \<or> f = old" "in_frame f a" for f a
  proof (rule u(10))
    have "f \<notin> fr ` set ?vs" using that(1) u(5) u(6) dualD(7) [OF so(4)] by (auto simp: placed_def)
    then show "frame_of a \<notin> fr ` set ?vs" using that(2) by (simp add: in_frame_def)
  qed
  note dm = dual_data [OF u(2) same]
  let ?t = "sti (switch_directory old (u\<lparr>mem := m\<rparr>))"
  have t: "mem ?t = m" "pmm_st ?t = pmm_st u" "cr0 ?t = cr0 u" "current_page_directory ?t = old" by (simp_all add: sti_def)
  have "vm_ok ?t" using dual_back [OF dm(1)] vm_ok_cong [of ?t "switch_directory old (u\<lparr>mem := m\<rparr>)"] by (simp add: sti_def)
  moreover have "dual old (switch_directory pd ?t)" using dual_reset [OF dm(1), where u = ?t] u(4) by (simp add: t)
  moreover have "paging_on ?t" using dualD(2) [OF u(2)] by (simp add: sti_def paging_on_def)
  ultimately have stt: "staged old pd ?t" by (simp add: staged_def t)
  have wf: "walk_frame m pd f = walk_frame (mem u) pd f" for f using dm(3) u(4) by simp
  have keep: "kept old pd s ?t"
    unfolding kept_def
  proof (intro conjI allI impI)
    show "used_blocks s \<subseteq> used_blocks ?t" "ram_top ?t = ram_top s"
      using extends_fields(12,13) [OF u(3)] A by (simp_all add: t)
    fix a assume a: "resident old pd s a"
    have "frame_of a \<notin> fr ` set ?vs" using a u(6) by (auto simp: resident_def) (metis block_of_frame)
    then show "resident old pd ?t a" "mem ?t a = mem s a"
      using u(11) [OF a] u(10) wf by (simp_all add: resident_def t)
  qed
  have look: "page_walk m pd a = vm_lookup u a" for a using dm(2) u(4) by simp
  have byte: "has_byte old pd U ?t a (segment_byte data ph a)" if a: "frame_of a \<in> set ?vs" for a
    by (rule placed_has_byte [OF u(5,4) a])
      (use u(6) [OF a] dualD(7) [OF so(4)] U u(7) [of a] u(9) [OF a] a in \<open>auto simp: t wf look\<close>)
  have teq: "?t = s\<lparr>mem := m, tlb := (\<lambda>_. None), pmm_st := pmm_st u, iflag := True\<rparr>"
  proof -
    obtain m' l p where "u = ?A\<lparr>mem := m', tlb := l, pmm_st := p\<rparr>" using u(3) by (auto simp: extends_def)
    moreover have "cr3 s = old" using vm_okD(5) [OF so(2,3)] so(1) by simp
    ultimately show ?thesis using so(1) by (cases s) (simp add: sti_def cli_def switch_directory_def write_cr3_def)
  qed
  have tq: "?t = s\<lparr>mem := mem ?t, tlb := tlb ?t, pmm_st := pmm_st ?t, iflag := True\<rparr>" by (subst teq) (simp add: sti_def)
  show thesis
    by (rule that [OF u(1) stt keep tq byte]) (use u(7,8) in \<open>simp_all add: t look free_blocks_def\<close>)
qed

subsection \<open>Reading a header into a local variable\<close>

text \<open>Bytes in blocks that are in use, but not for the active directory.\<close>

definition data_at :: "'a sys_scheme \<Rightarrow> u32 \<Rightarrow> bool" where
  "data_at s a \<longleftrightarrow> block_of a \<in> used_blocks s \<and> \<not> walk_frame (mem s) (current_page_directory s) (frame_of a)"

definition file_at :: "'a sys_scheme \<Rightarrow> fs_node \<Rightarrow> u8 list \<Rightarrow> bool" where
  "file_at s nd data \<longleftrightarrow> length data < 2 ^ 32 \<and> fs_length nd = of_nat (length data) \<and> fs_read nd = Some Tar_read \<and>
     (\<forall>i < length data. data_at s (fs_impl nd + of_nat i) \<and> mem s (fs_impl nd + of_nat i) = data ! i)"

text \<open>A local variable of \<open>n\<close> bytes at \<open>buf\<close>, apart from the file.\<close>

definition local_at :: "'a sys_scheme \<Rightarrow> fs_node \<Rightarrow> u8 list \<Rightarrow> u32 \<Rightarrow> nat \<Rightarrow> bool" where
  "local_at s nd data buf n \<longleftrightarrow> (\<forall>i < n. data_at s (buf + of_nat i) \<and> (\<forall>j < length data. buf + of_nat i \<noteq> fs_impl nd + of_nat j))"

lemma vm_ok_data:
  assumes ok: "vm_ok s" and m: "\<And>f a. walk_frame (mem s) (current_page_directory s) f \<Longrightarrow> in_frame f a \<Longrightarrow> m a = mem s a"
  shows "vm_ok (s\<lparr>mem := m\<rparr>)" "\<And>b. page_walk m (current_page_directory s) b = vm_lookup s b"
    "\<And>f. walk_frame m (current_page_directory s) f = walk_frame (mem s) (current_page_directory s) f"
proof -
  let ?pd = "current_page_directory s"
  have al: "frame_aligned ?pd" by (rule vm_okD(4) [OF ok])
  have pde: "pde_of m ?pd i = pde_of (mem s) ?pd i" if "unat i < 1024" for i
    using al that m [of ?pd] by (intro rd32_entry_cong) (auto simp: walk_frame_def)
  show look: "page_walk m ?pd b = vm_lookup s b" for b using al m by (rule page_walk_same)
  show "walk_frame m ?pd f = walk_frame (mem s) ?pd f" for f using pde by (auto simp: walk_frame_def)
  show "vm_ok (s\<lparr>mem := m\<rparr>)"
    using ok look pd_wf_cong [OF vm_okD(3) [OF ok] pde] by (simp add: vm_ok_def ram_window_def tlb_coherent_def)
qed

lemma read_local:
  fixes s :: "'a fs_scheme"
  assumes ok: "vm_ok s" "paging_on s" and fl: "file_at s (node_at r s) data" and buf: "local_at s (node_at r s) data buf n"
    and n: "n < 2 ^ 32" "unat off + n < 2 ^ 32"
  obtains m where "read_fs call_read (Some r) off (of_nat n) buf s = Ret (of_nat (length (file_part (unat off) n data))) (s\<lparr>mem := m\<rparr>)"
    "length (file_part (unat off) n data) = n \<Longrightarrow> load_bytes buf n (s\<lparr>mem := m\<rparr>) = Ret (file_part (unat off) n data) (s\<lparr>mem := m\<rparr>)"
    "\<And>a. a \<notin> (\<lambda>i. buf + of_nat i) ` {..<n} \<Longrightarrow> m a = mem s a" "vm_ok (s\<lparr>mem := m\<rparr>)"
    "\<And>b. page_walk m (current_page_directory s) b = vm_lookup s b"
    "\<And>f. walk_frame m (current_page_directory s) f = walk_frame (mem s) (current_page_directory s) f"
proof -
  let ?p = "\<lambda>i. buf + of_nat i" and ?part = "file_part (unat off) n data" and ?nd = "node_at r s"
  have un: "unat (of_nat n :: u32) = n" using n(1) by (simp add: unat_of_nat take_bit_eq_mod)
  have b: "block_of (?p i) \<in> used_blocks s" "\<not> walk_frame (mem s) (current_page_directory s) (frame_of (?p i))"
    "\<And>j. j < length data \<Longrightarrow> ?p i \<noteq> fs_impl ?nd + of_nat j" if "i < n" for i
    using buf that by (auto simp: local_at_def data_at_def)
  have f: "length data < 2 ^ 32" "fs_length ?nd = of_nat (length data)" "fs_read ?nd = Some Tar_read"
    "\<And>i. i < length data \<Longrightarrow> data_at s (fs_impl ?nd + of_nat i) \<and> mem s (fs_impl ?nd + of_nat i) = data ! i"
    using fl by (auto simp: file_at_def)
  have obj: "object_at s buf n ?p" by (rule ram_object [OF ok n(1) b(1,2)])
  moreover have "holds_data s ?nd (?p ` {..<n}) data"
  proof (rule ram_data [OF ok f(1,2)])
    fix i assume i: "i < length data"
    show "block_of (fs_impl ?nd + of_nat i) \<in> used_blocks s \<and> mem s (fs_impl ?nd + of_nat i) = data ! i \<and>
        fs_impl ?nd + of_nat i \<notin> ?p ` {..<n}"
      using f(4) [OF i] b(3) [OF _ i] by (force simp: data_at_def)
  qed (use b(2) in auto)
  ultimately obtain m where m: "tar_read r off (of_nat n) buf s = Ret (of_nat (length ?part)) (s\<lparr>mem := m\<rparr>)"
    "\<And>i. i < length ?part \<Longrightarrow> m (?p i) = ?part ! i" "\<And>a. a \<notin> ?p ` {..<length ?part} \<Longrightarrow> m a = mem s a"
    using tar_read_slice [of s r ?p "of_nat n" data buf off] n(2) by (auto simp: un)
  have le: "length ?part \<le> n" by (simp add: length_file_part)
  have out: "m a = mem s a" if "a \<notin> ?p ` {..<n}" for a
    using that le by (intro m(3)) (auto simp: image_iff)
  have same: "m a = mem s a" if "walk_frame (mem s) (current_page_directory s) g" "in_frame g a" for g a
    using that b(2) by (intro out) (auto simp: in_frame_def)
  note vd = vm_ok_data [OF ok(1) same]
  have ld: "load_bytes buf n (s\<lparr>mem := m\<rparr>) = Ret ?part (s\<lparr>mem := m\<rparr>)" if l: "length ?part = n"
  proof -
    have "load8 (?p i) (s\<lparr>mem := m\<rparr>) = Ret (?part ! i) (s\<lparr>mem := m\<rparr>)" if i: "i < length ?part" for i
    proof -
      have "stays s (?p ` {..<n}) (?p i) (?p i)" using obj i l by (simp add: object_at_def)
      then have "translate (s\<lparr>mem := m\<rparr>) (?p i) = Some (?p i)" by (rule staysD) (rule out)
      then show ?thesis using m(2) [OF i] by (simp add: load8_def)
    qed
    then have "reads (s\<lparr>mem := m\<rparr>) buf ?part" unfolding reads_def by blast
    from load_bytes_reads [OF this] show ?thesis unfolding l .
  qed
  show thesis
  proof (rule that [OF _ ld out vd])
    show "read_fs call_read (Some r) off (of_nat n) buf s = Ret (of_nat (length ?part)) (s\<lparr>mem := m\<rparr>)"
      using m(1) f(3) by (simp add: read_fs_def call_read_def)
  qed
qed

subsection \<open>The loader on all segments\<close>

lemma staged_data: "staged old pd s \<Longrightarrow> resident old pd s a \<Longrightarrow> data_at s a"
  using resident_back [of old "switch_directory pd s" a] by (simp add: staged_def data_at_def resident_def)

lemma staged_file: "staged old pd s \<Longrightarrow> file_ok old pd s nd data \<Longrightarrow> file_at s nd data"
  using staged_data [of old pd s] by (simp add: file_ok_def file_at_def)

lemma staged_write:
  assumes st: "staged old pd s" and ok: "vm_ok (s\<lparr>mem := m\<rparr>)"
    and m: "\<And>a. a \<notin> P \<Longrightarrow> m a = mem s a" and P: "\<And>a. a \<in> P \<Longrightarrow> resident old pd s a"
  shows "staged old pd (s\<lparr>mem := m\<rparr>)" "\<And>b. page_walk m pd b = page_walk (mem s) pd b"
    "\<And>a. resident old pd (s\<lparr>mem := m\<rparr>) a = resident old pd s a"
proof -
  let ?A = "switch_directory pd s"
  have d: "dual old ?A" using st by (simp add: staged_def)
  have same: "m a = mem ?A a" if "walk_frame (mem ?A) (current_page_directory ?A) f \<or> f = old" "in_frame f a" for f a
    using that P [of a] m [of a] by (auto simp: resident_def in_frame_def)
  note dd = dual_data [OF d same]
  have "?A\<lparr>mem := m\<rparr> = switch_directory pd (s\<lparr>mem := m\<rparr>)" by (simp add: switch_directory_def write_cr3_def)
  with dd(1) ok st show "staged old pd (s\<lparr>mem := m\<rparr>)" by (simp add: staged_def)
  show "page_walk m pd b = page_walk (mem s) pd b" for b using dd(2) by simp
  show "resident old pd (s\<lparr>mem := m\<rparr>) a = resident old pd s a" for a using dd(3) by (simp add: resident_def)
qed

text \<open>The program headers of a file, and the segments to load.\<close>

definition phdr_off :: "Elf32_Ehdr \<Rightarrow> nat \<Rightarrow> u32" where
  "phdr_off ehdr i = e_phoff ehdr + of_nat i * ucast (e_phentsize ehdr)"

definition phdr_of :: "u8 list \<Rightarrow> Elf32_Ehdr \<Rightarrow> nat \<Rightarrow> Elf32_Phdr" where
  "phdr_of data ehdr i = decode_phdr (file_part (unat (phdr_off ehdr i)) 32 data)"

definition load_list :: "u8 list \<Rightarrow> Elf32_Ehdr \<Rightarrow> nat list \<Rightarrow> Elf32_Phdr list" where
  "load_list data ehdr is = filter (\<lambda>ph. p_type ph = PT_LOAD) (map (phdr_of data ehdr) is)"

text \<open>
  The state after the segments \<open>phs\<close> were loaded. \<open>U\<close> are the blocks that were in use before,
  \<open>walk\<close> the address space the program started with.
\<close>

definition loading ::
  "nat set \<Rightarrow> u32 \<Rightarrow> u32 \<Rightarrow> (u32 \<Rightarrow> u32 option) \<Rightarrow> u8 list \<Rightarrow> node_ref \<Rightarrow> u32 \<Rightarrow> Elf32_Phdr list \<Rightarrow> 'a fs_scheme \<Rightarrow> bool" where
  "loading U old pd walk data r buf phs s \<longleftrightarrow> staged old pd s \<and> U \<subseteq> used_blocks s \<and> file_ok old pd s (node_at r s) data \<and>
     (\<forall>i < 32. resident old pd s (buf + of_nat i) \<and> block_of (buf + of_nat i) \<in> U \<and>
        (\<forall>j < length data. buf + of_nat i \<noteq> fs_impl (node_at r s) + of_nat j)) \<and>
     (\<forall>ph \<in> set phs. \<forall>a. frame_of a \<in> set (segment_pages ph) \<longrightarrow> has_byte old pd U s a (segment_byte data ph a)) \<and>
     (\<forall>a. (\<forall>ph \<in> set phs. frame_of a \<notin> set (segment_pages ph)) \<longrightarrow> page_walk (mem s) pd a = walk a)"

lemma loading_header:
  fixes s :: "'a fs_scheme"
  assumes ld: "loading U old pd walk data r buf phs s" and off: "unat off + 32 \<le> length data"
  obtains m where "read_fs call_read (Some r) off 32 buf s = Ret 32 (s\<lparr>mem := m\<rparr>)"
    "load_bytes buf 32 (s\<lparr>mem := m\<rparr>) = Ret (file_part (unat off) 32 data) (s\<lparr>mem := m\<rparr>)"
    "loading U old pd walk data r buf phs (s\<lparr>mem := m\<rparr>)" "kept_but ((\<lambda>i. buf + of_nat i) ` {..<32}) old pd s (s\<lparr>mem := m\<rparr>)"
    "\<And>a. a \<notin> (\<lambda>i. buf + of_nat i) ` {..<32} \<Longrightarrow> m a = mem s a"
proof -
  let ?P = "(\<lambda>i. buf + of_nat i) ` {..<32}"
  have l: "staged old pd s" "U \<subseteq> used_blocks s" "file_ok old pd s (node_at r s) data"
    "\<And>i. i < 32 \<Longrightarrow> resident old pd s (buf + of_nat i) \<and> block_of (buf + of_nat i) \<in> U \<and>
        (\<forall>j < length data. buf + of_nat i \<noteq> fs_impl (node_at r s) + of_nat j)"
    using ld by (auto simp: loading_def)
  have st: "vm_ok s" "paging_on s" using l(1) by (simp_all add: staged_def)
  have loc: "local_at s (node_at r s) data buf 32" using l(4) staged_data [OF l(1)] by (simp add: local_at_def)
  have len: "length (file_part (unat off) 32 data) = 32" using off by (simp add: length_file_part)
  have n32: "32 < (2 ^ 32 :: nat)" "unat off + 32 < 2 ^ 32" using off l(3) by (simp_all add: file_ok_def)
  obtain m where m: "read_fs call_read (Some r) off (of_nat 32) buf s = Ret (of_nat (length (file_part (unat off) 32 data))) (s\<lparr>mem := m\<rparr>)"
    "load_bytes buf 32 (s\<lparr>mem := m\<rparr>) = Ret (file_part (unat off) 32 data) (s\<lparr>mem := m\<rparr>)"
    "\<And>a. a \<notin> ?P \<Longrightarrow> m a = mem s a" "vm_ok (s\<lparr>mem := m\<rparr>)"
    using read_local [OF st staged_file [OF l(1,3)] loc n32] len by metis
  have res: "resident old pd s a" if "a \<in> ?P" for a using that l(4) by auto
  note sw = staged_write [OF l(1) m(4,3) res]
  have fo: "file_ok old pd (s\<lparr>mem := m\<rparr>) (node_at r s) data"
  proof -
    have "m (fs_impl (node_at r s) + of_nat j) = mem s (fs_impl (node_at r s) + of_nat j)" if "j < length data" for j
      using l(4) that by (intro m(3)) force
    then show ?thesis using l(3) sw(3) by (simp add: file_ok_def)
  qed
  have hb: "has_byte old pd U (s\<lparr>mem := m\<rparr>) a b" if h: "has_byte old pd U s a b" for a b
  proof -
    obtain pte where pte: "page_walk (mem s) pd a = Some pte" "pte AND 7 = 7" "block_of (frame_of pte OR (a AND 0xFFF)) \<notin> U"
      "resident old pd s (frame_of pte OR (a AND 0xFFF))" "mem s (frame_of pte OR (a AND 0xFFF)) = b"
      using h by (auto simp: has_byte_def Let_def)
    have "frame_of pte OR (a AND 0xFFF) \<notin> ?P" using pte(3) l(4) by auto
    then show ?thesis using pte m(3) sw(2,3) by (simp add: has_byte_def Let_def)
  qed
  have "loading U old pd walk data r buf phs (s\<lparr>mem := m\<rparr>)"
    using ld sw fo hb l(2,4) unfolding loading_def by simp
  moreover have "kept_but ?P old pd s (s\<lparr>mem := m\<rparr>)" using m(3) sw(3) by (simp add: kept_but_def)
  ultimately show thesis using m(1-3) len by (intro that [of m]) simp_all
qed

lemma loading_segment:
  fixes s :: "'a fs_scheme"
  assumes ld: "loading U old pd walk data r buf phs s" and seg: "segment_ok s data ph"
    and free: "2 * length (segment_pages ph) \<le> free_blocks s"
    and apart: "\<And>q. q \<in> set phs \<Longrightarrow> set (segment_pages q) \<inter> set (segment_pages ph) = {}"
  obtains t segs' where "load_segment r ph pd segs s = Ret (segs', True) t" "loading U old pd walk data r buf (phs @ [ph]) t"
    "t = s\<lparr>mem := mem t, tlb := tlb t, pmm_st := pmm_st t, iflag := True\<rparr>" "ram_top t = ram_top s"
    "free_blocks s \<le> free_blocks t + 2 * length (segment_pages ph)" "kept old pd s t"
proof -
  have l: "staged old pd s" "U \<subseteq> used_blocks s" "file_ok old pd s (node_at r s) data"
    using ld by (auto simp: loading_def)
  obtain t segs' where t: "load_segment r ph pd segs s = Ret (segs', True) t" "staged old pd t" "kept old pd s t"
    "t = s\<lparr>mem := mem t, tlb := tlb t, pmm_st := pmm_st t, iflag := True\<rparr>"
    "\<And>a. frame_of a \<in> set (segment_pages ph) \<Longrightarrow> has_byte old pd U t a (segment_byte data ph a)"
    "\<And>a. frame_of a \<notin> set (segment_pages ph) \<Longrightarrow> page_walk (mem t) pd a = page_walk (mem s) pd a"
    "free_blocks s \<le> free_blocks t + 2 * length (segment_pages ph)"
    by (rule load_segment_spec [OF l(1,3) seg free l(2)]) (rule that)
  have nd: "node_at r t = node_at r s" by (subst t(4)) (cases r; simp add: node_at_def)
  have k: "used_blocks s \<subseteq> used_blocks t" "ram_top t = ram_top s"
    "\<And>a. resident old pd s a \<Longrightarrow> resident old pd t a" "\<And>a. resident old pd s a \<Longrightarrow> mem t a = mem s a"
    using t(3) by (auto simp: kept_def)
  have old: "has_byte old pd U t a (segment_byte data q a)" if "q \<in> set phs" "frame_of a \<in> set (segment_pages q)" for q a
  proof (rule has_byte_kept [OF _ t(3)])
    show "has_byte old pd U s a (segment_byte data q a)" using ld that by (auto simp: loading_def)
    show "page_walk (mem t) pd a = page_walk (mem s) pd a" using apart [OF that(1)] that(2) by (intro t(6)) auto
  qed
  have "loading U old pd walk data r buf (phs @ [ph]) t"
    unfolding loading_def nd
  proof (intro conjI)
    show "file_ok old pd t (node_at r s) data" using l(3) k(3,4) by (auto simp: file_ok_def)
  qed (use ld t(2,5,6) k old in \<open>auto simp: loading_def\<close>)
  then show thesis using t(1,3,4,7) k(2) by (intro that)
qed

subsection \<open>All program headers\<close>

lemma load_headers_spec:
  fixes s :: "'a fs_scheme"
  assumes "loading U old pd walk data r buf phs s" "\<forall>i \<in> set is. unat (phdr_off ehdr i) + 32 \<le> length data"
    "\<forall>ph \<in> set (load_list data ehdr is). segment_ok s data ph"
    "distinct (concat (map segment_pages (phs @ load_list data ehdr is)))"
    "2 * length (concat (map segment_pages (load_list data ehdr is))) \<le> free_blocks s"
  shows "\<exists>t segs'. load_headers r ehdr buf pd is segs s = Ret (segs', True) t \<and>
    loading U old pd walk data r buf (phs @ load_list data ehdr is) t \<and>
    t = s\<lparr>mem := mem t, tlb := tlb t, pmm_st := pmm_st t, iflag := iflag s \<or> load_list data ehdr is \<noteq> []\<rparr> \<and>
    kept_but ((\<lambda>i. buf + of_nat i) ` {..<32}) old pd s t \<and>
    free_blocks s \<le> free_blocks t + 2 * length (concat (map segment_pages (load_list data ehdr is)))"
  using assms
proof (induction "is" arbitrary: s phs segs)
  case Nil
  then show ?case by (simp add: load_list_def)
next
  case (Cons i "is")
  have off: "unat (phdr_off ehdr i) + 32 \<le> length data" using Cons.prems(2) by simp
  obtain m where m: "read_fs call_read (Some r) (phdr_off ehdr i) 32 buf s = Ret 32 (s\<lparr>mem := m\<rparr>)"
    "load_bytes buf 32 (s\<lparr>mem := m\<rparr>) = Ret (file_part (unat (phdr_off ehdr i)) 32 data) (s\<lparr>mem := m\<rparr>)"
    "loading U old pd walk data r buf phs (s\<lparr>mem := m\<rparr>)" "kept_but ((\<lambda>i. buf + of_nat i) ` {..<32}) old pd s (s\<lparr>mem := m\<rparr>)"
    by (rule loading_header [OF Cons.prems(1) off]) (rule that)
  let ?s = "s\<lparr>mem := m\<rparr>" and ?ph = "phdr_of data ehdr i" and ?P = "(\<lambda>i. buf + of_nat i) ` {..<32}"
  have so: "segment_ok t data q = segment_ok s data q" if "ram_top t = ram_top s" for t :: "'a fs_scheme" and q
    using that by (simp add: segment_ok_def)
  have fb: "free_blocks ?s = free_blocks s" by (simp add: free_blocks_def)
  show ?case
  proof (cases "p_type ?ph = PT_LOAD")
    case False
    then have ll: "load_list data ehdr (i # is) = load_list data ehdr is" by (simp add: load_list_def)
    have step: "load_headers r ehdr buf pd (i # is) segs s = load_headers r ehdr buf pd is segs ?s"
      using m(1,2) False by (simp add: phdr_off_def phdr_of_def)
    have "\<exists>t segs'. load_headers r ehdr buf pd is segs ?s = Ret (segs', True) t \<and>
        loading U old pd walk data r buf (phs @ load_list data ehdr is) t \<and>
        t = ?s\<lparr>mem := mem t, tlb := tlb t, pmm_st := pmm_st t, iflag := iflag ?s \<or> load_list data ehdr is \<noteq> []\<rparr> \<and>
        kept_but ?P old pd ?s t \<and> free_blocks ?s \<le> free_blocks t + 2 * length (concat (map segment_pages (load_list data ehdr is)))"
      using Cons.prems(2-5) so [of ?s] fb unfolding ll by (intro Cons.IH [OF m(3)]) simp_all
    then show ?thesis unfolding step ll fb using kept_but_trans [OF m(4)] by auto
  next
    case True
    then have ll: "load_list data ehdr (i # is) = ?ph # load_list data ehdr is" by (simp add: load_list_def)
    have p: "segment_ok ?s data ?ph" "2 * length (segment_pages ?ph) \<le> free_blocks ?s"
      using Cons.prems(3,5) so [of ?s] fb unfolding ll by simp_all
    have ap: "set (segment_pages q) \<inter> set (segment_pages ?ph) = {}" if "q \<in> set phs" for q
      using Cons.prems(4) that unfolding ll by auto
    obtain t segs1 where t: "load_segment r ?ph pd segs ?s = Ret (segs1, True) t" "loading U old pd walk data r buf (phs @ [?ph]) t"
      "t = ?s\<lparr>mem := mem t, tlb := tlb t, pmm_st := pmm_st t, iflag := True\<rparr>" "ram_top t = ram_top ?s"
      "free_blocks ?s \<le> free_blocks t + 2 * length (segment_pages ?ph)" "kept old pd ?s t"
      by (rule loading_segment [OF m(3) p ap, of segs]) (assumption | rule that)+
    have step: "load_headers r ehdr buf pd (i # is) segs s = load_headers r ehdr buf pd is segs1 t"
      using m(1,2) True t(1) by (simp add: phdr_off_def phdr_of_def)
    have rt: "ram_top t = ram_top s" using t(4) by simp
    have "\<exists>u segs'. load_headers r ehdr buf pd is segs1 t = Ret (segs', True) u \<and>
        loading U old pd walk data r buf ((phs @ [?ph]) @ load_list data ehdr is) u \<and>
        u = t\<lparr>mem := mem u, tlb := tlb u, pmm_st := pmm_st u, iflag := iflag t \<or> load_list data ehdr is \<noteq> []\<rparr> \<and>
        kept_but ?P old pd t u \<and> free_blocks t \<le> free_blocks u + 2 * length (concat (map segment_pages (load_list data ehdr is)))"
      using Cons.prems(2-5) so [OF rt] t(5) fb unfolding ll by (intro Cons.IH [OF t(2)]) simp_all
    then obtain u segs' where u: "load_headers r ehdr buf pd is segs1 t = Ret (segs', True) u"
      "loading U old pd walk data r buf ((phs @ [?ph]) @ load_list data ehdr is) u"
      "u = t\<lparr>mem := mem u, tlb := tlb u, pmm_st := pmm_st u, iflag := iflag t \<or> load_list data ehdr is \<noteq> []\<rparr>"
      "kept_but ?P old pd t u" "free_blocks t \<le> free_blocks u + 2 * length (concat (map segment_pages (load_list data ehdr is)))" by blast
    have ke: "kept_but ?P old pd s u" using kept_but_trans [OF m(4) kept_but_trans [OF kept_kept_but [OF t(6)] u(4)]] .
    have fr: "free_blocks s \<le> free_blocks u + 2 * length (concat (map segment_pages (?ph # load_list data ehdr is)))"
      using t(5) u(5) fb by simp
    have "iflag t" by (subst t(3)) simp
    then have "u = t\<lparr>mem := mem u, tlb := tlb u, pmm_st := pmm_st u, iflag := True\<rparr>" using u(3) by simp
    then have "u = s\<lparr>mem := mem u, tlb := tlb u, pmm_st := pmm_st u, iflag := True\<rparr>" by (subst (asm) t(3)) simp
    then show ?thesis using u(1,2) ke fr unfolding step ll by (intro exI [of _ u] exI [of _ segs']) simp
  qed
qed

subsection \<open>The directory of the new process\<close>

lemma copy_directory:
  fixes s :: "'a fs_scheme"
  assumes ok: "vm_ok s" "paging_on s" and al: "pmm_alloc_block (pmm_st s) = (pd, q)" "pd \<noteq> 0"
  defines "t \<equiv> s\<lparr>pmm_st := q, mem := \<lambda>a. if in_frame pd a then mem s (current_page_directory s + (a - pd)) else mem s a\<rparr>"
  shows "memcpy pd (current_page_directory s) 4096 (s\<lparr>pmm_st := q\<rparr>) = Ret pd t"
    "staged (current_page_directory s) pd t" "\<And>a. page_walk (mem t) pd a = vm_lookup s a"
    "\<And>a. data_at s a \<Longrightarrow> resident (current_page_directory s) pd t a \<and> mem t a = mem s a"
    "\<And>a. \<not> in_frame pd a \<Longrightarrow> mem t a = mem s a" "used_blocks t = insert (block_of pd) (used_blocks s)"
    "free_blocks s = free_blocks t + 1" "block_of pd \<notin> used_blocks s" "ram_top t = ram_top s"
    "\<And>i. unat i < 1024 \<Longrightarrow> pde_of (mem t) pd i = pde_of (mem s) (current_page_directory s) i"
proof -
  let ?old = "current_page_directory s" and ?s = "s\<lparr>pmm_st := q\<rparr>"
  note fr = fresh_frame [OF ok(1) al] and wf = vm_okD(3) [OF ok(1)]
  note w = pd_wfD [OF wf]
  have ok1: "vm_ok ?s" by (rule vm_ok_alloc [OF ok(1) al]) simp_all
  have ne: "pd \<noteq> ?old" using fr(2) w(2) by auto
  have nw: "\<not> walk_frame (mem ?s) (current_page_directory ?s) pd" using fr(7) by simp
  have r: "unat pd + 4096 \<le> ram_top ?s" "unat ?old + 4096 \<le> ram_top ?s"
    using fr(3,6) used_in_ram [OF w(1,2)] by simp_all
  have m: "mem t = (\<lambda>a. if in_frame pd a then mem s (?old + (a - pd)) else mem s a)" "pmm_st t = q" "cr0 t = cr0 s" "cr3 t = cr3 s"
    "tlb t = tlb s" "current_page_directory t = ?old" by (simp_all add: t_def)
  show "memcpy pd ?old 4096 ?s = Ret pd t"
    using memcpy_frame [OF fr(1) w(1) ne ident_under_frame [OF ok1 fr(1) r(1) nw] ident_under_frame [OF ok1 w(1) r(2) nw]]
    by (simp add: t_def cong: if_cong)
  show out: "mem t a = mem s a" if "\<not> in_frame pd a" for a using that by (simp add: m)
  show ub: "used_blocks t = insert (block_of pd) (used_blocks s)" using fr(4) by (simp add: m)
  show "ram_top t = ram_top s" using fr(6) by (simp add: m)
  show "block_of pd \<notin> used_blocks s" by (rule fr(2))
  show "free_blocks s = free_blocks t + 1" using free_blocks_alloc [OF ok(1) al] by (simp add: free_blocks_def m)
  show pdn: "pde_of (mem t) pd i = pde_of (mem s) ?old i" if i: "unat i < 1024" for i
  proof -
    have b: "mem t (pd + 4 * i + of_nat k) = mem s (?old + 4 * i + of_nat k)" if "k < 4" for k
      using in_frame_entry [OF fr(1) i that] by (simp add: m algebra_simps)
    show ?thesis using b [of 0] b [of 1] b [of 2] b [of 3] by (simp add: rd32_def)
  qed
  have tabs: "f \<noteq> pd" if "walk_frame (mem s) ?old f" for f using that fr(7) by auto
  have same: "mem t a = mem s a" if "walk_frame (mem s) ?old f" "in_frame f a" for f a
    using tabs [OF that(1)] that(2) by (intro out) (auto dest: in_frame_unique)
  have pdo: "pde_of (mem t) ?old i = pde_of (mem s) ?old i" if "unat i < 1024" for i
    using w(1) that same [of ?old] by (intro rd32_entry_cong) (auto simp: walk_frame_def)
  have pt: "rd32 (mem t) (frame_of (pde_of (mem s) ?old i) + 4 * j) = rd32 (mem s) (frame_of (pde_of (mem s) ?old i) + 4 * j)"
    if "unat i < 1024" "pde_of (mem s) ?old i AND 1 \<noteq> 0" "unat j < 1024" for i j
    using that same by (intro rd32_entry_cong) (auto simp: walk_frame_def)
  show look: "page_walk (mem t) pd a = vm_lookup s a" for a
    using pt [of "pdx a" "ptx a"] by (auto simp: page_walk_def pdn Let_def)
  have wfn: "walk_frame (mem t) pd f \<longleftrightarrow> f = pd \<or> (f \<noteq> ?old \<and> walk_frame (mem s) ?old f)" for f
    using pdn w(3) by (auto simp: walk_frame_def)
  have wfo: "walk_frame (mem t) ?old f = walk_frame (mem s) ?old f" for f using pdo by (auto simp: walk_frame_def)
  have "pd_wf (mem t) pd (used_blocks t)"
    unfolding pd_wf_def ub
  proof (intro conjI allI impI, goal_cases)
    case (3 i)
    then have "walk_frame (mem s) ?old (frame_of (pde_of (mem s) ?old i))" using pdn by (auto simp: walk_frame_def)
    from tabs [OF this] 3 show ?case using pdn by simp
  qed (use fr(1) w(4,5,6) pdn in auto)
  moreover have "ram_window (switch_directory pd t)"
    using vm_okD(6) [OF ok] look fr(6) by (simp add: ram_window_def m)
  ultimately have okn: "vm_ok (switch_directory pd t)"
    using ok1 by (simp add: vm_ok_def tlb_coherent_def m)
  have win: "pde_of (mem t) ?old (pdx a) AND 1 \<noteq> 0" if "unat a < ram_top t" for a
    using vm_okD(6) [OF ok] that fr(6) pdo [of "pdx a"] by (auto simp: ram_window_def page_walk_def m split: if_splits)
  have "\<not> walk_frame (mem t) pd ?old" "\<not> walk_frame (mem t) ?old pd" using wfn wfo ne fr(7) by auto
  moreover have "pd_wf (mem t) ?old (used_blocks t)"
    using pd_wf_mono [OF pd_wf_cong [OF wf pdo], of "used_blocks t"] ub by auto
  ultimately have "dual ?old (switch_directory pd t)"
    using okn ok(2) win pdn pdo by (simp add: dual_def m paging_on_def)
  moreover have "vm_ok t"
  proof -
    have "page_walk (mem t) ?old a = vm_lookup s a" for a
      by (rule page_walk_same [OF w(1) same])
    then show ?thesis
      using ok1 ok(2) \<open>pd_wf (mem t) ?old (used_blocks t)\<close> by (simp add: vm_ok_def ram_window_def tlb_coherent_def m paging_on_def)
  qed
  ultimately show "staged ?old pd t" using ok(2) by (simp add: staged_def m paging_on_def)
  show "resident ?old pd t a \<and> mem t a = mem s a" if "data_at s a" for a
  proof -
    have a: "block_of a \<in> used_blocks s" "\<not> walk_frame (mem s) ?old (frame_of a)" using that by (auto simp: data_at_def)
    then have "frame_of a \<noteq> pd" using fr(2) block_of_frame [of a] by auto
    moreover have "frame_of a \<noteq> ?old" using a(2) by (auto simp: walk_frame_def)
    ultimately show ?thesis using a wfn out ub by (auto simp: resident_def in_frame_def)
  qed
qed

subsection \<open>Loading a program\<close>

lemma file_part_0: "file_part 0 n data = take n data"
  by (simp add: file_part_def)

lemma elf_header_read:
  fixes s :: "'a fs_scheme"
  assumes ok: "vm_ok s" "paging_on s" and fl: "file_at s (node_at r s) data" and buf: "local_at s (node_at r s) data buf 52"
    and find: "find_node_by_path call_finddir path s = Some (Some r)"
  obtains m where "elf_load path buf buf2 s =
      (if length data < 52 then elf_error ''[ELF] Error: Failed to read ELF header\<newline>'' (s\<lparr>mem := m\<rparr>)
       else case elf_check (decode_ehdr (take 52 data)) of
         Some msg \<Rightarrow> elf_error msg (s\<lparr>mem := m\<rparr>)
       | None \<Rightarrow> elf_build r (decode_ehdr (take 52 data)) buf2 (s\<lparr>mem := m\<rparr>))"
    "\<And>a. a \<notin> (\<lambda>i. buf + of_nat i) ` {..<52} \<Longrightarrow> m a = mem s a" "vm_ok (s\<lparr>mem := m\<rparr>)"
    "\<And>b. page_walk m (current_page_directory s) b = vm_lookup s b"
    "\<And>a. data_at (s\<lparr>mem := m\<rparr>) a = data_at s a"
proof -
  have n: "52 < (2 ^ 32 :: nat)" "unat (0 :: u32) + 52 < 2 ^ 32" by simp_all
  obtain m where m: "read_fs call_read (Some r) 0 (of_nat 52) buf s = Ret (of_nat (length (file_part (unat (0 :: u32)) 52 data))) (s\<lparr>mem := m\<rparr>)"
    "length (file_part (unat (0 :: u32)) 52 data) = 52 \<Longrightarrow> load_bytes buf 52 (s\<lparr>mem := m\<rparr>) = Ret (file_part (unat (0 :: u32)) 52 data) (s\<lparr>mem := m\<rparr>)"
    "\<And>a. a \<notin> (\<lambda>i. buf + of_nat i) ` {..<52} \<Longrightarrow> m a = mem s a" "vm_ok (s\<lparr>mem := m\<rparr>)"
    "\<And>b. page_walk m (current_page_directory s) b = vm_lookup s b"
    "\<And>f. walk_frame m (current_page_directory s) f = walk_frame (mem s) (current_page_directory s) f"
    by (rule read_local [OF ok fl buf n]) (rule that)
  have rd: "read_fs call_read (Some r) 0 52 buf s = Ret (of_nat (length (take 52 data))) (s\<lparr>mem := m\<rparr>)"
    using m(1) by (simp add: file_part_0)
  have "unat (of_nat (length (take 52 data)) :: u32) = min (length data) 52" by (simp add: unat_of_nat take_bit_eq_mod)
  then have lt: "(of_nat (length (take 52 data)) :: u32) < 52 \<longleftrightarrow> length data < 52" by (simp add: word_less_nat_alt min_def)
  have ld: "load_bytes buf 52 (s\<lparr>mem := m\<rparr>) = Ret (take 52 data) (s\<lparr>mem := m\<rparr>)" if "\<not> length data < 52"
    using m(2) that by (simp add: file_part_0)
  have "elf_load path buf buf2 s =
      (if length data < 52 then elf_error ''[ELF] Error: Failed to read ELF header\<newline>'' (s\<lparr>mem := m\<rparr>)
       else case elf_check (decode_ehdr (take 52 data)) of
         Some msg \<Rightarrow> elf_error msg (s\<lparr>mem := m\<rparr>)
       | None \<Rightarrow> elf_build r (decode_ehdr (take 52 data)) buf2 (s\<lparr>mem := m\<rparr>))"
    unfolding elf_load_def find using rd lt ld by (simp add: Let_def del: of_nat_numeral length_take)
  with m(3-6) show thesis by (intro that [of m]) (simp_all add: data_at_def)
qed

text \<open>The state in which the program headers are read.\<close>

lemma elf_build_start:
  fixes s :: "'a fs_scheme"
  assumes ok: "vm_ok s" "paging_on s" and fl: "file_at s (node_at r s) data" and buf: "local_at s (node_at r s) data buf 32"
    and free: "0 < free_blocks s"
  obtains t pd where "elf_build r ehdr buf s =
      obind (load_headers r ehdr buf pd [0..<unat (e_phnum ehdr)] [] t) (\<lambda>(segs, ok) s.
        if ok then Ret (Some (e_entry ehdr, pd)) s else Ret None (elf_cleanup segs pd s))"
    "loading (used_blocks s) (current_page_directory s) pd (vm_lookup s) data r buf [] t"
    "t = s\<lparr>mem := mem t, pmm_st := pmm_st t\<rparr>" "free_blocks s = free_blocks t + 1" "ram_top t = ram_top s"
    "block_of pd \<notin> used_blocks s" "blocks_in_use (pmm_free_block pd (pmm_st t)) = used_blocks s" "pmm_inv (pmm_free_block pd (pmm_st t))"
    "\<And>a. block_of a \<in> used_blocks s \<Longrightarrow> mem t a = mem s a"
    "\<And>a. data_at s a \<Longrightarrow> resident (current_page_directory s) pd t a"
    "\<And>i. unat i < 1024 \<Longrightarrow> pde_of (mem t) pd i = pde_of (mem s) (current_page_directory s) i"
proof -
  obtain pd q where al: "pmm_alloc_block (pmm_st s) = (pd, q)" by (metis surj_pair)
  have "used_blocks s \<noteq> all_blocks (pmm_st s)" using free free_blocks_0 [of s] by auto
  then have pd: "pd \<noteq> 0" using fa.alloc_null_iff [OF vm_okD(1,2) [OF ok(1)]] al by (simp add: all_blocks_def)
  note c = copy_directory [OF ok al pd]
  let ?t = "s\<lparr>pmm_st := q, mem := \<lambda>a. if in_frame pd a then mem s (current_page_directory s + (a - pd)) else mem s a\<rparr>"
  have nd: "node_at r ?t = node_at r s" by (cases r) (simp_all add: node_at_def)
  have "file_ok (current_page_directory s) pd ?t (node_at r s) data"
    using fl c(4) by (simp add: file_at_def file_ok_def)
  moreover have "\<forall>i < 32. resident (current_page_directory s) pd ?t (buf + of_nat i) \<and> block_of (buf + of_nat i) \<in> used_blocks s \<and>
      (\<forall>j < length data. buf + of_nat i \<noteq> fs_impl (node_at r s) + of_nat j)"
    using buf c(4) by (simp add: local_at_def data_at_def)
  ultimately have ld: "loading (used_blocks s) (current_page_directory s) pd (vm_lookup s) data r buf [] ?t"
    unfolding loading_def nd using c(2,3,6) by auto
  have b: "elf_build r ehdr buf s = obind (load_headers r ehdr buf pd [0..<unat (e_phnum ehdr)] [] ?t) (\<lambda>(segs, ok) s.
        if ok then Ret (Some (e_entry ehdr, pd)) s else Ret None (elf_cleanup segs pd s))"
    using al pd c(1) by (simp add: elf_build_def alloc_block_def)
  have f: "blocks_in_use (pmm_free_block pd q) = used_blocks s"
    by (rule fa.free_alloc [OF vm_okD(1,2) [OF ok(1)] al pd])
  have i: "pmm_inv (pmm_free_block pd q)" using fa.free_ok fresh_frame(5) [OF ok(1) al pd] by blast
  have o: "mem ?t a = mem s a" if "block_of a \<in> used_blocks s" for a
    using that c(5,8) block_of_frame [of a] by (auto simp: in_frame_def)
  show thesis
    by (rule that [OF b ld _ c(7,9,8)]) (use f i o c(4) c(10) in simp_all)
qed

lemma local_at_cong: "(\<And>a. data_at t a = data_at s a) \<Longrightarrow> local_at t nd data buf n = local_at s nd data buf n"
  by (simp add: local_at_def)

lemma file_at_written:
  assumes "file_at s nd data" "local_at s nd data buf n" "\<And>a. a \<notin> (\<lambda>i. buf + of_nat i) ` {..<n} \<Longrightarrow> m a = mem s a"
    "\<And>a. data_at (s\<lparr>mem := m\<rparr>) a = data_at s a"
  shows "file_at (s\<lparr>mem := m\<rparr>) nd data"
proof -
  have "m (fs_impl nd + of_nat j) = mem s (fs_impl nd + of_nat j)" if "j < length data" for j
    using assms(2) that by (intro assms(3)) (force simp: local_at_def)
  then show ?thesis using assms(1,4) by (simp add: file_at_def)
qed

lemma elf_load_start:
  fixes s :: "'a fs_scheme"
  assumes ok: "vm_ok s" "paging_on s" "find_node_by_path call_finddir path s = Some (Some r)" "file_at s (node_at r s) data"
    and lo1: "local_at s (node_at r s) data ehdr_addr 52" and lo2: "local_at s (node_at r s) data phdr_addr 32"
    and hd: "52 \<le> length data" "ehdr = decode_ehdr (take 52 data)" "elf_check ehdr = None" and free: "0 < free_blocks s"
  obtains u pd where "elf_load path ehdr_addr phdr_addr s =
      obind (load_headers r ehdr phdr_addr pd [0..<unat (e_phnum ehdr)] [] u) (\<lambda>(segs, ok) s.
        if ok then Ret (Some (e_entry ehdr, pd)) s else Ret None (elf_cleanup segs pd s))"
    "loading (used_blocks s) (current_page_directory s) pd (vm_lookup s) data r phdr_addr [] u"
    "u = s\<lparr>mem := mem u, pmm_st := pmm_st u\<rparr>" "free_blocks s = free_blocks u + 1" "ram_top u = ram_top s" "block_of pd \<notin> used_blocks s"
    "blocks_in_use (pmm_free_block pd (pmm_st u)) = used_blocks s" "pmm_inv (pmm_free_block pd (pmm_st u))"
    "\<And>a. block_of a \<in> used_blocks s \<Longrightarrow> a \<notin> (\<lambda>i. ehdr_addr + of_nat i) ` {..<52} \<Longrightarrow> mem u a = mem s a"
    "\<And>a. data_at s a \<Longrightarrow> resident (current_page_directory s) pd u a"
    "\<And>i. unat i < 1024 \<Longrightarrow> pde_of (mem u) pd i = pde_of (mem s) (current_page_directory s) i"
    "\<And>b. page_walk (mem u) (current_page_directory s) b = vm_lookup s b"
proof -
  let ?old = "current_page_directory s"
  obtain m where m: "elf_load path ehdr_addr phdr_addr s =
      (if length data < 52 then elf_error ''[ELF] Error: Failed to read ELF header\<newline>'' (s\<lparr>mem := m\<rparr>)
       else case elf_check (decode_ehdr (take 52 data)) of
         Some msg \<Rightarrow> elf_error msg (s\<lparr>mem := m\<rparr>)
       | None \<Rightarrow> elf_build r (decode_ehdr (take 52 data)) phdr_addr (s\<lparr>mem := m\<rparr>))"
    "\<And>a. a \<notin> (\<lambda>i. ehdr_addr + of_nat i) ` {..<52} \<Longrightarrow> m a = mem s a" "vm_ok (s\<lparr>mem := m\<rparr>)"
    "\<And>b. page_walk m ?old b = vm_lookup s b" "\<And>a. data_at (s\<lparr>mem := m\<rparr>) a = data_at s a"
    by (rule elf_header_read [OF ok(1,2,4) lo1 ok(3)]) (rule that)
  let ?s = "s\<lparr>mem := m\<rparr>"
  have fl: "file_at ?s (node_at r ?s) data" using file_at_written [OF ok(4) lo1 m(2,5)] by simp
  have lo: "local_at ?s (node_at r ?s) data phdr_addr 32" using local_at_cong [OF m(5)] lo2 by simp
  have fb: "free_blocks ?s = free_blocks s" by (simp add: free_blocks_def)
  have pos: "0 < free_blocks ?s" "paging_on ?s" using ok(2) free fb by simp_all
  obtain u pd where u: "elf_build r ehdr phdr_addr ?s =
      obind (load_headers r ehdr phdr_addr pd [0..<unat (e_phnum ehdr)] [] u) (\<lambda>(segs, ok) s.
        if ok then Ret (Some (e_entry ehdr, pd)) s else Ret None (elf_cleanup segs pd s))"
    "loading (used_blocks ?s) (current_page_directory ?s) pd (vm_lookup ?s) data r phdr_addr [] u"
    "u = ?s\<lparr>mem := mem u, pmm_st := pmm_st u\<rparr>" "free_blocks ?s = free_blocks u + 1" "ram_top u = ram_top ?s" "block_of pd \<notin> used_blocks ?s"
    "blocks_in_use (pmm_free_block pd (pmm_st u)) = used_blocks ?s" "pmm_inv (pmm_free_block pd (pmm_st u))"
    "\<And>a. block_of a \<in> used_blocks ?s \<Longrightarrow> mem u a = mem ?s a"
    "\<And>a. data_at ?s a \<Longrightarrow> resident (current_page_directory ?s) pd u a"
    "\<And>i. unat i < 1024 \<Longrightarrow> pde_of (mem u) pd i = pde_of (mem ?s) (current_page_directory ?s) i"
    by (rule elf_build_start [OF m(3) pos(2) fl lo pos(1), of ehdr]) (rule that)
  note os = pd_wfD(1) [OF vm_okD(3) [OF ok(1)]]
  have "m a = mem s a" if "in_frame ?old a" for a
    using lo1 that by (intro m(2)) (auto simp: local_at_def data_at_def in_frame_def walk_frame_def)
  then have pde: "pde_of m ?old i = pde_of (mem s) ?old i" if "unat i < 1024" for i using that by (intro rd32_entry_cong [OF os])
  have walk: "page_walk (mem u) ?old b = vm_lookup s b" for b
  proof -
    have "page_walk (mem u) ?old b = page_walk m ?old b"
    proof (rule page_walk_same [OF os])
      show "mem u a = m a" if "walk_frame m ?old f" "in_frame f a" for f a
        using u(9) [of a] walk_frame_used [of m ?old "used_blocks s" f] vm_okD(3) [OF m(3)] that block_of_frame [of a] by (auto simp: in_frame_def)
    qed
    then show ?thesis using m(4) [of b] by simp
  qed
  have "vm_lookup ?s = vm_lookup s" using m(4) by auto
  then have ld: "loading (used_blocks s) ?old pd (vm_lookup s) data r phdr_addr [] u" using u(2) by simp
  have run: "elf_load path ehdr_addr phdr_addr s = elf_build r ehdr phdr_addr ?s" using m(1) hd by simp
  have same: "mem u a = mem s a" if "block_of a \<in> used_blocks s" "a \<notin> (\<lambda>i. ehdr_addr + of_nat i) ` {..<52}" for a
    using u(9) [of a] m(2) [of a] that by simp
  have ueq: "u = s\<lparr>mem := mem u, pmm_st := pmm_st u\<rparr>" using u(3) by simp
  show thesis
    by (rule that [OF run [unfolded u(1)] ld ueq]) (use u(4-8,10,11) m(5) fb pde same walk in simp_all)
qed

lemma elf_load_spec:
  fixes s :: "'a fs_scheme"
  assumes ok: "vm_ok s" "paging_on s" "find_node_by_path call_finddir path s = Some (Some r)" "file_at s (node_at r s) data"
    and lo1: "local_at s (node_at r s) data ehdr_addr 52" and lo2: "local_at s (node_at r s) data phdr_addr 32"
    and hd: "52 \<le> length data" "ehdr = decode_ehdr (take 52 data)" "elf_check ehdr = None"
    and ph: "\<forall>i \<in> {0..<unat (e_phnum ehdr)}. unat (phdr_off ehdr i) + 32 \<le> length data"
    and sg: "phs = load_list data ehdr [0..<unat (e_phnum ehdr)]" "\<forall>ph \<in> set phs. segment_ok s data ph"
      "distinct (concat (map segment_pages phs))" "2 * length (concat (map segment_pages phs)) + 1 \<le> free_blocks s"
  obtains t pd where "elf_load path ehdr_addr phdr_addr s = Ret (Some (e_entry ehdr, pd)) t"
    "staged (current_page_directory s) pd t"
    "t = s\<lparr>mem := mem t, tlb := tlb t, pmm_st := pmm_st t, iflag := iflag s \<or> phs \<noteq> []\<rparr>"
    "\<And>ph a. ph \<in> set phs \<Longrightarrow> frame_of a \<in> set (segment_pages ph) \<Longrightarrow>
       has_byte (current_page_directory s) pd (used_blocks s) t a (segment_byte data ph a)"
    "\<And>a. (\<forall>ph \<in> set phs. frame_of a \<notin> set (segment_pages ph)) \<Longrightarrow> page_walk (mem t) pd a = vm_lookup s a"
    "\<And>a. data_at s a \<Longrightarrow> resident (current_page_directory s) pd t a" "block_of pd \<notin> used_blocks s"
    "\<And>a. data_at s a \<Longrightarrow> a \<notin> (\<lambda>i. ehdr_addr + of_nat i) ` {..<52} \<Longrightarrow> a \<notin> (\<lambda>i. phdr_addr + of_nat i) ` {..<32} \<Longrightarrow> mem t a = mem s a"
    "used_blocks s \<subseteq> used_blocks t" "ram_top t = ram_top s"
    "free_blocks s \<le> free_blocks t + 2 * length (concat (map segment_pages phs)) + 1"
proof -
  let ?old = "current_page_directory s" and ?P = "(\<lambda>i. phdr_addr + of_nat i) ` {..<32}"
  have free: "0 < free_blocks s" using sg(4) by simp
  obtain u pd where u: "elf_load path ehdr_addr phdr_addr s =
      obind (load_headers r ehdr phdr_addr pd [0..<unat (e_phnum ehdr)] [] u) (\<lambda>(segs, ok) s.
        if ok then Ret (Some (e_entry ehdr, pd)) s else Ret None (elf_cleanup segs pd s))"
    "loading (used_blocks s) ?old pd (vm_lookup s) data r phdr_addr [] u"
    "u = s\<lparr>mem := mem u, pmm_st := pmm_st u\<rparr>" "free_blocks s = free_blocks u + 1" "ram_top u = ram_top s" "block_of pd \<notin> used_blocks s"
    "\<And>a. block_of a \<in> used_blocks s \<Longrightarrow> a \<notin> (\<lambda>i. ehdr_addr + of_nat i) ` {..<52} \<Longrightarrow> mem u a = mem s a"
    "\<And>a. data_at s a \<Longrightarrow> resident ?old pd u a"
    by (rule elf_load_start [OF ok lo1 lo2 hd free]) (rule that)
  have so: "\<forall>ph \<in> set (load_list data ehdr [0..<unat (e_phnum ehdr)]). segment_ok u data ph"
    using sg(1,2) u(5) by (simp add: segment_ok_def)
  obtain t segs where t: "load_headers r ehdr phdr_addr pd [0..<unat (e_phnum ehdr)] [] u = Ret (segs, True) t"
    "loading (used_blocks s) ?old pd (vm_lookup s) data r phdr_addr phs t"
    "t = u\<lparr>mem := mem t, tlb := tlb t, pmm_st := pmm_st t, iflag := iflag u \<or> phs \<noteq> []\<rparr>" "kept_but ?P ?old pd u t"
    "free_blocks u \<le> free_blocks t + 2 * length (concat (map segment_pages phs))"
    using load_headers_spec [OF u(2) _ so, of "[]"] ph sg u(4) by auto
  have teq: "t = s\<lparr>mem := mem t, tlb := tlb t, pmm_st := pmm_st t, iflag := iflag s \<or> phs \<noteq> []\<rparr>"
    using t(3) by (subst (asm) (1 2) u(3)) simp
  have keep: "resident ?old pd t a" if "data_at s a" for a
    using u(8) [of a] that t(4) by (simp add: kept_but_def)
  have same: "mem t a = mem s a" if "data_at s a" "a \<notin> (\<lambda>i. ehdr_addr + of_nat i) ` {..<52}" "a \<notin> ?P" for a
    using u(7,8) [of a] that t(4) by (simp add: kept_but_def data_at_def)
  have "elf_load path ehdr_addr phdr_addr s = Ret (Some (e_entry ehdr, pd)) t" unfolding u(1) t(1) by simp
  moreover have "used_blocks s \<subseteq> used_blocks t" using t(2) by (simp add: loading_def)
  moreover have "ram_top t = ram_top s" using t(4) u(5) by (simp add: kept_but_def)
  ultimately show thesis
    using t(2,5) teq keep same u(4,6) by (intro that [of pd t]) (auto simp: loading_def)
qed

subsection \<open>A small program\<close>

text \<open>A file with one segment of four bytes at \<^verbatim>\<open>0x08048000\<close>, in block 0 of a small machine.\<close>

definition tiny_elf :: "u8 list" where
  "tiny_elf = [0x7F, 0x45, 0x4C, 0x46, 1, 1, 1, 0, 0, 0, 0, 0, 0, 0, 0, 0,
     2, 0, 3, 0, 1, 0, 0, 0, 0, 0x80, 0x04, 0x08, 52, 0, 0, 0, 0, 0, 0, 0, 0, 0, 0, 0, 52, 0, 32, 0, 1, 0, 0, 0, 0, 0, 0, 0,
     1, 0, 0, 0, 84, 0, 0, 0, 0, 0x80, 0x04, 0x08, 0, 0, 0, 0, 4, 0, 0, 0, 8, 0, 0, 0, 7, 0, 0, 0, 0, 0x10, 0, 0,
     0xEB, 0xFE, 0x90, 0x90]"

definition tiny_node :: fs_node where
  "tiny_node = node_zero\<lparr>fs_name := 97 # 0 # replicate 126 0, fs_flags := FS_FILE, fs_length := 88, fs_impl := 0x100,
     fs_read := Some Tar_read\<rparr>"

definition tiny_fs :: "u8 list \<Rightarrow> fs" where
  "tiny_fs data = small_fs\<lparr>mem := (\<lambda>a. if 0x100 \<le> unat a \<and> unat a < 0x158 then data ! (unat a - 0x100) else 0)\<rparr>"

definition tiny_mount :: "fs \<Rightarrow> fs" where
  "tiny_mount s = s\<lparr>tar_nodes := tiny_node # replicate 127 node_zero, tar_file_count := 1, tar_root := tar_root_node, fs_root := Some Tar_root\<rparr>"

definition tiny_ehdr :: Elf32_Ehdr where
  "tiny_ehdr = decode_ehdr (take 52 tiny_elf)"

definition tiny_phdr :: Elf32_Phdr where
  "tiny_phdr = decode_phdr (file_part 52 32 tiny_elf)"

lemma tiny_headers:
  "length tiny_elf = 88" "elf_check tiny_ehdr = None" "e_phnum tiny_ehdr = 1" "e_phoff tiny_ehdr = 52" "e_phentsize tiny_ehdr = 32"
  "e_entry tiny_ehdr = 0x08048000" "p_type tiny_phdr = 1" "p_offset tiny_phdr = 84" "p_vaddr tiny_phdr = 0x08048000"
  "p_filesz tiny_phdr = 4" "p_memsz tiny_phdr = 8"
  by (simp_all add: tiny_elf_def tiny_ehdr_def tiny_phdr_def decode_ehdr_def decode_phdr_def elf_check_def le32_def le16_def
      file_part_def push_bit_eq_mult)

lemma tiny_segment: "segment_pages tiny_phdr = [0x08048000]"
  by (simp add: segment_pages_def tiny_headers)

lemma tiny_lookup:
  assumes "0 \<notin> set n" "47 \<notin> set n" "n \<noteq> []" "length n \<le> 127"
  shows "find_node_by_path call_finddir (47 # n @ [0]) (tiny_mount s) = Some (if n = [97] then Some (Tar_node 0) else None)"
proof -
  let ?t = "tiny_mount s"
  have nm: "text_of (fs_name tiny_node) = [97]" "terminated (fs_name tiny_node)" by (simp_all add: tiny_node_def terminated_def)
  have wf: "tar_wf ?t" using nm by (simp add: tar_wf_def tiny_mount_def)
  have root: "fs_root ?t = Some Tar_root" "searchable ?t Tar_root"
    by (simp_all add: tiny_mount_def searchable_def node_at_def tar_root_node_def)
  have dt: "dir_text ?t Tar_root = []" by (simp add: dir_text_def dir_prefix_def)
  have tb: "table ?t = [(0, fs_name tiny_node)]" by (simp add: table_def tiny_mount_def)
  have "tar_child ?t Tar_root n = (if n = [97] then Some (Tar_node 0) else None)"
    unfolding tar_child_def dt tb using nm by (auto simp: in_dir_def entry_of_def rel_name_def strip_def plain_def)
  moreover have comp: "components [] n = [n]" using components_last [OF assms(2), of "[]"] assms(3) by simp
  moreover have "find_node_by_path call_finddir (47 # n @ [0]) ?t = Some (follow (searchable ?t) (tar_child ?t) (fs_root ?t) (components [] n))"
    using assms(1,4) comp by (intro tar.find_follow [OF wf]) (auto simp: root tar_valid_def)
  ultimately show ?thesis by (simp add: root)
qed

lemma tiny_disk:
  assumes len: "length data = 88"
  obtains s where "vmm_init (tiny_fs data) = Ret () s" "vm_ok (tiny_mount s)" "paging_on (tiny_mount s)" "ram_top (tiny_mount s) = 0x8000"
    "free_blocks (tiny_mount s) = 5" "node_at (Tar_node 0) (tiny_mount s) = tiny_node" "file_at (tiny_mount s) tiny_node data"
    "local_at (tiny_mount s) tiny_node data 0x200 52" "local_at (tiny_mount s) tiny_node data 0x300 32"
    "find_node_by_path call_finddir (cstr ''/a'') (tiny_mount s) = Some (Some (Tar_node 0))"
    "find_node_by_path call_finddir (cstr ''/b'') (tiny_mount s) = Some None"
    "\<And>j. unat j < 1024 \<Longrightarrow> has_table (tiny_mount s) j \<longleftrightarrow> j = 0"
proof -
  have k: "\<not> paging_on (tiny_fs data)" "pmm_st (tiny_fs data) = small_pmm" by (simp_all add: tiny_fs_def small_fs_def paging_on_def)
  have p: "pmm_inv (pmm_st (tiny_fs data))" "0 \<in> used_blocks (tiny_fs data)"
    "card (used_blocks (tiny_fs data)) + 1 + (unat (pmm_total_blocks (pmm_st (tiny_fs data))) + 1023) div 1024 \<le> unat (pmm_total_blocks (pmm_st (tiny_fs data)))"
    by (simp_all add: k small_pmm_ok)
  obtain s where s: "vmm_init (tiny_fs data) = Ret () s" "vm_ok s" "paging_on s"
    "ram_top s = 4096 * unat (pmm_total_blocks (pmm_st (tiny_fs data)))" "used_blocks (tiny_fs data) \<subseteq> used_blocks s"
    "card (used_blocks s) = card (used_blocks (tiny_fs data)) + 1 + (unat (pmm_total_blocks (pmm_st (tiny_fs data))) + 1023) div 1024"
    "\<And>f a. block_of f \<in> used_blocks (tiny_fs data) \<Longrightarrow> in_frame f a \<Longrightarrow> mem s a = mem (tiny_fs data) a"
    "\<And>f. block_of f \<in> used_blocks (tiny_fs data) \<Longrightarrow> \<not> walk_frame (mem s) (current_page_directory s) f"
    "\<And>j. unat j < 1024 \<Longrightarrow> has_table s j = (unat j < (unat (pmm_total_blocks (pmm_st (tiny_fs data))) + 1023) div 1024)"
    by (rule vmm_init_spec [OF k(1) p]) (rule that)
  let ?t = "tiny_mount s"
  have t: "mem ?t = mem s" "cr0 ?t = cr0 s" "cr3 ?t = cr3 s" "tlb ?t = tlb s" "pmm_st ?t = pmm_st s" "current_page_directory ?t = current_page_directory s"
    by (simp_all add: tiny_mount_def)
  have ok: "vm_ok ?t" "paging_on ?t" using s(2,3) vm_ok_cong [OF t] t(2) by (simp_all add: paging_on_def)
  have b0: "0 \<in> used_blocks (tiny_fs data)" using p(2) .
  have low: "data_at ?t a" "mem ?t a = mem (tiny_fs data) a" if "unat a < 4096" for a
  proof -
    have fr: "frame_of a = 0" using that by (simp add: word_unat_eq_iff unat_frame)
    then show "data_at ?t a" using that b0 s(5) s(8) [of 0] by (auto simp: data_at_def t)
    show "mem ?t a = mem (tiny_fs data) a" using s(7) [of 0 a] b0 fr by (simp add: t in_frame_def)
  qed
  have un: "unat (c + of_nat i :: u32) = unat c + i" if "unat c + i < 4096" for c i
    using that by (intro unat_add_of_nat) simp
  have "data_at ?t (0x100 + of_nat i) \<and> mem ?t (0x100 + of_nat i) = data ! i" if "i < 88" for i
    using low [of "0x100 + of_nat i"] un [of "0x100" i] that by (simp add: tiny_fs_def)
  then have flt: "file_at ?t tiny_node data"
    by (simp add: file_at_def tiny_node_def len)
  have loc: "local_at ?t tiny_node data b n" if "0x158 \<le> unat b" "unat b + n < 4096" for b n
    unfolding local_at_def
  proof (intro allI impI conjI)
    fix i assume i: "i < n"
    show "data_at ?t (b + of_nat i)" using low(1) un [of b i] that i by simp
    fix j assume "j < length data"
    then have "unat (fs_impl tiny_node + of_nat j) < 0x158" using un [of "0x100" j] by (simp add: len tiny_node_def)
    moreover have "0x158 \<le> unat (b + of_nat i)" using un [of b i] that i by simp
    ultimately show "b + of_nat i \<noteq> fs_impl tiny_node + of_nat j" by auto
  qed
  have "free_blocks ?t = 5" using s(4,6) by (simp add: free_blocks_def t k small_pmm_ok)
  moreover have "ram_top ?t = 0x8000" using s(4) by (simp add: t k small_pmm_ok)
  moreover have "cstr ''/a'' = 47 # [97] @ [0]" "cstr ''/b'' = 47 # [98] @ [0]" by (simp_all add: cstr_def)
  moreover have "has_table ?t j \<longleftrightarrow> j = 0" if "unat j < 1024" for j
    using s(9) [OF that] by (simp add: has_table_def t k small_pmm_ok word_unat_eq_iff)
  ultimately show thesis
    using tiny_lookup [of "[97]" s] tiny_lookup [of "[98]" s] loc [of "0x200" 52] loc [of "0x300" 32]
    by (intro that [OF s(1) ok _ _ _ flt]) (simp_all add: node_at_def tiny_mount_def)
qed

subsection \<open>Properties of the loader\<close>



subsection \<open>Files that are refused\<close>

text \<open>The file is too short for a header, the header is not one of a 32-bit x86 executable, or the first program header lies behind the end of the file.\<close>

definition bad_elf :: "u8 list \<Rightarrow> bool" where
  "bad_elf data \<longleftrightarrow> length data < 52 \<or> elf_check (decode_ehdr (take 52 data)) \<noteq> None \<or>
     (let ehdr = decode_ehdr (take 52 data); off = unat (phdr_off ehdr 0) in
      e_phnum ehdr \<noteq> 0 \<and> length data < off + 32 \<and> off + 32 < 2 ^ 32)"

lemma short_header:
  fixes s :: "'a fs_scheme"
  assumes ok: "vm_ok s" "paging_on s" and fl: "file_at s (node_at r s) data" and buf: "local_at s (node_at r s) data buf 32"
    and n: "0 < unat (e_phnum ehdr)" "length data < unat (phdr_off ehdr 0) + 32" "unat (phdr_off ehdr 0) + 32 < 2 ^ 32"
  obtains m where "load_headers r ehdr buf pd [0..<unat (e_phnum ehdr)] [] s =
      Ret ([], False) (print (puts ''[ELF] Error: Failed to read program header\<newline>'') (s\<lparr>mem := m\<rparr>))"
    "vm_ok (s\<lparr>mem := m\<rparr>)" "\<And>a. a \<notin> (\<lambda>i. buf + of_nat i) ` {..<32} \<Longrightarrow> m a = mem s a"
proof -
  let ?off = "phdr_off ehdr 0" and ?part = "file_part (unat (phdr_off ehdr 0)) 32 data"
  obtain m where m: "read_fs call_read (Some r) ?off (of_nat 32) buf s = Ret (of_nat (length ?part)) (s\<lparr>mem := m\<rparr>)"
    "vm_ok (s\<lparr>mem := m\<rparr>)" "\<And>a. a \<notin> (\<lambda>i. buf + of_nat i) ` {..<32} \<Longrightarrow> m a = mem s a"
    by (rule read_local [OF ok fl buf _ n(3)]) (simp, rule that)
  have "length ?part < 32" using n(2) by (simp add: length_file_part)
  then have "(of_nat (length ?part) :: u32) < 32" by (simp add: word_less_nat_alt unat_of_nat take_bit_eq_mod)
  moreover have "[0..<unat (e_phnum ehdr)] = 0 # [1..<unat (e_phnum ehdr)]" using n(1) by (simp add: upt_rec)
  ultimately have "load_headers r ehdr buf pd [0..<unat (e_phnum ehdr)] [] s =
      Ret ([], False) (print (puts ''[ELF] Error: Failed to read program header\<newline>'') (s\<lparr>mem := m\<rparr>))"
    using m(1) by (simp add: phdr_off_def)
  then show thesis using m(2,3) by (intro that)
qed

text \<open>A file whose first program header lies behind its end: the directory of the process is given back.\<close>

lemma elf_load_short:
  fixes s :: "'a fs_scheme"
  assumes ok: "vm_ok s" "paging_on s" "find_node_by_path call_finddir path s = Some (Some r)" "file_at s (node_at r s) data"
    and lo: "local_at s (node_at r s) data ehdr_addr 52" "local_at s (node_at r s) data phdr_addr 32"
    and hd: "52 \<le> length data" "ehdr = decode_ehdr (take 52 data)" "elf_check ehdr = None" "0 < free_blocks s"
    and short: "0 < unat (e_phnum ehdr)" "length data < unat (phdr_off ehdr 0) + 32" "unat (phdr_off ehdr 0) + 32 < 2 ^ 32"
  obtains t where "elf_load path ehdr_addr phdr_addr s = Ret None t" "used_blocks t = used_blocks s" "pmm_inv (pmm_st t)"
    "current_page_directory t = current_page_directory s" "cr3 t = cr3 s" "iflag t = iflag s"
    "\<And>a. block_of a \<in> used_blocks s \<Longrightarrow> a \<notin> (\<lambda>i. ehdr_addr + of_nat i) ` {..<52} \<Longrightarrow> a \<notin> (\<lambda>i. phdr_addr + of_nat i) ` {..<32} \<Longrightarrow>
       mem t a = mem s a"
proof -
  let ?old = "current_page_directory s"
  obtain u pd where u: "elf_load path ehdr_addr phdr_addr s =
      obind (load_headers r ehdr phdr_addr pd [0..<unat (e_phnum ehdr)] [] u) (\<lambda>(segs, ok) s.
        if ok then Ret (Some (e_entry ehdr, pd)) s else Ret None (elf_cleanup segs pd s))"
    "loading (used_blocks s) ?old pd (vm_lookup s) data r phdr_addr [] u" "u = s\<lparr>mem := mem u, pmm_st := pmm_st u\<rparr>"
    "blocks_in_use (pmm_free_block pd (pmm_st u)) = used_blocks s" "pmm_inv (pmm_free_block pd (pmm_st u))"
    "\<And>a. block_of a \<in> used_blocks s \<Longrightarrow> a \<notin> (\<lambda>i. ehdr_addr + of_nat i) ` {..<52} \<Longrightarrow> mem u a = mem s a"
    by (rule elf_load_start [OF ok lo hd]) (rule that)
  have l: "staged ?old pd u" "file_ok ?old pd u (node_at r u) data" "local_at u (node_at r u) data phdr_addr 32"
    using u(2) staged_data [of ?old pd u] by (simp_all add: loading_def local_at_def)
  have uok: "vm_ok u" "paging_on u" using l(1) by (simp_all add: staged_def)
  obtain m where m: "load_headers r ehdr phdr_addr pd [0..<unat (e_phnum ehdr)] [] u =
      Ret ([], False) (print (puts ''[ELF] Error: Failed to read program header\<newline>'') (u\<lparr>mem := m\<rparr>))"
    "\<And>a. a \<notin> (\<lambda>i. phdr_addr + of_nat i) ` {..<32} \<Longrightarrow> m a = mem u a"
    by (rule short_header [OF uok staged_file [OF l(1,2)] l(3) short, of pd]) (rule that)
  let ?t = "elf_cleanup [] pd (print (puts ''[ELF] Error: Failed to read program header\<newline>'') (u\<lparr>mem := m\<rparr>))"
  have "elf_load path ehdr_addr phdr_addr s = Ret None ?t" using u(1) m(1) by simp
  moreover have "pmm_st ?t = pmm_free_block pd (pmm_st u)" "mem ?t = m" "current_page_directory ?t = current_page_directory u"
    "cr3 ?t = cr3 u" "iflag ?t = iflag u" by (simp_all add: elf_cleanup_def free_block_def)
  moreover have "current_page_directory u = ?old" "cr3 u = cr3 s" "iflag u = iflag s" by (subst u(3), simp)+
  ultimately show thesis using u(4-6) m(2) by (intro that [of ?t]) auto
qed



end
