(* ===== verification/Kernel.thy ===== *)
theory Kernel
  imports Elf
begin

text \<open>
  \<^verbatim>\<open>kernel_main\<close> and the two demo tasks of \<^verbatim>\<open>src/kernel.c\<close>: the stages of the boot in their order,
  with the self tests and every place where the kernel stops. The addresses the linker gives to
  the kernel's objects, the stubs and the local variables of \<^verbatim>\<open>elf_load\<close> are parameters. The
  Multiboot structures are read through the MMU, with the page faults that may raise. A loop on
  \<^verbatim>\<open>hlt\<close> after an error is the outcome \<open>Hang\<close>; \<open>Ret\<close> is the state in which the boot thread enters
  its idle loop, which only interrupts leave.
\<close>

record kernel_image =
  im_gdt :: u32
  im_gdtp :: u32
  im_tss :: u32
  im_tss_stack :: u32
  im_idt :: u32
  im_idtp :: u32
  im_isr :: "nat \<Rightarrow> u32"
  im_irq :: "nat \<Rightarrow> u32"
  im_kernel_start :: u32
  im_kernel_end :: u32
  im_symbols :: symbols
  im_task_a :: u32
  im_task_b :: u32
  im_ehdr :: u32
  im_phdr :: u32

text \<open>GDT, IDT and the system call gate.\<close>

definition boot_tables :: "kernel_image \<Rightarrow> 'a sys_scheme \<Rightarrow> 'a sys_scheme" where
  "boot_tables im s =
     (let s = s\<lparr>gdt_st := gdt_init (im_gdt im) (im_gdtp im) (im_tss im) (im_tss_stack im) (gdt_st s)\<rparr>;
          s = print (puts ''[Kernel] GDT and TSS successfully initialized.\<newline>'') s;
          s = s\<lparr>idt_st := idt_init (im_isr im) (im_irq im) (im_idt im) (im_idtp im) (idt_st s)\<rparr>;
          s = print (puts ''[Kernel] IDT and ISR exception handlers registered.\<newline>'') s;
          s = syscall_init s
      in print (puts ''[Kernel] System Call interface registered.\<newline>'') s)"

definition report_memory :: "'a sys_scheme \<Rightarrow> 'a sys_scheme" where
  "report_memory s =
     (let total_blocks = pmm_get_total_blocks (pmm_st s);
          nfree = pmm_get_free_blocks (pmm_st s);
          nused = pmm_get_used_blocks (pmm_st s);
          s = print (puts ''  -> Total RAM tracked: '') s;
          s = print (terminal_writedec ((total_blocks * PMM_BLOCK_SIZE) div (1024 * 1024))) s;
          s = print (puts '' MB ('') s;
          s = print (terminal_writedec total_blocks) s;
          s = print (puts '' blocks)\<newline>'') s;
          s = print (puts ''  -> Free blocks: '') s;
          s = print (terminal_writedec nfree) s;
          s = print (puts '' | Used/Reserved blocks: '') s;
          s = print (terminal_writedec nused) s
      in print (puts ''\<newline>'') s)"

text \<open>\<^verbatim>\<open>pmm_init\<close> runs before paging, so it sees physical memory; on a malformed map it never returns.\<close>

definition boot_pmm :: "kernel_image \<Rightarrow> u32 \<Rightarrow> 'a sys_scheme \<Rightarrow> (unit, 'a sys_scheme) outcome" where
  "boot_pmm im mbi_addr s =
     (case pmm_init (mem s) (im_kernel_start im) (im_kernel_end im) mbi_addr (pmm_st s) of
        None \<Rightarrow> Hang s
      | Some p \<Rightarrow>
          (let s = s\<lparr>pmm_st := p\<rparr>;
               s = print (puts ''[Kernel] Physical Memory Manager (PMM) initialized.\<newline>'') s
           in Ret () (report_memory s)))"

definition report_block :: "string \<Rightarrow> u32 \<Rightarrow> 'a sys_scheme \<Rightarrow> 'a sys_scheme" where
  "report_block msg block s = print (puts ''\<newline>'') (print (terminal_writehex block) (print (puts msg) s))"

definition stop :: "string \<Rightarrow> 'a sys_scheme \<Rightarrow> ('b, 'a sys_scheme) outcome" where
  "stop msg s = Hang (print (puts msg) s)"

definition pmm_selftest :: "u32 \<Rightarrow> 'a sys_scheme \<Rightarrow> (unit, 'a sys_scheme) outcome" where
  "pmm_selftest free_before s =
     (let s = print (puts ''[Kernel] Running PMM diagnostic tests...\<newline>'') s;
          (block1, s) = alloc_block s;
          (block2, s) = alloc_block s;
          (block3, s) = alloc_block s;
          s = report_block ''  -> Allocated Block 1: '' block1 s;
          s = report_block ''  -> Allocated Block 2: '' block2 s;
          s = report_block ''  -> Allocated Block 3: '' block3 s
      in if block1 = 0 \<or> block2 = 0 \<or> block3 = 0 then stop ''[Kernel] PMM TEST FAILED: Allocation returned NULL!\<newline>'' s
         else if block1 mod 4096 \<noteq> 0 \<or> block2 mod 4096 \<noteq> 0 \<or> block3 mod 4096 \<noteq> 0
         then stop ''[Kernel] PMM TEST FAILED: Blocks are not 4KB aligned!\<newline>'' s
         else
           (let s = print (puts ''  -> Freeing Block 2...\<newline>'') s;
                s = free_block block2 s;
                (block_reuse, s) = alloc_block s;
                s = report_block ''  -> Allocated new block (expecting Block 2 reuse): '' block_reuse s
            in if block_reuse \<noteq> block2 then stop ''[Kernel] PMM TEST FAILED: First-fit reuse failed!\<newline>'' s
               else
                 (let s = free_block block1 s;
                      s = free_block block_reuse s;
                      s = free_block block3 s
                  in if pmm_get_free_blocks (pmm_st s) \<noteq> free_before
                     then stop ''[Kernel] PMM TEST FAILED: Memory leak detected! Free blocks did not restore.\<newline>'' s
                     else Ret () (print (puts ''[Kernel] PMM diagnostic tests passed successfully!\<newline>\<newline>'') s))))"

text \<open>The address of the module list, if the boot loader passed a module.\<close>

definition module_list :: "u32 \<Rightarrow> 'a sys_scheme \<Rightarrow> (u32 option, 'a sys_scheme) outcome" where
  "module_list mbi_addr s =
     obind (kload32 mbi_addr s) (\<lambda>flags s.
     if flags AND 8 = 0 then Ret None s
     else obind (kload32 (mbi_addr + 20) s) (\<lambda>mods_count s.
       if \<not> mods_count > 0 then Ret None s
       else obind (kload32 (mbi_addr + 24) s) (\<lambda>mods_addr s. Ret (Some mods_addr) s)))"

definition pre_vmm_probe :: "u32 \<Rightarrow> 'a sys_scheme \<Rightarrow> (unit, 'a sys_scheme) outcome" where
  "pre_vmm_probe mbi_addr s =
     obind (module_list mbi_addr s) (\<lambda>mods s.
     case mods of
       None \<Rightarrow> Ret () s
     | Some m \<Rightarrow>
         (let s = print (puts ''[DBG] PRE-VMM  initrd[0]=0x'') s in
          obind (kload32 m s) (\<lambda>start s.
          obind (kload8 start s) (\<lambda>b s.
            let s = print (puts '' at addr=0x'') (print (terminal_writehex (ucast b)) s)
            in obind (kload32 m s) (\<lambda>start s.
            let s = print (puts '' size='') (print (terminal_writehex start) s)
            in obind (kload32 (m + 4) s) (\<lambda>e s.
               obind (kload32 m s) (\<lambda>start s.
               Ret () (print (puts ''\<newline>'') (print (terminal_writedec (e - start)) s)))))))))"

definition post_vmm_probe :: "u32 \<Rightarrow> 'a sys_scheme \<Rightarrow> (unit, 'a sys_scheme) outcome" where
  "post_vmm_probe mbi_addr s =
     obind (module_list mbi_addr s) (\<lambda>mods s.
     case mods of
       None \<Rightarrow> Ret () s
     | Some m \<Rightarrow>
         (let s = print (puts ''[DBG] POST-VMM initrd[0]=0x'') s in
          obind (kload32 m s) (\<lambda>start s.
          obind (kload8 start s) (\<lambda>b s.
            Ret () (print (puts ''\<newline>'') (print (terminal_writehex (ucast b)) s))))))"

definition vmm_test_a :: "'a sys_scheme \<Rightarrow> (unit, 'a sys_scheme) outcome" where
  "vmm_test_a s =
     (let s = print (puts ''  -> Test A: Dynamic Mapping & Write Verification...\<newline>'') s;
          (phys_test, s) = alloc_block s
      in if phys_test = 0 then stop ''  [VMM TEST FAILED] PMM allocation returned NULL!\<newline>'' s
         else obind (vmm_map_page phys_test 0xA0000000 (VMM_FLAG_PRESENT OR VMM_FLAG_WRITE OR VMM_FLAG_USER) s) (\<lambda>_ s.
           obind (kstore32 0xA0000000 0xCAFEBABE s) (\<lambda>_ s.
           obind (kload32 0xA0000000 s) (\<lambda>v s.
           if v \<noteq> 0xCAFEBABE then stop ''  [VMM TEST FAILED] Read/write verification signature mismatch!\<newline>'' s
           else
             (let s = print (puts ''  -> Test A Passed: Virtual page successfully mapped, written, and verified.\<newline>'') s
              in obind (vmm_unmap_page 0xA0000000 s) (\<lambda>_ s. Ret () (free_block phys_test s)))))))"

definition vmm_test_b :: "'a sys_scheme \<Rightarrow> (unit, 'a sys_scheme) outcome" where
  "vmm_test_b s =
     (let s = print (puts ''  -> Test B: Demand Paging Verification...\<newline>'') s;
          s = print (puts ''     (Writing to unmapped 0xC0000000 to trigger demand allocation)\<newline>'') s
      in obind (kstore32 0x40000000 0x12345678 s) (\<lambda>_ s.
         obind (kload32 0x40000000 s) (\<lambda>v s.
         if v \<noteq> 0x12345678 then stop ''  [VMM TEST FAILED] Demand paging value mismatch!\<newline>'' s
         else
           (let s = print (puts ''  -> Test B Passed: Demand paging dynamically resolved non-present access.\<newline>'') s
            in vmm_unmap_page 0x40000000 s))))"

text \<open>The supervisor page of the protection test.\<close>

definition security_page :: "'a sys_scheme \<Rightarrow> (unit, 'a sys_scheme) outcome" where
  "security_page s =
     (let (phys_sec, s) = alloc_block s
      in if phys_sec = 0 then stop ''  [Kernel] Error: Failed to allocate physical frame for security test.\<newline>'' s
         else vmm_map_page phys_sec 0xD0000000 (VMM_FLAG_PRESENT OR VMM_FLAG_WRITE) s)"

text \<open>Start and end of the RAM disk, both 0 when there is no module.\<close>

definition find_initrd :: "u32 \<Rightarrow> 'a sys_scheme \<Rightarrow> (u32 \<times> u32, 'a sys_scheme) outcome" where
  "find_initrd mbi_addr s =
     obind (module_list mbi_addr s) (\<lambda>mods s.
     case mods of
       None \<Rightarrow> Ret (0, 0) s
     | Some m \<Rightarrow> obind (kload32 m s) (\<lambda>a s. obind (kload32 (m + 4) s) (\<lambda>e s. Ret (a, e) s)))"

definition mount_initrd :: "u32 \<Rightarrow> u32 \<Rightarrow> 'a fs_scheme \<Rightarrow> (unit, 'a fs_scheme) outcome" where
  "mount_initrd initrd_start initrd_end s =
     (if initrd_start \<noteq> 0 \<and> initrd_end > initrd_start then
        (let s = print (puts ''[DBG] tar_init addr=0x'') s;
             s = print (terminal_writehex initrd_start) s;
             s = print (puts '' size='') s;
             s = print (terminal_writedec (initrd_end - initrd_start)) s;
             s = print (puts '' byte[0]=0x'') s
         in obind (kload8 initrd_start s) (\<lambda>b s.
            let s = print (terminal_writehex (ucast b)) s;
                s = print (puts ''\<newline>'') s
            in obind (tar_init initrd_start (initrd_end - initrd_start) s) (\<lambda>_ s. Ret () s)))
      else Ret () (print (puts ''[Kernel] Warning: No RAM disk module found in Multiboot info!\<newline>'') s))"

definition spawn_elf :: "kernel_image \<Rightarrow> u32 \<Rightarrow> 'a fs_scheme \<Rightarrow> (unit, 'a fs_scheme) outcome" where
  "spawn_elf im initrd_start s =
     (if initrd_start \<noteq> 0 then
        obind (elf_load (cstr ''/hello'') (im_ehdr im) (im_phdr im) s) (\<lambda>r s.
        case r of
          Some (elf_entry, elf_pd) \<Rightarrow>
            (let s = print (puts (''[Kernel] Spawning user ELF task '' @ [CHR 0x27] @ ''/hello'' @ [CHR 0x27] @ ''...\<newline>'')) s
             in obind (task_create (im_symbols im) elf_entry elf_pd True s) (\<lambda>_ s. Ret () s))
        | None \<Rightarrow> Ret () (print (puts (''[Kernel] Error: Failed to load user ELF task '' @ [CHR 0x27] @ ''/hello'' @ [CHR 0x27] @ ''\<newline>'')) s))
      else Ret () s)"

definition start_tasks :: "kernel_image \<Rightarrow> 'a kern_scheme \<Rightarrow> (unit, 'a kern_scheme) outcome" where
  "start_tasks im s =
     (let s = print (puts ''[Kernel] Initializing Scheduler...\<newline>'') s;
          s = scheduler_init s;
          s = print (puts ''[Kernel] Creating Tasks A and B...\<newline>'') s
      in obind (task_create (im_symbols im) (im_task_a im) 0 False s) (\<lambda>_ s.
         obind (task_create (im_symbols im) (im_task_b im) 0 False s) (\<lambda>_ s. Ret () s)))"

definition start_timer :: "'a sys_scheme \<Rightarrow> (unit, 'a sys_scheme) outcome" where
  "start_timer s =
     (let s = print (puts ''[Kernel] Enabling Timer Interrupts...\<newline>'') s
      in obind (timer_init 100 s) (\<lambda>_ s.
         let s = sti s in Ret () (print (puts ''[Kernel] Boot thread entering idle loop.\<newline>\<newline>'') s)))"

text \<open>Stages 7 to 9: paging and its tests.\<close>

definition boot_vmm :: "u32 \<Rightarrow> 'a sys_scheme \<Rightarrow> (unit, 'a sys_scheme) outcome" where
  "boot_vmm mbi_addr s =
     (let s = print (puts ''[Kernel] Initializing Virtual Memory Manager (VMM)...\<newline>'') s
      in obind (pre_vmm_probe mbi_addr s) (\<lambda>_ s.
         obind (vmm_init s) (\<lambda>_ s.
         let s = cli s
         in obind (post_vmm_probe mbi_addr s) (\<lambda>_ s.
            let s = print (puts ''[Kernel] Running VMM diagnostic tests...\<newline>'') s
            in obind (vmm_test_a s) (\<lambda>_ s.
               obind (vmm_test_b s) (\<lambda>_ s.
               let s = print (puts ''[Kernel] VMM diagnostic tests passed successfully!\<newline>\<newline>'') s
               in security_page s))))))"

text \<open>Stages 10 to 13: the RAM disk and the tasks.\<close>

definition boot_tasks :: "kernel_image \<Rightarrow> u32 \<Rightarrow> 'a fs_scheme \<Rightarrow> (unit, 'a fs_scheme) outcome" where
  "boot_tasks im mbi_addr s =
     (let s = print (puts ''[Kernel] Initializing Virtual File System & RAM Disk...\<newline>'') s
      in obind (find_initrd mbi_addr s) (\<lambda>(initrd_start, initrd_end) s.
         obind (mount_initrd initrd_start initrd_end s) (\<lambda>_ s.
         obind (start_tasks im s) (\<lambda>_ s.
         spawn_elf im initrd_start s))))"

definition kernel_main :: "kernel_image \<Rightarrow> u32 \<Rightarrow> u32 \<Rightarrow> 'a fs_scheme \<Rightarrow> (unit, 'a fs_scheme) outcome" where
  "kernel_main im magic mbi_addr s =
     (let s = print terminal_initialize s;
          s = print (puts ''[Kernel] Initializing core systems...\<newline>'') s
      in if magic \<noteq> 0x2BADB002 then
           (let s = print (puts ''[Kernel] Error: Invalid Multiboot magic: '') s;
                s = print (terminal_writehex magic) s
            in stop ''\<newline>System Halted.\<newline>'' s)
         else
           (let s = boot_tables im s
            in obind (boot_pmm im mbi_addr s) (\<lambda>_ s.
               obind (pmm_selftest (pmm_get_free_blocks (pmm_st s)) s) (\<lambda>_ s.
               obind (boot_vmm mbi_addr s) (\<lambda>_ s.
               obind (boot_tasks im mbi_addr s) (\<lambda>_ s.
               start_timer s))))))"

text \<open>
  The demo tasks. The delay loop counts to 20000000 and has no effect but time; a timer
  interrupt may preempt the task anywhere, which is the scheduler's business.
\<close>

definition demo_task :: "string \<Rightarrow> 'a sys_scheme \<Rightarrow> 'a sys_scheme" where
  "demo_task name s =
     (let s = fold (\<lambda>count s.
            let s = print (puts (''['' @ name @ ''] Running loop '')) s;
                s = print (terminal_writedec (of_nat count)) s
            in print (puts ''\<newline>'') s) [0..<5] s
      in print (puts (''['' @ name @ ''] Finished.\<newline>'')) s)"

definition task_a :: "'a sys_scheme \<Rightarrow> 'a sys_scheme" where
  "task_a s = demo_task ''Task A'' s"

definition task_b :: "'a sys_scheme \<Rightarrow> 'a sys_scheme" where
  "task_b s = demo_task ''Task B'' s"

subsection \<open>The allocator passes its self test\<close>

context frame_allocator
begin

text \<open>Three allocations, the second block freed and handed out again, then all three freed.\<close>

lemma reuse_test:
  assumes ok: "ok p" "0 \<in> owned p" "card (owned p) + 3 \<le> limit p"
    and al: "alloc p = (b1, p1)" "alloc p1 = (b2, p2)" "alloc p2 = (b3, p3)" "alloc (free b2 p3) = (b4, p4)"
  shows "b1 \<noteq> 0" "b2 \<noteq> 0" "b3 \<noteq> 0" "frame_aligned b1" "frame_aligned b2" "frame_aligned b3" "b4 = b2"
    "ok (free b3 (free b4 (free b1 p4)))" "owned (free b3 (free b4 (free b1 p4))) = owned p"
    "limit (free b3 (free b4 (free b1 p4))) = limit p"
proof -
  have fin: "finite (owned q)" if "ok q" for q using owned_bound [OF that] finite_subset by blast
  show b1: "b1 \<noteq> 0" using alloc_succeeds [OF ok(1,2)] ok(3) al(1) by simp
  note f1 = alloc_fresh [OF ok(1,2) al(1) b1]
  have o1: "0 \<in> owned p1" "card (owned p1) + 2 \<le> limit p1"
    using f1 ok(2,3) fin [OF ok(1)] by auto
  show b2: "b2 \<noteq> 0" using alloc_succeeds [OF f1(5) o1(1)] o1(2) al(2) by simp
  note f2 = alloc_fresh [OF f1(5) o1(1) al(2) b2]
  have o2: "0 \<in> owned p2" "card (owned p2) + 1 \<le> limit p2"
    using f2 o1 fin [OF f1(5)] by auto
  show b3: "b3 \<noteq> 0" using alloc_succeeds [OF f2(5) o2(1)] o2(2) al(3) by simp
  note f3 = alloc_fresh [OF f2(5) o2(1) al(3) b3]
  show "frame_aligned b1" "frame_aligned b2" "frame_aligned b3" using f1(1) f2(1) f3(1) by simp_all
  have "n \<in> owned p1" if "n < frame_no b2" for n
  proof -
    have "owned p1 \<noteq> {..<limit p1}" using alloc_null_iff [OF f1(5) o1(1)] al(2) b2 by simp
    then show ?thesis using alloc_frame(4) [OF f1(5)] al(2) that not_less_Least by fastforce
  qed
  then show b4: "b4 = b2"
    using alloc_reuses_freed [of p3 b2] f3(4,5) f2(1,4) al(4) by simp
  let ?q = "free b2 p3"
  have q: "ok ?q" "limit ?q = limit p" "owned ?q = owned p3 - {frame_no b2}"
    using free_ok [OF f3(5)] free_owned [OF f3(5)] f3(6) f2(6) f1(6) by (simp_all add: frame_no_def)
  have "frame_no b2 \<noteq> 0" using f2(3) o1(1) by metis
  then have q0: "0 \<in> owned ?q" using q(3) f3(4) o2(1) by auto
  note f4 = alloc_fresh [OF q(1) q0 al(4) b2 [folded b4]]
  note s1 = free_ok [OF f4(5), of b1] free_owned [OF f4(5), of b1]
  note s2 = free_ok [of "free b1 p4" b4] free_owned [of "free b1 p4" b4]
  note s3 = free_ok [of "free b4 (free b1 p4)" b3] free_owned [of "free b4 (free b1 p4)" b3]
  show "ok (free b3 (free b4 (free b1 p4)))" "limit (free b3 (free b4 (free b1 p4))) = limit p"
    using s1 s2 s3 f4(6) q(2) by simp_all
  have "owned (free b3 (free b4 (free b1 p4))) = owned p4 - {frame_no b1} - {frame_no b2} - {frame_no b3}"
    using s1 s2 s3 b4 by (simp add: frame_no_def)
  also have "\<dots> = owned p" using f4(4) q(3) f3(3,4) f2(3,4) f1(3,4) b4 by auto
  finally show "owned (free b3 (free b4 (free b1 p4))) = owned p" .
qed

end

lemma report_block_simps [simp]:
  "pmm_st (report_block m b s) = pmm_st s" "mem (report_block m b s) = mem s"
  by (simp_all add: report_block_def)

lemma used_counter:
  "pmm_inv p \<Longrightarrow> pmm_inv q \<Longrightarrow> blocks_in_use p = blocks_in_use q \<Longrightarrow> pmm_used_blocks p = pmm_used_blocks q"
  by (simp add: pmm_inv_def word_unat_eq_iff)

text \<open>What a stage that only prints and exercises the allocator leaves alone.\<close>

definition only_pmm :: "'a sys_scheme \<Rightarrow> 'a sys_scheme \<Rightarrow> bool" where
  "only_pmm s t \<longleftrightarrow> t = s\<lparr>pmm_st := pmm_st t, console := console t\<rparr>"

lemma only_pmm_steps [simp]:
  "only_pmm s (print f t) = only_pmm s t" "only_pmm s (free_block b t) = only_pmm s t"
  "only_pmm s (report_block m b t) = only_pmm s t" "only_pmm s (t\<lparr>pmm_st := p\<rparr>) = only_pmm s t" "only_pmm s s"
  by (cases s; cases t; auto simp: only_pmm_def print_def free_block_def report_block_def)+

lemma pmm_selftest_spec:
  assumes inv: "pmm_inv (pmm_st s)" "0 \<in> used_blocks s" "3 \<le> free_blocks s"
  obtains t where "pmm_selftest (pmm_get_free_blocks (pmm_st s)) s = Ret () t" "only_pmm s t" "pmm_inv (pmm_st t)"
    "used_blocks t = used_blocks s" "pmm_total_blocks (pmm_st t) = pmm_total_blocks (pmm_st s)"
proof -
  let ?p = "pmm_st s"
  obtain b1 p1 b2 p2 b3 p3 b4 p4 where al: "pmm_alloc_block ?p = (b1, p1)" "pmm_alloc_block p1 = (b2, p2)"
    "pmm_alloc_block p2 = (b3, p3)" "pmm_alloc_block (pmm_free_block b2 p3) = (b4, p4)" by (metis surj_pair)
  have "card (used_blocks s) + 3 \<le> unat (pmm_total_blocks ?p)" using inv(3) by (simp add: free_blocks_def)
  note r = fa.reuse_test [OF inv(1,2) this al]
  let ?q = "pmm_free_block b3 (pmm_free_block b4 (pmm_free_block b1 p4))"
  have al4: "b1 mod 4096 = 0" "b2 mod 4096 = 0" "b3 mod 4096 = 0"
    using r(4-6) by (simp_all add: frame_aligned_iff word_unat_eq_iff unat_mod)
  have q: "pmm_total_blocks ?q = pmm_total_blocks ?p" using r(10) by (simp add: word_unat_eq_iff)
  have fb: "pmm_get_free_blocks ?q = pmm_get_free_blocks ?p"
    using used_counter [OF r(8) inv(1) r(9)] q by (simp add: pmm_get_free_blocks_def)
  have "\<exists>t. pmm_selftest (pmm_get_free_blocks ?p) s = Ret () t \<and> only_pmm s t \<and> pmm_st t = ?q"
    using r(1-3,7) al4 al fb by (simp add: pmm_selftest_def alloc_block_def free_block_def Let_def)
  then show thesis using r(8,9) q by (auto intro: that)
qed

subsection \<open>The paging self tests\<close>

text \<open>
  What the stages after \<^verbatim>\<open>vmm_init\<close> guarantee: paging stays consistent, blocks are only added,
  and memory that was in use and not part of the page tables keeps its contents.
\<close>

definition grows :: "'a sys_scheme \<Rightarrow> 'a sys_scheme \<Rightarrow> bool" where
  "grows s t \<longleftrightarrow> vm_ok t \<and> paging_on t \<and>
     t = s\<lparr>mem := mem t, tlb := tlb t, pmm_st := pmm_st t, console := console t, cr2 := cr2 t\<rparr> \<and>
     used_blocks s \<subseteq> used_blocks t \<and> pmm_total_blocks (pmm_st t) = pmm_total_blocks (pmm_st s) \<and>
     (\<forall>f. block_of f \<in> used_blocks s \<and> \<not> walk_frame (mem s) (current_page_directory s) f \<longrightarrow>
        \<not> walk_frame (mem t) (current_page_directory s) f \<and> (\<forall>a. in_frame f a \<longrightarrow> mem t a = mem s a))"

lemma growsD:
  assumes "grows s t"
  shows "vm_ok t" "paging_on t" "used_blocks s \<subseteq> used_blocks t" "pmm_total_blocks (pmm_st t) = pmm_total_blocks (pmm_st s)"
    "current_page_directory t = current_page_directory s" "idt_st t = idt_st s" "iflag t = iflag s" "cr3 t = cr3 s"
    "\<And>f. block_of f \<in> used_blocks s \<Longrightarrow> \<not> walk_frame (mem s) (current_page_directory s) f \<Longrightarrow>
       \<not> walk_frame (mem t) (current_page_directory s) f"
    "\<And>f a. block_of f \<in> used_blocks s \<Longrightarrow> \<not> walk_frame (mem s) (current_page_directory s) f \<Longrightarrow> in_frame f a \<Longrightarrow> mem t a = mem s a"
proof -
  obtain m l p c r where t: "t = s\<lparr>mem := m, tlb := l, pmm_st := p, console := c, cr2 := r\<rparr>"
    using assms by (auto simp: grows_def)
  show "current_page_directory t = current_page_directory s" "idt_st t = idt_st s" "iflag t = iflag s" "cr3 t = cr3 s"
    by (simp_all add: t)
qed (use assms in \<open>auto simp: grows_def\<close>)

lemma grows_trans:
  assumes "grows s t" "grows t u"
  shows "grows s u"
proof -
  obtain m l p c r where t: "t = s\<lparr>mem := m, tlb := l, pmm_st := p, console := c, cr2 := r\<rparr>"
    using assms(1) by (auto simp: grows_def)
  have "u = t\<lparr>mem := mem u, tlb := tlb u, pmm_st := pmm_st u, console := console u, cr2 := cr2 u\<rparr>"
    using assms(2) by (simp add: grows_def)
  then have "u = s\<lparr>mem := mem u, tlb := tlb u, pmm_st := pmm_st u, console := console u, cr2 := cr2 u\<rparr>"
    by (simp add: t)
  moreover have "current_page_directory t = current_page_directory s" by (simp add: t)
  ultimately show ?thesis
    using assms unfolding grows_def by (metis subset_eq)
qed

lemma grows_extends: "extends s t \<Longrightarrow> vm_ok t \<Longrightarrow> paging_on t \<Longrightarrow> grows s t"
  by (cases s; cases t; simp add: extends_def grows_def)

lemma paging_on_free [simp]: "paging_on (free_block f s) = paging_on s"
  by (simp add: free_block_def)

lemma grows_print [simp]: "grows s (print f t) = grows s t"
proof -
  have "(print f t = s\<lparr>mem := mem t, tlb := tlb t, pmm_st := pmm_st t, console := f (console t), cr2 := cr2 t\<rparr>) =
     (t = s\<lparr>mem := mem t, tlb := tlb t, pmm_st := pmm_st t, console := console t, cr2 := cr2 t\<rparr>)"
    by (cases s; cases t; simp add: print_def)
  then show ?thesis by (simp add: grows_def)
qed

lemma grows_refl: "vm_ok s \<Longrightarrow> paging_on s \<Longrightarrow> grows s s"
  by (simp add: grows_def)

text \<open>Handing out a block.\<close>

lemma alloc_grows:
  assumes ok: "vm_ok s" "paging_on s" and room: "0 < free_blocks s"
  obtains f t where "alloc_block s = (f, t)" "f \<noteq> 0" "grows s t" "frame_aligned f" "block_of f \<notin> used_blocks s"
    "used_blocks t = insert (block_of f) (used_blocks s)" "\<not> walk_frame (mem t) (current_page_directory t) f" "mem t = mem s"
    "t = s\<lparr>pmm_st := pmm_st t\<rparr>"
proof -
  obtain f q where al: "pmm_alloc_block (pmm_st s) = (f, q)" by (metis surj_pair)
  have "used_blocks s \<noteq> all_blocks (pmm_st s)" using room free_blocks_0 [of s] by simp
  then have f0: "f \<noteq> 0" using fa.alloc_null_iff [OF vm_okD(1,2) [OF ok(1)]] al by (simp add: all_blocks_def)
  note fr = fresh_frame [OF ok(1) al f0]
  let ?t = "s\<lparr>pmm_st := q\<rparr>"
  have "vm_ok ?t" by (rule vm_ok_alloc [OF ok(1) al f0]) simp_all
  then have "grows s ?t" using ok(2) fr(4,6) by (auto simp: grows_def)
  then show thesis using al f0 fr by (intro that [of f ?t]) (simp_all add: alloc_block_def)
qed

text \<open>Writing to a page mapped to a data frame and reading the value back.\<close>

lemma signature:
  assumes ok: "vm_ok s" "paging_on s" and va: "vm_lookup s va = Some (f OR 7)" "va AND 0xFFF = 0"
    and f: "frame_aligned f" "\<not> walk_frame (mem s) (current_page_directory s) f"
  obtains t where "kstore32 va v s = Ret () t" "kload32 va t = Ret v t" "vm_ok t" "paging_on t"
    "t = s\<lparr>mem := mem t\<rparr>" "\<And>b. vm_lookup t b = vm_lookup s b" "\<And>a. \<not> in_frame f a \<Longrightarrow> mem t a = mem s a"
    "\<And>g. walk_frame (mem t) (current_page_directory t) g = walk_frame (mem s) (current_page_directory s) g"
proof -
  let ?t = "s\<lparr>mem := wr32 f v (mem s)\<rparr>"
  have tr: "translate s va = Some f" using ok va f(1) by (simp add: translate_lookup frame_or_flags)
  have out: "wr32 f v (mem s) a = mem s a" if "\<not> in_frame f a" for a
    using wr32_entry_outside [OF f(1), of 0 a] that by simp
  note dw = data_write [OF ok(1) f(2) out]
  have on: "paging_on ?t" using ok(2) by (simp add: paging_on_def)
  have tr2: "translate ?t va = Some f" using dw(1,3) on va f(1) by (simp add: translate_lookup frame_or_flags)
  show thesis
    using dw on kstore32_mapped [OF tr, of v] kload32_mapped [OF tr2] out
    by (intro that [of ?t]) simp_all
qed

text \<open>Mapping a fresh block outside RAM, the common step of test A and the security page.\<close>

lemma map_fresh:
  fixes s :: "'a sys_scheme"
  assumes ok: "vm_ok s" "paging_on s" and va: "ram_top s \<le> unat (frame_of va)" and room: "2 \<le> free_blocks s"
    and fl: "fl AND 1 = 1"
  obtains f u t where "alloc_block s = (f, u)" "f \<noteq> 0" "vmm_map_page f va fl u = Ret () t" "grows s t" "frame_aligned f"
    "block_of f \<notin> used_blocks s" "block_of f \<in> used_blocks t" "\<not> walk_frame (mem t) (current_page_directory t) f"
    "\<And>b. vm_lookup t b = (if vpn b = vpn va then Some (f OR fl) else vm_lookup s b)"
    "card (used_blocks t) \<le> card (used_blocks s) + 2"
proof -
  obtain f u where u: "alloc_block s = (f, u)" "f \<noteq> 0" "grows s u" "frame_aligned f" "block_of f \<notin> used_blocks s"
    "used_blocks u = insert (block_of f) (used_blocks s)" "\<not> walk_frame (mem u) (current_page_directory u) f" "mem u = mem s"
    using alloc_grows [OF ok] room by (metis gr0I not_numeral_le_zero)
  note g = growsD [OF u(3)]
  have cu: "card (used_blocks u) = card (used_blocks s) + 1" using u(5,6) by simp
  have "card (used_blocks u) < unat (pmm_total_blocks (pmm_st u))"
    using cu room g(4) by (simp add: free_blocks_def)
  then have rm: "has_table u (pdx va) \<or> used_blocks u \<noteq> all_blocks (pmm_st u)"
    by (metis all_blocks_def card_lessThan less_irrefl)
  have win: "window_safe va (f OR fl) u" using va g(4) by (simp add: window_safe_def)
  obtain t where t: "vmm_map_page f va fl u = Ret () t" "vm_ok t" "extends u t"
    "\<And>b. vm_lookup t b = (if vpn b = vpn va then (if (f OR fl) AND 1 = 0 then None else Some (f OR fl)) else vm_lookup u b)"
    "card (used_blocks t) = card (used_blocks u) + (if has_table u (pdx va) then 0 else 1)"
    by (rule map_page_spec [OF g(1) win rm]) (rule that)
  note e = extends_fields [OF t(3)]
  have gt: "grows u t" using t(2,3) e(11) g(2) by (intro grows_extends) simp_all
  have f1: "(f OR fl) AND 1 = 1" using u(4) fl by (simp add: bit.conj_disj_distrib2 frame_aligned_def)
  have "vm_lookup u b = vm_lookup s b" for b using u(8) g(5) by simp
  then have look: "vm_lookup t b = (if vpn b = vpn va then Some (f OR fl) else vm_lookup s b)" for b
    using t(4) [of b] f1 by simp
  show thesis
  proof (rule that [OF u(1,2) t(1) grows_trans [OF u(3) gt] u(4,5) _ _ look])
    show "block_of f \<in> used_blocks t" using e(13) u(6) by auto
    show "\<not> walk_frame (mem t) (current_page_directory t) f"
      using growsD(9) [OF gt _ u(7)] e(9) u(6) by simp
    show "card (used_blocks t) \<le> card (used_blocks s) + 2" using t(5) cu by simp
  qed
qed

text \<open>Writing a frame that was free, and handing one back, keeps what was in use.\<close>

lemma grows_data:
  assumes g: "grows s u" and t: "t = u\<lparr>mem := mem t\<rparr>" "vm_ok t" and f: "block_of f \<notin> used_blocks s"
    and m: "\<And>a. \<not> in_frame f a \<Longrightarrow> mem t a = mem u a"
      "\<And>g. walk_frame (mem t) (current_page_directory t) g = walk_frame (mem u) (current_page_directory u) g"
  shows "grows s t"
proof -
  obtain n where n: "t = u\<lparr>mem := n\<rparr>" using t(1) by blast
  obtain m' l p c r where u: "u = s\<lparr>mem := m', tlb := l, pmm_st := p, console := c, cr2 := r\<rparr>"
    using g by (auto simp: grows_def)
  have "mem t a = mem s a" if "block_of h \<in> used_blocks s" "in_frame h a"
    "\<not> walk_frame (mem s) (current_page_directory s) h" for h a
    using m(1) [of a] that(1,2) f in_frame_unique [of h a f] growsD(10) [OF g that(1,3,2)] by metis
  moreover have "t = s\<lparr>mem := mem t, tlb := tlb t, pmm_st := pmm_st t, console := console t, cr2 := cr2 t\<rparr>"
    by (simp add: n u)
  moreover have "pmm_st t = pmm_st u" "current_page_directory t = current_page_directory s"
    "current_page_directory u = current_page_directory s" "paging_on t = paging_on u" by (simp_all add: n u paging_on_def)
  ultimately show ?thesis using g t(2) m(2) unfolding grows_def by (simp, blast)
qed

lemma grows_free:
  assumes g: "grows s t" and f: "block_of f \<notin> used_blocks s" "frame_aligned f" "f \<noteq> 0"
    "\<not> walk_frame (mem t) (current_page_directory t) f"
  shows "grows s (free_block f t)"
proof -
  note r = vm_ok_free [OF growsD(1) [OF g] f(2-4)]
  obtain m' l p c r where u: "t = s\<lparr>mem := m', tlb := l, pmm_st := p, console := c, cr2 := r\<rparr>"
    using g by (auto simp: grows_def)
  have "free_block f t = s\<lparr>mem := mem (free_block f t), tlb := tlb (free_block f t), pmm_st := pmm_st (free_block f t),
      console := console (free_block f t), cr2 := cr2 (free_block f t)\<rparr>" "mem (free_block f t) = mem t"
    by (simp_all add: u free_block_def)
  then show ?thesis using g r f(1) unfolding grows_def by auto
qed

lemma vmm_test_a_spec:
  fixes s :: "'a sys_scheme"
  assumes ok: "vm_ok s" "paging_on s" and ram: "ram_top s \<le> 0xA0000000" and room: "2 \<le> free_blocks s"
  obtains t where "vmm_test_a s = Ret () t" "grows s t" "card (used_blocks t) \<le> card (used_blocks s) + 1"
    "\<And>b. vm_lookup t b = (if vpn b = 0xA0000 then None else vm_lookup s b)"
proof -
  let ?va = "0xA0000000 :: u32"
  define s0 where "s0 = print (puts ''  -> Test A: Dynamic Mapping & Write Verification...\<newline>'') s"
  have s0: "vm_ok s0" "paging_on s0" "ram_top s0 \<le> unat (frame_of ?va)" "2 \<le> free_blocks s0" "grows s s0"
    "used_blocks s0 = used_blocks s" "vm_lookup s0 = vm_lookup s"
    using ok ram room by (simp_all add: s0_def free_blocks_def grows_refl)
  obtain f u t where t: "alloc_block s0 = (f, u)" "f \<noteq> 0" "vmm_map_page f ?va 7 u = Ret () t" "grows s0 t" "frame_aligned f"
    "block_of f \<notin> used_blocks s0" "block_of f \<in> used_blocks t" "\<not> walk_frame (mem t) (current_page_directory t) f"
    "\<And>b. vm_lookup t b = (if vpn b = vpn ?va then Some (f OR 7) else vm_lookup s0 b)"
    "card (used_blocks t) \<le> card (used_blocks s0) + 2"
    by (rule map_fresh [OF s0(1-4), of 7]) (simp, rule that)
  note g = growsD [OF t(4)]
  have look: "vm_lookup t ?va = Some (f OR 7)" "?va AND 0xFFF = 0" using t(9) [of ?va] by simp_all
  obtain w where w: "kstore32 ?va 0xCAFEBABE t = Ret () w" "kload32 ?va w = Ret 0xCAFEBABE w" "vm_ok w" "paging_on w"
    "w = t\<lparr>mem := mem w\<rparr>" "\<And>b. vm_lookup w b = vm_lookup t b" "\<And>a. \<not> in_frame f a \<Longrightarrow> mem w a = mem t a"
    "\<And>g. walk_frame (mem w) (current_page_directory w) g = walk_frame (mem t) (current_page_directory t) g"
    by (rule signature [OF g(1,2) look t(5,8)]) (rule that)
  have gw: "grows s0 w" by (rule grows_data [OF t(4) w(5,3) t(6) w(7,8)])
  have nf: "\<not> walk_frame (mem w) (current_page_directory w) f" using w(8) t(8) by simp
  define x where "x = print (puts ''  -> Test A Passed: Virtual page successfully mapped, written, and verified.\<newline>'') w"
  have x: "vm_ok x" "\<not> walk_frame (mem x) (current_page_directory x) f" "grows s0 x" "paging_on x" "used_blocks x = used_blocks t"
    "vm_lookup x = vm_lookup w"
    using w(3,4) gw nf by (simp_all add: x_def) (subst w(5), simp)
  have xr: "ram_top x \<le> unat (frame_of ?va)" using growsD(4) [OF x(3)] s0(3) by simp
  obtain y where y: "vmm_unmap_page ?va x = Ret () y" "vm_ok y" "extends x y"
    "\<And>b. vm_lookup y b = (if vpn b = vpn ?va then None else vm_lookup x b)" "pmm_st y = pmm_st x"
    using unmap_page_spec [OF x(1), of ?va] xr by metis
  have gy: "grows x y" using y(2,3) extends_fields(11) [OF y(3)] x(4) by (intro grows_extends) simp_all
  have fu: "block_of f \<in> used_blocks x" using t(7) x(5) by simp
  have ny: "\<not> walk_frame (mem y) (current_page_directory y) f"
    using growsD(9) [OF gy fu x(2)] growsD(5) [OF gy] by simp
  note gs = grows_trans [OF s0(5) grows_trans [OF x(3) gy]]
  have fs: "block_of f \<notin> used_blocks s" using t(6) s0(6) by simp
  note fr = vm_ok_free [OF y(2) t(5,2) ny]
  have "vmm_test_a s = Ret () (free_block f y)"
    using t(1-3) w(1,2) y(1) by (simp add: vmm_test_a_def s0_def [symmetric] x_def [symmetric])
  moreover have "card (used_blocks (free_block f y)) \<le> card (used_blocks s) + 1"
    using fr(2) y(5) x(5) t(7,10) s0(6) by simp
  moreover have "vm_lookup (free_block f y) b = (if vpn b = 0xA0000 then None else vm_lookup s b)" for b
    using y(4) [of b] x(6) w(6) t(9) s0(7) by (simp add: free_block_def)
  ultimately show thesis
    by (intro that [of "free_block f y"] grows_free [OF gs fs t(5,2) ny])
qed

lemma vmm_test_b_spec:
  fixes s :: "'a sys_scheme"
  assumes ok: "vm_ok s" "paging_on s" and h: "handlers (idt_st s) ! 14 = Some Page_fault_handler"
    and look: "vm_lookup s 0x40000000 = None" and room: "2 \<le> free_blocks s"
  obtains t where "vmm_test_b s = Ret () t" "grows s t" "card (used_blocks t) \<le> card (used_blocks s) + 2"
    "\<And>b. vm_lookup t b = vm_lookup s b" "card (used_blocks s) < card (used_blocks t)"
proof -
  let ?va = "0x40000000 :: u32"
  define s0 where "s0 = print (puts ''     (Writing to unmapped 0xC0000000 to trigger demand allocation)\<newline>'')
    (print (puts ''  -> Test B: Demand Paging Verification...\<newline>'') s)"
  have s0: "vm_ok s0" "paging_on s0" "handlers (idt_st s0) ! 14 = Some Page_fault_handler" "vm_lookup s0 ?va = None"
    "fault_need ?va s0 \<le> free_blocks s0" "grows s s0" "used_blocks s0 = used_blocks s" "vm_lookup s0 = vm_lookup s" "idt_st s0 = idt_st s"
    using ok h look room grows_refl [OF ok] by (simp_all add: s0_def free_blocks_def fault_need_def)
  have df: "demand_fault ?va 2" by (simp add: demand_fault_def)
  obtain t f where t: "page_fault 2 ?va s0 = Ret () t" "vm_ok t" "paging_on t" "frame_aligned f" "f \<noteq> 0"
    "block_of f \<notin> used_blocks s0" "block_of f \<in> used_blocks t"
    "\<And>b. vm_lookup t b = (if vpn b = vpn ?va then Some (f OR 7) else vm_lookup s0 b)"
    "\<And>g b. block_of g \<in> used_blocks s0 \<Longrightarrow> \<not> walk_frame (mem s0) (current_page_directory s0) g \<Longrightarrow>
       in_frame g b \<Longrightarrow> mem t b = mem s0 b"
    "t = s0\<lparr>mem := mem t, tlb := tlb t, pmm_st := pmm_st t, console := console t, cr2 := ?va\<rparr>"
    "used_blocks s0 \<subseteq> used_blocks t" "ram_top t = ram_top s0" "card (used_blocks t) = card (used_blocks s0) + fault_need ?va s0"
    "\<not> walk_frame (mem t) (current_page_directory t) f"
    "\<And>g. block_of g \<in> used_blocks s0 \<Longrightarrow> \<not> walk_frame (mem s0) (current_page_directory s0) g \<Longrightarrow>
       \<not> walk_frame (mem t) (current_page_directory t) g"
    by (rule page_fault_resolves [OF s0(1-4) df s0(5)]) (rule that)
  have tc: "cr2 t = ?va" "current_page_directory t = current_page_directory s0" by (subst t(10), simp)+
  have tt: "pmm_total_blocks (pmm_st t) = pmm_total_blocks (pmm_st s0)" using t(12) by (simp add: word_unat_eq_iff)
  have gt: "grows s0 t" using t(2,3,9,11,15) t(10) [folded tc(1)] tc(2) tt unfolding grows_def by auto
  have lk: "vm_lookup t ?va = Some (f OR 7)" "?va AND 0xFFF = 0" using t(8) [of ?va] by simp_all
  obtain w where w: "kstore32 ?va 0x12345678 t = Ret () w" "kload32 ?va w = Ret 0x12345678 w" "vm_ok w" "paging_on w"
    "w = t\<lparr>mem := mem w\<rparr>" "\<And>b. vm_lookup w b = vm_lookup t b" "\<And>a. \<not> in_frame f a \<Longrightarrow> mem w a = mem t a"
    "\<And>g. walk_frame (mem w) (current_page_directory w) g = walk_frame (mem t) (current_page_directory t) g"
    by (rule signature [OF t(2,3) lk t(4,14)]) (rule that)
  have st: "kstore32 ?va 0x12345678 s0 = Ret () w"
  proof -
    have "translate s0 ?va = None" using s0(1,2,4) by (simp add: translate_lookup)
    moreover have "translate t ?va = Some f" using t(2,3,4) lk by (simp add: translate_lookup frame_or_flags)
    ultimately show ?thesis using t(1) w(1) by (simp add: kstore32_def retry_def store32_def)
  qed
  have gw: "grows s0 w" by (rule grows_data [OF gt w(5,3) t(6) w(7,8)])
  define x where "x = print (puts ''  -> Test B Passed: Demand paging dynamically resolved non-present access.\<newline>'') w"
  have x: "vm_ok x" "grows s0 x" "paging_on x" "vm_lookup x = vm_lookup w" "used_blocks x = used_blocks t"
    using w(3,4) gw by (simp_all add: x_def) (subst w(5), simp)
  have "ram_top x \<le> unat (frame_of ?va)" using growsD(4) [OF x(2)] unmapped_outside [OF s0(1,2,4)] by simp
  then obtain y where y: "vmm_unmap_page ?va x = Ret () y" "vm_ok y" "extends x y"
    "\<And>b. vm_lookup y b = (if vpn b = vpn ?va then None else vm_lookup x b)" "pmm_st y = pmm_st x"
    using unmap_page_spec [OF x(1), of ?va] by metis
  have gy: "grows x y" using y(2,3) extends_fields(11) [OF y(3)] x(3) by (intro grows_extends) simp_all
  have "vmm_test_b s = Ret () y"
    using st w(2) y(1) by (simp add: vmm_test_b_def s0_def [symmetric] x_def [symmetric] Let_def del: print_print)
  moreover have "card (used_blocks y) \<le> card (used_blocks s) + 2" "card (used_blocks s) < card (used_blocks y)"
    using y(5) x(5) t(13) s0(7) by (simp_all add: fault_need_def)
  moreover have "vm_lookup y b = vm_lookup s b" for b
    using y(4) [of b] x(4) w(6) t(8) [of b] s0(8) look page_walk_vpn [of b ?va] by (auto split: if_splits)
  ultimately show thesis
    by (intro that [of y] grows_trans [OF s0(6) grows_trans [OF x(2) gy]])
qed

lemma security_page_spec:
  fixes s :: "'a sys_scheme"
  assumes ok: "vm_ok s" "paging_on s" and ram: "ram_top s \<le> 0xD0000000" and room: "2 \<le> free_blocks s"
  obtains t f where "security_page s = Ret () t" "grows s t" "card (used_blocks t) \<le> card (used_blocks s) + 2"
    "\<And>b. vm_lookup t b = (if vpn b = 0xD0000 then Some (f OR 3) else vm_lookup s b)" "frame_aligned f" "block_of f \<notin> used_blocks s"
proof -
  have r: "ram_top s \<le> unat (frame_of (0xD0000000 :: u32))" using ram by simp
  obtain f u t where t: "alloc_block s = (f, u)" "f \<noteq> 0" "vmm_map_page f 0xD0000000 3 u = Ret () t" "grows s t" "frame_aligned f"
    "block_of f \<notin> used_blocks s"
    "\<And>b. vm_lookup t b = (if vpn b = vpn 0xD0000000 then Some (f OR 3) else vm_lookup s b)"
    "card (used_blocks t) \<le> card (used_blocks s) + 2"
    by (rule map_fresh [OF ok r room, of 3]) (simp, rule that)
  then show thesis by (intro that [of t f]) (simp_all add: security_page_def)
qed

lemma free_blocks_grows:
  "grows s t \<Longrightarrow> card (used_blocks t) \<le> card (used_blocks s) + n \<Longrightarrow> free_blocks s \<le> free_blocks t + n"
  using growsD(4) [of s t] by (simp add: free_blocks_def)

subsection \<open>Properties of the self tests\<close>

text \<open>
  The self test of the allocator passes exactly when at least three blocks are free; then
  the blocks in use are the same as before, so the test loses no memory. With fewer free blocks
  the kernel stops there.
\<close>

theorem pmm_selftest_passes:
  assumes "pmm_inv (pmm_st s)" "0 \<in> used_blocks s"
  shows "if 3 \<le> free_blocks s
    then \<exists>t. pmm_selftest (pmm_get_free_blocks (pmm_st s)) s = Ret () t \<and> used_blocks t = used_blocks s \<and>
      pmm_inv (pmm_st t) \<and> t = s\<lparr>pmm_st := pmm_st t, console := console t\<rparr>
    else \<exists>t. pmm_selftest (pmm_get_free_blocks (pmm_st s)) s = Hang t"
proof (cases "3 \<le> free_blocks s")
  case True
  then show ?thesis
    using pmm_selftest_spec [OF assms True] by (metis only_pmm_def)
next
  case False
  obtain b1 p1 b2 p2 b3 p3 where al: "pmm_alloc_block (pmm_st s) = (b1, p1)" "pmm_alloc_block p1 = (b2, p2)"
    "pmm_alloc_block p2 = (b3, p3)" by (metis surj_pair)
  have "b1 = 0 \<or> b2 = 0 \<or> b3 = 0"
  proof (rule ccontr)
    assume "\<not> ?thesis"
    then have b: "b1 \<noteq> 0" "b2 \<noteq> 0" "b3 \<noteq> 0" by simp_all
    note f1 = fa.alloc_fresh [OF assms al(1) b(1)]
    have z1: "0 \<in> blocks_in_use p1" using f1(4) assms(2) by simp
    note f2 = fa.alloc_fresh [OF f1(5) z1 al(2) b(2)]
    have z2: "0 \<in> blocks_in_use p2" using f2(4) z1 by simp
    note f3 = fa.alloc_fresh [OF f2(5) z2 al(3) b(3)]
    have "card (blocks_in_use p3) = card (used_blocks s) + 3" using f1(3,4) f2(3,4) f3(3,4) by simp
    then show False using False card_blocks_le [of p3] f1(6) f2(6) f3(6) by (simp add: free_blocks_def)
  qed
  then show ?thesis
    using False al by (auto simp: pmm_selftest_def alloc_block_def stop_def Let_def)
qed

theorem pmm_selftest_passes_witness:
  "\<exists>t. pmm_selftest (pmm_get_free_blocks (pmm_st small_sys)) small_sys = Ret () t \<and> used_blocks t = {0}"
proof -
  have "3 \<le> free_blocks small_sys" by (simp add: free_blocks_def small_sys_fields small_pmm_ok)
  then show ?thesis
    using pmm_selftest_passes [of small_sys] by (auto simp: small_sys_fields small_pmm_ok)
qed

text \<open>
  C25 The two paging tests pass on a machine with at most 1 GB of RAM, with the page fault
  handler registered and three free blocks. Afterwards only the test page of test A is unmapped,
  everything else is mapped as before, memory in use keeps its contents and paging is
  consistent; but test B leaves blocks allocated: it unmaps the demand-paged page without
  freeing its frame.
\<close>

theorem vmm_tests_pass:
  fixes s :: "'a sys_scheme"
  assumes "vm_ok s" "paging_on s" "handlers (idt_st s) ! 14 = Some Page_fault_handler"
    and "ram_top s \<le> 0x40000000" "vm_lookup s 0x40000000 = None" "3 \<le> free_blocks s"
  shows "\<exists>t u. vmm_test_a s = Ret () t \<and> vmm_test_b t = Ret () u \<and> vm_ok u \<and> paging_on u \<and>
    (\<forall>b. vm_lookup u b = (if vpn b = 0xA0000 then None else vm_lookup s b)) \<and>
    (\<forall>f a. block_of f \<in> used_blocks s \<and> \<not> walk_frame (mem s) (current_page_directory s) f \<and> in_frame f a \<longrightarrow> mem u a = mem s a) \<and>
    used_blocks s \<subset> used_blocks u"
proof -
  have r: "ram_top s \<le> 0xA0000000" "2 \<le> free_blocks s" using assms(4,6) by simp_all
  obtain t where t: "vmm_test_a s = Ret () t" "grows s t" "card (used_blocks t) \<le> card (used_blocks s) + 1"
    "\<And>b. vm_lookup t b = (if vpn b = 0xA0000 then None else vm_lookup s b)"
    by (rule vmm_test_a_spec [OF assms(1,2) r]) (rule that)
  note g = growsD [OF t(2)]
  have r2: "vm_lookup t 0x40000000 = None" "2 \<le> free_blocks t"
    using t(4) assms(5,6) free_blocks_grows [OF t(2,3)] by simp_all
  obtain u where u: "vmm_test_b t = Ret () u" "grows t u" "\<And>b. vm_lookup u b = vm_lookup t b"
    "card (used_blocks t) < card (used_blocks u)"
    by (rule vmm_test_b_spec [OF g(1,2) assms(3) [folded g(6)] r2]) (rule that)
  note gu = growsD [OF grows_trans [OF t(2) u(2)]]
  have "used_blocks t \<subset> used_blocks u" using growsD(3) [OF u(2)] u(4) by auto
  then have "used_blocks s \<subset> used_blocks u" using g(3) by auto
  then show ?thesis
    using t(1,4) u(1,3) gu(1,2,10) by (intro exI [of _ t] exI [of _ u]) auto
qed

theorem vmm_tests_pass_witness:
  "\<exists>s t u. vmm_init small_sys = Ret () s \<and> vmm_test_a s = Ret () t \<and> vmm_test_b t = Ret () u \<and> used_blocks s \<subset> used_blocks u"
proof -
  have p: "pmm_inv (pmm_st small_sys)" "0 \<in> used_blocks small_sys"
    "card (used_blocks small_sys) + 1 + (unat (pmm_total_blocks (pmm_st small_sys)) + 1023) div 1024
      \<le> unat (pmm_total_blocks (pmm_st small_sys))"
    by (simp_all add: small_sys_fields small_pmm_ok)
  obtain s where s: "vmm_init small_sys = Ret () s" "vm_ok s" "paging_on s"
    "identity_upto (unat (pmm_total_blocks (pmm_st small_sys))) s"
    "handlers (idt_st s) = (handlers (idt_st small_sys))[14 := Some Page_fault_handler]"
    "ram_top s = 4096 * unat (pmm_total_blocks (pmm_st small_sys))"
    "card (used_blocks s) = card (used_blocks small_sys) + 1 +
       (unat (pmm_total_blocks (pmm_st small_sys)) + 1023) div 1024"
    by (rule vmm_init_spec [OF small_sys_fields(1) p]) (rule that)
  have "3 \<le> free_blocks s" using s(6,7) by (simp add: free_blocks_def small_sys_fields small_pmm_ok)
  moreover have "handlers (idt_st s) ! 14 = Some Page_fault_handler" using s(5) by (simp add: small_sys_fields)
  moreover have "ram_top s \<le> 0x40000000" "vm_lookup s 0x40000000 = None"
    using s(4,6) by (simp_all add: identity_upto_def small_sys_fields small_pmm_ok)
  ultimately show ?thesis using vmm_tests_pass [OF s(2,3)] s(1) by blast
qed

end
