(* ===== verification/Boot.thy ===== *)
theory Boot
  imports Kernel
begin

text \<open>
  The boot of the kernel as a whole: what \<^verbatim>\<open>kernel_main\<close> of \<^verbatim>\<open>src/src/kernel.c\<close> leaves behind when it
  runs its phases (tables, block allocator, paging, tasks, timer) one after the other. The phases
  themselves are defined in \<^verbatim>\<open>Kernel\<close>; each section here describes one of them by what it keeps of
  the earlier ones, and the last one composes them.
\<close>

subsection \<open>The boot\<close>

lemma handlers_set_gates [simp]: "handlers (fold (\<lambda>n. idt_set_gate (f n) (g n) c d) xs s) = handlers s"
  by (induction xs arbitrary: s) simp_all

lemma idt_init_handlers: "handlers (idt_init isr irq a b s) = replicate 256 None"
  by (simp add: idt_init_def idt_flush_def Let_def)

lemma boot_tables_simps [simp]:
  "mem (boot_tables im s) = mem s" "pmm_st (boot_tables im s) = pmm_st s" "paging_on (boot_tables im s) = paging_on s"
  "sys.more (boot_tables im s) = sys.more s"
  "handlers (idt_st (boot_tables im s)) = (replicate 256 None)[128 := Some Syscall_dispatch]"
  by (simp_all add: boot_tables_def Let_def syscall_init_def register_handler_def idt_register_handler_def idt_init_handlers
      paging_on_def print_def)

lemma report_memory_console: "\<exists>c. report_memory s = s\<lparr>console := c\<rparr>"
  by (simp add: report_memory_def Let_def print_def) blast

lemma boot_pmm_spec:
  assumes "pmm_init (mem s) (im_kernel_start im) (im_kernel_end im) mbi_addr (pmm_st s) = Some q"
  obtains t where "boot_pmm im mbi_addr s = Ret () t" "only_pmm s t" "pmm_st t = q"
proof -
  let ?s = "print (puts ''[Kernel] Physical Memory Manager (PMM) initialized.\<newline>'') (s\<lparr>pmm_st := q\<rparr>)"
  obtain c where "report_memory ?s = ?s\<lparr>console := c\<rparr>" using report_memory_console by blast
  then have "boot_pmm im mbi_addr s = Ret () (?s\<lparr>console := c\<rparr>)" using assms by (simp add: boot_pmm_def Let_def)
  then show thesis by (intro that [of "?s\<lparr>console := c\<rparr>"]) (simp_all add: only_pmm_def print_def)
qed

lemma only_pmmD:
  assumes "only_pmm s t"
  shows "mem t = mem s" "paging_on t = paging_on s" "idt_st t = idt_st s" "cr3 t = cr3 s" "sys.more t = sys.more s"
proof -
  obtain p c where "t = s\<lparr>pmm_st := p, console := c\<rparr>" using assms by (auto simp: only_pmm_def)
  then show "mem t = mem s" "paging_on t = paging_on s" "idt_st t = idt_st s" "cr3 t = cr3 s" "sys.more t = sys.more s"
    by (simp_all add: paging_on_def)
qed

subsection \<open>Memory that the boot leaves alone\<close>

text \<open>Frames that are in use, but not for the active directory, stay so and keep their contents.\<close>

definition frames_kept :: "'a sys_scheme \<Rightarrow> 'a sys_scheme \<Rightarrow> bool" where
  "frames_kept s t \<longleftrightarrow> used_blocks s \<subseteq> used_blocks t \<and> current_page_directory t = current_page_directory s \<and>
     (\<forall>f. block_of f \<in> used_blocks s \<and> \<not> walk_frame (mem s) (current_page_directory s) f \<longrightarrow>
        \<not> walk_frame (mem t) (current_page_directory t) f \<and> (\<forall>a. in_frame f a \<longrightarrow> mem t a = mem s a))"

lemma frames_kept_refl [simp]: "frames_kept s s"
  by (simp add: frames_kept_def)

lemma frames_kept_trans: "frames_kept s t \<Longrightarrow> frames_kept t u \<Longrightarrow> frames_kept s u"
  unfolding frames_kept_def by (metis (no_types, lifting) subset_iff)

lemma grows_frames: "grows s t \<Longrightarrow> frames_kept s t"
  using growsD(3,5,9,10) [of s t] by (auto simp: frames_kept_def)

text \<open>The blocks \<open>B\<close> are in use, but not for the active directory, and hold what \<open>m\<close> holds there.\<close>

definition untouched :: "nat set \<Rightarrow> memory \<Rightarrow> 'a sys_scheme \<Rightarrow> bool" where
  "untouched B m s \<longleftrightarrow> B \<subseteq> used_blocks s \<and>
     (\<forall>a. block_of a \<in> B \<longrightarrow> \<not> walk_frame (mem s) (current_page_directory s) (frame_of a) \<and> mem s a = m a)"

lemma untouchedD:
  assumes "untouched B m s" "block_of a \<in> B"
  shows "block_of a \<in> used_blocks s" "\<not> walk_frame (mem s) (current_page_directory s) (frame_of a)" "mem s a = m a"
  using assms by (auto simp: untouched_def)

lemma untouched_subset: "untouched B m s \<Longrightarrow> C \<subseteq> B \<Longrightarrow> untouched C m s"
  by (auto simp: untouched_def)

lemma frame_kept:
  assumes "frames_kept s t" "block_of a \<in> used_blocks s" "\<not> walk_frame (mem s) (current_page_directory s) (frame_of a)"
  shows "\<not> walk_frame (mem t) (current_page_directory t) (frame_of a)" "mem t a = mem s a"
proof -
  have "block_of (frame_of a) \<in> used_blocks s" using assms(2) by simp
  then have "\<not> walk_frame (mem t) (current_page_directory t) (frame_of a) \<and> (\<forall>b. in_frame (frame_of a) b \<longrightarrow> mem t b = mem s b)"
    using assms(1,3) unfolding frames_kept_def by blast
  then show "\<not> walk_frame (mem t) (current_page_directory t) (frame_of a)" "mem t a = mem s a" by (simp_all add: in_frame_def)
qed

lemma untouched_step:
  assumes "untouched B m s" "frames_kept s t"
  shows "untouched B m t"
  unfolding untouched_def
proof (intro conjI allI impI)
  show "B \<subseteq> used_blocks t" using assms by (auto simp: untouched_def frames_kept_def)
  fix a assume a: "block_of a \<in> B"
  note u = untouchedD [OF assms(1) a] and k = frame_kept [OF assms(2), of a]
  show "\<not> walk_frame (mem t) (current_page_directory t) (frame_of a)" "mem t a = m a" using u k by simp_all
qed

lemma untouched_cong:
  "mem t = mem s \<Longrightarrow> pmm_st t = pmm_st s \<Longrightarrow> current_page_directory t = current_page_directory s \<Longrightarrow>
   untouched B m t = untouched B m s"
  by (simp add: untouched_def)

subsection \<open>The boot module\<close>

text \<open>
  The first boot module, as the Multiboot structure in low memory describes it: its start and end,
  or \<open>None\<close>.
\<close>

definition initrd_at :: "memory \<Rightarrow> u32 \<Rightarrow> (u32 \<times> u32) option \<Rightarrow> bool" where
  "initrd_at m a r \<longleftrightarrow> unat a + 28 \<le> 0x100000 \<and>
     (case r of
        None \<Rightarrow> rd32 m a AND 8 = 0 \<or> rd32 m (a + 20) = 0
      | Some (start, fin) \<Rightarrow> rd32 m a AND 8 \<noteq> 0 \<and> rd32 m (a + 20) \<noteq> 0 \<and> unat (rd32 m (a + 24)) + 8 \<le> 0x100000 \<and>
          rd32 m (rd32 m (a + 24)) = start \<and> rd32 m (rd32 m (a + 24) + 4) = fin)"

lemma rd32_low:
  assumes "\<And>b. unat b < 0x100000 \<Longrightarrow> m' b = m b" "unat a + unat k + 4 \<le> 0x100000"
  shows "rd32 m' (a + k) = rd32 m (a + k)"
proof (rule rd32_cong)
  fix i :: nat assume "i < 4"
  have "unat (a + k) = unat a + unat k" using assms(2) by (simp add: unat_plus_small)
  then have "unat (a + k + of_nat i) < 0x100000" using assms(2) \<open>i < 4\<close> by (simp add: unat_plus_small unat_of_nat)
  then show "m' (a + k + of_nat i) = m (a + k + of_nat i)" by (rule assms(1))
qed

lemma initrd_at_low:
  assumes low: "\<And>b. unat b < 0x100000 \<Longrightarrow> m' b = m b"
  shows "initrd_at m' a r = initrd_at m a r"
proof (cases "unat a + 28 \<le> 0x100000")
  case True
  have w: "rd32 m' a = rd32 m a" "rd32 m' (a + 20) = rd32 m (a + 20)" "rd32 m' (a + 24) = rd32 m (a + 24)"
    using rd32_low [OF low, where a = a and k = 0] rd32_low [OF low, where a = a and k = 20] rd32_low [OF low, where a = a and k = 24] True by simp_all
  have "rd32 m' b = rd32 m b" "rd32 m' (b + 4) = rd32 m (b + 4)" if "unat b + 8 \<le> 0x100000" for b
    using rd32_low [OF low, where a = b and k = 0] rd32_low [OF low, where a = b and k = 4] that by simp_all
  then show ?thesis unfolding initrd_at_def w by (auto split: option.split)
qed (simp add: initrd_at_def)

lemma initrd_list:
  assumes r: "initrd_at (mem s) a r" and low: "\<And>b. unat b < 0x100000 \<Longrightarrow> translate s b = Some b"
  shows "module_list a s = Ret (case r of None \<Rightarrow> None | Some _ \<Rightarrow> Some (rd32 (mem s) (a + 24))) s"
proof -
  have a: "unat a + 28 \<le> 0x100000" using r by (simp add: initrd_at_def)
  then have "translate s a = Some a" "translate s (a + 20) = Some (a + 20)" "translate s (a + 24) = Some (a + 24)"
    by (simp_all add: low unat_plus_small)
  then show ?thesis
    using r by (cases r) (auto simp: initrd_at_def module_list_def kload32_mapped word_neq_0_conv)
qed

lemma initrd_found:
  assumes r: "initrd_at (mem s) a r" and low: "\<And>b. unat b < 0x100000 \<Longrightarrow> translate s b = Some b"
    and st: "\<And>start fin. r = Some (start, fin) \<Longrightarrow> translate s start \<noteq> None"
  shows "\<exists>f. pre_vmm_probe a s = Ret () (print f s)" "\<exists>f. post_vmm_probe a s = Ret () (print f s)"
    "find_initrd a s = Ret (case r of None \<Rightarrow> (0, 0) | Some x \<Rightarrow> x) s"
proof -
  let ?b = "rd32 (mem s) (a + 24)"
  note ml = initrd_list [OF r low]
  have "(\<exists>f. pre_vmm_probe a s = Ret () (print f s)) \<and> (\<exists>f. post_vmm_probe a s = Ret () (print f s)) \<and>
    find_initrd a s = Ret (case r of None \<Rightarrow> (0, 0) | Some x \<Rightarrow> x) s"
  proof (cases r)
    case None
    have "print id s = s" by (simp add: print_def)
    then show ?thesis
      using ml None by (auto simp: pre_vmm_probe_def post_vmm_probe_def find_initrd_def intro!: exI [of _ id])
  next
    case (Some x)
    obtain start fin where x: "x = (start, fin)" by (cases x)
    then have b: "unat ?b + 8 \<le> 0x100000" "rd32 (mem s) ?b = start" "rd32 (mem s) (?b + 4) = fin"
      using r Some by (simp_all add: initrd_at_def)
    then have tb: "translate s ?b = Some ?b" "translate s (?b + 4) = Some (?b + 4)" by (simp_all add: low unat_plus_small)
    obtain p where p: "translate s start = Some p" using st Some x by blast
    show ?thesis
      using ml Some x b tb p
      by (auto simp: pre_vmm_probe_def post_vmm_probe_def find_initrd_def kload32_mapped kload8_mapped Let_def)
  qed
  then show "\<exists>f. pre_vmm_probe a s = Ret () (print f s)" "\<exists>f. post_vmm_probe a s = Ret () (print f s)"
    "find_initrd a s = Ret (case r of None \<Rightarrow> (0, 0) | Some x \<Rightarrow> x) s" by blast+
qed

text \<open>When the memory below 1 MB is reserved, the module is found there as before.\<close>

lemma initrd_kept:
  assumes "vm_ok s" "untouched B m s" "{0..<256} \<subseteq> B" "initrd_at m a r"
  shows "initrd_at (mem s) a r" "\<And>b. unat b < 0x100000 \<Longrightarrow> translate s b = Some b"
proof -
  have low: "block_of b \<in> B" if "unat b < 0x100000" for b
  proof -
    have "block_of b \<in> {0..<256}" using that by simp
    then show ?thesis using assms(3) by blast
  qed
  show "initrd_at (mem s) a r" using assms(4) initrd_at_low [of "mem s" m] untouchedD(3) [OF assms(2) low] by blast
  show "translate s b = Some b" if "unat b < 0x100000" for b
    by (rule used_translate [OF assms(1) untouchedD(1) [OF assms(2) low [OF that]]])
qed

subsection \<open>Paging comes up\<close>

lemma cli_simps [simp]:
  "mem (cli s) = mem s" "pmm_st (cli s) = pmm_st s" "current_page_directory (cli s) = current_page_directory s"
  "idt_st (cli s) = idt_st s" "paging_on (cli s) = paging_on s" "\<not> iflag (cli s)" "translate (cli s) = translate s"
  "sys.more (cli s) = sys.more s"
  by (auto simp: cli_def paging_on_def translate_def fun_eq_iff)

lemma grows_more: "grows s t \<Longrightarrow> sys.more t = sys.more s"
proof -
  assume "grows s t"
  then obtain m l p c r where "t = s\<lparr>mem := m, tlb := l, pmm_st := p, console := c, cr2 := r\<rparr>" by (auto simp: grows_def)
  then show ?thesis by simp
qed

lemma vm_ok_cli [simp]: "vm_ok (cli s) = vm_ok s"
  by (rule vm_ok_cong) (simp_all add: cli_def)

text \<open>The two tests and the security page, after paging is on.\<close>

lemma paging_tests:
  fixes s :: "'a sys_scheme"
  assumes ok: "vm_ok s" "paging_on s" "identity_upto N s" "ram_top s = 4096 * N" "N \<le> 0x40000"
    and h: "handlers (idt_st s) ! 14 = Some Page_fault_handler" and room: "5 \<le> free_blocks s"
  obtains a b t f where "vmm_test_a s = Ret () a" "vmm_test_b a = Ret () b"
    "security_page (print (puts ''[Kernel] VMM diagnostic tests passed successfully!\<newline>\<newline>'') b) = Ret () t"
    "grows s t" "free_blocks s \<le> free_blocks t + 5" "frame_aligned f" "block_of f \<notin> used_blocks s"
    "\<And>v. vm_lookup t v = (if vpn v = 0xD0000 then Some (f OR 3) else if unat v < 4096 * N then Some (frame_of v OR 7) else None)"
proof -
  let ?msg = "puts ''[Kernel] VMM diagnostic tests passed successfully!\<newline>\<newline>''"
  have look: "vm_lookup s v = (if unat v < 4096 * N then Some (frame_of v OR 7) else None)" for v
    using ok(3) by (simp add: identity_upto_def)
  have r1: "ram_top s \<le> 0xA0000000" "2 \<le> free_blocks s" using ok(4,5) room by simp_all
  obtain a where a: "vmm_test_a s = Ret () a" "grows s a" "card (used_blocks a) \<le> card (used_blocks s) + 1"
    "\<And>b. vm_lookup a b = (if vpn b = 0xA0000 then None else vm_lookup s b)"
    by (rule vmm_test_a_spec [OF ok(1,2) r1]) (rule that)
  have high: "vm_lookup s v = None" if "unat v \<ge> 0x40000000" for v using look [of v] ok(5) that by simp
  have va: "vm_lookup a v = vm_lookup s v" for v
  proof (cases "vpn v = 0xA0000")
    case True
    then have "unat v div 4096 = 0xA0000" using unat_drop_bit_u32 [of 12 v] by simp
    then have "unat v \<ge> 0x40000000" by (simp add: block_iff)
    then show ?thesis using a(4) high by simp
  qed (use a(4) in simp)
  note ga = growsD [OF a(2)]
  have r2: "vm_lookup a 0x40000000 = None" "2 \<le> free_blocks a"
    using va high free_blocks_grows [OF a(2,3)] room by simp_all
  obtain b where b: "vmm_test_b a = Ret () b" "grows a b" "card (used_blocks b) \<le> card (used_blocks a) + 2"
    "\<And>v. vm_lookup b v = vm_lookup a v"
    by (rule vmm_test_b_spec [OF ga(1,2) h [folded ga(6)] r2]) (rule that)
  note gb = growsD [OF b(2)]
  let ?b = "print ?msg b"
  have fb: "free_blocks s \<le> free_blocks b + 3"
    using free_blocks_grows [OF a(2,3)] free_blocks_grows [OF b(2,3)] by simp
  have r3: "vm_ok ?b" "paging_on ?b" "ram_top ?b \<le> 0xD0000000" "2 \<le> free_blocks ?b"
    using gb ga(4) ok(4,5) fb room by (simp_all add: free_blocks_def)
  obtain t f where t: "security_page ?b = Ret () t" "grows ?b t" "card (used_blocks t) \<le> card (used_blocks ?b) + 2"
    "\<And>v. vm_lookup t v = (if vpn v = 0xD0000 then Some (f OR 3) else vm_lookup ?b v)" "frame_aligned f" "block_of f \<notin> used_blocks ?b"
    by (rule security_page_spec [OF r3]) (rule that)
  have gs: "grows s t" using grows_trans [OF a(2) grows_trans [OF b(2)]] t(2) grows_trans [of b ?b t] gb(1,2) grows_refl
    by (metis grows_print)
  have "free_blocks s \<le> free_blocks t + 5" using fb free_blocks_grows [OF t(2,3)] by (simp add: free_blocks_def)
  moreover have "block_of f \<notin> used_blocks s" using t(6) ga(3) gb(3) by auto
  moreover have "vm_lookup t v = (if vpn v = 0xD0000 then Some (f OR 3) else if unat v < 4096 * N then Some (frame_of v OR 7) else None)" for v
    using t(4) [of v] b(4) va look by simp
  ultimately show thesis using a(1) b(1) t(1,5) gs by (intro that [of a b t f]) simp_all
qed

lemma boot_vmm_spec:
  fixes s :: "'a sys_scheme"
  defines "N \<equiv> unat (pmm_total_blocks (pmm_st s))"
  assumes off: "\<not> paging_on s" and inv: "pmm_inv (pmm_st s)" "{0..<256} \<subseteq> used_blocks s"
    and room: "card (used_blocks s) + 8 + (N + 1023) div 1024 \<le> N" and top: "N \<le> 0x40000"
    and r: "initrd_at (mem s) a r" "\<And>start fin. r = Some (start, fin) \<Longrightarrow> unat start < 4096 * N"
    and h: "length (handlers (idt_st s)) = 256"
  obtains t f where "boot_vmm a s = Ret () t" "vm_ok t" "paging_on t" "N \<le> card (used_blocks s) + free_blocks t + 6 + (N + 1023) div 1024"
    "handlers (idt_st t) = (handlers (idt_st s))[14 := Some Page_fault_handler]" "ram_top t = 4096 * N" "frame_aligned f"
    "\<And>v. vm_lookup t v = (if vpn v = 0xD0000 then Some (f OR 3) else if unat v < 4096 * N then Some (frame_of v OR 7) else None)"
    "untouched (used_blocks s) (mem s) t" "sys.more t = sys.more s"
proof -
  let ?s = "print (puts ''[Kernel] Initializing Virtual Memory Manager (VMM)...\<newline>'') s"
  let ?msg = "puts ''[Kernel] Running VMM diagnostic tests...\<newline>''"
  have tr: "translate ?s b = Some b" for b using off by (simp add: translate_off)
  obtain f1 where f1: "pre_vmm_probe a ?s = Ret () (print f1 ?s)"
    using initrd_found(1) [where s = ?s and a = a and r = r] r(1) tr by auto
  let ?q = "print f1 ?s"
  have p: "\<not> paging_on ?q" "pmm_inv (pmm_st ?q)" "0 \<in> used_blocks ?q" and
    pm: "card (used_blocks ?q) + 1 + (unat (pmm_total_blocks (pmm_st ?q)) + 1023) div 1024 \<le> unat (pmm_total_blocks (pmm_st ?q))"
    using off inv room by (auto simp: N_def)
  obtain v where v: "vmm_init ?q = Ret () v" "vm_ok v" "paging_on v" "identity_upto (unat (pmm_total_blocks (pmm_st ?q))) v"
    "handlers (idt_st v) = (handlers (idt_st ?q))[14 := Some Page_fault_handler]"
    "ram_top v = 4096 * unat (pmm_total_blocks (pmm_st ?q))" "used_blocks ?q \<subseteq> used_blocks v"
    "card (used_blocks v) = card (used_blocks ?q) + 1 + (unat (pmm_total_blocks (pmm_st ?q)) + 1023) div 1024"
    "\<And>f a. block_of f \<in> used_blocks ?q \<Longrightarrow> in_frame f a \<Longrightarrow> mem v a = mem ?q a"
    "\<And>f. block_of f \<in> used_blocks ?q \<Longrightarrow> \<not> walk_frame (mem v) (current_page_directory v) f"
    "sys.more v = sys.more ?q"
    by (rule vmm_init_spec [OF p pm]) (rule that)
  have un: "untouched (used_blocks s) (mem s) (cli v)"
    unfolding untouched_def
  proof (intro conjI allI impI)
    fix b assume "block_of b \<in> used_blocks s"
    then show "\<not> walk_frame (mem (cli v)) (current_page_directory (cli v)) (frame_of b)" "mem (cli v) b = mem s b"
      using v(9,10) [of "frame_of b"] by (simp_all add: in_frame_def)
  qed (use v(7) in simp)
  note found = initrd_kept [OF _ un inv(2) r(1)]
  have "translate (cli v) start \<noteq> None" if "r = Some (start, fin)" for start fin
    using window_translate [OF v(2), of start] r(2) [OF that] v(6) by (simp add: N_def)
  then obtain f2 where f2: "post_vmm_probe a (cli v) = Ret () (print f2 (cli v))"
    using initrd_found(2) [where s = "cli v" and a = a and r = r] found v(2) by auto
  let ?w = "print ?msg (print f2 (cli v))"
  have w: "vm_ok ?w" "paging_on ?w" "identity_upto N ?w" "ram_top ?w = 4096 * N" "N \<le> 0x40000"
    "handlers (idt_st ?w) ! 14 = Some Page_fault_handler"
    using v(2-6) top h by (simp_all add: identity_upto_def N_def)
  have wr: "5 \<le> free_blocks ?w" "N \<le> card (used_blocks s) + free_blocks ?w + 1 + (N + 1023) div 1024"
    using v(8) room w(4) by (simp_all add: free_blocks_def N_def)
  obtain x y t f where t: "vmm_test_a ?w = Ret () x" "vmm_test_b x = Ret () y"
    "security_page (print (puts ''[Kernel] VMM diagnostic tests passed successfully!\<newline>\<newline>'') y) = Ret () t"
    "grows ?w t" "free_blocks ?w \<le> free_blocks t + 5" "frame_aligned f" "block_of f \<notin> used_blocks ?w"
    "\<And>v. vm_lookup t v = (if vpn v = 0xD0000 then Some (f OR 3) else if unat v < 4096 * N then Some (frame_of v OR 7) else None)"
    by (rule paging_tests [OF w wr(1)]) (rule that)
  note g = growsD [OF t(4)]
  have "untouched (used_blocks s) (mem s) ?w" using un untouched_cong [of ?w "cli v"] by simp
  then have "untouched (used_blocks s) (mem s) t" using grows_frames [OF t(4)] by (rule untouched_step)
  moreover have "sys.more t = sys.more s" using grows_more [OF t(4)] v(11) by simp
  moreover have "boot_vmm a s = Ret () t"
    using f1 v(1) f2 t(1-3) by (simp add: boot_vmm_def Let_def del: print_print)
  moreover have "N \<le> card (used_blocks s) + free_blocks t + 6 + (N + 1023) div 1024" using wr(2) t(5) by simp
  ultimately show thesis
    using g t(6-8) v(5,7) w(4) by (intro that [of t f]) simp_all
qed

subsection \<open>The tasks start\<close>

lemma scheduler_init_fields:
  "mem (scheduler_init s) = mem s" "pmm_st (scheduler_init s) = pmm_st s" "idt_st (scheduler_init s) = idt_st s"
  "current_page_directory (scheduler_init s) = current_page_directory s" "paging_on (scheduler_init s) = paging_on s"
  "find_slot (task_table (scheduler_init s)) = Some 1" "t_pid (task_table (scheduler_init s) ! 1) = 0"
  "next_pid (scheduler_init s) = 2" "current_task (scheduler_init s) = Some 0"
  "t_page_directory (task_table (scheduler_init s) ! 0) = cr3 s" "t_state (task_table (scheduler_init s) ! 0) = TASK_STATE_RUNNING" "cr3 (scheduler_init s) = cr3 s"
  "reg_esp (scheduler_init s) = reg_esp s" "kern.more (scheduler_init s) = kern.more s"
  by (simp_all add: scheduler_init_def upd_task_def Let_def paging_on_def cli_def find_slot_def upt_rec slot_free_def task_zero_def read_cr3_def)

lemma print_kern_fields [simp]: "next_pid (print f s) = next_pid s" "reg_esp (print f s) = reg_esp s" "kern.more (print f s) = kern.more s"
  by (simp_all add: print_def)

lemma vm_ok_scheduler_init [simp]: "vm_ok (scheduler_init s) = vm_ok s"
  by (rule vm_ok_cong) (simp_all add: scheduler_init_def upd_task_def Let_def cli_def)

text \<open>The slot behind a list that fills the table from the front.\<close>

lemma slot_after:
  assumes "sched_inv [0..<n] s" "1 \<le> n" "n < 32" "\<And>i. 1 \<le> i \<Longrightarrow> i < n \<Longrightarrow> t_state (task_table s ! i) \<noteq> TASK_STATE_ZOMBIE"
  shows "find_slot (task_table s) = Some n" "t_pid (task_table s ! n) = 0"
proof -
  have pid: "i \<in> set [0..<n] \<longleftrightarrow> t_pid (task_table s ! i) \<noteq> 0" if "i < 32" for i
    using assms(1) that unfolding sched_inv_def by simp
  from pid [of n] assms(3) show z: "t_pid (task_table s ! n) = 0" by simp
  have "\<not> slot_free (task_table s ! i)" if "1 \<le> i" "i < n" for i
    using pid [of i] that assms(3,4) by (simp add: slot_free_def)
  then show "find_slot (task_table s) = Some n"
    unfolding find_slot_def find_Some_iff using z assms(2,3)
    by (intro exI [of _ "n - 1"]) (auto simp: slot_free_def nth_append)
qed

lemma next_slot:
  assumes "sched_inv [0, 1] s" "t_state (task_table s ! 1) = TASK_STATE_READY"
  shows "find_slot (task_table s) = Some 2" "t_pid (task_table s ! 2) = 0"
proof -
  have "sched_inv [0..<2] s" using assms(1) by (simp add: upt_rec numeral_2_eq_2)
  moreover have "t_state (task_table s ! i) \<noteq> TASK_STATE_ZOMBIE" if "1 \<le> i" "i < 2" for i
    using that assms(2) by (cases "i = 1") simp_all
  ultimately show "find_slot (task_table s) = Some 2" "t_pid (task_table s ! 2) = 0" using slot_after [of 2 s] by simp_all
qed

text \<open>
  Task \<open>i\<close> is READY and has never run: its stack page \<open>f\<close> holds the frame that the first switch
  pops, for the directory \<open>dir\<close> and the function \<open>ke\<close>.
\<close>

definition fresh_at :: "symbols \<Rightarrow> 'a kern_scheme \<Rightarrow> nat \<Rightarrow> u32 \<Rightarrow> u32 \<Rightarrow> u32 \<Rightarrow> u32 \<Rightarrow> bool" where
  "fresh_at syms s i f dir entry ke \<longleftrightarrow> (let t = task_table s ! i in
     t_state t = TASK_STATE_READY \<and> t_eip t = entry \<and> t_page_directory t = dir \<and> t_kstack t = f + 4096 \<and>
     t_esp t = f + 4096 - 28 \<and> frame_aligned f \<and> block_of f \<in> used_blocks s \<and>
     \<not> walk_frame (mem s) (current_page_directory s) f \<and>
     (\<forall>k < 7. rd32 (mem s) (f + 4 * (1017 + of_nat k)) = first_frame syms ke ! k))"

definition runnable :: "symbols \<Rightarrow> 'a kern_scheme \<Rightarrow> nat \<Rightarrow> u32 \<Rightarrow> u32 \<Rightarrow> u32 \<Rightarrow> bool" where
  "runnable syms s i dir entry ke \<longleftrightarrow> (\<exists>f. fresh_at syms s i f dir entry ke)"

lemma fresh_atD:
  assumes "fresh_at syms s i f dir entry ke"
  shows "t_state (task_table s ! i) = TASK_STATE_READY" "t_eip (task_table s ! i) = entry" "t_page_directory (task_table s ! i) = dir"
    "t_kstack (task_table s ! i) = f + 4096" "t_esp (task_table s ! i) = f + 4096 - 28" "frame_aligned f"
    "block_of f \<in> used_blocks s" "\<not> walk_frame (mem s) (current_page_directory s) f"
    "\<And>k. k < 7 \<Longrightarrow> rd32 (mem s) (f + 4 * (1017 + of_nat k)) = first_frame syms ke ! k"
  using assms unfolding fresh_at_def Let_def by auto

lemma fresh_at_cong:
  "task_table t ! i = task_table s ! i \<Longrightarrow> mem t = mem s \<Longrightarrow> pmm_st t = pmm_st s \<Longrightarrow>
   current_page_directory t = current_page_directory s \<Longrightarrow> fresh_at syms t i f dir entry ke = fresh_at syms s i f dir entry ke"
  by (simp add: fresh_at_def)

lemma fresh_at_step:
  assumes "fresh_at syms s i f dir entry ke" "frames_kept s t" "\<exists>n. task_table t ! i = (task_table s ! i)\<lparr>t_next := n\<rparr>"
  shows "fresh_at syms t i f dir entry ke"
proof -
  note d = fresh_atD [OF assms(1)]
  have f: "\<not> walk_frame (mem t) (current_page_directory t) f" "\<And>a. in_frame f a \<Longrightarrow> mem t a = mem s a" "block_of f \<in> used_blocks t"
    using assms(2) d(7,8) unfolding frames_kept_def by blast+
  have "rd32 (mem t) (f + 4 * (1017 + of_nat k)) = rd32 (mem s) (f + 4 * (1017 + of_nat k))" if "k < 7" for k
  proof (rule rd32_entry_cong [OF d(6)])
    show "unat (1017 + of_nat k :: u32) < 1024" using that by (simp add: unat_plus_small unat_of_nat)
  qed (rule f(2))
  then show ?thesis using d assms(3) f unfolding fresh_at_def Let_def by auto
qed

lemma start_task:
  fixes s :: "'a kern_scheme"
  assumes ok: "vm_ok s" "paging_on s" and inv: "sched_inv xs s"
    and slot: "find_slot (task_table s) = Some i" "t_pid (task_table s ! i) = 0" and pid: "next_pid s \<noteq> 0"
    and free: "1 \<le> free_blocks s"
    and ke: "ke = (if is_user then sym_task_user_bootstrap syms else entry)"
    and dir: "dir = (if page_dir \<noteq> 0 then page_dir else cr3 s)"
  obtains t f where "task_create syms entry page_dir is_user s = Ret (Some i) t" "vm_ok t" "paging_on t"
    "next_pid t = next_pid s + 1" "sched_inv (xs @ [i]) t" "fresh_at syms t i f dir entry ke" "block_of f \<notin> used_blocks s"
    "\<And>j. j \<noteq> i \<Longrightarrow> \<exists>n. task_table t ! j = (task_table s ! j)\<lparr>t_next := n\<rparr>" "frames_kept s t"
    "current_task t = current_task s" "free_blocks s = free_blocks t + 1" "ram_top t = ram_top s" "idt_st t = idt_st s"
    "\<And>b. ram_top s \<le> unat b \<Longrightarrow> vm_lookup t b = vm_lookup s b" "cr3 t = cr3 s" "reg_esp t = reg_esp s" "kern.more t = kern.more s"
    "\<And>a. \<not> in_frame f a \<Longrightarrow>
       mem t a = wr32 (frame_of (pde_of (mem s) (current_page_directory s) (pdx f)) + 4 * ptx f) (f OR 3) (mem s) a"
    "used_blocks t = insert (block_of f) (used_blocks s)"
proof -
  have fb: "used_blocks s \<noteq> all_blocks (pmm_st s)" using free free_blocks_0 [of s] by auto
  obtain t f where t: "task_create syms entry page_dir is_user s = Ret (Some i) t"
    "vm_ok t" "paging_on t" "next_pid t = next_pid s + 1" "sched_inv (xs @ [i]) t"
    "frame_aligned f" "block_of f \<notin> used_blocks s" "used_blocks t = insert (block_of f) (used_blocks s)"
    "ram_top t = ram_top s" "cr3 t = cr3 s" "current_page_directory t = current_page_directory s"
    "\<not> walk_frame (mem t) (current_page_directory t) f"
    "task_table t ! i = (fresh_task (next_pid s) f entry dir (task_table s ! i))\<lparr>t_next := None\<rparr>"
    "current_task t = current_task s"
    "\<And>k. k < 7 \<Longrightarrow> rd32 (mem t) (f + 4 * (1017 + of_nat k)) = first_frame syms ke ! k"
    "\<And>b. vm_lookup t b = (if vpn b = vpn f then Some (f OR 3) else vm_lookup s b)"
    "\<And>g. block_of g \<in> used_blocks s \<Longrightarrow> \<not> walk_frame (mem s) (current_page_directory s) g \<Longrightarrow>
       \<not> walk_frame (mem t) (current_page_directory t) g \<and> (\<forall>a. in_frame g a \<longrightarrow> mem t a = mem s a)"
    "reg_esp t = reg_esp s" "\<And>j. j \<noteq> i \<Longrightarrow> \<exists>n. task_table t ! j = (task_table s ! j)\<lparr>t_next := n\<rparr>"
    "\<And>a. \<not> in_frame f a \<Longrightarrow>
       mem t a = wr32 (frame_of (pde_of (mem s) (current_page_directory s) (pdx f)) + 4 * ptx f) (f OR 3) (mem s) a"
    by (rule task_create_new [OF ok inv slot pid fb ke dir]) (rule that)
  have "unat f + 4096 \<le> ram_top s" using used_in_ram [OF t(6), of t] t(8,9) by simp
  then have hi: "vpn b \<noteq> vpn f" if "ram_top s \<le> unat b" for b
    using that frame_alignedD [OF t(6)] by (auto simp: word_unat_eq_iff unat_drop_bit_u32)
  have "free_blocks s = free_blocks t + 1" using t(7,8,9) free by (simp add: free_blocks_def)
  moreover have "fresh_at syms t i f dir entry ke" using t(6,8,12,13,15) by (simp add: fresh_at_def fresh_task_def Let_def)
  moreover have "frames_kept s t" using t(8,11,17) by (auto simp: frames_kept_def)
  ultimately show thesis
    using t(1-5,7-10,14,16,18-20) hi idtab.task_create_same [OF t(1)] rest.task_create_same [OF t(1)] by (intro that [of t f]) simp_all
qed

lemma frames_kept_cong:
  "mem t = mem s \<Longrightarrow> pmm_st t = pmm_st s \<Longrightarrow> current_page_directory t = current_page_directory s \<Longrightarrow> frames_kept s t"
  by (simp add: frames_kept_def)

lemma start_tasks_spec:
  fixes s :: "'a kern_scheme"
  assumes ok: "vm_ok s" "paging_on s" and free: "2 \<le> free_blocks s"
  obtains t fa fb where "start_tasks im s = Ret () t" "vm_ok t" "paging_on t" "sched_inv [0, 1, 2] t" "current_task t = Some 0"
    "fresh_at (im_symbols im) t 1 fa (cr3 s) (im_task_a im) (im_task_a im)" "fresh_at (im_symbols im) t 2 fb (cr3 s) (im_task_b im) (im_task_b im)"
    "fa \<noteq> fb" "block_of fa \<notin> used_blocks s" "block_of fb \<notin> used_blocks s" "frames_kept s t" "free_blocks s = free_blocks t + 2"
    "ram_top t = ram_top s" "idt_st t = idt_st s" "\<And>b. ram_top s \<le> unat b \<Longrightarrow> vm_lookup t b = vm_lookup s b"
    "cr3 t = cr3 s" "reg_esp t = reg_esp s" "kern.more t = kern.more s" "next_pid t = 4"
    "t_page_directory (task_table t ! 0) = cr3 s" "t_state (task_table t ! 0) = TASK_STATE_RUNNING"
proof -
  define s0 where "s0 = print (puts ''[Kernel] Creating Tasks A and B...\<newline>'')
    (scheduler_init (print (puts ''[Kernel] Initializing Scheduler...\<newline>'') s))"
  have v: "sched_view s0 = sched_view (scheduler_init (print (puts ''[Kernel] Initializing Scheduler...\<newline>'') s))"
    by (simp add: s0_def)
  have s0: "vm_ok s0" "paging_on s0" "sched_inv [0] s0" "find_slot (task_table s0) = Some 1" "t_pid (task_table s0 ! 1) = 0"
    "next_pid s0 \<noteq> 0" "1 \<le> free_blocks s0"
    using ok free sched_inv_view [OF scheduler_init_inv v]
    by (simp_all add: s0_def scheduler_init_fields free_blocks_def del: One_nat_def)
  have e0: "current_task s0 = Some 0" "idt_st s0 = idt_st s" "ram_top s0 = ram_top s" "vm_lookup s0 = vm_lookup s" "next_pid s0 = 2"
    "free_blocks s0 = free_blocks s" "cr3 s0 = cr3 s" "reg_esp s0 = reg_esp s" "kern.more s0 = kern.more s"
    "used_blocks s0 = used_blocks s" "t_page_directory (task_table s0 ! 0) = cr3 s" "frames_kept s s0" "t_state (task_table s0 ! 0) = TASK_STATE_RUNNING"
    by (simp_all add: s0_def scheduler_init_fields free_blocks_def frames_kept_cong)
  have d0: "cr3 s = (if (0 :: u32) \<noteq> 0 then 0 else cr3 s0)" by (simp add: e0)
  obtain a fa where a: "task_create (im_symbols im) (im_task_a im) 0 False s0 = Ret (Some 1) a" "vm_ok a" "paging_on a"
    "next_pid a = next_pid s0 + 1" "sched_inv ([0] @ [1]) a"
    "fresh_at (im_symbols im) a 1 fa (cr3 s) (im_task_a im) (if False then sym_task_user_bootstrap (im_symbols im) else im_task_a im)" "block_of fa \<notin> used_blocks s0"
    "\<And>j. j \<noteq> 1 \<Longrightarrow> \<exists>n. task_table a ! j = (task_table s0 ! j)\<lparr>t_next := n\<rparr>" "frames_kept s0 a"
    "current_task a = current_task s0" "free_blocks s0 = free_blocks a + 1" "ram_top a = ram_top s0" "idt_st a = idt_st s0"
    "\<And>b. ram_top s0 \<le> unat b \<Longrightarrow> vm_lookup a b = vm_lookup s0 b" "cr3 a = cr3 s0" "reg_esp a = reg_esp s0" "kern.more a = kern.more s0"
    by (rule start_task [OF s0 refl d0]) (rule that)
  have st: "sched_inv [0, 1] a" "t_state (task_table a ! 1) = TASK_STATE_READY"
    using a(5) fresh_atD(1) [OF a(6)] by simp_all
  have pa: "next_pid a \<noteq> 0" "1 \<le> free_blocks a" using a(4,11) e0 free by simp_all
  have d1: "cr3 s = (if (0 :: u32) \<noteq> 0 then 0 else cr3 a)" by (simp add: e0 a(15))
  obtain b fb where b: "task_create (im_symbols im) (im_task_b im) 0 False a = Ret (Some 2) b" "vm_ok b" "paging_on b"
    "next_pid b = next_pid a + 1" "sched_inv ([0, 1] @ [2]) b"
    "fresh_at (im_symbols im) b 2 fb (cr3 s) (im_task_b im) (if False then sym_task_user_bootstrap (im_symbols im) else im_task_b im)" "block_of fb \<notin> used_blocks a"
    "\<And>j. j \<noteq> 2 \<Longrightarrow> \<exists>n. task_table b ! j = (task_table a ! j)\<lparr>t_next := n\<rparr>" "frames_kept a b"
    "current_task b = current_task a" "free_blocks a = free_blocks b + 1" "ram_top b = ram_top a" "idt_st b = idt_st a"
    "\<And>v. ram_top a \<le> unat v \<Longrightarrow> vm_lookup b v = vm_lookup a v" "cr3 b = cr3 a" "reg_esp b = reg_esp a" "kern.more b = kern.more a"
    by (rule start_task [OF a(2,3) st(1) next_slot [OF st] pa refl d1]) (rule that)
  have run: "start_tasks im s = Ret () b"
    using a(1) b(1) by (simp add: start_tasks_def s0_def [symmetric] Let_def)
  have fr: "fresh_at (im_symbols im) b 1 fa (cr3 s) (im_task_a im) (im_task_a im)" "fresh_at (im_symbols im) b 2 fb (cr3 s) (im_task_b im) (im_task_b im)"
    using fresh_at_step [OF a(6) b(9) b(8)] b(6) by simp_all
  have used: "used_blocks s \<subseteq> used_blocks a" "block_of fa \<in> used_blocks a"
    using a(9) e0(10) fresh_atD(7) [OF a(6)] by (simp_all add: frames_kept_def)
  have ne: "fa \<noteq> fb" "block_of fb \<notin> used_blocks s" using b(7) used by auto
  have "t_page_directory (task_table b ! 0) = cr3 s" "t_state (task_table b ! 0) = TASK_STATE_RUNNING"
    using a(8) [of 0] b(8) [of 0] e0(11,13) by auto
  then show thesis
    using that [OF run b(2,3) _ _ fr ne(1) _ ne(2)] a b(4-17) e0 frames_kept_trans [OF frames_kept_trans [OF e0(12) a(9)] b(9)] by auto
qed

subsection \<open>The whole boot\<close>

lemma start_timer_spec:
  obtains t where "start_timer s = Ret () t" "t = s\<lparr>ports := ports t, idt_st := idt_st t, console := console t, iflag := True\<rparr>"
    "handlers (idt_st t) = (handlers (idt_st s))[32 := Some Timer_callback]"
  by (rule that [of "case start_timer s of Ret _ t \<Rightarrow> t"])
    (simp_all add: start_timer_def timer_init_def Let_def fold_outb outb_def register_handler_def idt_register_handler_def
      sti_def print_def)

lemma start_timer_keeps:
  fixes s :: "'a kern_scheme"
  obtains t where "start_timer s = Ret () t" "iflag t" "handlers (idt_st t) = (handlers (idt_st s))[32 := Some Timer_callback]"
    "mem t = mem s" "pmm_st t = pmm_st s" "cr3 t = cr3 s" "current_page_directory t = current_page_directory s"
    "vm_ok t = vm_ok s" "paging_on t = paging_on s" "task_table t = task_table s" "current_task t = current_task s"
    "sched_view t = sched_view s" "kern.more t = kern.more s" "cr0 t = cr0 s" "tlb t = tlb s"
proof -
  obtain t where t: "start_timer s = Ret () t" "t = s\<lparr>ports := ports t, idt_st := idt_st t, console := console t, iflag := True\<rparr>"
    "handlers (idt_st t) = (handlers (idt_st s))[32 := Some Timer_callback]"
    by (rule start_timer_spec) (rule that)
  have tf: "iflag t" "mem t = mem s" "pmm_st t = pmm_st s" "cr3 t = cr3 s" "current_page_directory t = current_page_directory s"
    "paging_on t = paging_on s" "task_table t = task_table s" "current_task t = current_task s" "sched_view t = sched_view s"
    "kern.more t = kern.more s" "cr0 t = cr0 s" "tlb t = tlb s"
    by (subst t(2), simp add: sched_view_def paging_on_def)+
  then have "vm_ok t = vm_ok s" by (intro vm_ok_cong)
  then show thesis using t(1,3) tf by (intro that [of t])
qed

abbreviation ram_blocks :: "multiboot_mmap_entry list \<Rightarrow> nat" where
  "ram_blocks es \<equiv> unat (ram_limit es) div 4096"

text \<open>
  Blocks that are left for the allocator: usable, above 1 MB and outside the kernel, its bitmap and
  the modules.
\<close>

definition spare_blocks :: "kernel_image \<Rightarrow> multiboot_mmap_entry list \<Rightarrow> nat set \<Rightarrow> nat set" where
  "spare_blocks im es M = {n. 256 \<le> n \<and> n < ram_blocks es \<and> n \<in> (\<Union>e \<in> set es. entry_blocks e) \<and>
     n \<notin> reserved_range (im_kernel_start im) (im_kernel_end im + bitmap_bytes es - im_kernel_start im) \<and> n \<notin> M}"

text \<open>The other blocks of RAM.\<close>

definition reserved_blocks :: "kernel_image \<Rightarrow> multiboot_mmap_entry list \<Rightarrow> nat set \<Rightarrow> nat set" where
  "reserved_blocks im es M = {..<ram_blocks es} - spare_blocks im es M"

text \<open>
  A machine as the boot loader leaves it: at least 1 MB and at most 1 GB of RAM, and at most one
  module, \<open>r\<close>, that matters, inside RAM.
\<close>

definition booted :: "u32 \<Rightarrow> multiboot_mmap_entry list \<Rightarrow> (u32 \<times> u32) option \<Rightarrow> 'a sys_scheme \<Rightarrow> bool" where
  "booted mbi_addr es r s \<longleftrightarrow> (let mbi = read_multiboot_info (mem s) mbi_addr in
     \<not> paging_on s \<and> mbi_addr \<noteq> 0 \<and> mbi_flags mbi AND 0x40 \<noteq> 0 \<and> initrd_at (mem s) mbi_addr r \<and>
     (\<forall>start fin. r = Some (start, fin) \<longrightarrow> start < fin \<and> unat fin \<le> 4096 * (ram_blocks es)) \<and>
     entries_at (mem s) (mbi_mmap_addr mbi) (mbi_mmap_addr mbi + mbi_mmap_length mbi) es \<and>
     0x100000 \<le> unat (ram_limit es) \<and> unat (ram_limit es) \<le> 0x40000000)"

abbreviation boot_modules :: "u32 \<Rightarrow> 'a sys_scheme \<Rightarrow> nat set" where
  "boot_modules mbi_addr s \<equiv> module_blocks (mem s) (read_multiboot_info (mem s) mbi_addr)"

lemma bootedD:
  assumes "booted mbi_addr es r s"
  shows "\<not> paging_on s" "mbi_addr \<noteq> 0" "mbi_flags (read_multiboot_info (mem s) mbi_addr) AND 0x40 \<noteq> 0" "initrd_at (mem s) mbi_addr r"
    "\<And>start fin. r = Some (start, fin) \<Longrightarrow> start < fin \<and> unat fin \<le> 4096 * (ram_blocks es)"
    "entries_at (mem s) (mbi_mmap_addr (read_multiboot_info (mem s) mbi_addr))
       (mbi_mmap_addr (read_multiboot_info (mem s) mbi_addr) + mbi_mmap_length (read_multiboot_info (mem s) mbi_addr)) es"
    "256 \<le> ram_blocks es" "ram_blocks es \<le> 0x40000"
  using assms div_le_mono [of "unat (ram_limit es)" "0x40000000" 4096] div_le_mono [of "0x100000" "unat (ram_limit es)" 4096]
  by (simp_all add: booted_def Let_def)

lemma low_reserved: "booted mbi_addr es r s \<Longrightarrow> {0..<256} \<subseteq> reserved_blocks im es M"
  using bootedD(7) [of mbi_addr es r s] by (auto simp: reserved_blocks_def spare_blocks_def)

lemma boot_pmm_marks:
  assumes b: "booted mbi_addr es r s"
  obtains t where "boot_pmm im mbi_addr s = Ret () t" "only_pmm s t" "pmm_inv (pmm_st t)"
    "unat (pmm_total_blocks (pmm_st t)) = ram_blocks es"
    "used_blocks t = reserved_blocks im es (boot_modules mbi_addr s)"
proof -
  let ?mbi = "read_multiboot_info (mem s) mbi_addr" and ?N = "ram_blocks es"
  let ?R = "reserved_range (im_kernel_start im) (im_kernel_end im + bitmap_bytes es - im_kernel_start im)"
  note p = bootedD [OF b]
  obtain q where q: "pmm_init (mem s) (im_kernel_start im) (im_kernel_end im) mbi_addr (pmm_st s) = Some q" "pmm_inv q"
    "pmm_total_blocks q = ram_limit es div 4096"
    "blocks_in_use q = ((all_blocks q - (\<Union>e \<in> set es. entry_blocks e)) \<union> {0..<256} \<union> ?R \<union> module_blocks (mem s) ?mbi) \<inter> all_blocks q"
    using pmm_init_spec [OF p(2) refl p(3,6), of "im_kernel_start im" "im_kernel_end im" "pmm_st s"] by blast
  have N: "unat (pmm_total_blocks q) = ?N" using q(3) by (simp add: unat_div)
  then have all: "all_blocks q = {..<?N}" by (simp add: all_blocks_def)
  have "n \<in> blocks_in_use q \<longleftrightarrow> n \<in> reserved_blocks im es (module_blocks (mem s) ?mbi)" for n
    unfolding q(4) all reserved_blocks_def spare_blocks_def by (cases "n < 256") auto
  then have "blocks_in_use q = reserved_blocks im es (module_blocks (mem s) ?mbi)" by blast
  moreover obtain t where "boot_pmm im mbi_addr s = Ret () t" "only_pmm s t" "pmm_st t = q"
    by (rule boot_pmm_spec [OF q(1)]) (rule that)
  ultimately show thesis using q(2) N by (intro that [of t]) simp_all
qed

lemma card_reserved: "card (reserved_blocks im es M) + card (spare_blocks im es M) = ram_blocks es"
proof -
  have sub: "spare_blocks im es M \<subseteq> {..<ram_blocks es}" by (auto simp: spare_blocks_def)
  then have "finite (spare_blocks im es M)" by (rule finite_subset) simp
  with sub have "card (reserved_blocks im es M) = ram_blocks es - card (spare_blocks im es M)"
    by (simp add: reserved_blocks_def card_Diff_subset)
  moreover have "card (spare_blocks im es M) \<le> ram_blocks es" using card_mono [OF _ sub] by simp
  ultimately show ?thesis by simp
qed

text \<open>Up to the point where the RAM disk is looked for.\<close>

lemma boot_core:
  fixes s :: "'a fs_scheme"
  assumes b: "booted mbi_addr es r s"
    and room: "8 + (ram_blocks es + 1023) div 1024 \<le> card (spare_blocks im es (boot_modules mbi_addr s))"
  obtains v f where "kernel_main im 0x2BADB002 mbi_addr s = obind (boot_tasks im mbi_addr v) (\<lambda>_. start_timer)"
    "vm_ok v" "paging_on v" "card (spare_blocks im es (boot_modules mbi_addr s)) \<le> free_blocks v + 6 + (ram_blocks es + 1023) div 1024"
    "handlers (idt_st v) = (replicate 256 None)[128 := Some Syscall_dispatch, 14 := Some Page_fault_handler]"
    "ram_top v = 4096 * ram_blocks es" "frame_aligned f" "vm_lookup v 0xD0000000 = Some (f OR 3)"
    "untouched (reserved_blocks im es (boot_modules mbi_addr s)) (mem s) v" "sys.more v = sys.more s"
    "find_initrd mbi_addr (print g v) = Ret (case r of None \<Rightarrow> (0, 0) | Some x \<Rightarrow> x) (print g v)"
    "\<And>a. ram_top v \<le> unat a \<Longrightarrow> vpn a \<noteq> 0xD0000 \<Longrightarrow> vm_lookup v a = None"
proof -
  let ?M = "boot_modules mbi_addr s"
  define s0 where "s0 = boot_tables im (print (puts ''[Kernel] Initializing core systems...\<newline>'') (print terminal_initialize s))"
  have s0: "mem s0 = mem s" "paging_on s0 = paging_on s" "sys.more s0 = sys.more s"
    "handlers (idt_st s0) = (replicate 256 None)[128 := Some Syscall_dispatch]" by (simp_all add: s0_def)
  have "booted mbi_addr es r s0" using b by (simp add: booted_def s0)
  then obtain p where p: "boot_pmm im mbi_addr s0 = Ret () p" "only_pmm s0 p" "pmm_inv (pmm_st p)"
    "unat (pmm_total_blocks (pmm_st p)) = ram_blocks es" "used_blocks p = reserved_blocks im es (boot_modules mbi_addr s0)"
    by (rule boot_pmm_marks) (rule that)
  have up: "used_blocks p = reserved_blocks im es ?M" using p(5) s0 by simp
  note cr = card_reserved [of im es ?M] and low = low_reserved [OF b, of im ?M]
  have p0: "0 \<in> used_blocks p" "3 \<le> free_blocks p" using low cr room by (auto simp: free_blocks_def up p(4))
  obtain q where q: "pmm_selftest (pmm_get_free_blocks (pmm_st p)) p = Ret () q" "only_pmm p q" "pmm_inv (pmm_st q)"
    "used_blocks q = used_blocks p" "pmm_total_blocks (pmm_st q) = pmm_total_blocks (pmm_st p)"
    by (rule pmm_selftest_spec [OF p(3) p0]) (rule that)
  note same = only_pmmD [OF p(2)] only_pmmD [OF q(2)] s0
  have v1: "\<not> paging_on q" "{0..<256} \<subseteq> used_blocks q" "length (handlers (idt_st q)) = 256"
    "card (used_blocks q) + 8 + (unat (pmm_total_blocks (pmm_st q)) + 1023) div 1024 \<le> unat (pmm_total_blocks (pmm_st q))"
    "unat (pmm_total_blocks (pmm_st q)) \<le> 0x40000" "initrd_at (mem q) mbi_addr r"
    using bootedD(1,4,8) [OF b] p(4) q(4,5) low cr room up by (simp_all add: same)
  have st: "unat start < 4096 * unat (pmm_total_blocks (pmm_st q))" if "r = Some (start, fin)" for start fin
    using bootedD(5) [OF b that] p(4) q(5) by (auto simp: word_less_nat_alt)
  obtain v f where v: "boot_vmm mbi_addr q = Ret () v" "vm_ok v" "paging_on v"
    "unat (pmm_total_blocks (pmm_st q)) \<le> card (used_blocks q) + free_blocks v + 6 + (unat (pmm_total_blocks (pmm_st q)) + 1023) div 1024"
    "handlers (idt_st v) = (handlers (idt_st q))[14 := Some Page_fault_handler]"
    "ram_top v = 4096 * unat (pmm_total_blocks (pmm_st q))" "frame_aligned f"
    "\<And>a. vm_lookup v a = (if vpn a = 0xD0000 then Some (f OR 3)
       else if unat a < 4096 * unat (pmm_total_blocks (pmm_st q)) then Some (frame_of a OR 7) else None)"
    "untouched (used_blocks q) (mem q) v" "sys.more v = sys.more q"
    by (rule boot_vmm_spec [OF v1(1) q(3) v1(2,4,5,6) st v1(3)]) (assumption, rule that)
  have un: "untouched (reserved_blocks im es ?M) (mem s) v" using v(9) q(4) up by (simp add: same)
  note found = initrd_kept [OF v(2) un low bootedD(4) [OF b]]
  have "translate v start \<noteq> None" if "r = Some (start, fin)" for start fin
    using window_translate [OF v(2), of start] st [OF that] v(6) by simp
  then have "find_initrd mbi_addr (print g v) = Ret (case r of None \<Rightarrow> (0, 0) | Some x \<Rightarrow> x) (print g v)"
    using initrd_found(3) [where s = "print g v" and a = mbi_addr and r = r] found by simp
  moreover have "kernel_main im 0x2BADB002 mbi_addr s = obind (boot_tasks im mbi_addr v) (\<lambda>_. start_timer)"
    using p(1) q(1) v(1) by (simp add: kernel_main_def s0_def [symmetric] Let_def del: print_print)
  moreover have "vm_lookup v 0xD0000000 = Some (f OR 3)" by (simp add: v(8))
  ultimately show thesis
    using v(2-7) v(8,10) un p(4) q(4,5) up cr by (intro that [of v f]) (simp_all add: same)
qed

lemma boot_reaches:
  fixes s :: "'a fs_scheme"
  assumes b: "booted mbi_addr es None s"
    and room: "8 + (ram_blocks es + 1023) div 1024 \<le> card (spare_blocks im es (boot_modules mbi_addr s))"
  obtains t f fa fb where "kernel_main im 0x2BADB002 mbi_addr s = Ret () t" "vm_ok t" "paging_on t" "iflag t" "sched_inv [0, 1, 2] t"
    "current_task t = Some 0" "fresh_at (im_symbols im) t 1 fa (cr3 t) (im_task_a im) (im_task_a im)"
    "fresh_at (im_symbols im) t 2 fb (cr3 t) (im_task_b im) (im_task_b im)"
    "handlers (idt_st t) = (replicate 256 None)[128 := Some Syscall_dispatch, 14 := Some Page_fault_handler, 32 := Some Timer_callback]"
    "vm_lookup t 0xD0000000 = Some (f OR 3)" "frame_aligned f" "ram_top t = 4096 * ram_blocks es" "fa \<noteq> fb"
    "untouched (reserved_blocks im es (boot_modules mbi_addr s)) (mem s) t" "t_page_directory (task_table t ! 0) = cr3 t"
    "t_state (task_table t ! 0) = TASK_STATE_RUNNING"
    "block_of fa \<notin> reserved_blocks im es (boot_modules mbi_addr s)" "block_of fb \<notin> reserved_blocks im es (boot_modules mbi_addr s)"
proof -
  let ?R = "reserved_blocks im es (boot_modules mbi_addr s)"
  define g where "g = puts ''[Kernel] Initializing Virtual File System & RAM Disk...\<newline>''"
  obtain v f where v: "kernel_main im 0x2BADB002 mbi_addr s = obind (boot_tasks im mbi_addr v) (\<lambda>_. start_timer)"
    "vm_ok v" "paging_on v" "card (spare_blocks im es (boot_modules mbi_addr s)) \<le> free_blocks v + 6 + (ram_blocks es + 1023) div 1024"
    "handlers (idt_st v) = (replicate 256 None)[128 := Some Syscall_dispatch, 14 := Some Page_fault_handler]"
    "ram_top v = 4096 * ram_blocks es" "frame_aligned f" "vm_lookup v 0xD0000000 = Some (f OR 3)" "untouched ?R (mem s) v"
    "find_initrd mbi_addr (print g v) = Ret (case None of None \<Rightarrow> (0, 0) | Some x \<Rightarrow> x) (print g v)"
    by (rule boot_core [OF b room, of g]) (rule that)
  define w where "w = print (puts ''[Kernel] Warning: No RAM disk module found in Multiboot info!\<newline>'') (print g v)"
  have w: "vm_ok w" "paging_on w" "2 \<le> free_blocks w" using v(2-4) room by (simp_all add: w_def free_blocks_def)
  have e: "untouched ?R (mem s) w" "idt_st w = idt_st v" "ram_top w = ram_top v" "vm_lookup w = vm_lookup v"
    using v(9) untouched_cong [of w v] by (simp_all add: w_def)
  obtain x fa fb where x: "start_tasks im w = Ret () x" "vm_ok x" "paging_on x" "sched_inv [0, 1, 2] x" "current_task x = Some 0"
    "fresh_at (im_symbols im) x 1 fa (cr3 w) (im_task_a im) (im_task_a im)"
    "fresh_at (im_symbols im) x 2 fb (cr3 w) (im_task_b im) (im_task_b im)"
    "fa \<noteq> fb" "block_of fa \<notin> used_blocks w" "block_of fb \<notin> used_blocks w" "frames_kept w x"
    "ram_top x = ram_top w" "idt_st x = idt_st w" "\<And>b. ram_top w \<le> unat b \<Longrightarrow> vm_lookup x b = vm_lookup w b" "cr3 x = cr3 w"
    "t_page_directory (task_table x ! 0) = cr3 w" "t_state (task_table x ! 0) = TASK_STATE_RUNNING"
    by (rule start_tasks_spec [OF w]) (rule that)
  have tasks: "boot_tasks im mbi_addr v = Ret () x"
    using x(1) v(10) unfolding boot_tasks_def Let_def g_def by (simp add: mount_initrd_def w_def g_def spawn_elf_def)
  obtain t where t: "start_timer x = Ret () t" "iflag t" "handlers (idt_st t) = (handlers (idt_st x))[32 := Some Timer_callback]"
    "mem t = mem x" "pmm_st t = pmm_st x" "cr3 t = cr3 x" "current_page_directory t = current_page_directory x"
    "vm_ok t = vm_ok x" "paging_on t = paging_on x" "task_table t = task_table x" "current_task t = current_task x"
    "sched_view t = sched_view x"
    by (rule start_timer_keeps) (rule that)
  have "kernel_main im 0x2BADB002 mbi_addr s = Ret () t" using v(1) tasks t(1) by simp
  moreover have "sched_inv [0, 1, 2] t" using sched_inv_view [OF x(4) t(12)] .
  moreover have "fresh_at (im_symbols im) t 1 fa (cr3 t) (im_task_a im) (im_task_a im)"
    "fresh_at (im_symbols im) t 2 fb (cr3 t) (im_task_b im) (im_task_b im)"
    using x(6,7) fresh_at_cong [of t _ x] t(4-7,10) x(15) by simp_all
  moreover have "untouched ?R (mem s) t"
    using untouched_step [OF e(1) x(11)] untouched_cong [of t x] t(4,5,7) by simp
  moreover have "vm_lookup t 0xD0000000 = Some (f OR 3)"
    using x(14) [of "0xD0000000"] v(6,8) e bootedD(8) [OF b] t by simp
  moreover have "handlers (idt_st t) = (replicate 256 None)[128 := Some Syscall_dispatch, 14 := Some Page_fault_handler, 32 := Some Timer_callback]"
    using t(3) x(13) v(5) e(2) by simp
  moreover have "block_of fa \<notin> ?R" "block_of fb \<notin> ?R" using x(9,10) e(1) by (auto simp: untouched_def)
  ultimately show thesis
    using x(2,3,5,8,12,15-17) v(6,7) e(3) t(2,5,6,8-11) by (intro that [of t fa fb f]) simp_all
qed

subsection \<open>The property of the boot\<close>

text \<open>
  C1 The boot: on a machine without boot modules, with a well-formed memory map, between 1 MB and
  1 GB of RAM and enough usable blocks behind the kernel, \<^verbatim>\<open>kernel_main\<close> passes all its tests and
  reaches the idle loop: paging is on with RAM mapped one to one, the reserved memory has its
  contents from before, interrupts are enabled, exactly the page fault, timer and system call handlers
  are registered, the boot thread is running and the two demo tasks are ready behind it with the stack
  frames of their first switch, and the page at \<^verbatim>\<open>0xD0000000\<close> is mapped but out of reach of ring 3.
  When the boot loader's magic number is wrong the kernel halts, having only printed.
\<close>

theorem boot_reaches_idle:
  fixes s :: "'a fs_scheme"
  assumes "booted mbi_addr es None s"
    and "8 + (ram_blocks es + 1023) div 1024 \<le> card (spare_blocks im es (boot_modules mbi_addr s))"
  shows "(\<exists>t. kernel_main im 0x2BADB002 mbi_addr s = Ret () t \<and> paging_on t \<and> vm_ok t \<and> iflag t \<and>
      (\<forall>a. unat a < 4096 * ram_blocks es \<longrightarrow> translate t a = Some a) \<and>
      (\<forall>a. block_of a \<in> reserved_blocks im es (boot_modules mbi_addr s) \<longrightarrow> mem t a = mem s a) \<and>
      handlers (idt_st t) =
        (replicate 256 None)[128 := Some Syscall_dispatch, 14 := Some Page_fault_handler, 32 := Some Timer_callback] \<and>
      sched_inv [0, 1, 2] t \<and> current_task t = Some 0 \<and> runnable (im_symbols im) t 1 (cr3 t) (im_task_a im) (im_task_a im) \<and>
      runnable (im_symbols im) t 2 (cr3 t) (im_task_b im) (im_task_b im) \<and>
      translate t 0xD0000000 \<noteq> None \<and> \<not> user_access (mem t) (cr3 t) 0xD0000000 False) \<and>
    (\<forall>magic. magic \<noteq> 0x2BADB002 \<longrightarrow>
      (\<exists>u. kernel_main im magic mbi_addr s = Hang u \<and> u = s\<lparr>console := console u\<rparr>))"
proof (rule conjI)
  obtain t f fa fb where t: "kernel_main im 0x2BADB002 mbi_addr s = Ret () t" "vm_ok t" "paging_on t" "iflag t" "sched_inv [0, 1, 2] t"
    "current_task t = Some 0" "fresh_at (im_symbols im) t 1 fa (cr3 t) (im_task_a im) (im_task_a im)"
    "fresh_at (im_symbols im) t 2 fb (cr3 t) (im_task_b im) (im_task_b im)"
    "handlers (idt_st t) = (replicate 256 None)[128 := Some Syscall_dispatch, 14 := Some Page_fault_handler, 32 := Some Timer_callback]"
    "vm_lookup t 0xD0000000 = Some (f OR 3)" "frame_aligned f" "ram_top t = 4096 * ram_blocks es"
    "untouched (reserved_blocks im es (boot_modules mbi_addr s)) (mem s) t"
    by (rule boot_reaches [OF assms]) (rule that)
  have "translate t a = Some a" if "unat a < 4096 * ram_blocks es" for a
    using window_translate [OF t(2)] that t(12) by simp
  moreover have "mem t a = mem s a" if "block_of a \<in> reserved_blocks im es (boot_modules mbi_addr s)" for a
    using untouchedD(3) [OF t(13) that] .
  moreover have "translate t 0xD0000000 \<noteq> None" using t(2,3,10) by (simp add: translate_lookup)
  moreover have "\<not> user_access (mem t) (cr3 t) 0xD0000000 False"
    using user_access_iff [OF vm_okD(3) [OF t(2)], of "0xD0000000" False] vm_okD(5) [OF t(2,3)] t(10,11)
    by (simp add: flag_or_frame)
  moreover have "runnable (im_symbols im) t 1 (cr3 t) (im_task_a im) (im_task_a im)"
    "runnable (im_symbols im) t 2 (cr3 t) (im_task_b im) (im_task_b im)" using t(7,8) by (auto simp: runnable_def)
  ultimately show "\<exists>t. kernel_main im 0x2BADB002 mbi_addr s = Ret () t \<and> paging_on t \<and> vm_ok t \<and> iflag t \<and>
      (\<forall>a. unat a < 4096 * ram_blocks es \<longrightarrow> translate t a = Some a) \<and>
      (\<forall>a. block_of a \<in> reserved_blocks im es (boot_modules mbi_addr s) \<longrightarrow> mem t a = mem s a) \<and>
      handlers (idt_st t) =
        (replicate 256 None)[128 := Some Syscall_dispatch, 14 := Some Page_fault_handler, 32 := Some Timer_callback] \<and>
      sched_inv [0, 1, 2] t \<and> current_task t = Some 0 \<and> runnable (im_symbols im) t 1 (cr3 t) (im_task_a im) (im_task_a im) \<and>
      runnable (im_symbols im) t 2 (cr3 t) (im_task_b im) (im_task_b im) \<and>
      translate t 0xD0000000 \<noteq> None \<and> \<not> user_access (mem t) (cr3 t) 0xD0000000 False"
    using t(1-6,9) by blast
  show "\<forall>magic. magic \<noteq> 0x2BADB002 \<longrightarrow> (\<exists>u. kernel_main im magic mbi_addr s = Hang u \<and> u = s\<lparr>console := console u\<rparr>)"
    by (simp add: kernel_main_def stop_def Let_def print_def)
qed

text \<open>A machine with usable RAM below \<^verbatim>\<open>0x9F000\<close> and from 1 MB to 2 MB and a kernel of half a megabyte.\<close>

definition demo_image :: kernel_image where
  "demo_image = \<lparr>im_gdt = 0x103000, im_gdtp = 0x103040, im_tss = 0x103080, im_tss_stack = 0x105000, im_idt = 0x106000,
     im_idtp = 0x106800, im_isr = (\<lambda>n. 0x101000 + 16 * of_nat n), im_irq = (\<lambda>n. 0x102000 + 16 * of_nat n),
     im_kernel_start = 0x100000, im_kernel_end = 0x180000, im_symbols = demo_symbols, im_task_a = 0x104000, im_task_b = 0x104100,
     im_ehdr = 0x107F00, im_phdr = 0x107F40\<rparr>"

definition demo_entries :: "multiboot_mmap_entry list" where
  "demo_entries = take 2 boot_entries"

definition demo_machine :: fs where
  "demo_machine = small_fs\<lparr>mem := boot_memory(0x902C := 0x30)\<rparr>"

lemma demo_booted: "booted 0x9000 demo_entries None demo_machine" "ram_limit demo_entries = 0x200000" "boot_modules 0x9000 demo_machine = {}"
proof -
  show r: "ram_limit demo_entries = 0x200000"
    by (simp add: ram_limit_def max_end_def demo_entries_def boot_entries_def)
  have m: "mem demo_machine = boot_memory(0x902C := 0x30)" "\<not> paging_on demo_machine"
    by (simp_all add: demo_machine_def small_fs_def paging_on_def)
  have f: "mbi_flags (read_multiboot_info (boot_memory(0x902C := 0x30)) 0x9000) = 0x40"
    "mbi_mmap_addr (read_multiboot_info (boot_memory(0x902C := 0x30)) 0x9000) = 0x9100"
    "mbi_mmap_length (read_multiboot_info (boot_memory(0x902C := 0x30)) 0x9000) = 48"
    "entries_at (boot_memory(0x902C := 0x30)) 0x9100 0x9130 demo_entries" "rd32 (boot_memory(0x902C := 0x30)) 0x9000 = 0x40"
    by (simp_all add: boot_memory_def boot_bytes_def demo_entries_def boot_entries_def read_multiboot_info_def
        read_mmap_entry_def rd32_def rd64_def)
  show "booted 0x9000 demo_entries None demo_machine"
    unfolding booted_def m(1) Let_def f using m(2) f r by (simp add: initrd_at_def)
  show "boot_modules 0x9000 demo_machine = {}" by (simp add: module_blocks_def m(1) f)
qed

lemma demo_spare: "spare_blocks demo_image demo_entries {} = {385..<512}"
proof -
  have e: "(\<Union>e \<in> set demo_entries. entry_blocks e) = {0..<0x9F} \<union> {256..<512}"
    by (simp add: demo_entries_def boot_entries_def entry_blocks_def freed_range_def)
  have "bitmap_bytes demo_entries = 64" by (simp add: bitmap_bytes_def demo_booted)
  then have "reserved_range (im_kernel_start demo_image) (im_kernel_end demo_image + bitmap_bytes demo_entries - im_kernel_start demo_image)
      = {256..<385}"
    by (simp add: demo_image_def reserved_range_def)
  with e show ?thesis by (auto simp: spare_blocks_def demo_booted)
qed

theorem boot_reaches_idle_witness:
  "\<exists>t. kernel_main demo_image 0x2BADB002 0x9000 demo_machine = Ret () t \<and> iflag t \<and>
     runnable demo_symbols t 2 (cr3 t) 0x104100 0x104100"
proof -
  have "8 + (ram_blocks demo_entries + 1023) div 1024 \<le> card (spare_blocks demo_image demo_entries (boot_modules 0x9000 demo_machine))"
    unfolding demo_booted(2,3) demo_spare by simp
  moreover have "im_task_b demo_image = 0x104100" "im_symbols demo_image = demo_symbols" by (simp_all add: demo_image_def)
  ultimately show ?thesis using boot_reaches_idle [OF demo_booted(1), of demo_image] by auto
qed

end
