(* ===== verification/Run.thy ===== *)
theory Run
  imports Boot
begin

text \<open>
  Tasks that run: sequences of context switches between tasks in several address spaces. A
  \<^emph>\<open>space\<close> is a page directory the kernel can run on; a suspended task has its saved words on a
  stack page that belongs to no page table; a switch keeps all other suspended tasks as they are.
\<close>

subsection \<open>Address spaces\<close>

text \<open>A directory under which the kernel can run: well formed, in use, with RAM mapped one to one.\<close>

definition space_ok :: "u32 \<Rightarrow> 'a sys_scheme \<Rightarrow> bool" where
  "space_ok d s \<longleftrightarrow> pd_wf (mem s) d (used_blocks s) \<and>
     (\<forall>a. unat a < ram_top s \<longrightarrow> (\<exists>pte. page_walk (mem s) d a = Some pte \<and> frame_of pte = frame_of a))"

definition spaces :: "u32 set \<Rightarrow> 'a sys_scheme \<Rightarrow> bool" where
  "spaces D s \<longleftrightarrow> vm_ok s \<and> paging_on s \<and> cr3 s \<in> D \<and> (\<forall>d \<in> D. space_ok d s)"

text \<open>A page that is in use and holds no page table of the spaces \<open>D\<close>.\<close>

definition stack_page :: "u32 set \<Rightarrow> 'a sys_scheme \<Rightarrow> u32 \<Rightarrow> bool" where
  "stack_page D s f \<longleftrightarrow> frame_aligned f \<and> block_of f \<in> used_blocks s \<and> (\<forall>d \<in> D. \<not> walk_frame (mem s) d f)"

lemma vm_ok_space: "vm_ok s \<Longrightarrow> paging_on s \<Longrightarrow> space_ok (current_page_directory s) s"
  using vm_okD(3,6) [of s] by (simp add: space_ok_def ram_window_def)

lemma spaces_single: "vm_ok s \<Longrightarrow> paging_on s \<Longrightarrow> spaces {cr3 s} s"
  using vm_ok_space [of s] vm_okD(5) [of s] by (simp add: spaces_def)

lemma spacesD:
  assumes "spaces D s"
  shows "vm_ok s" "paging_on s" "cr3 s \<in> D" "current_page_directory s = cr3 s" "\<And>d. d \<in> D \<Longrightarrow> space_ok d s"
  using assms vm_okD(5) [of s] by (auto simp: spaces_def)

lemma space_switch:
  assumes "vm_ok s" "paging_on s" "space_ok d s"
  shows "vm_ok (load_directory d s)"
proof (cases "d = cr3 s")
  case False
  then show ?thesis
    using assms vm_okD(1,2) [OF assms(1)]
    by (simp add: vm_ok_def space_ok_def load_directory_def write_cr3_def ram_window_def tlb_coherent_def)
qed (use assms(1) in simp)

lemma space_ok_cong:
  "mem t = mem s \<Longrightarrow> pmm_st t = pmm_st s \<Longrightarrow> space_ok d t = space_ok d s"
  by (simp add: space_ok_def)

lemma stack_page_cong:
  "mem t = mem s \<Longrightarrow> pmm_st t = pmm_st s \<Longrightarrow> stack_page D t f = stack_page D s f"
  by (simp add: stack_page_def)

lemma stack_page_ram:
  fixes s :: "'a sys_scheme"
  shows "stack_page D s f \<Longrightarrow> unat f + 4096 \<le> ram_top s"
  using used_in_ram [of f s] by (simp add: stack_page_def)

text \<open>Writing to a page that holds no page table.\<close>

lemma space_write:
  assumes sp: "space_ok d s" and g: "\<not> walk_frame (mem s) d g" and out: "\<And>a. \<not> in_frame g a \<Longrightarrow> mem t a = mem s a"
    and p: "pmm_st t = pmm_st s"
  shows "space_ok d t" "walk_frame (mem t) d f = walk_frame (mem s) d f" "page_walk (mem t) d a = page_walk (mem s) d a"
proof -
  have wf: "pd_wf (mem s) d (used_blocks s)" using sp by (simp add: space_ok_def)
  have same: "mem t a = mem s a" if "walk_frame (mem s) d h" "in_frame h a" for h a
    using that out g by (metis in_frame_unique)
  have al: "frame_aligned d" using wf by (simp add: pd_wf_def)
  have pde: "pde_of (mem t) d i = pde_of (mem s) d i" if "unat i < 1024" for i
    using al that same [of d] by (intro rd32_entry_cong) (auto simp: walk_frame_def)
  show look: "page_walk (mem t) d a = page_walk (mem s) d a" for a
    using al same by (rule page_walk_same)
  show "walk_frame (mem t) d f = walk_frame (mem s) d f" using pde by (auto simp: walk_frame_def)
  have "pd_wf (mem t) d (used_blocks t)" using wf pde p by (simp add: pd_wf_cong)
  then show "space_ok d t" using sp look p by (simp add: space_ok_def)
qed

lemma stack_page_write:
  assumes "\<And>d. d \<in> D \<Longrightarrow> space_ok d s" "stack_page D s g" "\<And>a. \<not> in_frame g a \<Longrightarrow> mem t a = mem s a" "pmm_st t = pmm_st s"
  shows "stack_page D t f = stack_page D s f" "\<And>d. d \<in> D \<Longrightarrow> space_ok d t"
proof -
  have g: "\<not> walk_frame (mem s) d g" if "d \<in> D" for d using assms(2) that by (simp add: stack_page_def)
  have "walk_frame (mem t) d f = walk_frame (mem s) d f" if "d \<in> D" for d
    using space_write(2) [OF assms(1) [OF that] g [OF that] assms(3,4)] .
  then show "stack_page D t f = stack_page D s f" by (simp add: stack_page_def assms(4))
  show "space_ok d t" if "d \<in> D" for d using space_write(1) [OF assms(1) [OF that] g [OF that] assms(3,4)] .
qed

subsection \<open>Suspended tasks\<close>

text \<open>Task \<open>i\<close> waits with the words \<open>ws\<close> from entry \<open>l\<close> of its stack page on, the registers first.\<close>

definition suspended :: "u32 set \<Rightarrow> 'a kern_scheme \<Rightarrow> nat \<Rightarrow> u32 \<Rightarrow> u32 \<Rightarrow> u32 list \<Rightarrow> bool" where
  "suspended D s i f l ws \<longleftrightarrow> i < length (task_table s) \<and> stack_page D s f \<and> t_page_directory (task_table s ! i) \<in> D \<and>
     t_esp (task_table s ! i) = f + 4 * l \<and> 5 \<le> length ws \<and> unat l + length ws \<le> 1024 \<and>
     (\<forall>k < length ws. rd32 (mem s) (f + 4 * (l + of_nat k)) = ws ! k)"

text \<open>The processor runs on entry \<open>j\<close> of the stack page \<open>g\<close>.\<close>

definition on_stack :: "u32 set \<Rightarrow> 'a kern_scheme \<Rightarrow> u32 \<Rightarrow> u32 \<Rightarrow> bool" where
  "on_stack D s g j \<longleftrightarrow> stack_page D s g \<and> reg_esp s = g + 4 * j \<and> 4 \<le> unat j \<and> unat j < 1024"

lemma fresh_suspended:
  assumes "fresh_at syms s i f dir entry ke" "i < length (task_table s)" "dir \<in> D"
    "\<And>d. d \<in> D \<Longrightarrow> \<not> walk_frame (mem s) d f"
  shows "suspended D s i f 1017 (first_frame syms ke)"
proof -
  note d = fresh_atD [OF assms(1)]
  have "unat (1017 :: u32) + 7 \<le> 1024" by simp
  then show ?thesis
    using d assms(2-4) by (simp add: suspended_def stack_page_def first_frame_def [THEN arg_cong [of _ _ length]] algebra_simps)
qed

lemma suspended_kept:
  assumes "suspended D s i f l ws" "stack_page D t f" "\<And>a. in_frame f a \<Longrightarrow> mem t a = mem s a"
    "length (task_table t) = length (task_table s)" "t_page_directory (task_table t ! i) = t_page_directory (task_table s ! i)"
    "t_esp (task_table t ! i) = t_esp (task_table s ! i)"
  shows "suspended D t i f l ws"
proof -
  have al: "frame_aligned f" using assms(1) by (simp add: suspended_def stack_page_def)
  have "rd32 (mem t) (f + 4 * (l + of_nat k)) = rd32 (mem s) (f + 4 * (l + of_nat k))" if "k < length ws" for k
  proof (rule rd32_entry_cong [OF al])
    have "unat l + k < 1024" using that assms(1) by (simp add: suspended_def)
    then show "unat (l + of_nat k) < 1024" by (simp add: unat_plus_small unat_of_nat take_bit_eq_mod)
  qed (rule assms(3))
  then show ?thesis using assms(1,2,4-6) by (simp add: suspended_def)
qed

lemma suspended_write:
  assumes "suspended D s i f l ws" "f \<noteq> g" "\<And>d. d \<in> D \<Longrightarrow> space_ok d s" "stack_page D s g"
    "\<And>a. \<not> in_frame g a \<Longrightarrow> mem t a = mem s a" "pmm_st t = pmm_st s" "length (task_table t) = length (task_table s)"
    "t_page_directory (task_table t ! i) = t_page_directory (task_table s ! i)" "t_esp (task_table t ! i) = t_esp (task_table s ! i)"
  shows "suspended D t i f l ws"
proof (rule suspended_kept [OF assms(1) _ _ assms(7-9)])
  show "stack_page D t f" using assms(1) stack_page_write(1) [OF assms(3-6)] by (simp add: suspended_def)
  show "mem t a = mem s a" if "in_frame f a" for a
    using that assms(2,5) in_frame_unique [of f a g] by auto
qed

subsection \<open>The switch\<close>

lemma spaces_switch:
  assumes "spaces D s" "d \<in> D" "mem t = mem s" "pmm_st t = pmm_st s" "cr0 t = cr0 s" "cr3 t = d" "current_page_directory t = d"
    "tlb t = (\<lambda>_. None) \<or> d = cr3 s \<and> tlb t = tlb s"
  shows "spaces D t"
proof -
  note d = spacesD [OF assms(1)]
  have p: "paging_on t" using d(2) assms(5) by (simp add: paging_on_def)
  have "tlb_coherent t"
    using assms(3,6-8) d(4) vm_okD(7) [OF d(1,2)] by (auto simp: tlb_coherent_def)
  then have "vm_ok t"
    using d(5) [OF assms(2)] vm_okD(1,2) [OF d(1)] assms(3,4,6,7) by (simp add: vm_ok_def space_ok_def ram_window_def)
  then show ?thesis using p assms(2,6) d(5) space_ok_cong [OF assms(3,4)] by (simp add: spaces_def)
qed

lemma spaces_write:
  assumes "spaces D s" "stack_page D s g" "\<And>a. \<not> in_frame g a \<Longrightarrow> m a = mem s a"
  shows "spaces D (s\<lparr>mem := m\<rparr>)"
proof -
  note d = spacesD [OF assms(1)]
  have w: "\<And>a. \<not> in_frame g a \<Longrightarrow> mem (s\<lparr>mem := m\<rparr>) a = mem s a" using assms(3) by simp
  have "vm_ok (s\<lparr>mem := m\<rparr>)"
    using assms(2,3) d(3,4) by (intro data_write(3) [OF d(1)]) (auto simp: stack_page_def)
  moreover have "space_ok e (s\<lparr>mem := m\<rparr>)" if "e \<in> D" for e
    using stack_page_write(2) [OF d(5) assms(2) w _ that] by simp
  ultimately show ?thesis using d(2,3) by (simp add: spaces_def paging_on_def)
qed

lemma spaces_cong:
  assumes "mem t = mem s" "pmm_st t = pmm_st s" "cr0 t = cr0 s" "cr3 t = cr3 s" "tlb t = tlb s"
    "current_page_directory t = current_page_directory s"
  shows "spaces D t = spaces D s"
  using vm_ok_cong [OF assms(1,3,4,5,2,6)] space_ok_cong [OF assms(1,2)] assms(3,4) by (simp add: spaces_def paging_on_def)

text \<open>From the task \<open>cur\<close>, running on the page \<open>g\<close>, to the suspended task \<open>i\<close>.\<close>

lemma switch_suspended:
  fixes s :: "'a kern_scheme"
  assumes sp: "spaces D s" and on: "on_stack D s g j" and su: "suspended D s i f l ws"
    and ne: "cur \<noteq> i" "f \<noteq> g" "cur < length (task_table s)"
  obtains t where "switch_task cur i s = Ret (ws ! 4) t" "spaces D t" "reg_esp t = f + 4 * (l + 5)"
    "reg_edi t = ws ! 0" "reg_esi t = ws ! 1" "reg_ebx t = ws ! 2" "reg_ebp t = ws ! 3"
    "task_table t = (task_table s)[cur := (task_table s ! cur)\<lparr>t_esp := g + 4 * (j - 4)\<rparr>]"
    "pmm_st t = pmm_st s" "cr3 t = t_page_directory (task_table s ! i)" "\<And>a. \<not> in_frame g a \<Longrightarrow> mem t a = mem s a"
    "\<And>k. k < 5 \<Longrightarrow> rd32 (mem t) (g + 4 * (j - 4 + of_nat k)) =
       [reg_edi s, reg_esi s, reg_ebx s, reg_ebp s, rd32 (mem s) (reg_esp s)] ! k"
    "esp0 (tss (gdt_st t)) = t_kstack (task_table s ! i)"
    "\<And>e. unat j \<le> unat e \<Longrightarrow> unat e < 1024 \<Longrightarrow> rd32 (mem t) (g + 4 * e) = rd32 (mem s) (g + 4 * e)"
    "\<exists>k. gdt_st t = tss_set_kernel_stack k (gdt_st s)" "iflag t = iflag s"
proof -
  let ?pd = "t_page_directory (task_table s ! i)"
  define m where "m = fold (\<lambda>(i, v). wr32 (g + 4 * i) v) (saved_regs j s) (mem s)"
  note d = spacesD [OF sp]
  have pd: "?pd \<in> D" and len: "5 \<le> length ws" "unat l + length ws \<le> 1024" and pf: "stack_page D s f"
    and wd: "\<And>k. k < length ws \<Longrightarrow> rd32 (mem s) (f + 4 * (l + of_nat k)) = ws ! k"
    using su by (auto simp: suspended_def)
  have pg: "stack_page D s g" and j: "4 \<le> unat j" "unat j < 1024" using on by (auto simp: on_stack_def)
  have st: "stack_at s ?pd g j"
    using on pd d(3,4) stack_page_ram [OF pg] by (auto simp: on_stack_def stack_page_def stack_at_def)
  have cx: "context_at s i f l"
    using su stack_page_ram [OF pf] len by (auto simp: suspended_def stack_page_def context_at_def)
  have ok: "vm_ok (load_directory ?pd s)" by (rule space_switch [OF d(1,2) d(5) [OF pd]])
  note sw = switch_task_spec [OF d(1) ok st cx ne, folded m_def]
  have ga: "frame_aligned g" using pg by (simp add: stack_page_def)
  have out: "m a = mem s a" if "\<not> in_frame g a" for a
    unfolding m_def using j by (intro fold_wr32_outside [OF ga saved_regs_index that]) simp_all
  have ws: "ws \<noteq> []" using len(1) by auto
  have w5: "rd32 (mem s) (f + 4 * l) = ws ! 0" "rd32 (mem s) (f + 4 * (l + 1)) = ws ! 1" "rd32 (mem s) (f + 4 * (l + 2)) = ws ! 2"
    "rd32 (mem s) (f + 4 * (l + 3)) = ws ! 3" "rd32 (mem s) (f + 4 * (l + 4)) = ws ! 4"
    using wd [of 0] wd [of 1] wd [of 2] wd [of 3] wd [of 4] len(1) ws by simp_all
  obtain t where t: "switch_task cur i s = Ret (ws ! 4) t"
    "t = (set_kernel_stack (t_kstack (task_table s ! i)) (load_directory ?pd
       (upd_task cur (t_esp_update (\<lambda>_. g + 4 * (j - 4))) (s\<lparr>mem := m\<rparr>))))
     \<lparr>reg_esp := f + 4 * (l + 5), reg_edi := ws ! 0, reg_esi := ws ! 1, reg_ebx := ws ! 2, reg_ebp := ws ! 3\<rparr>"
    using sw(1) w5 by simp
  have tf: "mem t = m" "pmm_st t = pmm_st s" "cr0 t = cr0 s" "cr3 t = ?pd" "current_page_directory t = ?pd"
    "tlb t = (\<lambda>_. None) \<or> ?pd = cr3 s \<and> tlb t = tlb s"
    "task_table t = (task_table s)[cur := (task_table s ! cur)\<lparr>t_esp := g + 4 * (j - 4)\<rparr>]"
    "esp0 (tss (gdt_st t)) = t_kstack (task_table s ! i)" "reg_esp t = f + 4 * (l + 5)"
    "reg_edi t = ws ! 0" "reg_esi t = ws ! 1" "reg_ebx t = ws ! 2" "reg_ebp t = ws ! 3" "iflag t = iflag s"
    "gdt_st t = tss_set_kernel_stack (t_kstack (task_table s ! i)) (gdt_st s)"
    using d(4) by (auto simp: t(2) set_kernel_stack_def load_directory_def write_cr3_def upd_task_def tss_set_kernel_stack_def)
  have above: "rd32 (mem t) (g + 4 * e) = rd32 (mem s) (g + 4 * e)" if "unat j \<le> unat e" "unat e < 1024" for e
  proof -
    have "map_of (rev (saved_regs j s)) e = None"
      using j that(1) by (auto simp: saved_regs_def map_of_eq_None_iff unat_minus_small)
    then show ?thesis unfolding tf(1) m_def using rd32_entries [OF ga saved_regs_index [of j s] that(2), of "mem s"] j by simp
  qed
  have "spaces D (s\<lparr>mem := m\<rparr>)" using sp pg out by (rule spaces_write)
  then have "spaces D t"
  proof (rule spaces_switch [OF _ pd])
    show "tlb t = (\<lambda>_. None) \<or> ?pd = cr3 (s\<lparr>mem := m\<rparr>) \<and> tlb t = tlb (s\<lparr>mem := m\<rparr>)" using tf(6) by simp
  qed (simp_all add: tf(1-5))
  moreover note sv = switch_saves [OF d(1) ok st cx ne j(2) t(1)]
  have "rd32 (mem t) (g + 4 * (j - 4 + of_nat k)) = [reg_edi s, reg_esi s, reg_ebx s, reg_ebp s, rd32 (mem s) (reg_esp s)] ! k"
    if "k < 5" for k
    using that sv(3-7) by (auto simp: less_Suc_eq numeral_eq_Suc)
  ultimately show thesis using t(1) tf out above by (intro that [of t]) (simp_all, blast)
qed

text \<open>The scheduler passes the processor on: what becomes of every task.\<close>

lemma hand_over_parts:
  assumes "p < length (task_table s)" "c < length (task_table s)"
  shows "t_page_directory (task_table (hand_over p c s) ! n) = t_page_directory (task_table s ! n)"
    "t_esp (task_table (hand_over p c s) ! n) = t_esp (task_table s ! n)"
    "t_eip (task_table (hand_over p c s) ! n) = t_eip (task_table s ! n)"
    "t_kstack (task_table (hand_over p c s) ! n) = t_kstack (task_table s ! n)"
    "reg_edi (hand_over p c s) = reg_edi s" "reg_esi (hand_over p c s) = reg_esi s" "reg_ebx (hand_over p c s) = reg_ebx s"
    "reg_ebp (hand_over p c s) = reg_ebp s" "cr0 (hand_over p c s) = cr0 s" "tlb (hand_over p c s) = tlb s"
  using assms by (auto simp: hand_over_def upd_task_def Let_def nth_update_if)

lemma schedule_suspended:
  fixes s :: "'a kern_scheme"
  assumes sp: "spaces D s" and on: "on_stack D s g j" and inv: "sched_inv xs s"
    and k: "k < length xs" "current_task s = Some (xs ! k)" "t_page_directory (task_table s ! (xs ! k)) \<in> D"
    and nxt: "List.find (ready (task_table s)) (others xs k) = Some i" and su: "suspended D s i f l ws" "f \<noteq> g"
  obtains t where "schedule s = Ret (Some (ws ! 4)) t" "spaces D t" "sched_inv xs t" "current_task t = Some i"
    "reg_esp t = f + 4 * (l + 5)" "reg_edi t = ws ! 0" "reg_esi t = ws ! 1" "reg_ebx t = ws ! 2" "reg_ebp t = ws ! 3"
    "pmm_st t = pmm_st s" "cr3 t = t_page_directory (task_table s ! i)" "esp0 (tss (gdt_st t)) = t_kstack (task_table s ! i)"
    "dev_view t = dev_view s"
    "suspended D t (xs ! k) g (j - 4) [reg_edi s, reg_esi s, reg_ebx s, reg_ebp s, rd32 (mem s) (reg_esp s)]"
    "\<And>n h l' ws'. n \<noteq> xs ! k \<Longrightarrow> h \<noteq> g \<Longrightarrow> suspended D s n h l' ws' \<Longrightarrow> suspended D t n h l' ws'"
    "\<And>n. n < 32 \<Longrightarrow> t_state (task_table t ! n) =
       (if n = i then 1 else if n = xs ! k \<and> t_state (task_table s ! n) = 1 then 0 else t_state (task_table s ! n))"
    "\<And>n. t_page_directory (task_table t ! n) = t_page_directory (task_table s ! n)"
    "\<And>n. t_eip (task_table t ! n) = t_eip (task_table s ! n)" "\<And>n. t_kstack (task_table t ! n) = t_kstack (task_table s ! n)"
    "\<And>h. stack_page D t h = stack_page D s h" "\<And>a. \<not> in_frame g a \<Longrightarrow> mem t a = mem s a"
    "\<And>e. unat j \<le> unat e \<Longrightarrow> unat e < 1024 \<Longrightarrow> rd32 (mem t) (g + 4 * e) = rd32 (mem s) (g + 4 * e)"
    "\<exists>k. gdt_st t = tss_set_kernel_stack k (gdt_st s)" "iflag t = iflag s"
proof -
  have len: "length (task_table s) = 32" using inv by (simp add: sched_inv_def)
  have p: "xs ! k \<in> set xs" using k by simp
  have c: "i \<in> set xs" "ready (task_table s) i" using find_others [OF nxt] by simp_all
  have b: "xs ! k < length (task_table s)" "i < length (task_table s)"
    using sched_inv_bound [OF inv p] sched_inv_bound [OF inv c(1)] len by simp_all
  have ne: "xs ! k \<noteq> i" using c(2) inv k by (auto simp: sched_inv_def)
  define u where "u = hand_over (xs ! k) i s"
  note hp = hand_over_parts [OF b, folded u_def] and hf = hand_over_fields [OF b, folded u_def]
  have um: "mem u = mem s" "pmm_st u = pmm_st s" "cr3 u = cr3 s" "current_page_directory u = current_page_directory s" "reg_esp u = reg_esp s"
    "gdt_st u = gdt_st s" "iflag u = iflag s"
    by (simp_all add: u_def hand_over_def upd_task_def Let_def)
  have spu: "spaces D u" using sp spaces_cong [OF um(1,2) hp(9) um(3) hp(10) um(4)] by simp
  have stk: "stack_page D u h = stack_page D s h" for h by (rule stack_page_cong [OF um(1,2)])
  have onu: "on_stack D u g j" using on by (simp add: on_stack_def stk um)
  have suu: "suspended D u n h l' ws' = suspended D s n h l' ws'" for n h l' ws'
    by (simp add: suspended_def stk hp um hf(3))
  have cu: "xs ! k < length (task_table u)" using b hf(3) by simp
  obtain t where t: "switch_task (xs ! k) i u = Ret (ws ! 4) t" "spaces D t" "reg_esp t = f + 4 * (l + 5)"
    "reg_edi t = ws ! 0" "reg_esi t = ws ! 1" "reg_ebx t = ws ! 2" "reg_ebp t = ws ! 3"
    "task_table t = (task_table u)[xs ! k := (task_table u ! (xs ! k))\<lparr>t_esp := g + 4 * (j - 4)\<rparr>]"
    "pmm_st t = pmm_st u" "cr3 t = t_page_directory (task_table u ! i)" "\<And>a. \<not> in_frame g a \<Longrightarrow> mem t a = mem u a"
    "\<And>k. k < 5 \<Longrightarrow> rd32 (mem t) (g + 4 * (j - 4 + of_nat k)) =
       [reg_edi u, reg_esi u, reg_ebx u, reg_ebp u, rd32 (mem u) (reg_esp u)] ! k"
    "esp0 (tss (gdt_st t)) = t_kstack (task_table u ! i)"
    "\<And>e. unat j \<le> unat e \<Longrightarrow> unat e < 1024 \<Longrightarrow> rd32 (mem t) (g + 4 * e) = rd32 (mem u) (g + 4 * e)"
    "\<exists>k. gdt_st t = tss_set_kernel_stack k (gdt_st u)" "iflag t = iflag u"
    by (rule switch_suspended [OF spu onu _ ne su(2) cu, of l ws]) (use su(1) suu in simp, rule that)
  have run: "schedule s = Ret (Some (ws ! 4)) t"
    using schedule_eq [OF inv k(2,1)] nxt t(1) by (simp add: u_def)
  have pg: "stack_page D u g" using onu by (simp add: on_stack_def)
  note pw = stack_page_write [OF spacesD(5) [OF spu] pg t(11) t(9)]
  have tt: "t_page_directory (task_table t ! n) = t_page_directory (task_table u ! n)" "t_eip (task_table t ! n) = t_eip (task_table u ! n)"
    "t_kstack (task_table t ! n) = t_kstack (task_table u ! n)" "t_state (task_table t ! n) = t_state (task_table u ! n)"
    "n \<noteq> xs ! k \<Longrightarrow> t_esp (task_table t ! n) = t_esp (task_table u ! n)" for n
    by (simp_all add: t(8) nth_update_if)
  have keep: "suspended D t n h l' ws'" if "n \<noteq> xs ! k" "h \<noteq> g" "suspended D s n h l' ws'" for n h l' ws'
    using that suu tt by (intro suspended_write [OF _ that(2) spacesD(5) [OF spu] pg t(11) t(9)]) (simp_all add: t(8))
  have mine: "suspended D t (xs ! k) g (j - 4) [reg_edi s, reg_esi s, reg_ebx s, reg_ebp s, rd32 (mem s) (reg_esp s)]"
  proof -
    have "unat (j - 4) = unat j - 4" "4 \<le> unat j" "unat j < 1024" using on by (simp_all add: on_stack_def unat_minus_small)
    then show ?thesis
      using t(12) pg pw(1) k(3) tt(1) cu unfolding suspended_def by (simp add: t(8) hp um)
  qed
  have st: "t_state (task_table t ! n) =
       (if n = i then 1 else if n = xs ! k \<and> t_state (task_table s ! n) = 1 then 0 else t_state (task_table s ! n))" if "n < 32" for n
    using hf(6) [of n] that len tt(4) [of n] by auto
  have "current_task t = Some i" using sched_view_eqD(2) [OF switch_task_view [OF t(1)]] hf(2) by simp
  then show thesis
    using that [OF run t(2) schedule_inv [OF inv run] _ t(3-7) _ _ _ schedule_dev [OF run] mine keep st] t(9-11,13-16) hp tt(1-3) pw(1) stk um
    by simp
qed

subsection \<open>A task ends, a tick arrives\<close>

lemma suspended_cong:
  "mem t = mem s \<Longrightarrow> pmm_st t = pmm_st s \<Longrightarrow> length (task_table t) = length (task_table s) \<Longrightarrow>
   t_page_directory (task_table t ! i) = t_page_directory (task_table s ! i) \<Longrightarrow> t_esp (task_table t ! i) = t_esp (task_table s ! i) \<Longrightarrow>
   suspended D t i f l ws = suspended D s i f l ws"
  by (simp add: suspended_def stack_page_def)

lemma task_exit_suspended:
  fixes s :: "'a kern_scheme"
  assumes sp: "spaces D s" and on: "on_stack D s g j" and inv: "sched_inv xs s"
    and k: "k < length xs" "current_task s = Some (xs ! k)" "t_page_directory (task_table s ! (xs ! k)) \<in> D"
    and nxt: "next_ready xs k s = Some i" and su: "suspended D s i f l ws" "f \<noteq> g"
  obtains t where "task_exit s = Ret (ws ! 4) t" "spaces D t" "sched_inv xs t" "current_task t = Some i"
    "reg_esp t = f + 4 * (l + 5)" "reg_edi t = ws ! 0" "reg_esi t = ws ! 1" "reg_ebx t = ws ! 2" "reg_ebp t = ws ! 3"
    "pmm_st t = pmm_st s" "cr3 t = t_page_directory (task_table s ! i)" "esp0 (tss (gdt_st t)) = t_kstack (task_table s ! i)"
    "dev_view t = dev_view s"
    "\<And>n h l' ws'. n \<noteq> xs ! k \<Longrightarrow> h \<noteq> g \<Longrightarrow> suspended D s n h l' ws' \<Longrightarrow> suspended D t n h l' ws'"
    "\<And>n. n < 32 \<Longrightarrow> t_state (task_table t ! n) = (if n = i then 1 else if n = xs ! k then 3 else t_state (task_table s ! n))"
    "\<And>n. t_page_directory (task_table t ! n) = t_page_directory (task_table s ! n)"
    "\<And>n. t_eip (task_table t ! n) = t_eip (task_table s ! n)" "\<And>n. t_kstack (task_table t ! n) = t_kstack (task_table s ! n)"
    "\<And>h. stack_page D t h = stack_page D s h" "\<And>a. \<not> in_frame g a \<Longrightarrow> mem t a = mem s a"
    "\<exists>k. gdt_st t = tss_set_kernel_stack k (gdt_st s)"
proof -
  let ?p = "xs ! k"
  have len: "length (task_table s) = 32" and ds: "distinct xs" using inv by (auto simp: sched_inv_def)
  have p: "?p \<in> set xs" using k(1) by simp
  have pl: "?p < 32" using sched_inv_bound [OF inv p] .
  define z where "z = upd_task ?p (t_state_update (\<lambda>_. TASK_STATE_ZOMBIE)) (cli s)"
  have zm: "mem z = mem s" "pmm_st z = pmm_st s" "cr0 z = cr0 s" "cr3 z = cr3 s" "tlb z = tlb s"
    "current_page_directory z = current_page_directory s" "reg_esp z = reg_esp s" "current_task z = Some ?p"
    "length (task_table z) = length (task_table s)" "dev_view z = dev_view s"
    "gdt_st z = gdt_st s"
    using k(2) by (simp_all add: z_def upd_task_def cli_def dev_view_def)
  have zt: "t_page_directory (task_table z ! n) = t_page_directory (task_table s ! n)" "t_esp (task_table z ! n) = t_esp (task_table s ! n)"
    "t_eip (task_table z ! n) = t_eip (task_table s ! n)" "t_kstack (task_table z ! n) = t_kstack (task_table s ! n)"
    "t_state (task_table z ! n) = (if n = ?p then 3 else t_state (task_table s ! n))" for n
    using pl len by (simp_all add: z_def upd_task_def cli_def nth_update_if)
  have ci: "sched_inv xs (cli s)" by (rule sched_inv_view [OF inv]) simp
  have zi: "sched_inv xs z" unfolding z_def using k(2) by (intro sched_inv_zombie [OF ci]) (simp add: cli_def)
  have spz: "spaces D z" using sp spaces_cong [OF zm(1-6)] by simp
  have stk: "stack_page D z h = stack_page D s h" for h by (rule stack_page_cong [OF zm(1,2)])
  have onz: "on_stack D z g j" using on by (simp add: on_stack_def stk zm)
  have suz: "suspended D z n h l' ws' = suspended D s n h l' ws'" for n h l' ws'
    by (rule suspended_cong) (simp_all add: zm zt)
  have po: "?p \<notin> set (others xs k)"
    using ds k(1) by (auto simp: others_def in_set_conv_nth nth_eq_iff_index_eq)
  have fnd: "List.find (ready (task_table z)) (others xs k) = Some i"
  proof -
    have "List.find (ready (task_table z)) (others xs k) = List.find (ready (task_table s)) (others xs k)"
      using po zt(5) by (intro find_cong [OF refl]) auto
    then show ?thesis using nxt by (simp add: others_def)
  qed
  have dir: "t_page_directory (task_table z ! ?p) \<in> D" using k(3) zt(1) by simp
  obtain t where t: "schedule z = Ret (Some (ws ! 4)) t" "spaces D t" "sched_inv xs t" "current_task t = Some i"
    "reg_esp t = f + 4 * (l + 5)" "reg_edi t = ws ! 0" "reg_esi t = ws ! 1" "reg_ebx t = ws ! 2" "reg_ebp t = ws ! 3"
    "pmm_st t = pmm_st z" "cr3 t = t_page_directory (task_table z ! i)" "esp0 (tss (gdt_st t)) = t_kstack (task_table z ! i)"
    "dev_view t = dev_view z"
    "\<And>n h l' ws'. n \<noteq> xs ! k \<Longrightarrow> h \<noteq> g \<Longrightarrow> suspended D z n h l' ws' \<Longrightarrow> suspended D t n h l' ws'"
    "\<And>n. n < 32 \<Longrightarrow> t_state (task_table t ! n) =
       (if n = i then 1 else if n = xs ! k \<and> t_state (task_table z ! n) = 1 then 0 else t_state (task_table z ! n))"
    "\<And>n. t_page_directory (task_table t ! n) = t_page_directory (task_table z ! n)"
    "\<And>n. t_eip (task_table t ! n) = t_eip (task_table z ! n)" "\<And>n. t_kstack (task_table t ! n) = t_kstack (task_table z ! n)"
    "\<And>h. stack_page D t h = stack_page D z h" "\<And>a. \<not> in_frame g a \<Longrightarrow> mem t a = mem z a"
    "\<exists>k. gdt_st t = tss_set_kernel_stack k (gdt_st z)"
    by (rule schedule_suspended [OF spz onz zi k(1) zm(8) dir fnd _ su(2), of l ws]) (use su(1) suz in simp, rule that)
  have run: "task_exit s = Ret (ws ! 4) t" using k(2) t(1) by (simp add: task_exit_def z_def Let_def cli_def)
  have st: "t_state (task_table t ! n) = (if n = i then 1 else if n = xs ! k then 3 else t_state (task_table s ! n))" if "n < 32" for n
    unfolding t(15) [OF that] zt(5) by simp
  show thesis
    by (rule that [OF run t(2-9) _ _ _ _ _ st]) (use t(21) in \<open>simp_all add: t(10-13,16-20) zm zt stk\<close>, simp add: t(14) suz)
qed

lemma timer_tick_suspended:
  fixes s :: "'a kern_scheme"
  assumes sp: "spaces D s" and on: "on_stack D s g j" and inv: "sched_inv xs s"
    and k: "k < length xs" "current_task s = Some (xs ! k)" "t_page_directory (task_table s ! (xs ! k)) \<in> D"
    and nxt: "next_ready xs k s = Some i" and su: "suspended D s i f l ws" "f \<noteq> g"
    and irq: "handlers (idt_st s) ! 32 = Some Timer_callback" "r_int_no regs = 32"
  obtains t where "irq_dispatch call_handler regs s = Ret (Switched (ws ! 4)) t" "spaces D t" "sched_inv xs t" "current_task t = Some i"
    "reg_esp t = f + 4 * (l + 5)" "reg_edi t = ws ! 0" "reg_esi t = ws ! 1" "reg_ebx t = ws ! 2" "reg_ebp t = ws ! 3"
    "pmm_st t = pmm_st s" "cr3 t = t_page_directory (task_table s ! i)" "esp0 (tss (gdt_st t)) = t_kstack (task_table s ! i)"
    "suspended D t (xs ! k) g (j - 4) [reg_edi s, reg_esi s, reg_ebx s, reg_ebp s, rd32 (mem s) (reg_esp s)]"
    "\<And>n h l' ws'. n \<noteq> xs ! k \<Longrightarrow> h \<noteq> g \<Longrightarrow> suspended D s n h l' ws' \<Longrightarrow> suspended D t n h l' ws'"
    "\<And>n. n < 32 \<Longrightarrow> t_state (task_table t ! n) =
       (if n = i then 1 else if n = xs ! k \<and> t_state (task_table s ! n) = 1 then 0 else t_state (task_table s ! n))"
    "\<And>n. t_page_directory (task_table t ! n) = t_page_directory (task_table s ! n)"
    "\<And>n. t_eip (task_table t ! n) = t_eip (task_table s ! n)" "\<And>n. t_kstack (task_table t ! n) = t_kstack (task_table s ! n)"
    "\<And>h. stack_page D t h = stack_page D s h" "\<And>a. \<not> in_frame g a \<Longrightarrow> mem t a = mem s a"
    "idt_st t = idt_st s" "tick t = tick s + 1" "ports t = ports s @ [(0x20, 0x20)]"
    "\<And>e. unat j \<le> unat e \<Longrightarrow> unat e < 1024 \<Longrightarrow> rd32 (mem t) (g + 4 * e) = rd32 (mem s) (g + 4 * e)"
    "\<exists>k. gdt_st t = tss_set_kernel_stack k (gdt_st s)" "iflag t = iflag s"
proof -
  let ?o = "outb 0x20 0x20 s"
  define z where "z = (if (tick ?o + 1) mod 100 = 0
      then print (puts ''\<newline>'') (print (terminal_writedec (tick ?o + 1)) (print (puts ''[Timer] Tick: '') (?o\<lparr>tick := tick ?o + 1\<rparr>)))
      else ?o\<lparr>tick := tick ?o + 1\<rparr>)"
  have zm: "mem z = mem s" "pmm_st z = pmm_st s" "cr0 z = cr0 s" "cr3 z = cr3 s" "tlb z = tlb s"
    "current_page_directory z = current_page_directory s" "reg_esp z = reg_esp s" "current_task z = Some (xs ! k)"
    "task_table z = task_table s" "idt_st z = idt_st s" "tick z = tick s + 1" "ports z = ports s @ [(0x20, 0x20)]"
    "reg_edi z = reg_edi s" "reg_esi z = reg_esi s" "reg_ebx z = reg_ebx s" "reg_ebp z = reg_ebp s" "sched_view z = sched_view s"
    "gdt_st z = gdt_st s" "iflag z = iflag s"
    using k(2) by (auto simp: z_def outb_def print_def sched_view_def)
  have zi: "sched_inv xs z" by (rule sched_inv_view [OF inv zm(17)])
  have spz: "spaces D z" using sp spaces_cong [OF zm(1-6)] by simp
  have stk: "stack_page D z h = stack_page D s h" for h by (rule stack_page_cong [OF zm(1,2)])
  have onz: "on_stack D z g j" using on by (simp add: on_stack_def stk zm)
  have suz: "suspended D z n h l' ws' = suspended D s n h l' ws'" for n h l' ws'
    by (rule suspended_cong) (simp_all add: zm)
  have fnd: "List.find (ready (task_table z)) (others xs k) = Some i" using nxt by (simp add: zm others_def)
  have dir: "t_page_directory (task_table z ! (xs ! k)) \<in> D" using k(3) zm by simp
  obtain t where t: "schedule z = Ret (Some (ws ! 4)) t" "spaces D t" "sched_inv xs t" "current_task t = Some i"
    "reg_esp t = f + 4 * (l + 5)" "reg_edi t = ws ! 0" "reg_esi t = ws ! 1" "reg_ebx t = ws ! 2" "reg_ebp t = ws ! 3"
    "pmm_st t = pmm_st z" "cr3 t = t_page_directory (task_table z ! i)" "esp0 (tss (gdt_st t)) = t_kstack (task_table z ! i)"
    "dev_view t = dev_view z"
    "suspended D t (xs ! k) g (j - 4) [reg_edi z, reg_esi z, reg_ebx z, reg_ebp z, rd32 (mem z) (reg_esp z)]"
    "\<And>n h l' ws'. n \<noteq> xs ! k \<Longrightarrow> h \<noteq> g \<Longrightarrow> suspended D z n h l' ws' \<Longrightarrow> suspended D t n h l' ws'"
    "\<And>n. n < 32 \<Longrightarrow> t_state (task_table t ! n) =
       (if n = i then 1 else if n = xs ! k \<and> t_state (task_table z ! n) = 1 then 0 else t_state (task_table z ! n))"
    "\<And>n. t_page_directory (task_table t ! n) = t_page_directory (task_table z ! n)"
    "\<And>n. t_eip (task_table t ! n) = t_eip (task_table z ! n)" "\<And>n. t_kstack (task_table t ! n) = t_kstack (task_table z ! n)"
    "\<And>h. stack_page D t h = stack_page D z h" "\<And>a. \<not> in_frame g a \<Longrightarrow> mem t a = mem z a"
    "\<And>e. unat j \<le> unat e \<Longrightarrow> unat e < 1024 \<Longrightarrow> rd32 (mem t) (g + 4 * e) = rd32 (mem z) (g + 4 * e)"
    "\<exists>k. gdt_st t = tss_set_kernel_stack k (gdt_st z)" "iflag t = iflag z"
    by (rule schedule_suspended [OF spz onz zi k(1) zm(8) dir fnd _ su(2), of l ws]) (use su(1) suz in simp, rule that)
  have "irq_dispatch call_handler regs s = timer_callback regs ?o" using irq by (simp add: irq_dispatch_def call_handler_def)
  then have run: "irq_dispatch call_handler regs s = Ret (Switched (ws ! 4)) t"
    using t(1) unfolding timer_callback_eq z_def [symmetric] Let_def by simp
  have dv: "idt_st t = idt_st s" "tick t = tick s + 1" "ports t = ports s @ [(0x20, 0x20)]"
    using t(13) zm(10-12) by (simp_all add: dev_view_def)
  have me: "suspended D t (xs ! k) g (j - 4) [reg_edi s, reg_esi s, reg_ebx s, reg_ebp s, rd32 (mem s) (reg_esp s)]"
    using t(14) by (simp add: zm)
  have st: "t_state (task_table t ! n) =
       (if n = i then 1 else if n = xs ! k \<and> t_state (task_table s ! n) = 1 then 0 else t_state (task_table s ! n))" if "n < 32" for n
    by (rule t(16) [OF that, unfolded zm(9)])
  show thesis
    by (rule that [OF run t(2-9) _ _ _ me _ st])
      (use t(23) in \<open>simp_all add: t(10-12,17-22,24) dv stk\<close>, simp_all add: zm t(15) suz)
qed

subsection \<open>A kernel task from its bootstrap to its end\<close>

text \<open>The demo tasks by their entry points.\<close>

definition demo_call :: "kernel_image \<Rightarrow> u32 \<Rightarrow> 'a kern_scheme \<Rightarrow> (unit, 'a kern_scheme) outcome" where
  "demo_call im e s = Ret () (if e = im_task_a im then task_a s else if e = im_task_b im then task_b s else s)"

text \<open>\<^verbatim>\<open>task_kernel_bootstrap\<close> with its argument from the stack.\<close>

definition enter_bootstrap :: "kernel_image \<Rightarrow> 'a kern_scheme \<Rightarrow> (u32, 'a kern_scheme) outcome" where
  "enter_bootstrap im s = obind (load32 (reg_esp s + 4) s) (task_kernel_bootstrap (demo_call im))"

lemma demo_task_prints: "\<exists>p. \<forall>s :: 'a sys_scheme. demo_task name s = print p s"
proof -
  let ?body = "\<lambda>count s :: 'a sys_scheme. print (puts ''\<newline>'') (print (terminal_writedec (of_nat count))
      (print (puts (''['' @ name @ ''] Running loop '')) s))"
  have "\<exists>p. \<forall>s. fold ?body ns s = print p s" for ns :: "nat list"
  proof (induction ns)
    case Nil
    show ?case by (intro exI [of _ id]) (simp add: print_def)
  next
    case (Cons n ns)
    then obtain p where "\<And>s. fold ?body ns s = print p s" by blast
    then show ?case by (simp add: comp_def) (rule exI, rule allI, rule refl)
  qed
  then obtain p where "\<And>s. fold ?body [0..<5] s = print p s" by blast
  then show ?thesis unfolding demo_task_def Let_def by (simp only: print_print) (rule exI, rule allI, rule refl)
qed

lemma task_ends:
  fixes s :: "'a kern_scheme"
  assumes sp: "spaces D s" and me: "suspended D s (xs ! k) f 1017 (first_frame syms ke)" "reg_esp s = f + 4 * 1022"
    and inv: "sched_inv xs s" and k: "k < length xs" "current_task s = Some (xs ! k)"
    and body: "demo_call im ke (sti s) = Ret () (print p (sti s))"
    and nxt: "next_ready xs k s = Some i" and su: "suspended D s i h l ws" "h \<noteq> f"
  obtains t where "enter_bootstrap im s = Ret (ws ! 4) t" "spaces D t" "sched_inv xs t" "current_task t = Some i"
    "reg_esp t = h + 4 * (l + 5)" "reg_edi t = ws ! 0" "reg_esi t = ws ! 1" "reg_ebx t = ws ! 2" "reg_ebp t = ws ! 3"
    "pmm_st t = pmm_st s" "cr3 t = t_page_directory (task_table s ! i)" "esp0 (tss (gdt_st t)) = t_kstack (task_table s ! i)"
    "console t = p (console s)" "idt_st t = idt_st s" "tick t = tick s"
    "\<And>n h l' ws'. n \<noteq> xs ! k \<Longrightarrow> h \<noteq> f \<Longrightarrow> suspended D s n h l' ws' \<Longrightarrow> suspended D t n h l' ws'"
    "\<And>n. n < 32 \<Longrightarrow> t_state (task_table t ! n) = (if n = i then 1 else if n = xs ! k then 3 else t_state (task_table s ! n))"
    "\<And>n. t_page_directory (task_table t ! n) = t_page_directory (task_table s ! n)"
    "\<And>n. t_eip (task_table t ! n) = t_eip (task_table s ! n)" "\<And>n. t_kstack (task_table t ! n) = t_kstack (task_table s ! n)"
    "\<And>h. stack_page D t h = stack_page D s h" "\<And>a. \<not> in_frame f a \<Longrightarrow> mem t a = mem s a"
proof -
  define z where "z = print p (sti s)"
  have zm: "mem z = mem s" "pmm_st z = pmm_st s" "cr0 z = cr0 s" "cr3 z = cr3 s" "tlb z = tlb s"
    "current_page_directory z = current_page_directory s" "reg_esp z = reg_esp s" "current_task z = Some (xs ! k)"
    "task_table z = task_table s" "idt_st z = idt_st s" "tick z = tick s" "sched_view z = sched_view s" "console z = p (console s)"
    using k(2) by (simp_all add: z_def sti_def print_def sched_view_def)
  have sf: "stack_page D s f" "t_page_directory (task_table s ! (xs ! k)) \<in> D"
    and w6: "rd32 (mem s) (f + 4 * 1023) = ke"
    using me(1) by (auto simp: suspended_def first_frame_def dest: spec [of _ "6 :: nat"])
  have fa: "frame_aligned f" using sf(1) by (simp add: stack_page_def)
  have ld: "load32 (f + 4 * 1023) s = Ret (rd32 (mem s) (f + 4 * 1023)) s"
    by (rule frame_load32 [OF spacesD(1) [OF sp] fa stack_page_ram [OF sf(1)]]) simp
  have e4: "reg_esp s + 4 = f + 4 * 1023" using me(2) by simp
  have "enter_bootstrap im s = obind (demo_call im ke (sti s)) (\<lambda>_ s. task_exit s)"
    unfolding enter_bootstrap_def e4 ld w6 by (simp add: task_kernel_bootstrap_def)
  then have eb: "enter_bootstrap im s = task_exit z" using body by (simp add: z_def)
  have zi: "sched_inv xs z" by (rule sched_inv_view [OF inv zm(12)])
  have spz: "spaces D z" using sp spaces_cong [OF zm(1-6)] by simp
  have stk: "stack_page D z h = stack_page D s h" for h by (rule stack_page_cong [OF zm(1,2)])
  have onz: "on_stack D z f 1022" using sf(1) me(2) by (simp add: on_stack_def stk zm)
  have suz: "suspended D z n h l' ws' = suspended D s n h l' ws'" for n h l' ws'
    by (rule suspended_cong) (simp_all add: zm)
  have dir: "t_page_directory (task_table z ! (xs ! k)) \<in> D" using sf(2) zm by simp
  have nz: "next_ready xs k z = Some i" using nxt by (simp add: zm)
  obtain t where t: "task_exit z = Ret (ws ! 4) t" "spaces D t" "sched_inv xs t" "current_task t = Some i"
    "reg_esp t = h + 4 * (l + 5)" "reg_edi t = ws ! 0" "reg_esi t = ws ! 1" "reg_ebx t = ws ! 2" "reg_ebp t = ws ! 3"
    "pmm_st t = pmm_st z" "cr3 t = t_page_directory (task_table z ! i)" "esp0 (tss (gdt_st t)) = t_kstack (task_table z ! i)"
    "dev_view t = dev_view z"
    "\<And>n h l' ws'. n \<noteq> xs ! k \<Longrightarrow> h \<noteq> f \<Longrightarrow> suspended D z n h l' ws' \<Longrightarrow> suspended D t n h l' ws'"
    "\<And>n. n < 32 \<Longrightarrow> t_state (task_table t ! n) = (if n = i then 1 else if n = xs ! k then 3 else t_state (task_table z ! n))"
    "\<And>n. t_page_directory (task_table t ! n) = t_page_directory (task_table z ! n)"
    "\<And>n. t_eip (task_table t ! n) = t_eip (task_table z ! n)" "\<And>n. t_kstack (task_table t ! n) = t_kstack (task_table z ! n)"
    "\<And>h. stack_page D t h = stack_page D z h" "\<And>a. \<not> in_frame f a \<Longrightarrow> mem t a = mem z a"
    by (rule task_exit_suspended [OF spz onz zi k(1) zm(8) dir nz _ su(2), of l ws]) (use su(1) suz in simp, rule that)
  have dv: "console t = p (console s)" "idt_st t = idt_st s" "tick t = tick s" using t(13) zm by (simp_all add: dev_view_def)
  show thesis
    by (rule that [OF eb [unfolded t(1)] t(2-9)])
      (simp_all add: t(10-12,15-20) dv stk, simp_all add: zm t(14) suz)
qed

subsection \<open>The demo tasks run\<close>

text \<open>
  The state \<open>u\<close> in which the timer interrupt finds the boot thread of \<open>t\<close>: on entry \<open>j\<close> of its stack
  page \<open>g\<close>, on which the interrupt and the calls up to \<^verbatim>\<open>switch_task\<close> have put what they need.
\<close>

definition interrupted :: "'a kern_scheme \<Rightarrow> u32 \<Rightarrow> u32 \<Rightarrow> 'a kern_scheme \<Rightarrow> bool" where
  "interrupted t g j u \<longleftrightarrow> (\<forall>a. \<not> in_frame g a \<longrightarrow> mem u a = mem t a) \<and>
     u = t\<lparr>mem := mem u, iflag := False, reg_esp := g + 4 * j, reg_ebp := reg_ebp u, reg_ebx := reg_ebx u,
           reg_esi := reg_esi u, reg_edi := reg_edi u\<rparr>"

lemma interruptedD:
  assumes "interrupted t g j u"
  shows "\<And>a. \<not> in_frame g a \<Longrightarrow> mem u a = mem t a" "pmm_st u = pmm_st t" "cr0 u = cr0 t" "cr3 u = cr3 t" "tlb u = tlb t"
    "current_page_directory u = current_page_directory t" "reg_esp u = g + 4 * j" "task_table u = task_table t"
    "sched_view u = sched_view t" "idt_st u = idt_st t" "current_task u = current_task t" "kern.more u = kern.more t"
proof -
  show "mem u a = mem t a" if "\<not> in_frame g a" for a using assms that by (simp add: interrupted_def)
  have e: "u = t\<lparr>mem := mem u, iflag := False, reg_esp := g + 4 * j, reg_ebp := reg_ebp u, reg_ebx := reg_ebx u,
           reg_esi := reg_esi u, reg_edi := reg_edi u\<rparr>" using assms by (simp add: interrupted_def)
  show "pmm_st u = pmm_st t" "cr0 u = cr0 t" "cr3 u = cr3 t" "tlb u = tlb t"
    "current_page_directory u = current_page_directory t" "reg_esp u = g + 4 * j" "task_table u = task_table t"
    "sched_view u = sched_view t" "idt_st u = idt_st t" "current_task u = current_task t" "kern.more u = kern.more t"
    by (subst e, simp add: sched_view_def)+
qed

lemma interrupted_spaces:
  assumes "interrupted t g j u" "spaces D t" "stack_page D t g" "4 \<le> unat j" "unat j < 1024"
  shows "spaces D u" "on_stack D u g j" "\<And>h. stack_page D u h = stack_page D t h"
    "\<And>n f l ws. f \<noteq> g \<Longrightarrow> suspended D t n f l ws \<Longrightarrow> suspended D u n f l ws"
proof -
  note i = interruptedD [OF assms(1)]
  have "spaces D (t\<lparr>mem := mem u\<rparr>)" using assms(2,3) i(1) by (rule spaces_write)
  then show "spaces D u" using spaces_cong [of u "t\<lparr>mem := mem u\<rparr>" D] i by simp
  show st: "stack_page D u h = stack_page D t h" for h
    by (rule stack_page_write(1) [OF spacesD(5) [OF assms(2)] assms(3) i(1,2)])
  show "on_stack D u g j" using assms(3-5) st i(7) by (simp add: on_stack_def)
  show "suspended D u n f l ws" if "f \<noteq> g" "suspended D t n f l ws" for n f l ws
    by (rule suspended_write [OF that(2,1) spacesD(5) [OF assms(2)] assms(3) i(1,2)]) (simp_all add: i(8))
qed

text \<open>The boot thread \<open>0\<close> is interrupted with both demo tasks waiting.\<close>

definition demo_ready :: "kernel_image \<Rightarrow> u32 \<Rightarrow> u32 \<Rightarrow> u32 set \<Rightarrow> nat list \<Rightarrow> 'a kern_scheme \<Rightarrow> bool" where
  "demo_ready im fa fb D xs t \<longleftrightarrow> spaces D t \<and> sched_inv ([0, 1, 2] @ xs) t \<and> current_task t = Some 0 \<and>
     t_state (task_table t ! 0) = TASK_STATE_RUNNING \<and> t_page_directory (task_table t ! 0) \<in> D \<and>
     t_state (task_table t ! 1) = TASK_STATE_READY \<and> suspended D t 1 fa 1017 (first_frame (im_symbols im) (im_task_a im)) \<and>
     t_state (task_table t ! 2) = TASK_STATE_READY \<and> suspended D t 2 fb 1017 (first_frame (im_symbols im) (im_task_b im)) \<and>
     fa \<noteq> fb \<and> handlers (idt_st t) ! 32 = Some Timer_callback"

lemma first_frame_nth: "first_frame syms ke ! 4 = sym_task_kernel_bootstrap syms"
  by (simp add: first_frame_def)

lemma demo_calls:
  "\<exists>p. (\<forall>s :: 'a kern_scheme. demo_call im (im_task_a im) s = Ret () (print p s)) \<and> (\<forall>s :: 'a kern_scheme. console (task_a s) = p (console s))"
  "im_task_a im \<noteq> im_task_b im \<Longrightarrow>
   \<exists>p. (\<forall>s :: 'a kern_scheme. demo_call im (im_task_b im) s = Ret () (print p s)) \<and> (\<forall>s :: 'a kern_scheme. console (task_b s) = p (console s))"
proof -
  obtain p where "\<And>s :: 'a kern_scheme. demo_task ''Task A'' s = print p s" using demo_task_prints by blast
  then show "\<exists>p. (\<forall>s :: 'a kern_scheme. demo_call im (im_task_a im) s = Ret () (print p s)) \<and> (\<forall>s :: 'a kern_scheme. console (task_a s) = p (console s))"
    by (auto simp: demo_call_def task_a_def print_def)
  obtain p where "\<And>s :: 'a kern_scheme. demo_task ''Task B'' s = print p s" using demo_task_prints by blast
  then show "\<exists>p. (\<forall>s :: 'a kern_scheme. demo_call im (im_task_b im) s = Ret () (print p s)) \<and> (\<forall>s :: 'a kern_scheme. console (task_b s) = p (console s))"
    if "im_task_a im \<noteq> im_task_b im" using that by (auto simp: demo_call_def task_b_def print_def)
qed

lemma demo_tasks_run:
  fixes t :: "'a kern_scheme"
  assumes ready: "demo_ready im fa fb D xs t" and g: "stack_page D t g" "g \<noteq> fa" "g \<noteq> fb" and j: "4 \<le> unat j" "unat j < 1024"
    and u: "interrupted t g j u" and irq: "r_int_no regs = 32"
  obtains a b where "irq_dispatch call_handler regs u = Ret (Switched (sym_task_kernel_bootstrap (im_symbols im))) a"
    "current_task a = Some 1" "tick a = tick u + 1"
    "enter_bootstrap im a = Ret (sym_task_kernel_bootstrap (im_symbols im)) b" "current_task b = Some 2"
    "console b = console (task_a a)" "spaces D b" "sched_inv ([0, 1, 2] @ xs) b" "reg_esp b = fb + 4 * 1022"
    "suspended D b 2 fb 1017 (first_frame (im_symbols im) (im_task_b im))"
    "suspended D b 0 g (j - 4) [reg_edi u, reg_esi u, reg_ebx u, reg_ebp u, rd32 (mem u) (reg_esp u)]"
    "t_state (task_table b ! 0) = TASK_STATE_READY" "t_state (task_table b ! 1) = TASK_STATE_ZOMBIE"
    "\<And>n. 2 < n \<Longrightarrow> n < 32 \<Longrightarrow> t_state (task_table b ! n) = t_state (task_table t ! n)"
    "\<And>n h l ws. 2 < n \<Longrightarrow> h \<noteq> g \<Longrightarrow> h \<noteq> fa \<Longrightarrow> suspended D t n h l ws \<Longrightarrow> suspended D b n h l ws"
    "\<And>n. t_page_directory (task_table b ! n) = t_page_directory (task_table t ! n)" "\<And>h. stack_page D b h = stack_page D t h"
    "\<And>n. t_eip (task_table b ! n) = t_eip (task_table t ! n)" "\<And>n. t_kstack (task_table b ! n) = t_kstack (task_table t ! n)"
    "pmm_st b = pmm_st t" "idt_st b = idt_st t" "\<And>x. \<not> in_frame g x \<Longrightarrow> \<not> in_frame fa x \<Longrightarrow> mem b x = mem t x"
proof -
  let ?xs = "[0, 1, 2] @ xs" and ?kb = "sym_task_kernel_bootstrap (im_symbols im)"
  have t: "spaces D t" "sched_inv ?xs t" "current_task t = Some 0" "t_state (task_table t ! 0) = 1" "t_page_directory (task_table t ! 0) \<in> D"
    "t_state (task_table t ! 1) = 0" "suspended D t 1 fa 1017 (first_frame (im_symbols im) (im_task_a im))"
    "t_state (task_table t ! 2) = 0" "suspended D t 2 fb 1017 (first_frame (im_symbols im) (im_task_b im))"
    "fa \<noteq> fb" "handlers (idt_st t) ! 32 = Some Timer_callback"
    using ready by (auto simp: demo_ready_def)
  note i = interruptedD [OF u] and isp = interrupted_spaces [OF u t(1) g(1) j]
  have ui: "sched_inv ?xs u" by (rule sched_inv_view [OF t(2) i(9)])
  have u0: "0 < length ?xs" "current_task u = Some (?xs ! 0)" "t_page_directory (task_table u ! (?xs ! 0)) \<in> D"
    "next_ready ?xs 0 u = Some 1" "handlers (idt_st u) ! 32 = Some Timer_callback"
    using t(3,5,6,11) i(8,10,11) by simp_all
  obtain a where a: "irq_dispatch call_handler regs u = Ret (Switched (first_frame (im_symbols im) (im_task_a im) ! 4)) a"
    "spaces D a" "sched_inv ?xs a" "current_task a = Some 1" "reg_esp a = fa + 4 * (1017 + 5)" "pmm_st a = pmm_st u"
    "suspended D a (?xs ! 0) g (j - 4) [reg_edi u, reg_esi u, reg_ebx u, reg_ebp u, rd32 (mem u) (reg_esp u)]"
    "\<And>n h l' ws'. n \<noteq> ?xs ! 0 \<Longrightarrow> h \<noteq> g \<Longrightarrow> suspended D u n h l' ws' \<Longrightarrow> suspended D a n h l' ws'"
    "\<And>n. n < 32 \<Longrightarrow> t_state (task_table a ! n) =
       (if n = 1 then 1 else if n = ?xs ! 0 \<and> t_state (task_table u ! n) = 1 then 0 else t_state (task_table u ! n))"
    "\<And>n. t_page_directory (task_table a ! n) = t_page_directory (task_table u ! n)"
    "\<And>n. t_eip (task_table a ! n) = t_eip (task_table u ! n)" "\<And>n. t_kstack (task_table a ! n) = t_kstack (task_table u ! n)"
    "\<And>h. stack_page D a h = stack_page D u h" "\<And>x. \<not> in_frame g x \<Longrightarrow> mem a x = mem u x" "idt_st a = idt_st u" "tick a = tick u + 1"
    by (rule timer_tick_suspended [OF isp(1,2) ui u0(1-4) isp(4) [OF g(2) [symmetric] t(7)] g(2) [symmetric] u0(5) irq]) (rule that)
  have sa: "suspended D a (?xs ! 1) fa 1017 (first_frame (im_symbols im) (im_task_a im))"
    "suspended D a 2 fb 1017 (first_frame (im_symbols im) (im_task_b im))"
    using a(8) [OF _ g(2) [symmetric] isp(4) [OF g(2) [symmetric] t(7)]] a(8) [OF _ g(3) [symmetric] isp(4) [OF g(3) [symmetric] t(9)]]
    by simp_all
  have sta: "t_state (task_table a ! 0) = 0" "t_state (task_table a ! 2) = 0" using a(9) [of 0] a(9) [of 2] t(4,8) i(8) by simp_all
  obtain p where p: "\<And>s :: 'a kern_scheme. demo_call im (im_task_a im) s = Ret () (print p s)" "\<And>s :: 'a kern_scheme. console (task_a s) = p (console s)"
    using demo_calls(1) by blast
  have a1: "reg_esp a = fa + 4 * 1022" "1 < length ?xs" "current_task a = Some (?xs ! 1)" "next_ready ?xs 1 a = Some 2"
    using a(4,5) sta(2) by simp_all
  obtain b where b: "enter_bootstrap im a = Ret (first_frame (im_symbols im) (im_task_b im) ! 4) b" "spaces D b" "sched_inv ?xs b"
    "current_task b = Some 2" "reg_esp b = fb + 4 * (1017 + 5)" "pmm_st b = pmm_st a" "console b = p (console a)" "idt_st b = idt_st a"
    "\<And>n h l' ws'. n \<noteq> ?xs ! 1 \<Longrightarrow> h \<noteq> fa \<Longrightarrow> suspended D a n h l' ws' \<Longrightarrow> suspended D b n h l' ws'"
    "\<And>n. n < 32 \<Longrightarrow> t_state (task_table b ! n) = (if n = 2 then 1 else if n = ?xs ! 1 then 3 else t_state (task_table a ! n))"
    "\<And>n. t_page_directory (task_table b ! n) = t_page_directory (task_table a ! n)"
    "\<And>n. t_eip (task_table b ! n) = t_eip (task_table a ! n)" "\<And>n. t_kstack (task_table b ! n) = t_kstack (task_table a ! n)"
    "\<And>h. stack_page D b h = stack_page D a h" "\<And>x. \<not> in_frame fa x \<Longrightarrow> mem b x = mem a x"
    by (rule task_ends [OF a(2) sa(1) a1(1) a(3) a1(2,3) p(1) a1(4) sa(2) t(10) [symmetric]]) (rule that)
  have sb: "suspended D b 2 fb 1017 (first_frame (im_symbols im) (im_task_b im))"
    "suspended D b 0 g (j - 4) [reg_edi u, reg_esi u, reg_ebx u, reg_ebp u, rd32 (mem u) (reg_esp u)]"
    using b(9) [OF _ t(10) [symmetric] sa(2)] b(9) [OF _ g(2)] a(7) by simp_all
  have keep: "suspended D b n h l ws" if "2 < n" "h \<noteq> g" "h \<noteq> fa" "suspended D t n h l ws" for n h l ws
  proof -
    have "suspended D a n h l ws" using that by (intro a(8) isp(4)) simp_all
    then show ?thesis using that by (intro b(9)) simp_all
  qed
  have st: "t_state (task_table b ! 0) = 0" "t_state (task_table b ! 1) = 3" using b(10) [of 0] b(10) [of 1] sta(1) by simp_all
  have sn: "t_state (task_table b ! n) = t_state (task_table t ! n)" if "2 < n" "n < 32" for n
    using b(10) [OF that(2)] a(9) [OF that(2)] that i(8) by simp
  show thesis
    by (rule that [of a b]) (use a(1,4,16) b(1,2-5,7) sb st sn keep in
      \<open>simp_all add: first_frame_nth p(2) b(6,8,11-15) a(6,10-15) i(2,8,10) i(1) isp(3)\<close>)
qed

text \<open>Without a further task the boot thread comes back.\<close>

lemma demo_tasks_return:
  fixes t :: "'a kern_scheme"
  assumes ready: "demo_ready im fa fb D [] t" and g: "stack_page D t g" "g \<noteq> fa" "g \<noteq> fb" and j: "4 \<le> unat j" "unat j < 1024"
    and u: "interrupted t g j u" and irq: "r_int_no regs = 32" and ab: "im_task_a im \<noteq> im_task_b im"
  obtains a b c where "irq_dispatch call_handler regs u = Ret (Switched (sym_task_kernel_bootstrap (im_symbols im))) a"
    "current_task a = Some 1" "tick a = tick u + 1"
    "enter_bootstrap im a = Ret (sym_task_kernel_bootstrap (im_symbols im)) b" "current_task b = Some 2"
    "console b = console (task_a a)" "enter_bootstrap im b = Ret (rd32 (mem u) (reg_esp u)) c" "current_task c = Some 0"
    "console c = console (task_b b)" "vm_ok c" "paging_on c" "sched_inv [0, 1, 2] c"
    "t_state (task_table c ! 1) = TASK_STATE_ZOMBIE" "t_state (task_table c ! 2) = TASK_STATE_ZOMBIE"
    "reg_esp c = reg_esp u + 4" "reg_ebp c = reg_ebp u" "reg_ebx c = reg_ebx u" "reg_esi c = reg_esi u" "reg_edi c = reg_edi u"
    "pmm_st c = pmm_st t"
proof -
  obtain a b where b: "irq_dispatch call_handler regs u = Ret (Switched (sym_task_kernel_bootstrap (im_symbols im))) a"
    "current_task a = Some 1" "tick a = tick u + 1"
    "enter_bootstrap im a = Ret (sym_task_kernel_bootstrap (im_symbols im)) b" "current_task b = Some 2"
    "console b = console (task_a a)" "spaces D b" "sched_inv ([0, 1, 2] @ []) b" "reg_esp b = fb + 4 * 1022"
    "suspended D b 2 fb 1017 (first_frame (im_symbols im) (im_task_b im))"
    "suspended D b 0 g (j - 4) [reg_edi u, reg_esi u, reg_ebx u, reg_ebp u, rd32 (mem u) (reg_esp u)]"
    "t_state (task_table b ! 0) = TASK_STATE_READY" "t_state (task_table b ! 1) = TASK_STATE_ZOMBIE" "pmm_st b = pmm_st t"
    by (rule demo_tasks_run [OF ready g j u irq]) (rule that)
  obtain p where p: "\<And>s :: 'a kern_scheme. demo_call im (im_task_b im) s = Ret () (print p s)" "\<And>s :: 'a kern_scheme. console (task_b s) = p (console s)"
    using demo_calls(2) [OF ab] by blast
  let ?xs = "[0, 1, 2] @ []"
  have b2: "suspended D b (?xs ! 2) fb 1017 (first_frame (im_symbols im) (im_task_b im))" "2 < length ?xs"
    "current_task b = Some (?xs ! 2)" "next_ready ?xs 2 b = Some 0"
    using b(5,10,12) by simp_all
  obtain c where c: "enter_bootstrap im b = Ret ([reg_edi u, reg_esi u, reg_ebx u, reg_ebp u, rd32 (mem u) (reg_esp u)] ! 4) c"
    "spaces D c" "sched_inv ?xs c" "current_task c = Some 0" "reg_esp c = g + 4 * (j - 4 + 5)"
    "reg_edi c = [reg_edi u, reg_esi u, reg_ebx u, reg_ebp u, rd32 (mem u) (reg_esp u)] ! 0"
    "reg_esi c = [reg_edi u, reg_esi u, reg_ebx u, reg_ebp u, rd32 (mem u) (reg_esp u)] ! 1"
    "reg_ebx c = [reg_edi u, reg_esi u, reg_ebx u, reg_ebp u, rd32 (mem u) (reg_esp u)] ! 2"
    "reg_ebp c = [reg_edi u, reg_esi u, reg_ebx u, reg_ebp u, rd32 (mem u) (reg_esp u)] ! 3"
    "pmm_st c = pmm_st b" "console c = p (console b)"
    "\<And>n. n < 32 \<Longrightarrow> t_state (task_table c ! n) = (if n = 0 then 1 else if n = ?xs ! 2 then 3 else t_state (task_table b ! n))"
    by (rule task_ends [OF b(7) b2(1) b(9,8) b2(2,3) p(1) b2(4) b(11) g(3)]) (rule that)
  have "reg_esp c = reg_esp u + 4" using c(5) interruptedD(7) [OF u] by (simp add: algebra_simps)
  then show thesis
    using b(1-6,13,14) c(1,3,4,6-11) c(12) [of 1] c(12) [of 2] spacesD(1,2) [OF c(2)] p(2) by (intro that [of a b c]) simp_all
qed

lemma booted_ready:
  fixes s :: "'a fs_scheme"
  assumes "booted mbi_addr es None s"
    and "8 + (ram_blocks es + 1023) div 1024 \<le> card (spare_blocks im es (boot_modules mbi_addr s))"
    and g: "frame_aligned g" "block_of g \<in> reserved_blocks im es (boot_modules mbi_addr s)"
  obtains t fa fb where "kernel_main im 0x2BADB002 mbi_addr s = Ret () t" "demo_ready im fa fb {cr3 t} [] t" "stack_page {cr3 t} t g"
    "g \<noteq> fa" "g \<noteq> fb"
proof -
  obtain t f fa fb where t: "kernel_main im 0x2BADB002 mbi_addr s = Ret () t" "vm_ok t" "paging_on t" "sched_inv [0, 1, 2] t"
    "current_task t = Some 0" "fresh_at (im_symbols im) t 1 fa (cr3 t) (im_task_a im) (im_task_a im)"
    "fresh_at (im_symbols im) t 2 fb (cr3 t) (im_task_b im) (im_task_b im)"
    "handlers (idt_st t) = (replicate 256 None)[128 := Some Syscall_dispatch, 14 := Some Page_fault_handler, 32 := Some Timer_callback]"
    "fa \<noteq> fb" "untouched (reserved_blocks im es (boot_modules mbi_addr s)) (mem s) t" "t_page_directory (task_table t ! 0) = cr3 t"
    "t_state (task_table t ! 0) = TASK_STATE_RUNNING"
    "block_of fa \<notin> reserved_blocks im es (boot_modules mbi_addr s)" "block_of fb \<notin> reserved_blocks im es (boot_modules mbi_addr s)"
    by (rule boot_reaches [OF assms(1,2)]) (rule that)
  have cr: "current_page_directory t = cr3 t" using vm_okD(5) [OF t(2,3)] by simp
  have len: "1 < length (task_table t)" "2 < length (task_table t)" using t(4) by (simp_all add: sched_inv_def)
  have "suspended {cr3 t} t 1 fa 1017 (first_frame (im_symbols im) (im_task_a im))"
    "suspended {cr3 t} t 2 fb 1017 (first_frame (im_symbols im) (im_task_b im))"
    using fresh_suspended [OF t(6) len(1), of "{cr3 t}"] fresh_suspended [OF t(7) len(2), of "{cr3 t}"] fresh_atD(8) [OF t(6)]
      fresh_atD(8) [OF t(7)] cr by auto
  then have "demo_ready im fa fb {cr3 t} [] t"
    using t(4,5,8,9,11,12) spaces_single [OF t(2,3)] fresh_atD(1) [OF t(6)] fresh_atD(1) [OF t(7)] by (simp add: demo_ready_def)
  moreover have "stack_page {cr3 t} t g"
    using untouchedD(1,2) [OF t(10) g(2)] g(1) cr by (simp add: stack_page_def frame_of_aligned)
  ultimately show thesis using t(1,13,14) g(2) by (intro that [of t fa fb]) auto
qed

end
