(* ===== verification/Stubs.thy ===== *)
theory Stubs
  imports UserMode
begin

text \<open>
  \<^verbatim>\<open>src/isr.s\<close>: the assembly stubs between the processor and the C dispatchers, instruction by
  instruction, with the interrupt delivery of the processor in front of them and \<^verbatim>\<open>iret\<close> behind.
  The registers the kernel state does not have (EAX, ECX, EDX, EIP, EFLAGS) are those of the
  interrupted code, a record of their own. The four data segment registers always hold the same
  selector. What the C compiler keeps on the stack between the stub and \<^verbatim>\<open>switch_task\<close> is not
  modelled: the return address into the stub is the word \<^verbatim>\<open>switch_task\<close> finds on the stack.
\<close>

record cpu =
  c_eax :: u32
  c_ecx :: u32
  c_edx :: u32
  c_eip :: u32
  c_eflags :: u32

text \<open>
  The addresses the linker gives to the stubs and to the instructions behind the two calls.
\<close>

record stub_image =
  si_isr :: "nat \<Rightarrow> u32"
  si_irq :: "nat \<Rightarrow> u32"
  si_isr_ret :: u32
  si_irq_ret :: u32

text \<open>How an interrupt is left: back in the interrupted code, or in another task.\<close>

datatype landed = Resumed cpu | Elsewhere u32

subsection \<open>Words on the stack\<close>

fun pushes :: "u32 list \<Rightarrow> 'a kern_scheme \<Rightarrow> (unit, 'a kern_scheme) outcome" where
  "pushes [] s = Ret () s"
| "pushes (v # vs) s = obind (push v s) (\<lambda>_ s. pushes vs s)"

fun pops :: "nat \<Rightarrow> 'a kern_scheme \<Rightarrow> (u32 list, 'a kern_scheme) outcome" where
  "pops 0 s = Ret [] s"
| "pops (Suc n) s = obind (pop s) (\<lambda>v s. obind (pops n s) (\<lambda>vs s. Ret (v # vs) s))"

fun loads :: "u32 \<Rightarrow> nat \<Rightarrow> 'a kern_scheme \<Rightarrow> (u32 list, 'a kern_scheme) outcome" where
  "loads a 0 s = Ret [] s"
| "loads a (Suc n) s = obind (load32 a s) (\<lambda>v s. obind (loads (a + 4) n s) (\<lambda>vs s. Ret (v # vs) s))"

definition ring :: "'a sys_scheme \<Rightarrow> u16" where
  "ring s = seg_cs (gdt_st s) AND 3"

definition set_data_segments :: "u16 \<Rightarrow> 'a sys_scheme \<Rightarrow> 'a sys_scheme" where
  "set_data_segments sel s = s\<lparr>gdt_st := (gdt_st s)\<lparr>seg_data := sel\<rparr>\<rparr>"

subsection \<open>The processor\<close>

text \<open>
  Through a gate: coming from ring 3 the stack is the one the TSS names and the old one is pushed
  first; then EFLAGS, CS, EIP and the error code of the exceptions that have one. An interrupt
  gate clears IF.
\<close>

definition enter_gate :: "idt_entry \<Rightarrow> u32 option \<Rightarrow> cpu \<Rightarrow> 'a kern_scheme \<Rightarrow> (unit, 'a kern_scheme) outcome" where
  "enter_gate e err c s =
     (let g = gdt_st s;
          outer = (if ring s = 0 then [] else [ucast (seg_ss g), reg_esp s]);
          s = (if ring s = 0 then s
               else s\<lparr>reg_esp := esp0 (tss g), gdt_st := g\<lparr>seg_ss := ucast (ss0 (tss g))\<rparr>\<rparr>);
          s = s\<lparr>gdt_st := (gdt_st s)\<lparr>seg_cs := ie_selector e\<rparr>, iflag := iflag s \<and> \<not> interrupt_gate e\<rparr>
      in pushes (outer @ [c_eflags c, ucast (seg_cs g), c_eip c] @ (case err of None \<Rightarrow> [] | Some x \<Rightarrow> [x])) s)"

text \<open>\<^verbatim>\<open>iret\<close>, with the registers \<^verbatim>\<open>popa\<close> has loaded: the stack is popped only on the way to ring 3.\<close>

definition iret :: "u32 \<Rightarrow> u32 \<Rightarrow> u32 \<Rightarrow> 'a kern_scheme \<Rightarrow> (cpu, 'a kern_scheme) outcome" where
  "iret eax ecx edx s =
     obind (pops 3 s) (\<lambda>ws s.
       let c = \<lparr>c_eax = eax, c_ecx = ecx, c_edx = edx, c_eip = ws ! 0, c_eflags = ws ! 2\<rparr>;
           s = s\<lparr>gdt_st := (gdt_st s)\<lparr>seg_cs := ucast (ws ! 1)\<rparr>, iflag := bit (ws ! 2) 9\<rparr>
       in if ring s = 0 then Ret c s
          else obind (pops 2 s) (\<lambda>us s.
            Ret c (s\<lparr>reg_esp := us ! 0, gdt_st := (gdt_st s)\<lparr>seg_ss := ucast (us ! 1)\<rparr>\<rparr>)))"

subsection \<open>The common stubs\<close>

text \<open>
  The structure \<^verbatim>\<open>registers_t\<close> at \<open>p\<close>. Its last two fields exist only for an interrupt from ring 3;
  no handler looks at them. The one field a handler assigns to is EAX.
\<close>

definition regs_of :: "u32 list \<Rightarrow> registers" where
  "regs_of ws = \<lparr>r_ds = ws ! 0, r_edi = ws ! 1, r_esi = ws ! 2, r_ebp = ws ! 3, r_esp = ws ! 4,
     r_ebx = ws ! 5, r_edx = ws ! 6, r_ecx = ws ! 7, r_eax = ws ! 8, r_int_no = ws ! 9, r_err_code = ws ! 10,
     r_eip = ws ! 11, r_cs = ws ! 12, r_eflags = ws ! 13, r_useresp = ws ! 14, r_ss = ws ! 15\<rparr>"

definition load_frame :: "u32 \<Rightarrow> 'a kern_scheme \<Rightarrow> (registers, 'a kern_scheme) outcome" where
  "load_frame p s =
     obind (loads p 14 s) (\<lambda>ws s.
       if ws ! 12 AND 3 = 0 then Ret (regs_of (ws @ [0, 0])) s
       else obind (loads (p + 56) 2 s) (\<lambda>us s. Ret (regs_of (ws @ us)) s))"

definition store_frame :: "u32 \<Rightarrow> registers \<Rightarrow> 'a kern_scheme \<Rightarrow> (unit, 'a kern_scheme) outcome" where
  "store_frame p r = store32 (p + 32) (r_eax r)"

text \<open>From the return of the dispatcher on: the pointer argument, the segments, \<^verbatim>\<open>popa\<close>, two words, \<^verbatim>\<open>iret\<close>.\<close>

definition stub_exit :: "'a kern_scheme \<Rightarrow> (cpu, 'a kern_scheme) outcome" where
  "stub_exit s =
     (let s = s\<lparr>reg_esp := reg_esp s + 4\<rparr> in
      obind (pop s) (\<lambda>eax s.
      let s = set_data_segments (ucast eax) s in
      obind (pops 8 s) (\<lambda>ws s.
      let s = s\<lparr>reg_edi := ws ! 0, reg_esi := ws ! 1, reg_ebp := ws ! 2, reg_ebx := ws ! 4,
                reg_esp := reg_esp s + 8\<rparr>
      in iret (ws ! 7) (ws ! 6) (ws ! 5) s)))"

text \<open>
  Behind the call: a dispatcher that returned has left EAX in the frame at \<open>p\<close>, its \<^verbatim>\<open>ret\<close> takes the return address.
\<close>

definition after_call :: "u32 \<Rightarrow> handled \<Rightarrow> 'a kern_scheme \<Rightarrow> (landed, 'a kern_scheme) outcome" where
  "after_call p h s =
     (case h of
        Switched a \<Rightarrow> Ret (Elsewhere a) s
      | Iret r \<Rightarrow>
          obind (store_frame p r s) (\<lambda>_ s.
          obind (pop s) (\<lambda>_ s.
          obind (stub_exit s) (\<lambda>c s. Ret (Resumed c) s))))"

definition common_stub ::
  "(registers \<Rightarrow> 'a kern_scheme \<Rightarrow> (handled, 'a kern_scheme) outcome) \<Rightarrow> u32 \<Rightarrow> cpu \<Rightarrow> 'a kern_scheme \<Rightarrow>
   (landed, 'a kern_scheme) outcome" where
  "common_stub dispatch ret c s =
     obind (pushes [c_eax c, c_ecx c, c_edx c, reg_ebx s, reg_esp s, reg_ebp s, reg_esi s, reg_edi s] s) (\<lambda>_ s.
     obind (push ((c_eax c AND 0xFFFF0000) OR ucast (seg_data (gdt_st s))) s) (\<lambda>_ s.
     let s = set_data_segments 0x10 s; p = reg_esp s in
     obind (push p s) (\<lambda>_ s.
     obind (push ret s) (\<lambda>_ s.
     obind (load_frame p s) (\<lambda>regs s.
     obind (dispatch regs s) (after_call p))))))"

definition isr_common_stub :: "stub_image \<Rightarrow> cpu \<Rightarrow> 'a kern_scheme \<Rightarrow> (landed, 'a kern_scheme) outcome" where
  "isr_common_stub im = common_stub (isr_dispatch call_handler) (si_isr_ret im)"

definition irq_common_stub :: "stub_image \<Rightarrow> cpu \<Rightarrow> 'a kern_scheme \<Rightarrow> (landed, 'a kern_scheme) outcome" where
  "irq_common_stub im = common_stub (irq_dispatch call_handler) (si_irq_ret im)"

subsection \<open>The stubs of the vectors\<close>

datatype stub = Isr nat | Irq nat

text \<open>The vectors whose stub is an \<^verbatim>\<open>ISR_ERR\<close>; all the others push a 0 in place of the error code.\<close>

definition isr_err :: "nat list" where
  "isr_err = [8, 10, 11, 12, 13, 14, 17, 30]"

fun stub_words :: "stub \<Rightarrow> u32 list" where
  "stub_words (Isr n) = (if n \<in> set isr_err then [of_nat n] else [0, of_nat n])"
| "stub_words (Irq n) = [0, 32 + of_nat n]"

fun run_stub :: "stub_image \<Rightarrow> stub \<Rightarrow> cpu \<Rightarrow> 'a kern_scheme \<Rightarrow> (landed, 'a kern_scheme) outcome" where
  "run_stub im (Isr n) c s = obind (pushes (stub_words (Isr n)) (cli s)) (\<lambda>_. isr_common_stub im c)"
| "run_stub im (Irq n) c s = obind (pushes (stub_words (Irq n)) (cli s)) (\<lambda>_. irq_common_stub im c)"

definition stubs :: "stub list" where
  "stubs = map Isr ([0..<32] @ [128]) @ map Irq [0..<16]"

fun stub_addr :: "stub_image \<Rightarrow> stub \<Rightarrow> u32" where
  "stub_addr im (Isr n) = si_isr im n"
| "stub_addr im (Irq n) = si_irq im n"

text \<open>The code a gate leads to. An address that is no stub is outside of the program.\<close>

definition stub_at :: "stub_image \<Rightarrow> u32 \<Rightarrow> stub option" where
  "stub_at im a = List.find (\<lambda>st. stub_addr im st = a) stubs"

text \<open>Vector \<open>v\<close> is raised; a gate that cannot be used stops the processor.\<close>

definition deliver :: "stub_image \<Rightarrow> nat \<Rightarrow> u32 option \<Rightarrow> cpu \<Rightarrow> 'a kern_scheme \<Rightarrow> (landed, 'a kern_scheme) outcome" where
  "deliver im v err c s =
     (let e = idt (idt_st s) ! v in
      case stub_at im (gate_offset e) of
        None \<Rightarrow> Hang s
      | Some st \<Rightarrow> if gate_present e then obind (enter_gate e err c s) (\<lambda>_. run_stub im st c) else Hang s)"

text \<open>
  The instruction \<^verbatim>\<open>int n\<close>, two bytes long. A gate that is none, or whose privilege level is below that of
  the code, raises the general protection exception at the instruction, with the vector in the
  error code.
\<close>

definition int_instruction :: "stub_image \<Rightarrow> nat \<Rightarrow> cpu \<Rightarrow> 'a kern_scheme \<Rightarrow> (landed, 'a kern_scheme) outcome" where
  "int_instruction im n c s =
     (let e = idt (idt_st s) ! n in
      if interrupt_gate e \<and> ucast (ring s) \<le> gate_dpl e then deliver im n None (c\<lparr>c_eip := c_eip c + 2\<rparr>) s
      else deliver im 13 (Some (of_nat (8 * n + 2))) c s)"

subsection \<open>A stack page and its entries\<close>

text \<open>A RAM page that holds no page table: a push to it does not disturb the translation.\<close>

definition kstack :: "'a sys_scheme \<Rightarrow> u32 \<Rightarrow> bool" where
  "kstack s g \<longleftrightarrow> vm_ok s \<and> frame_aligned g \<and> unat g + 4096 \<le> ram_top s \<and>
     \<not> walk_frame (mem s) (current_page_directory s) g"

lemma kstack_cong:
  assumes "mem t = mem s" "cr0 t = cr0 s" "cr3 t = cr3 s" "tlb t = tlb s" "pmm_st t = pmm_st s"
    "current_page_directory t = current_page_directory s"
  shows "kstack t g = kstack s g"
  using vm_ok_cong [OF assms] assms by (simp add: kstack_def)

lemma kstack_updates [simp]:
  "kstack (s\<lparr>gdt_st := x\<rparr>) g = kstack s g" "kstack (s\<lparr>iflag := b\<rparr>) g = kstack s g" "kstack (k\<lparr>reg_esp := v\<rparr>) g = kstack k g"
  "kstack (k\<lparr>reg_ebp := v\<rparr>) g = kstack k g" "kstack (k\<lparr>reg_ebx := v\<rparr>) g = kstack k g" "kstack (k\<lparr>reg_esi := v\<rparr>) g = kstack k g"
  "kstack (k\<lparr>reg_edi := v\<rparr>) g = kstack k g" "kstack (s\<lparr>cr2 := a\<rparr>) g = kstack s g" "kstack (cli s) g = kstack s g"
  "kstack (set_data_segments sel s) g = kstack s g"
  by (rule kstack_cong; simp add: cli_def set_data_segments_def)+

lemma unat_index: "n \<le> 1024 \<Longrightarrow> unat (of_nat n :: u32) = n"
  by (simp add: unat_of_nat take_bit_eq_mod)

lemma kstack_write:
  assumes "kstack s g" "\<And>a. \<not> in_frame g a \<Longrightarrow> m a = mem s a"
  shows "kstack (s\<lparr>mem := m\<rparr>) g"
proof -
  have k: "vm_ok s" "\<not> walk_frame (mem s) (current_page_directory s) g" using assms(1) by (simp_all add: kstack_def)
  have "vm_ok (s\<lparr>mem := m\<rparr>)" "walk_frame m (current_page_directory s) g = walk_frame (mem s) (current_page_directory s) g"
    using data_write(2,3) [OF k assms(2)] by simp_all
  then show ?thesis using assms(1) by (simp add: kstack_def)
qed

lemma kstack_store:
  assumes "kstack s g" "i < 1024"
  shows "store32 (g + 4 * of_nat i) v s = Ret () (s\<lparr>mem := wr32 (g + 4 * of_nat i) v (mem s)\<rparr>)"
    "kstack (s\<lparr>mem := wr32 (g + 4 * of_nat i) v (mem s)\<rparr>) g"
  using assms frame_store32 [of s g "of_nat i" v] by (simp_all add: kstack_def unat_index)

lemma kstack_load:
  "kstack s g \<Longrightarrow> i < 1024 \<Longrightarrow> load32 (g + 4 * of_nat i) s = Ret (rd32 (mem s) (g + 4 * of_nat i)) s"
  using frame_load32 [of s g "of_nat i"] by (simp add: kstack_def unat_index)

text \<open>\<open>entries m g i ws\<close>: the words \<open>ws\<close> from entry \<open>i\<close> of the page \<open>g\<close> on.\<close>

definition entries :: "memory \<Rightarrow> u32 \<Rightarrow> nat \<Rightarrow> u32 list \<Rightarrow> bool" where
  "entries m g i ws \<longleftrightarrow> (\<forall>k < length ws. rd32 m (g + 4 * of_nat (i + k)) = ws ! k)"

lemma entries_Nil [simp]: "entries m g i []"
  by (simp add: entries_def)

lemma entries_Cons [simp]:
  "entries m g i (w # ws) \<longleftrightarrow> rd32 m (g + 4 * of_nat i) = w \<and> entries m g (Suc i) ws"
proof -
  have "entries m g i (w # ws) \<longleftrightarrow> (\<forall>k < Suc (length ws). rd32 m (g + 4 * of_nat (i + k)) = (w # ws) ! k)"
    by (simp add: entries_def)
  also have "\<dots> \<longleftrightarrow> rd32 m (g + 4 * of_nat i) = w \<and> (\<forall>k < length ws. rd32 m (g + 4 * of_nat (Suc i + k)) = ws ! k)"
    unfolding All_less_Suc2 by simp
  finally show ?thesis by (simp add: entries_def)
qed

lemma entries_append [simp]:
  "entries m g i (ws @ us) \<longleftrightarrow> entries m g i ws \<and> entries m g (i + length ws) us"
  by (induction ws arbitrary: i) auto

lemma entries_nth: "entries m g i ws \<Longrightarrow> k < length ws \<Longrightarrow> rd32 m (g + 4 * of_nat (i + k)) = ws ! k"
  by (simp add: entries_def)

lemma entries_cong:
  assumes "frame_aligned g" "i + length ws \<le> 1024" "\<And>a. in_frame g a \<Longrightarrow> unat g + 4 * i \<le> unat a \<Longrightarrow> m' a = m a"
  shows "entries m' g i ws = entries m g i ws"
proof -
  have "rd32 m' (g + 4 * of_nat (i + k)) = rd32 m (g + 4 * of_nat (i + k))" if k: "k < length ws" for k
  proof (rule rd32_cong)
    fix l :: nat assume l: "l < 4"
    have n: "i + k < 1024" using k assms(2) by simp
    then have u: "unat (of_nat (i + k) :: u32) = i + k" by (intro unat_index) simp
    show "m' (g + 4 * of_nat (i + k) + of_nat l) = m (g + 4 * of_nat (i + k) + of_nat l)"
    proof (rule assms(3))
      show "in_frame g (g + 4 * of_nat (i + k) + of_nat l)" using assms(1) n u l by (intro in_frame_entry) simp_all
      show "unat g + 4 * i \<le> unat (g + 4 * of_nat (i + k) + of_nat l)"
        using unat_entry_byte [OF assms(1), of "of_nat (i + k)" l] n u l by simp
    qed
  qed
  then show ?thesis by (simp add: entries_def)
qed

subsection \<open>Pushing and popping\<close>

text \<open>The memory after \<open>vs\<close> have been pushed from entry \<open>j\<close> on.\<close>

fun poke :: "u32 \<Rightarrow> nat \<Rightarrow> u32 list \<Rightarrow> memory \<Rightarrow> memory" where
  "poke g j [] m = m"
| "poke g j (v # vs) m = poke g (j - 1) vs (wr32 (g + 4 * of_nat (j - 1)) v m)"

lemma poke_append: "poke g j (vs @ us) m = poke g (j - length vs) us (poke g j vs m)"
  by (induction vs arbitrary: j m) simp_all

lemma wr32_index_outside:
  assumes "frame_aligned g" "i < 1024" "\<not> (unat g + 4 * i \<le> unat a \<and> unat a < unat g + 4 * i + 4)"
  shows "wr32 (g + 4 * of_nat i) v m a = m a"
proof (rule wr32_outside)
  fix k :: nat assume k: "k < 4"
  have "unat (g + 4 * of_nat i + of_nat k) = unat g + 4 * i + k"
    using unat_entry_byte [OF assms(1), of "of_nat i" k] assms(2) k by (simp add: unat_index)
  then show "a \<noteq> g + 4 * of_nat i + of_nat k" using assms(3) k by auto
qed

lemma poke_outside:
  assumes "frame_aligned g" "length vs \<le> j" "j \<le> 1024" "\<not> (unat g + 4 * (j - length vs) \<le> unat a \<and> unat a < unat g + 4 * j)"
  shows "poke g j vs m a = m a"
  using assms(2-4)
proof (induction vs arbitrary: j m)
  case (Cons v vs)
  then obtain i where j: "j = Suc i" by (cases j) auto
  have "wr32 (g + 4 * of_nat i) v m a = m a"
    using Cons.prems j by (intro wr32_index_outside [OF assms(1)]) auto
  then show ?case using Cons j by auto
qed simp

lemma poke_page:
  assumes "frame_aligned g" "length vs \<le> j" "j \<le> 1024" "\<not> in_frame g a"
  shows "poke g j vs m a = m a"
  using assms by (intro poke_outside) (auto simp: in_frame_iff)

lemma poke_entries:
  assumes "frame_aligned g" "length vs \<le> j" "j \<le> 1024"
  shows "entries (poke g j vs m) g (j - length vs) (rev vs)"
  using assms(2,3)
proof (induction vs arbitrary: j m)
  case (Cons v vs)
  then obtain i where j: "j = Suc i" by (cases j) auto
  have i: "length vs \<le> i" "i < 1024" using Cons.prems j by simp_all
  have "entries (poke g i vs (wr32 (g + 4 * of_nat i) v m)) g i [v] = entries (wr32 (g + 4 * of_nat i) v m) g i [v]"
    using i by (intro entries_cong [OF assms(1)] poke_outside [OF assms(1)]) auto
  then have "rd32 (poke g i vs (wr32 (g + 4 * of_nat i) v m)) (g + 4 * of_nat i) = v" by simp
  then show ?case using Cons.IH [of i] i j by simp
qed simp

lemma poke_above:
  assumes "frame_aligned g" "length vs \<le> j" "j + length ws \<le> 1024" "entries m g j ws"
  shows "entries (poke g j vs m) g j ws"
proof -
  have "entries (poke g j vs m) g j ws = entries m g j ws"
    using assms by (intro entries_cong poke_outside) auto
  then show ?thesis using assms(4) by simp
qed

lemma kstack_poke: "kstack s g \<Longrightarrow> length vs \<le> j \<Longrightarrow> j \<le> 1024 \<Longrightarrow> kstack (s\<lparr>mem := poke g j vs (mem s)\<rparr>) g"
  by (rule kstack_write) (auto simp: kstack_def poke_page)

lemma push_at:
  assumes "kstack s g" "reg_esp s = g + 4 * of_nat (Suc i)" "i < 1024"
  shows "push v s = Ret () (s\<lparr>mem := wr32 (g + 4 * of_nat i) v (mem s), reg_esp := g + 4 * of_nat i\<rparr>)"
  using kstack_store(1) [OF assms(1,3)] by (simp add: push_def assms(2))

lemma pushes_at:
  assumes "kstack s g" "reg_esp s = g + 4 * of_nat j" "length vs \<le> j" "j \<le> 1024"
  shows "pushes vs s = Ret () (s\<lparr>mem := poke g j vs (mem s), reg_esp := g + 4 * of_nat (j - length vs)\<rparr>)"
  using assms
proof (induction vs arbitrary: s j)
  case (Cons v vs)
  then obtain i where j: "j = Suc i" by (cases j) auto
  let ?t = "s\<lparr>mem := wr32 (g + 4 * of_nat i) v (mem s), reg_esp := g + 4 * of_nat i\<rparr>"
  have "push v s = Ret () ?t" using Cons.prems j by (intro push_at) simp_all
  moreover have "kstack ?t g" using kstack_store(2) [OF Cons.prems(1), of i v] Cons.prems(4) j by simp
  ultimately show ?case using Cons.IH [of ?t i] Cons.prems j by simp
qed simp

lemma push_pushes: "push v s = pushes [v] s"
  by (cases "push v s") simp_all

lemma pushes_append:
  fixes s :: "'a kern_scheme"
  shows "pushes (vs @ us) s = obind (pushes vs s) (\<lambda>_. pushes us)"
proof (induction vs arbitrary: s)
  case (Cons v vs)
  then have "pushes (vs @ us) = (\<lambda>s :: 'a kern_scheme. obind (pushes vs s) (\<lambda>_. pushes us))" by (intro ext)
  then show ?case by (simp add: obind_assoc)
qed simp

lemma pop_at:
  assumes "kstack s g" "reg_esp s = g + 4 * of_nat i" "i < 1024"
  shows "pop s = Ret (rd32 (mem s) (g + 4 * of_nat i)) (s\<lparr>reg_esp := g + 4 * of_nat (Suc i)\<rparr>)"
  using kstack_load [OF assms(1,3)] by (simp add: pop_def assms(2) algebra_simps)

lemma pops_at:
  assumes "kstack s g" "reg_esp s = g + 4 * of_nat i" "entries (mem s) g i ws" "i + n \<le> 1024" "length ws = n"
  shows "pops n s = Ret ws (s\<lparr>reg_esp := g + 4 * of_nat (i + n)\<rparr>)"
  using assms(1-4) unfolding assms(5) [symmetric]
proof (induction ws arbitrary: s i)
  case (Cons w ws)
  let ?t = "s\<lparr>reg_esp := g + 4 * of_nat (Suc i)\<rparr>"
  have "pop s = Ret w ?t" using Cons.prems pop_at [of s g i] by simp
  moreover have "pops (length ws) ?t = Ret ws (?t\<lparr>reg_esp := g + 4 * of_nat (Suc i + length ws)\<rparr>)"
    using Cons.prems by (intro Cons.IH) simp_all
  ultimately show ?case by simp
qed simp

lemma loads_at:
  assumes "kstack s g" "entries (mem s) g i ws" "i + n \<le> 1024" "length ws = n"
  shows "loads (g + 4 * of_nat i) n s = Ret ws s"
  using assms(2,3) unfolding assms(4) [symmetric]
proof (induction ws arbitrary: i)
  case (Cons w ws)
  have "load32 (g + 4 * of_nat i) s = Ret w s" using Cons.prems kstack_load [OF assms(1), of i] by simp
  moreover have "loads (g + 4 * of_nat i + 4) (length ws) s = Ret ws s"
    using Cons.IH [of "Suc i"] Cons.prems by (simp add: algebra_simps)
  ultimately show ?case by simp
qed simp

subsection \<open>The register frame\<close>

definition frame_words :: "registers \<Rightarrow> u32 list" where
  "frame_words r = [r_ds r, r_edi r, r_esi r, r_ebp r, r_esp r, r_ebx r, r_edx r, r_ecx r, r_eax r, r_int_no r,
     r_err_code r, r_eip r, r_cs r, r_eflags r] @ (if r_cs r AND 3 = 0 then [] else [r_useresp r, r_ss r])"

lemma cs_ring [simp]: "(ucast (w :: u32) :: u16) AND 3 = 0 \<longleftrightarrow> w AND 3 = 0" "(ucast (v :: u16) :: u32) AND 3 = 0 \<longleftrightarrow> v AND 3 = 0"
proof -
  have m: "(3 :: u32) = mask 2" "(3 :: u16) = mask 2" by (simp_all add: mask_eq_exp_minus_1)
  have "(ucast w :: u16) AND 3 = ucast (w AND 3)" "(ucast v :: u32) AND 3 = ucast (v AND 3)"
    "w AND 3 = ucast (ucast (w AND 3) :: u16)" "v AND 3 = ucast (ucast (v AND 3) :: u32)"
    unfolding m by (auto intro!: bit_word_eqI simp: bit_simps)
  then show "(ucast w :: u16) AND 3 = 0 \<longleftrightarrow> w AND 3 = 0" "(ucast v :: u32) AND 3 = 0 \<longleftrightarrow> v AND 3 = 0"
    by (metis unsigned_0)+
qed

lemma ds_word [simp]: "ucast ((a AND 0xFFFF0000) OR ucast (d :: u16) :: u32) = d"
proof (rule bit_word_eqI)
  have m: "(0xFFFF0000 :: u32) = push_bit 16 (mask 16)" by (simp add: mask_eq_exp_minus_1 push_bit_eq_mult)
  fix n assume "n < LENGTH(16)"
  then show "bit (ucast ((a AND 0xFFFF0000) OR ucast d :: u32) :: u16) n = bit d n"
    unfolding m by (simp add: bit_simps)
qed

lemma selector_word [simp]: "ucast (ucast (v :: u16) :: u32) = v"
  by (rule bit_word_eqI) (simp add: bit_simps)

lemma load_frame_at:
  assumes "kstack s g" "entries (mem s) g i (frame_words r)" "i + length (frame_words r) \<le> 1024"
    "r_cs r AND 3 = 0 \<Longrightarrow> r_useresp r = 0 \<and> r_ss r = 0"
  shows "load_frame (g + 4 * of_nat i) s = Ret r s"
proof -
  let ?ws = "[r_ds r, r_edi r, r_esi r, r_ebp r, r_esp r, r_ebx r, r_edx r, r_ecx r, r_eax r, r_int_no r,
     r_err_code r, r_eip r, r_cs r, r_eflags r]"
  have l: "loads (g + 4 * of_nat i) 14 s = Ret ?ws s"
    by (rule loads_at [OF assms(1)]) (use assms(2,3) in \<open>simp_all add: frame_words_def\<close>)
  show ?thesis
  proof (cases "r_cs r AND 3 = 0")
    case True
    then show ?thesis using l assms(4) by (simp add: load_frame_def regs_of_def)
  next
    case False
    have "loads (g + 4 * of_nat (i + 14)) 2 s = Ret [r_useresp r, r_ss r] s"
      by (rule loads_at [OF assms(1)]) (use False assms(2,3) in \<open>simp_all add: frame_words_def ac_simps\<close>)
    moreover have "g + 4 * of_nat (i + 14) = g + 4 * of_nat i + 56" by (simp add: algebra_simps)
    ultimately have "loads (g + 4 * of_nat i + 56) 2 s = Ret [r_useresp r, r_ss r] s" by (simp only:)
    then show ?thesis using l False by (simp add: load_frame_def regs_of_def)
  qed
qed

text \<open>What \<open>stub_exit\<close> makes of a frame.\<close>

definition cpu_of :: "registers \<Rightarrow> cpu" where
  "cpu_of r = \<lparr>c_eax = r_eax r, c_ecx = r_ecx r, c_edx = r_edx r, c_eip = r_eip r, c_eflags = r_eflags r\<rparr>"

definition returned :: "registers \<Rightarrow> u32 \<Rightarrow> 'a kern_scheme \<Rightarrow> 'a kern_scheme" where
  "returned r esp s = s\<lparr>reg_edi := r_edi r, reg_esi := r_esi r, reg_ebp := r_ebp r, reg_ebx := r_ebx r,
     reg_esp := (if r_cs r AND 3 = 0 then esp else r_useresp r), iflag := bit (r_eflags r) 9,
     gdt_st := (gdt_st s)\<lparr>seg_data := ucast (r_ds r), seg_cs := ucast (r_cs r),
       seg_ss := (if r_cs r AND 3 = 0 then seg_ss (gdt_st s) else ucast (r_ss r))\<rparr>\<rparr>"

lemma stub_exit_at:
  assumes "kstack s g" "reg_esp s = g + 4 * of_nat i" "entries (mem s) g (Suc i) (frame_words r)"
    "Suc i + length (frame_words r) \<le> 1024"
  shows "stub_exit s = Ret (cpu_of r) (returned r (g + 4 * of_nat (i + 15)) s)"
proof -
  note e = assms(3,4) [unfolded frame_words_def]
  let ?s1 = "s\<lparr>reg_esp := g + 4 * of_nat (Suc i)\<rparr>"
  let ?s2 = "set_data_segments (ucast (r_ds r)) (s\<lparr>reg_esp := g + 4 * of_nat (i + 2)\<rparr>)"
  let ?ws = "[r_edi r, r_esi r, r_ebp r, r_esp r, r_ebx r, r_edx r, r_ecx r, r_eax r]"
  let ?s3 = "?s2\<lparr>reg_edi := r_edi r, reg_esi := r_esi r, reg_ebp := r_ebp r, reg_ebx := r_ebx r, reg_esp := g + 4 * of_nat (i + 12)\<rparr>"
  let ?s4 = "?s3\<lparr>reg_esp := g + 4 * of_nat (i + 15)\<rparr>"
  have p1: "pop ?s1 = Ret (r_ds r) (s\<lparr>reg_esp := g + 4 * of_nat (i + 2)\<rparr>)"
    using pop_at [of ?s1 g "Suc i"] assms(1) e by simp
  have p2: "pops 8 ?s2 = Ret ?ws (?s2\<lparr>reg_esp := g + 4 * of_nat (i + 2 + 8)\<rparr>)"
    by (rule pops_at) (use assms(1) e in \<open>simp_all add: set_data_segments_def ac_simps\<close>)
  have "pops 3 ?s3 = Ret [r_eip r, r_cs r, r_eflags r] (?s3\<lparr>reg_esp := g + 4 * of_nat (i + 12 + 3)\<rparr>)"
    by (rule pops_at) (use assms(1) e in \<open>simp_all add: set_data_segments_def ac_simps\<close>)
  then have p3: "pops 3 ?s3 = Ret [r_eip r, r_cs r, r_eflags r] ?s4" by simp
  let ?s5 = "?s4\<lparr>gdt_st := (gdt_st ?s4)\<lparr>seg_cs := ucast (r_cs r)\<rparr>, iflag := bit (r_eflags r) 9\<rparr>"
  have p4: "pops 2 ?s5 = Ret [r_useresp r, r_ss r] (?s5\<lparr>reg_esp := g + 4 * of_nat (i + 15 + 2)\<rparr>)" if "r_cs r AND 3 \<noteq> 0"
    by (rule pops_at) (use assms(1) e that in \<open>simp_all add: set_data_segments_def ac_simps\<close>)
  have add: "g + 4 * of_nat i + 4 = g + 4 * of_nat (Suc i)" "g + 4 * of_nat (i + 2 + 8) + 8 = g + 4 * of_nat (i + 12)"
    by (simp_all add: algebra_simps)
  have "stub_exit s = iret (r_eax r) (r_ecx r) (r_edx r) ?s3"
    unfolding stub_exit_def assms(2) Let_def add(1) p1 obind.simps p2 by (simp add: ac_simps)
  also have "\<dots> = (if r_cs r AND 3 = 0 then Ret (cpu_of r) ?s5
      else Ret (cpu_of r) (?s5\<lparr>reg_esp := r_useresp r, gdt_st := (gdt_st ?s5)\<lparr>seg_ss := ucast (r_ss r)\<rparr>\<rparr>))"
    unfolding iret_def p3 obind.simps using p4 by (simp add: Let_def ring_def cpu_of_def)
  also have "\<dots> = Ret (cpu_of r) (returned r (g + 4 * of_nat (i + 15)) s)"
    by (cases s, cases "gdt_st s") (simp add: returned_def set_data_segments_def)
  finally show ?thesis .
qed

subsection \<open>Entering the kernel\<close>

text \<open>The table is the one of \<^verbatim>\<open>idt_init\<close>, with the addresses of the stubs.\<close>

definition stubs_installed :: "stub_image \<Rightarrow> 'a sys_scheme \<Rightarrow> bool" where
  "stubs_installed im s \<longleftrightarrow> distinct (map (stub_addr im) stubs) \<and>
     (\<exists>a p i. idt (idt_st s) = idt (idt_init (si_isr im) (si_irq im) a p i))"

definition stub_of :: "nat \<Rightarrow> stub" where
  "stub_of v = (if v < 32 \<or> v = 128 then Isr v else Irq (v - 32))"

fun stub_dispatch :: "stub \<Rightarrow> registers \<Rightarrow> 'a kern_scheme \<Rightarrow> (handled, 'a kern_scheme) outcome" where
  "stub_dispatch (Isr n) = isr_dispatch call_handler"
| "stub_dispatch (Irq n) = irq_dispatch call_handler"

fun stub_ret :: "stub_image \<Rightarrow> stub \<Rightarrow> u32" where
  "stub_ret im (Isr n) = si_isr_ret im"
| "stub_ret im (Irq n) = si_irq_ret im"

lemma find_distinct: "distinct (map f xs) \<Longrightarrow> x \<in> set xs \<Longrightarrow> List.find (\<lambda>y. f y = f x) xs = Some x"
  by (induction xs) auto

lemma stub_of_in: "v < 48 \<or> v = 128 \<Longrightarrow> stub_of v \<in> set stubs"
  by (auto simp: stub_of_def stubs_def)

lemma installed_gate:
  assumes "stubs_installed im s" "v < 256"
  shows "idt (idt_st s) ! v = (if v < 48 then gate (stub_addr im (stub_of v)) 0x8E
      else if v = 128 then gate (stub_addr im (stub_of v)) 0xEE else idt_zero)"
    "v < 48 \<or> v = 128 \<Longrightarrow> stub_at im (stub_addr im (stub_of v)) = Some (stub_of v)"
proof -
  obtain a p i where "idt (idt_st s) = idt (idt_init (si_isr im) (si_irq im) a p i)"
    using assms(1) by (auto simp: stubs_installed_def)
  then show "idt (idt_st s) ! v = (if v < 48 then gate (stub_addr im (stub_of v)) 0x8E
      else if v = 128 then gate (stub_addr im (stub_of v)) 0xEE else idt_zero)"
    using idt_init_nth(1) [OF assms(2)] by (simp add: stub_of_def)
  show "stub_at im (stub_addr im (stub_of v)) = Some (stub_of v)" if "v < 48 \<or> v = 128"
    unfolding stub_at_def using assms(1) stub_of_in [OF that] by (intro find_distinct) (simp add: stubs_installed_def)
qed

text \<open>The stack pointer the processor uses, and the frame the stub of vector \<open>v\<close> builds there.\<close>

definition entry_esp :: "'a kern_scheme \<Rightarrow> u32" where
  "entry_esp s = (if ring s = 0 then reg_esp s else esp0 (tss (gdt_st s)))"

definition trap_frame :: "nat \<Rightarrow> u32 \<Rightarrow> cpu \<Rightarrow> 'a kern_scheme \<Rightarrow> registers" where
  "trap_frame v err c s =
     \<lparr>r_ds = (c_eax c AND 0xFFFF0000) OR ucast (seg_data (gdt_st s)), r_edi = reg_edi s, r_esi = reg_esi s, r_ebp = reg_ebp s,
      r_esp = entry_esp s - (if ring s = 0 then 20 else 28), r_ebx = reg_ebx s, r_edx = c_edx c, r_ecx = c_ecx c,
      r_eax = c_eax c, r_int_no = of_nat v, r_err_code = err, r_eip = c_eip c, r_cs = ucast (seg_cs (gdt_st s)),
      r_eflags = c_eflags c, r_useresp = (if ring s = 0 then 0 else reg_esp s),
      r_ss = (if ring s = 0 then 0 else ucast (seg_ss (gdt_st s)))\<rparr>"

definition kernel_segments :: "'a sys_scheme \<Rightarrow> gdt_state" where
  "kernel_segments s = (gdt_st s)\<lparr>seg_cs := 8, seg_data := 0x10,
     seg_ss := (if ring s = 0 then seg_ss (gdt_st s) else ucast (ss0 (tss (gdt_st s))))\<rparr>"

text \<open>The state in which the dispatcher is called with the frame \<open>r\<close> below entry \<open>j\<close> of the stack page \<open>g\<close>.\<close>

definition entered :: "u32 \<Rightarrow> registers \<Rightarrow> u32 \<Rightarrow> nat \<Rightarrow> 'a kern_scheme \<Rightarrow> 'a kern_scheme" where
  "entered ret r g j s =
     (let n = length (frame_words r)
      in s\<lparr>mem := poke g j (rev (frame_words r) @ [g + 4 * of_nat (j - n), ret]) (mem s),
           reg_esp := g + 4 * of_nat (j - n - 2), iflag := False, gdt_st := kernel_segments s\<rparr>)"

lemma enter_gate_eq:
  assumes "interrupt_gate e" "ie_selector e = 8"
  shows "enter_gate e err c s = pushes ((if ring s = 0 then [] else [ucast (seg_ss (gdt_st s)), reg_esp s]) @
      [c_eflags c, ucast (seg_cs (gdt_st s)), c_eip c] @ (case err of None \<Rightarrow> [] | Some x \<Rightarrow> [x]))
    (s\<lparr>reg_esp := entry_esp s, iflag := False, gdt_st := (kernel_segments s)\<lparr>seg_data := seg_data (gdt_st s)\<rparr>\<rparr>)"
proof -
  let ?t = "if ring s = 0 then s else s\<lparr>reg_esp := esp0 (tss (gdt_st s)), gdt_st := (gdt_st s)\<lparr>seg_ss := ucast (ss0 (tss (gdt_st s)))\<rparr>\<rparr>"
  have "?t\<lparr>gdt_st := (gdt_st ?t)\<lparr>seg_cs := ie_selector e\<rparr>, iflag := iflag ?t \<and> \<not> interrupt_gate e\<rparr> =
      s\<lparr>reg_esp := entry_esp s, iflag := False, gdt_st := (kernel_segments s)\<lparr>seg_data := seg_data (gdt_st s)\<rparr>\<rparr>"
    using assms by (cases s, cases "gdt_st s") (simp add: entry_esp_def kernel_segments_def)
  then show ?thesis unfolding enter_gate_def Let_def by (simp only:)
qed

lemma push_one:
  assumes "kstack s g" "reg_esp s = g + 4 * of_nat j" "1 \<le> j" "j \<le> 1024"
  shows "push v s = Ret () (s\<lparr>mem := poke g j [v] (mem s), reg_esp := g + 4 * of_nat (j - 1)\<rparr>)"
  using pushes_at [OF assms(1,2), of "[v]"] assms(3,4) unfolding push_pushes by simp

lemma common_stub_at:
  fixes s :: "'a kern_scheme" and c :: cpu and ret :: u32
  assumes k: "kstack s g" "reg_esp s = g + 4 * of_nat j" "11 \<le> j" "j \<le> 1024"
  defines "ws \<equiv> [c_eax c, c_ecx c, c_edx c, reg_ebx s, reg_esp s, reg_ebp s, reg_esi s, reg_edi s] @
     [(c_eax c AND 0xFFFF0000) OR ucast (seg_data (gdt_st s))]"
  defines "p \<equiv> g + 4 * of_nat (j - 9)"
  defines "t \<equiv> s\<lparr>mem := poke g j (ws @ [p, ret]) (mem s), reg_esp := g + 4 * of_nat (j - 11),
     gdt_st := (gdt_st s)\<lparr>seg_data := 0x10\<rparr>\<rparr>"
  shows "common_stub dispatch ret c s = obind (load_frame p t) (\<lambda>regs s. obind (dispatch regs s) (after_call p))" "kstack t g"
proof -
  define rs where "rs = [c_eax c, c_ecx c, c_edx c, reg_ebx s, reg_esp s, reg_ebp s, reg_esi s, reg_edi s]"
  define d where "d = (c_eax c AND 0xFFFF0000) OR ucast (seg_data (gdt_st s))"
  have len: "length rs = 8" and ws: "ws = rs @ [d]" by (simp_all add: rs_def ws_def d_def)
  let ?m = "\<lambda>vs. poke g j vs (mem s)" and ?e = "\<lambda>i. g + 4 * of_nat (j - i)" and ?g = "(gdt_st s)\<lparr>seg_data := 0x10\<rparr>"
  have ks: "kstack (s\<lparr>mem := ?m vs\<rparr>) g" if "length vs \<le> 11" for vs
    using that k(3,4) by (intro kstack_poke [OF k(1)]) simp_all
  have p1: "pushes rs s = Ret () (s\<lparr>mem := ?m rs, reg_esp := ?e 8\<rparr>)"
    using pushes_at [OF k(1,2), of rs] k(3,4) len by simp
  have p2: "push d (s\<lparr>mem := ?m rs, reg_esp := ?e 8\<rparr>) = Ret () (s\<lparr>mem := ?m ws, reg_esp := p\<rparr>)"
    using push_one [of "s\<lparr>mem := ?m rs, reg_esp := ?e 8\<rparr>" g "j - 8" d] ks [of rs] k(3,4) len
    by (simp add: ws poke_append p_def)
  have p3: "push p (s\<lparr>mem := ?m ws, reg_esp := p, gdt_st := ?g\<rparr>) = Ret () (s\<lparr>mem := ?m (ws @ [p]), reg_esp := ?e 10, gdt_st := ?g\<rparr>)"
    using push_one [of "s\<lparr>mem := ?m ws, reg_esp := p, gdt_st := ?g\<rparr>" g "j - 9" p] ks [of ws] k(3,4) len
    by (simp add: ws poke_append p_def)
  have p4: "push ret (s\<lparr>mem := ?m (ws @ [p]), reg_esp := ?e 10, gdt_st := ?g\<rparr>) = Ret () t"
    using push_one [of "s\<lparr>mem := ?m (ws @ [p]), reg_esp := ?e 10, gdt_st := ?g\<rparr>" g "j - 10" ret] ks [of "ws @ [p]"] k(3,4) len
    by (simp add: ws poke_append t_def)
  show "common_stub dispatch ret c s = obind (load_frame p t) (\<lambda>regs s. obind (dispatch regs s) (after_call p))"
    unfolding common_stub_def rs_def [symmetric] p1 obind.simps using p2 p3 p4 by (simp add: Let_def set_data_segments_def d_def)
  show "kstack t g" using ks [of "ws @ [p, ret]"] by (simp add: t_def ws len)
qed

lemma entered_frame:
  assumes "frame_aligned g" "length (frame_words r) + 2 \<le> j" "j \<le> 1024"
  shows "entries (mem (entered ret r g j s)) g (j - length (frame_words r) - 2)
      ([ret, g + 4 * of_nat (j - length (frame_words r))] @ frame_words r)"
    "\<And>a. \<not> (in_frame g a \<and> unat a < unat g + 4 * j) \<Longrightarrow> mem (entered ret r g j s) a = mem s a"
proof -
  let ?n = "length (frame_words r)"
  have ln: "length (rev (frame_words r) @ [g + 4 * of_nat (j - ?n), ret]) \<le> j" using assms(2) by simp
  have "entries (mem (entered ret r g j s)) g (j - (?n + 2)) (rev (rev (frame_words r) @ [g + 4 * of_nat (j - ?n), ret]))"
    using poke_entries [OF assms(1) ln assms(3), of "mem s"] by (simp add: entered_def Let_def)
  then show "entries (mem (entered ret r g j s)) g (j - ?n - 2) ([ret, g + 4 * of_nat (j - ?n)] @ frame_words r)"
    by simp
  show "mem (entered ret r g j s) a = mem s a" if "\<not> (in_frame g a \<and> unat a < unat g + 4 * j)" for a
    using poke_outside [OF assms(1) ln assms(3), of a] that assms(1,3) by (auto simp: entered_def Let_def in_frame_iff)
qed

text \<open>The error code the stub leaves in the frame, for a vector that is raised with \<open>err\<close>.\<close>

definition pushed_error :: "nat \<Rightarrow> u32 option \<Rightarrow> u32 \<Rightarrow> bool" where
  "pushed_error v err e \<longleftrightarrow> (case err of None \<Rightarrow> v \<notin> set isr_err \<and> e = 0 | Some x \<Rightarrow> v \<in> set isr_err \<and> e = x)"

lemma stub_words_of:
  assumes "v < 48 \<or> v = 128" "pushed_error v err e"
  shows "(case err of None \<Rightarrow> [] | Some x \<Rightarrow> [x]) @ stub_words (stub_of v) = [e, of_nat v]"
proof (cases "v < 32 \<or> v = 128")
  case True
  then show ?thesis using assms(2) by (auto simp: pushed_error_def stub_of_def split: option.splits)
next
  case False
  then have v: "32 \<le> v" "v < 48" using assms(1) by auto
  then have "v \<notin> set isr_err" by (auto simp: isr_err_def)
  then have "err = None" "e = 0" using assms(2) by (auto simp: pushed_error_def split: option.splits)
  moreover have "32 + of_nat (v - 32) = (of_nat v :: u32)" using v by (simp add: of_nat_diff)
  ultimately show ?thesis using False by (simp add: stub_of_def)
qed

lemma trap_frame_simps [simp]:
  "r_int_no (trap_frame v e c s) = of_nat v" "r_err_code (trap_frame v e c s) = e" "r_eax (trap_frame v e c s) = c_eax c"
  "r_ecx (trap_frame v e c s) = c_ecx c" "r_edx (trap_frame v e c s) = c_edx c" "r_ebx (trap_frame v e c s) = reg_ebx s"
  "r_eip (trap_frame v e c s) = c_eip c" "r_cs (trap_frame v e c s) = ucast (seg_cs (gdt_st s))"
  by (simp_all add: trap_frame_def)

lemma frame_words_length: "length (frame_words (trap_frame v e c s)) = (if ring s = 0 then 14 else 16)"
  by (simp add: frame_words_def ring_def)

lemma run_stub_eq:
  "run_stub im st c s = obind (pushes (stub_words st) (cli s)) (\<lambda>_. common_stub (stub_dispatch st) (stub_ret im st) c)"
  by (cases st) (simp_all add: isr_common_stub_def irq_common_stub_def)

text \<open>What the processor and the stub of vector \<open>v\<close> push, and the state in which the common stub is entered.\<close>

definition vector_words :: "nat \<Rightarrow> u32 \<Rightarrow> cpu \<Rightarrow> 'a kern_scheme \<Rightarrow> u32 list" where
  "vector_words v e c s = (if ring s = 0 then [] else [ucast (seg_ss (gdt_st s)), reg_esp s]) @
     [c_eflags c, ucast (seg_cs (gdt_st s)), c_eip c, e, of_nat v]"

lemma vector_words_length: "length (vector_words v e c s) = (if ring s = 0 then 5 else 7)"
  by (simp add: vector_words_def)

definition at_stub :: "nat \<Rightarrow> u32 \<Rightarrow> cpu \<Rightarrow> u32 \<Rightarrow> nat \<Rightarrow> 'a kern_scheme \<Rightarrow> 'a kern_scheme" where
  "at_stub v e c g j s = s\<lparr>iflag := False, gdt_st := (kernel_segments s)\<lparr>seg_data := seg_data (gdt_st s)\<rparr>,
     mem := poke g j (vector_words v e c s) (mem s), reg_esp := g + 4 * of_nat (j - length (vector_words v e c s))\<rparr>"

lemma deliver_to_stub:
  fixes s :: "'a kern_scheme"
  assumes im: "stubs_installed im s" "v < 48 \<or> v = 128" "pushed_error v err e"
    and k: "kstack s g" "entry_esp s = g + 4 * of_nat j" "18 \<le> j" "j \<le> 1024"
  shows "deliver im v err c s = common_stub (stub_dispatch (stub_of v)) (stub_ret im (stub_of v)) c (at_stub v e c g j s)"
    "kstack (at_stub v e c g j s) g"
proof -
  let ?st = "stub_of v" and ?ws = "vector_words v e c s" and ?e = "idt (idt_st s) ! v"
  define hw where "hw = (if ring s = 0 then [] else [ucast (seg_ss (gdt_st s)), reg_esp s]) @
    [c_eflags c, ucast (seg_cs (gdt_st s)), c_eip c] @ (case err of None \<Rightarrow> [] | Some x \<Rightarrow> [x])"
  define k1 where "k1 = s\<lparr>reg_esp := entry_esp s, iflag := False, gdt_st := (kernel_segments s)\<lparr>seg_data := seg_data (gdt_st s)\<rparr>\<rparr>"
  have w: "hw @ stub_words ?st = ?ws" using stub_words_of [OF im(2,3)] by (simp add: hw_def vector_words_def)
  have n: "length ?ws \<le> j" "length hw \<le> j" using k(3) arg_cong [OF w, of length] by (auto simp: vector_words_length split: if_splits)
  have k1: "kstack k1 g" "reg_esp k1 = g + 4 * of_nat j" "mem k1 = mem s" using k by (simp_all add: k1_def)
  have at: "at_stub v e c g j s = k1\<lparr>mem := poke g j ?ws (mem k1), reg_esp := g + 4 * of_nat (j - length ?ws)\<rparr>"
    by (cases s) (simp add: at_stub_def k1_def)
  have "pushes (hw @ stub_words ?st) k1 = Ret () (at_stub v e c g j s)"
    unfolding w at by (rule pushes_at [OF k1(1,2) n(1) k(4)])
  then obtain x where x: "pushes hw k1 = Ret () x" "pushes (stub_words ?st) x = Ret () (at_stub v e c g j s)"
    by (cases "pushes hw k1") (simp_all add: pushes_append)
  have "iflag x = False" using x(1) pushes_at [OF k1(1,2) n(2) k(4)] by (auto simp: k1_def)
  then have cx: "cli x = x" by (simp add: cli_def)
  have v: "v < 256" using im(2) by auto
  have "\<exists>f. ?e = gate (stub_addr im ?st) f \<and> bit f 7 \<and> f AND 0x1F = 0x0E"
    using installed_gate(1) [OF im(1) v] im(2) by (auto simp: bit_simps)
  then have e: "gate_present ?e" "interrupt_gate ?e" "ie_selector ?e = 8" "gate_offset ?e = stub_addr im ?st"
    by (auto simp: gate_present_def interrupt_gate_def)
  have "enter_gate ?e err c s = Ret () x"
    using x(1) unfolding enter_gate_eq [OF e(2,3)] k1_def hw_def by simp
  then show "deliver im v err c s = common_stub (stub_dispatch ?st) (stub_ret im ?st) c (at_stub v e c g j s)"
    using installed_gate(2) [OF im(1) v im(2)] x(2) cx e(1,4) by (simp add: deliver_def Let_def run_stub_eq)
  show "kstack (at_stub v e c g j s) g" unfolding at using kstack_poke [OF k1(1) n(1) k(4)] by simp
qed

lemma deliver_at:
  fixes s :: "'a kern_scheme" and c :: cpu
  assumes im: "stubs_installed im s" "v < 48 \<or> v = 128" "pushed_error v err e"
    and k: "kstack s g" "entry_esp s = g + 4 * of_nat j" "18 \<le> j" "j \<le> 1024"
  defines "r \<equiv> trap_frame v e c s"
  defines "t \<equiv> entered (stub_ret im (stub_of v)) r g j s"
  shows "deliver im v err c s = obind (stub_dispatch (stub_of v) r t) (after_call (g + 4 * of_nat (j - length (frame_words r))))"
    "kstack t g"
proof -
  let ?st = "stub_of v" and ?vw = "vector_words v e c s"
  define n where "n = length ?vw"
  have n: "n = (if ring s = 0 then 5 else 7)" "n \<le> 7" "n \<le> j" using k(3) by (simp_all add: n_def vector_words_length)
  define u where "u = at_stub v e c g j s"
  note to = deliver_to_stub [OF im k, of c, folded u_def]
  have u: "reg_esp u = g + 4 * of_nat (j - n)" "11 \<le> j - n" "j - n \<le> 1024"
    using k(3,4) n by (simp_all add: u_def at_stub_def n_def)
  define ws where "ws = [c_eax c, c_ecx c, c_edx c, reg_ebx u, reg_esp u, reg_ebp u, reg_esi u, reg_edi u] @
     [(c_eax c AND 0xFFFF0000) OR ucast (seg_data (gdt_st u))]"
  note cs = common_stub_at [OF to(2) u, where c = c and ret = "stub_ret im ?st", folded ws_def]
  have "g + 4 * of_nat (j - n) = entry_esp s - (if ring s = 0 then 20 else 28)"
    using k(3) by (simp add: n(1) k(2) of_nat_diff)
  then have fr: "rev (frame_words r) = ?vw @ ws"
    using u(1) by (simp add: frame_words_def r_def trap_frame_def ws_def) (simp add: u_def at_stub_def ring_def vector_words_def)
  let ?p = "g + 4 * of_nat (j - n - 9)"
  have l: "length (frame_words r) = n + 9" using arg_cong [OF fr, of length] by (simp add: n_def ws_def)
  have p: "?p = g + 4 * of_nat (j - length (frame_words r))" by (simp add: l)
  have tt: "t = u\<lparr>mem := poke g (j - n) (ws @ [?p, stub_ret im ?st]) (mem u), reg_esp := g + 4 * of_nat (j - n - 11),
      gdt_st := (gdt_st u)\<lparr>seg_data := 0x10\<rparr>\<rparr>"
  proof -
    have m: "poke g j (rev (frame_words r) @ [?p, stub_ret im ?st]) (mem s) =
        poke g (j - n) (ws @ [?p, stub_ret im ?st]) (poke g j ?vw (mem s))"
      using poke_append [of g j ?vw "ws @ [?p, stub_ret im ?st]"] by (simp add: fr n_def)
    have a: "j - length (frame_words r) - 2 = j - n - 11" by (simp add: l)
    have gs: "kernel_segments s = (kernel_segments s)\<lparr>seg_data := seg_data (gdt_st s), seg_data := 0x10\<rparr>"
      by (simp add: kernel_segments_def)
    show ?thesis
      unfolding t_def entered_def Let_def p [symmetric] a m u_def at_stub_def
      by (subst gs) (cases s, simp)
  qed
  show kt: "kstack t g" using cs(2) tt by simp
  have "load_frame ?p t = Ret r t"
  proof (rule load_frame_at [OF kt])
    have al: "frame_aligned g" using k(1) by (simp add: kstack_def)
    have "length (frame_words r) + 2 \<le> j" using u(2) by (simp add: l)
    then have "entries (mem t) g (j - length (frame_words r) - 2)
        ([stub_ret im ?st, g + 4 * of_nat (j - length (frame_words r))] @ frame_words r)"
      unfolding t_def by (intro entered_frame(1) [OF al _ k(4)])
    then have "entries (mem t) g (Suc (Suc (j - length (frame_words r) - 2))) (frame_words r)" by simp
    moreover have "Suc (Suc (j - length (frame_words r) - 2)) = j - n - 9" using u(2) by (simp add: l)
    ultimately show "entries (mem t) g (j - n - 9) (frame_words r)" by simp
    show "j - n - 9 + length (frame_words r) \<le> 1024" using l u(2) k(4) by simp
    show "r_useresp r = 0 \<and> r_ss r = 0" if "r_cs r AND 3 = 0" using that by (simp add: r_def trap_frame_def ring_def)
  qed
  then show "deliver im v err c s = obind (stub_dispatch (stub_of v) r t) (after_call (g + 4 * of_nat (j - length (frame_words r))))"
    unfolding to(1) cs(1) tt [symmetric] by (simp add: p [symmetric])
qed

subsection \<open>Leaving the kernel\<close>

lemma entered_simps [simp]:
  "gdt_st (entered ret r g j s) = kernel_segments s" "iflag (entered ret r g j s) = False"
  "reg_esp (entered ret r g j s) = g + 4 * of_nat (j - length (frame_words r) - 2)"
  "pmm_st (entered ret r g j s) = pmm_st s" "cr0 (entered ret r g j s) = cr0 s" "cr2 (entered ret r g j s) = cr2 s"
  "cr3 (entered ret r g j s) = cr3 s" "tlb (entered ret r g j s) = tlb s" "idt_st (entered ret r g j s) = idt_st s"
  "console (entered ret r g j s) = console s" "ports (entered ret r g j s) = ports s" "tick (entered ret r g j s) = tick s"
  "current_page_directory (entered ret r g j s) = current_page_directory s" "paging_on (entered ret r g j s) = paging_on s"
  "task_table (entered ret r g j s) = task_table s" "current_task (entered ret r g j s) = current_task s"
  "sched_view (entered ret r g j s) = sched_view s" "task_list (entered ret r g j s) = task_list s"
  "reg_ebp (entered ret r g j s) = reg_ebp s" "reg_ebx (entered ret r g j s) = reg_ebx s"
  "reg_esi (entered ret r g j s) = reg_esi s" "reg_edi (entered ret r g j s) = reg_edi s"
  by (simp_all add: entered_def Let_def sched_view_def paging_on_def)

text \<open>The registers, the stack and the segments of the interrupted code in a state of the kernel.\<close>

definition back_in :: "cpu \<Rightarrow> 'a kern_scheme \<Rightarrow> 'a kern_scheme \<Rightarrow> 'a kern_scheme" where
  "back_in c s u = u\<lparr>reg_edi := reg_edi s, reg_esi := reg_esi s, reg_ebp := reg_ebp s, reg_ebx := reg_ebx s,
     reg_esp := reg_esp s, iflag := bit (c_eflags c) 9, gdt_st := gdt_st s\<rparr>"

lemma stub_exit_frame:
  fixes s :: "'a kern_scheme" and u :: "'a kern_scheme"
  assumes "kstack u g" "reg_esp u = g + 4 * of_nat i" "entries (mem u) g (Suc i) (frame_words ((trap_frame v e c s)\<lparr>r_eax := x\<rparr>))"
    "Suc i + (if ring s = 0 then 14 else 16) = j" "j \<le> 1024" "entry_esp s = g + 4 * of_nat j"
    and seg: "gdt_st u = kernel_segments s"
  shows "stub_exit u = Ret (c\<lparr>c_eax := x\<rparr>) (back_in c s u)"
proof -
  let ?r = "(trap_frame v e c s)\<lparr>r_eax := x\<rparr>"
  have r0: "r_cs ?r AND 3 = 0 \<longleftrightarrow> ring s = 0" by (simp add: trap_frame_def ring_def)
  have "length (frame_words ?r) = (if ring s = 0 then 14 else 16)" using r0 by (simp add: frame_words_def)
  then have "stub_exit u = Ret (cpu_of ?r) (returned ?r (g + 4 * of_nat (i + 15)) u)"
    using assms(4,5) by (intro stub_exit_at [OF assms(1-3)]) simp
  moreover have "cpu_of ?r = c\<lparr>c_eax := x\<rparr>" by (cases c) (simp add: cpu_of_def trap_frame_def)
  moreover have "returned ?r (g + 4 * of_nat (i + 15)) u = back_in c s u"
  proof -
    have esp: "(if ring s = 0 then g + 4 * of_nat (i + 15) else reg_esp s) = reg_esp s"
      using assms(4,6) by (auto simp: entry_esp_def)
    have "(kernel_segments s)\<lparr>seg_data := seg_data (gdt_st s), seg_cs := seg_cs (gdt_st s),
        seg_ss := (if ring s = 0 then seg_ss (kernel_segments s) else seg_ss (gdt_st s))\<rparr> = gdt_st s"
      by (cases "gdt_st s") (simp add: kernel_segments_def)
    moreover have "(gdt_st s)\<lparr>seg_ss := seg_ss (kernel_segments s)\<rparr> = gdt_st s" if "ring s = 0"
      using that by (cases "gdt_st s") (simp add: kernel_segments_def)
    ultimately show ?thesis
      using esp r0 seg by (cases "ring s = 0") (simp_all add: returned_def back_in_def trap_frame_def)
  qed
  ultimately show ?thesis by simp
qed

lemma deliver_returns:
  fixes s :: "'a kern_scheme" and c :: cpu
  assumes im: "stubs_installed im s" "v < 48 \<or> v = 128" "pushed_error v err e"
    and k: "kstack s g" "entry_esp s = g + 4 * of_nat j" "18 \<le> j" "j \<le> 1024"
    and run: "stub_dispatch (stub_of v) (trap_frame v e c s) (entered (stub_ret im (stub_of v)) (trap_frame v e c s) g j s) =
      Ret (Iret ((trap_frame v e c s)\<lparr>r_eax := x\<rparr>)) u"
    and kept: "kstack u g" "\<forall>a. in_frame g a \<longrightarrow> mem u a = mem (entered (stub_ret im (stub_of v)) (trap_frame v e c s) g j s) a"
      "reg_esp u = reg_esp (entered (stub_ret im (stub_of v)) (trap_frame v e c s) g j s)" "gdt_st u = kernel_segments s"
  obtains m where "deliver im v err c s = Ret (Resumed (c\<lparr>c_eax := x\<rparr>)) (back_in c s (u\<lparr>mem := m\<rparr>))"
    "\<And>a. \<not> (in_frame g a \<and> unat a < unat g + 4 * j) \<Longrightarrow> m a = mem u a"
proof -
  define r where "r = trap_frame v e c s"
  define t where "t = entered (stub_ret im (stub_of v)) r g j s"
  note run = run [folded r_def, folded t_def] and kept = kept(1) kept(2,3) [folded r_def, folded t_def] kept(4)
  let ?n = "length (frame_words r)" and ?r = "r\<lparr>r_eax := x\<rparr>"
  have n: "?n = (if ring s = 0 then 14 else 16)" by (simp add: r_def frame_words_length)
  have nj: "?n + 2 \<le> j" using k(3) by (simp add: n)
  have al: "frame_aligned g" using k(1) by (simp add: kstack_def)
  define i where "i = j - ?n - 2"
  have ij: "j - ?n = i + 2" "i + 2 + ?n = j" using nj by (simp_all add: i_def)
  have "entries (mem t) g i ([stub_ret im (stub_of v), g + 4 * of_nat (j - ?n)] @ frame_words r)"
    unfolding t_def i_def by (rule entered_frame(1) [OF al nj k(4)])
  moreover have "entries (mem u) g (i + 2) (frame_words r) = entries (mem t) g (i + 2) (frame_words r)"
    using kept(2) ij(2) k(4) by (intro entries_cong [OF al]) simp_all
  ultimately have eu: "entries (mem u) g (i + 2) (frame_words r)" by simp
  define m where "m = wr32 (g + 4 * of_nat (i + 10)) x (mem u)"
  have i10: "i + 10 < 1024" using ij(2) n k(4) by (simp split: if_splits)
  have p: "g + 4 * of_nat (j - ?n) + 32 = g + 4 * of_nat (i + 10)" by (simp add: ij(1))
  have st: "store_frame (g + 4 * of_nat (j - ?n)) ?r u = Ret () (u\<lparr>mem := m\<rparr>)" and ks: "kstack (u\<lparr>mem := m\<rparr>) g"
    using kstack_store [OF kept(1) i10, of x] unfolding store_frame_def p m_def by simp_all
  have em: "rd32 m (g + 4 * of_nat (i + 2 + l)) = (if l = 8 then x else rd32 (mem u) (g + 4 * of_nat (i + 2 + l)))"
    if "i + 2 + l < 1024" for l
  proof -
    have u: "unat (of_nat (i + 2 + l) :: u32) = i + 2 + l" "unat (of_nat (i + 10) :: u32) = i + 10"
      using that i10 by (simp_all add: unat_index del: of_nat_add of_nat_Suc)
    have "(of_nat (i + 10) :: u32) = of_nat (i + 2 + l) \<longleftrightarrow> i + 10 = i + 2 + l"
      unfolding word_unat_eq_iff u by (rule refl)
    then have "(of_nat (i + 10) :: u32) = of_nat (i + 2 + l) \<longleftrightarrow> l = 8" by auto
    then show ?thesis
      unfolding m_def using rd32_wr32_entry [OF al al, of "of_nat (i + 10)" "of_nat (i + 2 + l)" x "mem u"] that i10 u
      by (simp del: of_nat_add of_nat_Suc)
  qed
  have fw: "frame_words ?r = (frame_words r)[8 := x]" by (simp add: frame_words_def)
  have "entries m g (i + 2) (frame_words ?r)"
    unfolding entries_def using eu em ij(2) k(4) by (auto simp: fw nth_list_update entries_def)
  moreover have "pop (u\<lparr>mem := m\<rparr>) = Ret (rd32 m (g + 4 * of_nat i)) (u\<lparr>mem := m, reg_esp := g + 4 * of_nat (Suc i)\<rparr>)"
    using pop_at [OF ks, of i] kept(3) i10 by (simp add: t_def i_def)
  moreover have "stub_exit (u\<lparr>mem := m, reg_esp := g + 4 * of_nat (Suc i)\<rparr>) = Ret (c\<lparr>c_eax := x\<rparr>)
      (back_in c s (u\<lparr>mem := m, reg_esp := g + 4 * of_nat (Suc i)\<rparr>))"
  proof (rule stub_exit_frame)
    show "entries (mem (u\<lparr>mem := m, reg_esp := g + 4 * of_nat (Suc i)\<rparr>)) g (Suc (Suc i)) (frame_words ((trap_frame v e c s)\<lparr>r_eax := x\<rparr>))"
      using calculation(1) by (simp add: r_def)
    show "Suc (Suc i) + (if ring s = 0 then 14 else 16) = j" using ij(2) n by simp
  qed (use ks k kept(4) in \<open>simp_all add: t_def\<close>)
  moreover have "back_in c s (u\<lparr>mem := m, reg_esp := g + 4 * of_nat (Suc i)\<rparr>) = back_in c s (u\<lparr>mem := m\<rparr>)"
    by (simp add: back_in_def)
  ultimately have "deliver im v err c s = Ret (Resumed (c\<lparr>c_eax := x\<rparr>)) (back_in c s (u\<lparr>mem := m\<rparr>))"
    using deliver_at(1) [OF im k, of c, folded r_def, folded t_def] run st by (simp add: after_call_def)
  moreover have "m a = mem u a" if "\<not> (in_frame g a \<and> unat a < unat g + 4 * j)" for a
    unfolding m_def using that ij(2) n i10 al
    by (intro wr32_index_outside) (auto simp: in_frame_iff split: if_splits)
  ultimately show thesis by (rule that)
qed

subsection \<open>What the pushes leave alone\<close>

lemma kstack_same:
  assumes "kstack s g" "\<And>a. \<not> in_frame g a \<Longrightarrow> m a = mem s a"
  shows "vm_lookup (s\<lparr>mem := m\<rparr>) b = vm_lookup s b" "translate (s\<lparr>mem := m\<rparr>) b = translate s b"
    "has_table (s\<lparr>mem := m\<rparr>) (pdx b) = has_table s (pdx b)"
    "walk_frame m (current_page_directory s) f = walk_frame (mem s) (current_page_directory s) f"
proof -
  let ?pd = "current_page_directory s"
  have k: "vm_ok s" "\<not> walk_frame (mem s) ?pd g" using assms(1) by (simp_all add: kstack_def)
  note w = data_write [OF k assms(2)]
  show look: "vm_lookup (s\<lparr>mem := m\<rparr>) b = vm_lookup s b" by (rule w(1))
  show "translate (s\<lparr>mem := m\<rparr>) b = translate s b"
    using translate_lookup [OF k(1), of b] translate_lookup [OF w(3), of b] look by (simp add: paging_on_def)
  show "walk_frame m ?pd f = walk_frame (mem s) ?pd f" by (rule w(2))
  have "m a = mem s a" if "in_frame ?pd a" for a
  proof (rule assms(2))
    have "?pd \<noteq> g" using k(2) by (auto simp: walk_frame_def)
    then show "\<not> in_frame g a" using that in_frame_unique by blast
  qed
  then show "has_table (s\<lparr>mem := m\<rparr>) (pdx b) = has_table s (pdx b)"
    unfolding has_table_def using vm_okD(4) [OF k(1)] rd32_entry_cong [of ?pd "pdx b" m "mem s"] by simp
qed

lemma entered_same:
  fixes s :: "'a kern_scheme" and ret :: u32
  assumes "kstack s g" "length (frame_words r) + 2 \<le> j" "j \<le> 1024"
  defines "t \<equiv> entered ret r g j s"
  shows "kstack t g" "vm_lookup t b = vm_lookup s b" "translate t b = translate s b" "has_table t (pdx b) = has_table s (pdx b)"
    "walk_frame (mem t) (current_page_directory t) f = walk_frame (mem s) (current_page_directory s) f"
    "vm_ok t"
proof -
  have al: "frame_aligned g" using assms(1) by (simp add: kstack_def)
  have out: "mem t a = mem s a" if "\<not> in_frame g a" for a
    unfolding t_def using that by (intro entered_frame(2) [OF al assms(2,3)]) simp
  note k = kstack_same [OF assms(1) out] and kw = kstack_write [OF assms(1) out]
  show kt: "kstack t g" using kw kstack_cong [of t "s\<lparr>mem := mem t\<rparr>" g] by (simp add: t_def)
  then show "vm_ok t" by (simp add: kstack_def)
  have vs: "vm_ok (s\<lparr>mem := mem t\<rparr>)" using kw by (simp add: kstack_def)
  show look: "vm_lookup t b = vm_lookup s b" using k(1) [of b] by (simp add: t_def)
  show "translate t b = translate s b"
    using k(2) [of b] translate_lookup [OF vs, of b] translate_lookup [OF \<open>vm_ok t\<close>, of b] by (simp add: t_def paging_on_def)
  show "has_table t (pdx b) = has_table s (pdx b)" using k(3) [of b] by (simp add: has_table_def t_def)
  show "walk_frame (mem t) (current_page_directory t) f = walk_frame (mem s) (current_page_directory s) f"
    using k(4) [of f] by (simp add: t_def)
qed

lemma back_in_simps [simp]:
  "mem (back_in c s u) = mem u" "cr0 (back_in c s u) = cr0 u" "cr3 (back_in c s u) = cr3 u" "tlb (back_in c s u) = tlb u"
  "pmm_st (back_in c s u) = pmm_st u" "current_page_directory (back_in c s u) = current_page_directory u"
  "paging_on (back_in c s u) = paging_on u" "console (back_in c s u) = console u" "vm_ok (back_in c s u) = vm_ok u"
proof -
  show "vm_ok (back_in c s u) = vm_ok u" by (rule vm_ok_cong) (simp_all add: back_in_def)
qed (simp_all add: back_in_def paging_on_def)

text \<open>The system call \<^verbatim>\<open>write\<close> of a program whose buffer is mapped.\<close>

lemma int80_write_serves:
  fixes s :: "'a kern_scheme"
  assumes "stubs_installed im s" "handlers (idt_st s) ! 128 = Some Syscall_dispatch"
    and "kstack s g" "entry_esp s = g + 4 * of_nat j" "18 \<le> j" "j \<le> 1024" "iflag s = bit (c_eflags c) 9" "c_eax c = 0"
    and "\<And>i. i < unat (c_edx c) \<Longrightarrow> translate s (c_ecx c + of_nat i) = Some (p i) \<and>
           \<not> (in_frame g (p i) \<and> unat (p i) < unat g + 4 * j)"
  shows "\<exists>m. int_instruction im 128 c s = Ret (Resumed (c\<lparr>c_eax := c_edx c, c_eip := c_eip c + 2\<rparr>))
      (s\<lparr>mem := m, console := fold terminal_putchar (map (\<lambda>i. mem s (p i)) [0..<unat (c_edx c)]) (console s)\<rparr>) \<and>
    (\<forall>a. \<not> (in_frame g a \<and> unat a < unat g + 4 * j) \<longrightarrow> m a = mem s a)"
proof -
  let ?c = "c\<lparr>c_eip := c_eip c + 2\<rparr>"
  define r where "r = trap_frame 128 0 ?c s"
  define t where "t = entered (si_isr_ret im) r g j s"
  have st: "stub_of 128 = Isr 128" "stub_ret im (stub_of 128) = si_isr_ret im" by (simp_all add: stub_of_def)
  have pe: "pushed_error 128 None 0" by (simp add: pushed_error_def isr_err_def)
  have al: "frame_aligned g" using assms(3) by (simp add: kstack_def)
  have n: "length (frame_words r) + 2 \<le> j" using assms(5) by (simp add: r_def frame_words_length)
  note es = entered_same [OF assms(3) n assms(6), where ret = "si_isr_ret im", folded t_def]
    and ef = entered_frame(2) [OF al n assms(6), where ret = "si_isr_ret im" and s = s, folded t_def]
  define f where "f = fold terminal_putchar (map (\<lambda>i. mem s (p i)) [0..<unat (c_edx c)])"
  have bytes: "map (\<lambda>i. mem t (p i)) [0..<unat (c_edx c)] = map (\<lambda>i. mem s (p i)) [0..<unat (c_edx c)]"
    using assms(9) ef by auto
  have "sys_write r t = Ret (r\<lparr>r_eax := c_edx c\<rparr>) (print (fold terminal_putchar (map (\<lambda>i. mem t (p i)) [0..<unat (c_edx c)])) t)"
    using sys_write_mapped [of r t p] assms(9) es(3) by (simp add: r_def)
  then have "sys_write r t = Ret (r\<lparr>r_eax := c_edx c\<rparr>) (print f t)" unfolding bytes f_def .
  then have run: "stub_dispatch (stub_of 128) r t = Ret (Iret (r\<lparr>r_eax := c_edx c\<rparr>)) (print f t)"
    using assms(2,8) by (simp add: st isr_dispatch_def call_handler_def syscall_dispatch_def r_def t_def)
  define u where "u = print f t"
  have u: "kstack u g" "mem u = mem t" "reg_esp u = reg_esp t" "gdt_st u = kernel_segments s"
    using es(1) kstack_cong [of u t g] by (simp_all add: u_def t_def) (simp add: print_def)
  obtain m where m: "deliver im 128 None ?c s = Ret (Resumed (?c\<lparr>c_eax := c_edx c\<rparr>)) (back_in ?c s (u\<lparr>mem := m\<rparr>))"
    "\<And>a. \<not> (in_frame g a \<and> unat a < unat g + 4 * j) \<Longrightarrow> m a = mem u a"
    by (rule deliver_returns [OF assms(1) _ pe assms(3-6) run [folded u_def, unfolded t_def r_def, folded st(2)] u(1)])
       (simp_all add: u t_def r_def st)
  have "interrupt_gate (idt (idt_st s) ! 128) \<and> gate_dpl (idt (idt_st s) ! 128) = 3"
    using installed_gate(1) [OF assms(1), of 128] by (simp add: interrupt_gate_def gate_dpl_def)
  moreover have "ucast (ring s) \<le> (3 :: u8)"
  proof -
    have "ucast (ring s) = (ucast (ring s) :: u8) AND 3"
      unfolding ring_def by (rule bit_word_eqI) (auto simp: bit_simps)
    then show ?thesis by (metis word_and_le1)
  qed
  ultimately have "int_instruction im 128 c s = deliver im 128 None ?c s" by (simp add: int_instruction_def Let_def)
  moreover have "back_in ?c s (u\<lparr>mem := m\<rparr>) = s\<lparr>mem := m, console := f (console s)\<rparr>"
    using assms(7) by (cases s) (simp add: back_in_def u_def print_def t_def entered_def Let_def)
  ultimately show ?thesis using m(1,2) ef by (intro exI [of _ m]) (simp add: f_def u(2))
qed

subsection \<open>Properties of the stubs\<close>

text \<open>
  C7 A system call from the instruction \<^verbatim>\<open>int 0x80\<close> back to the one behind it, through the gate, the kernel
  stack of the TSS, the stub, the dispatcher and \<^verbatim>\<open>iret\<close>: \<^verbatim>\<open>write\<close> puts the bytes of the buffer on the console
  and the program goes on with the count in EAX and every other register, its flags, its stack,
  its segments and its privilege as they were; of the whole machine only the console and the
  words below the kernel stack pointer differ.
\<close>

theorem int80_write_returns:
  fixes s :: "'a kern_scheme"
  assumes "stubs_installed im s" "handlers (idt_st s) ! 128 = Some Syscall_dispatch"
    and "kstack s g" "entry_esp s = g + 4 * of_nat j" "18 \<le> j" "j \<le> 1024" "iflag s = bit (c_eflags c) 9" "c_eax c = 0"
    and "\<And>i. i < unat (c_edx c) \<Longrightarrow> translate s (c_ecx c + of_nat i) = Some (p i) \<and>
           \<not> (in_frame g (p i) \<and> unat (p i) < unat g + 4 * j)"
  shows "\<exists>m. int_instruction im 128 c s = Ret (Resumed (c\<lparr>c_eax := c_edx c, c_eip := c_eip c + 2\<rparr>))
      (s\<lparr>mem := m, console := fold terminal_putchar (map (\<lambda>i. mem s (p i)) [0..<unat (c_edx c)]) (console s)\<rparr>) \<and>
    (\<forall>a. \<not> (in_frame g a \<and> unat a < unat g + 4 * j) \<longrightarrow> m a = mem s a)"
  using assms by (rule int80_write_serves)

text \<open>A machine with the stubs installed, and its processor in ring 3 with the kernel stack in block 0.\<close>

definition demo_stubs :: stub_image where
  "demo_stubs = \<lparr>si_isr = (\<lambda>n. of_nat (0x110000 + 16 * n)), si_irq = (\<lambda>n. of_nat (0x120000 + 16 * n)),
     si_isr_ret = 0x130020, si_irq_ret = 0x130060\<rparr>"

definition with_stubs :: "kern \<Rightarrow> kern" where
  "with_stubs s = (wired s)\<lparr>idt_st := (idt_st (wired s))\<lparr>idt := idt (idt_init (si_isr demo_stubs) (si_irq demo_stubs) 0 0 (idt_st s))\<rparr>\<rparr>"

definition in_user_mode :: "kern \<Rightarrow> kern" where
  "in_user_mode s = s\<lparr>iflag := True, reg_esp := 0xBFFF1000, gdt_st := (gdt_st s)\<lparr>seg_cs := 0x1B, seg_data := 0x23, seg_ss := 0x23,
     tss := (tss (gdt_st s))\<lparr>esp0 := 0x1000, ss0 := 0x10\<rparr>\<rparr>\<rparr>"

lemma demo_stubs_addr:
  "st \<in> set stubs \<Longrightarrow> unat (stub_addr demo_stubs st) = (case st of Isr n \<Rightarrow> 0x110000 + 16 * n | Irq n \<Rightarrow> 0x120000 + 16 * n)"
  "st \<in> set stubs \<Longrightarrow> (case st of Isr n \<Rightarrow> n \<le> 128 | Irq n \<Rightarrow> n < 16)"
proof -
  have "unat (of_nat (a + 16 * n) :: u32) = a + 16 * n" if "n \<le> 128" "a \<le> 0x120000" for a n
    using that by (simp add: unat_of_nat take_bit_eq_mod del: of_nat_add of_nat_mult)
  note u = this [of _ "0x110000"] this [of _ "0x120000"]
  show "st \<in> set stubs \<Longrightarrow> unat (stub_addr demo_stubs st) = (case st of Isr n \<Rightarrow> 0x110000 + 16 * n | Irq n \<Rightarrow> 0x120000 + 16 * n)"
    using u by (cases st) (auto simp: stubs_def demo_stubs_def simp del: of_nat_add of_nat_mult)
  show "st \<in> set stubs \<Longrightarrow> (case st of Isr n \<Rightarrow> n \<le> 128 | Irq n \<Rightarrow> n < 16)"
    by (cases st) (auto simp: stubs_def)
qed

lemma demo_stubs_distinct: "distinct (map (stub_addr demo_stubs) stubs)"
proof -
  have "inj_on (stub_addr demo_stubs) (set stubs)"
  proof (rule inj_onI)
    fix a b assume a: "a \<in> set stubs" and b: "b \<in> set stubs" and e: "stub_addr demo_stubs a = stub_addr demo_stubs b"
    then have "unat (stub_addr demo_stubs a) = unat (stub_addr demo_stubs b)" by simp
    then show "a = b"
      unfolding demo_stubs_addr(1) [OF a] demo_stubs_addr(1) [OF b] using demo_stubs_addr(2) [OF a] demo_stubs_addr(2) [OF b]
      by (cases a; cases b) auto
  qed
  moreover have "distinct stubs" by (auto simp: stubs_def distinct_map inj_on_def)
  ultimately show ?thesis by (simp add: distinct_map)
qed

lemma user_machine:
  assumes "vm_ok s" "4096 \<le> ram_top s" "\<not> walk_frame (mem s) (current_page_directory s) 0"
  defines "u \<equiv> in_user_mode (with_stubs s)"
  shows "stubs_installed demo_stubs u" "kstack u 0" "entry_esp u = 0 + 4 * of_nat 1024" "ring u = 3" "iflag u"
    "handlers (idt_st u) = (replicate 256 None)[14 := Some Page_fault_handler, 32 := Some Timer_callback, 128 := Some Syscall_dispatch]"
    "mem u = mem s" "console u = console s" "pmm_st u = pmm_st s" "current_page_directory u = current_page_directory s"
    "paging_on u = paging_on s" "vm_ok u" "translate u a = translate s a"
proof -
  show "stubs_installed demo_stubs u"
    unfolding stubs_installed_def
    by (intro conjI demo_stubs_distinct exI [of _ 0] exI [of _ "idt_st s"]) (simp add: u_def in_user_mode_def with_stubs_def)
  have "kstack s 0" using assms(1-3) by (simp add: kstack_def)
  then show "kstack u 0" using kstack_cong [of u s 0] by (simp add: u_def in_user_mode_def with_stubs_def wired_def)
  then show vu: "vm_ok u" by (simp add: kstack_def)
  show "translate u a = translate s a"
    using translate_lookup [OF vu, of a] translate_lookup [OF assms(1), of a]
    by (simp add: u_def in_user_mode_def with_stubs_def wired_def paging_on_def)
qed (simp_all add: u_def in_user_mode_def with_stubs_def wired_def entry_esp_def ring_def paging_on_def)

definition demo_cpu :: cpu where
  "demo_cpu = \<lparr>c_eax = 0, c_ecx = 0x5000, c_edx = 1, c_eip = 0x8048000, c_eflags = 0x202\<rparr>"

theorem int80_write_returns_witness:
  "\<exists>s m. vmm_init small_kern = Ret () s \<and>
     int_instruction demo_stubs 128 demo_cpu (in_user_mode (with_stubs s)) =
       Ret (Resumed \<lparr>c_eax = 1, c_ecx = 0x5000, c_edx = 1, c_eip = 0x8048002, c_eflags = 0x202\<rparr>)
         ((in_user_mode (with_stubs s))\<lparr>mem := m, console := terminal_putchar (mem s 0x5000) (console s)\<rparr>)"
proof -
  obtain s where s: "vmm_init small_kern = Ret () s" "vm_ok s" "paging_on s" "ram_top s = 0x8000"
    "\<not> walk_frame (mem s) (current_page_directory s) 0" "identity_upto 8 s"
    by (rule small_kern_vm) (rule that)
  have "translate s 0x5000 = Some 0x5000"
    using window_translate [OF s(2), of "0x5000"] s(4) by simp
  moreover have "\<not> in_frame 0 0x5000" by (simp add: in_frame_def)
  moreover note u = user_machine [OF s(2) _ s(5)]
  ultimately show ?thesis
    using int80_write_returns [OF u(1) _ u(2,3), of demo_cpu "\<lambda>_. 0x5000"] s(1,4)
    by (intro exI [of _ s]) (auto simp: demo_cpu_def u bit_simps)
qed

text \<open>
  C26 The system call gate is the only one a program may use: \<^verbatim>\<open>int n\<close> in ring 3 with any other vector does not
  reach a handler but raises the general protection exception with the vector in its error code,
  and since nobody handles that one the kernel reports exception 13 and halts.
\<close>

theorem int_instruction_refused:
  assumes "stubs_installed im s" "handlers (idt_st s) ! 13 = None" "ring s = 3" "n < 256" "n \<noteq> 128"
    and "kstack s g" "entry_esp s = g + 4 * of_nat j" "18 \<le> j" "j \<le> 1024"
  shows "int_instruction im n c s = Hang (isr_panic (trap_frame 13 (of_nat (8 * n + 2)) c s)
    (entered (si_isr_ret im) (trap_frame 13 (of_nat (8 * n + 2)) c s) g j s))"
proof -
  let ?e = "of_nat (8 * n + 2)"
  have "\<not> (interrupt_gate (idt (idt_st s) ! n) \<and> ucast (ring s) \<le> gate_dpl (idt (idt_st s) ! n))"
    using installed_gate(1) [OF assms(1,4)] assms(3,5) by (simp add: interrupt_gate_def gate_dpl_def idt_zero_def)
  then have "int_instruction im n c s = deliver im 13 (Some ?e) c s"
    unfolding int_instruction_def Let_def by (simp only: if_False)
  moreover have "pushed_error 13 (Some ?e) ?e" by (simp add: pushed_error_def isr_err_def)
  ultimately show ?thesis
    using deliver_at(1) [OF assms(1) _ _ assms(6-9), of 13 "Some ?e" ?e c] assms(2) by (simp add: stub_of_def isr_dispatch_def)
qed

theorem int_instruction_refused_witness:
  "\<exists>s t. vmm_init small_kern = Ret () s \<and> int_instruction demo_stubs 32 demo_cpu (in_user_mode (with_stubs s)) = Hang t"
proof -
  obtain s where s: "vmm_init small_kern = Ret () s" "vm_ok s" "ram_top s = 0x8000"
    "\<not> walk_frame (mem s) (current_page_directory s) 0"
    by (rule small_kern_vm) (rule that)
  note u = user_machine [OF s(2) _ s(4)]
  have "\<exists>t. int_instruction demo_stubs 32 demo_cpu (in_user_mode (with_stubs s)) = Hang t"
    using int_instruction_refused [OF u(1) _ u(4) _ _ u(2,3), of 32 demo_cpu] s(3) by (simp add: u)
  with s(1) show ?thesis by blast
qed

text \<open>
  C27 The ring 3 demonstration cannot be started from the boot task: \<^verbatim>\<open>run_user_demo\<close> takes the kernel stack
  of the current task, which \<^verbatim>\<open>scheduler_init\<close> left 0, so the first system call of the program makes
  the processor push at the top of the address space, where nothing is mapped, and is never served.
\<close>

theorem user_demo_has_no_kernel_stack:
  assumes "stubs_installed im s" "vm_ok s" "paging_on s" "vm_lookup s 0xFFFFFFFC = None"
    and "current_task s = Some i" "t_kstack (task_table s ! i) = 0"
  shows "\<exists>t u. run_user_demo syms s = Ret (sym_user_program syms) t \<and> ring t = 3 \<and> iflag t \<and> reg_esp t = sym_user_stack syms + 4096 \<and>
    int_instruction im 128 c t = Trap 0xFFFFFFFC u \<and> mem u = mem s \<and> console u = console s"
proof -
  obtain t where t: "run_user_demo syms s = Ret (sym_user_program syms) t"
    "t = s\<lparr>gdt_st := (tss_set_kernel_stack 0 (gdt_st s))\<lparr>seg_data := 0x23, seg_ss := 0x23, seg_cs := 0x1B\<rparr>,
        reg_esp := sym_user_stack syms + 4096, iflag := True\<rparr>"
    using assms(5,6)
    by (auto simp: run_user_demo_def get_current_task_def enter_user_mode_def set_kernel_stack_def cli_def Let_def bit_simps)
  let ?c = "c\<lparr>c_eip := c_eip c + 2\<rparr>" and ?e = "idt (idt_st t) ! 128"
  define k where "k = t\<lparr>reg_esp := entry_esp t, iflag := False, gdt_st := (kernel_segments t)\<lparr>seg_data := seg_data (gdt_st t)\<rparr>\<rparr>"
  have it: "stubs_installed im t" using assms(1) by (simp add: stubs_installed_def t(2))
  have e: "?e = gate (stub_addr im (stub_of 128)) 0xEE" "stub_at im (stub_addr im (stub_of 128)) = Some (stub_of 128)"
    using installed_gate [OF it, of 128] by simp_all
  have g: "interrupt_gate ?e" "gate_dpl ?e = 3" "ie_selector ?e = 8" "gate_present ?e" "gate_offset ?e = stub_addr im (stub_of 128)"
    by (simp_all add: e(1) interrupt_gate_def gate_dpl_def gate_present_def bit_simps)
  have r: "ring t = 3" by (simp add: t(2) ring_def)
  have kf: "mem k = mem s" "console k = console s" "reg_esp k = 0"
    by (simp_all add: k_def t(2) entry_esp_def ring_def tss_set_kernel_stack_def)
  have "vm_ok k" using assms(2) vm_ok_cong [of k s] by (simp add: k_def t(2))
  then have "translate k 0xFFFFFFFC = None"
    using assms(3,4) by (simp add: translate_lookup k_def t(2) paging_on_def)
  moreover have "reg_esp k - 4 = 0xFFFFFFFC" by (simp add: kf(3))
  ultimately have "store32 (reg_esp k - 4) v k = Trap 0xFFFFFFFC k" for v by (simp only: store32_def option.case)
  then have "push v k = Trap 0xFFFFFFFC k" for v by (simp add: push_def)
  then have "enter_gate ?e None ?c t = Trap 0xFFFFFFFC k"
    unfolding enter_gate_eq [OF g(1,3)] k_def [symmetric] using r by simp
  then have "int_instruction im 128 c t = Trap 0xFFFFFFFC k"
    using g(1,2,4,5) e(2) r by (simp add: int_instruction_def deliver_def Let_def)
  then show ?thesis using t(1) r kf by (intro exI [of _ t] exI [of _ k]) (simp add: t(2))
qed

text \<open>The boot task of a small machine.\<close>

theorem user_demo_has_no_kernel_stack_witness:
  "\<exists>s t u. vmm_init small_kern = Ret () s \<and>
     run_user_demo \<lparr>sym_kernel_stack = 0x4000, sym_user_stack = 0x5000, sym_user_program = 0x105000\<rparr> (with_stubs (one_task s)) =
       Ret 0x105000 t \<and> int_instruction demo_stubs 128 demo_cpu t = Trap 0xFFFFFFFC u"
proof -
  obtain s where s: "vmm_init small_kern = Ret () s" "vm_ok s" "paging_on s" "ram_top s = 0x8000" "identity_upto 8 s"
    by (rule small_kern_vm) (rule that)
  let ?u = "with_stubs (one_task s)"
  have f: "mem ?u = mem s" "current_page_directory ?u = current_page_directory s" "paging_on ?u = paging_on s" "current_task ?u = Some 0"
    "t_kstack (task_table ?u ! 0) = 0"
    by (simp_all add: with_stubs_def wired_def one_task_def scheduler_init_def upd_task_def cli_def Let_def paging_on_def nth_list_update task_zero_def)
  have "vm_ok ?u" using s(2) vm_ok_cong [of ?u s]
    by (simp add: with_stubs_def wired_def one_task_def scheduler_init_def upd_task_def cli_def Let_def)
  moreover have "stubs_installed demo_stubs ?u"
    unfolding stubs_installed_def
    by (intro conjI demo_stubs_distinct exI [of _ 0] exI [of _ "idt_st (one_task s)"]) (simp add: with_stubs_def)
  moreover have "vm_lookup ?u 0xFFFFFFFC = None" using s(4,5) f(1,2) by (simp add: identity_upto_def)
  ultimately show ?thesis
    using user_demo_has_no_kernel_stack [of demo_stubs ?u 0
        "\<lparr>sym_kernel_stack = 0x4000, sym_user_stack = 0x5000, sym_user_program = 0x105000\<rparr>" demo_cpu] s(1,3) f
    by auto
qed

text \<open>
  A page fault that demand paging resolves, up to the return of the stub: \<open>u\<close> is the state the handler leaves.
\<close>

lemma page_fault_delivered:
  fixes s :: "'a kern_scheme" and c :: cpu
  assumes im: "stubs_installed im s" "handlers (idt_st s) ! 14 = Some Page_fault_handler"
    and k: "kstack s g" "block_of g \<in> used_blocks s" "entry_esp s = g + 4 * of_nat j" "18 \<le> j" "j \<le> 1024"
    and p: "paging_on s" "vm_lookup s (cr2 s) = None" "demand_fault (cr2 s) err" "fault_need (cr2 s) s \<le> free_blocks s"
  defines "t \<equiv> entered (si_isr_ret im) (trap_frame 14 err c s) g j s"
  obtains u m f where "deliver im 14 (Some err) c s = Ret (Resumed c) (back_in c s (u\<lparr>mem := m\<rparr>))"
    "kstack u g" "paging_on u" "frame_aligned f" "f \<noteq> 0" "block_of f \<notin> used_blocks s"
    "\<And>b. vm_lookup u b = (if vpn b = vpn (cr2 s) then Some (f OR 7) else vm_lookup s b)"
    "u = t\<lparr>mem := mem u, tlb := tlb u, pmm_st := pmm_st u, console := console u\<rparr>"
    "\<And>b. \<not> (in_frame g b \<and> unat b < unat g + 4 * j) \<Longrightarrow> m b = mem u b"
    "\<And>h b. block_of h \<in> used_blocks s \<Longrightarrow> \<not> walk_frame (mem s) (current_page_directory s) h \<Longrightarrow> in_frame h b \<Longrightarrow>
       \<not> (in_frame g b \<and> unat b < unat g + 4 * j) \<Longrightarrow> mem u b = mem s b"
proof -
  define r where "r = trap_frame 14 err c s"
  have t: "t = entered (si_isr_ret im) r g j s" by (simp add: t_def r_def)
  have st: "stub_of 14 = Isr 14" "stub_ret im (stub_of 14) = si_isr_ret im" by (simp_all add: stub_of_def)
  have pe: "pushed_error 14 (Some err) err" by (simp add: pushed_error_def isr_err_def)
  have al: "frame_aligned g" using k(1) by (simp add: kstack_def)
  have n: "length (frame_words r) + 2 \<le> j" using k(4) by (simp add: r_def frame_words_length)
  note ts = entered_same [OF k(1) n k(5), where ret = "si_isr_ret im", folded t]
    and tf = entered_frame(2) [OF al n k(5), where ret = "si_isr_ret im" and s = s, folded t]
  have tu: "used_blocks t = used_blocks s" "ram_top t = ram_top s" "cr2 t = cr2 s" by (simp_all add: t)
  have q: "vm_ok t" "paging_on t" "vm_lookup t (cr2 t) = None" "demand_fault (cr2 t) (r_err_code r)" "fault_need (cr2 t) t \<le> free_blocks t"
    using ts(2) [of "cr2 s"] ts(4) [of "cr2 s"] ts(6) p by (simp_all add: t r_def paging_on_def fault_need_def free_blocks_def has_table_def)
  obtain u f where u: "page_fault_handler r t = Ret r u" "vm_ok u" "paging_on u" "frame_aligned f" "f \<noteq> 0" "block_of f \<notin> used_blocks t"
    "\<And>b. vm_lookup u b = (if vpn b = vpn (cr2 t) then Some (f OR 7) else vm_lookup t b)"
    "\<And>h b. block_of h \<in> used_blocks t \<Longrightarrow> \<not> walk_frame (mem t) (current_page_directory t) h \<Longrightarrow> in_frame h b \<Longrightarrow> mem u b = mem t b"
    "ram_top u = ram_top t" "u = t\<lparr>mem := mem u, tlb := tlb u, pmm_st := pmm_st u, console := console u\<rparr>"
    "\<And>h. block_of h \<in> used_blocks t \<Longrightarrow> \<not> walk_frame (mem t) (current_page_directory t) h \<Longrightarrow>
       \<not> walk_frame (mem u) (current_page_directory u) h"
    by (rule page_fault_handler_spec [OF q]) (rule that)
  have nw: "\<not> walk_frame (mem t) (current_page_directory t) g" using ts(1) by (simp add: kstack_def)
  have ku: "kstack u g" using u(2,9,11) ts(1) nw k(2) tu(1) by (simp add: kstack_def)
  have same: "reg_esp u = reg_esp t" "gdt_st u = kernel_segments s" by (subst u(10), simp add: t)+
  have ra: "r\<lparr>r_eax := c_eax c\<rparr> = r" by (simp add: r_def trap_frame_def)
  have run: "stub_dispatch (stub_of 14) r t = Ret (Iret (r\<lparr>r_eax := c_eax c\<rparr>)) u"
    using im(2) u(1) ra by (simp add: st isr_dispatch_def call_handler_def) (simp add: t r_def call_handler_def)
  have keep: "\<forall>b. in_frame g b \<longrightarrow> mem u b = mem t b" using u(8) k(2) nw tu(1) by blast
  obtain m where m: "deliver im 14 (Some err) c s = Ret (Resumed (c\<lparr>c_eax := c_eax c\<rparr>)) (back_in c s (u\<lparr>mem := m\<rparr>))"
    "\<And>b. \<not> (in_frame g b \<and> unat b < unat g + 4 * j) \<Longrightarrow> m b = mem u b"
    by (rule deliver_returns [OF im(1) _ pe k(1,3,4,5) run [unfolded t r_def, folded st(2)] ku
          keep [unfolded t r_def, folded st(2)] same(1) [unfolded t r_def, folded st(2)] same(2)]) simp_all
  have "mem u b = mem s b" if "block_of h \<in> used_blocks s" "\<not> walk_frame (mem s) (current_page_directory s) h" "in_frame h b"
    "\<not> (in_frame g b \<and> unat b < unat g + 4 * j)" for h b
    using u(8) [of h b] ts(5) [of h] tf [OF that(4)] that(1-3) tu(1) by simp
  then show thesis
    using m u(3-7,10) ku ts(2) tu by (intro that [of m u f]) simp_all
qed

text \<open>
  C8 Demand paging is invisible to the program: a page fault on an unmapped page that qualifies goes
  through the gate, the stub and the dispatcher to the page fault handler and back to the
  instruction that faulted, with every register, the flags, the stack and the segments as they
  were, and now the page is mapped to a frame nobody used and open to ring 3; every other page is where it was and the memory of every
  frame in use that holds no page table is unchanged but for the words below the kernel stack pointer.
\<close>

theorem faulting_instruction_restarts:
  fixes s :: "'a kern_scheme"
  assumes "stubs_installed im s" "handlers (idt_st s) ! 14 = Some Page_fault_handler"
    and "kstack s g" "block_of g \<in> used_blocks s" "entry_esp s = g + 4 * of_nat j" "18 \<le> j" "j \<le> 1024"
    and "iflag s = bit (c_eflags c) 9" "paging_on s" "vm_lookup s a = None" "demand_fault a err" "fault_need a s \<le> free_blocks s"
  shows "\<exists>t f. deliver im 14 (Some err) c (s\<lparr>cr2 := a\<rparr>) = Ret (Resumed c) t \<and> vm_ok t \<and>
    t = s\<lparr>mem := mem t, tlb := tlb t, pmm_st := pmm_st t, console := console t, cr2 := a\<rparr> \<and>
    frame_aligned f \<and> f \<noteq> 0 \<and> block_of f \<notin> used_blocks s \<and> translate t a = Some (f OR (a AND 0xFFF)) \<and>
    user_access (mem t) (current_page_directory t) a True \<and> (\<forall>b. vpn b \<noteq> vpn a \<longrightarrow> vm_lookup t b = vm_lookup s b) \<and>
    (\<forall>h b. block_of h \<in> used_blocks s \<and> \<not> walk_frame (mem s) (current_page_directory s) h \<and> in_frame h b \<and>
       \<not> (in_frame g b \<and> unat b < unat g + 4 * j) \<longrightarrow> mem t b = mem s b)"
proof -
  let ?s = "s\<lparr>cr2 := a\<rparr>"
  define t where "t = entered (si_isr_ret im) (trap_frame 14 err c ?s) g j ?s"
  have k: "stubs_installed im ?s" "handlers (idt_st ?s) ! 14 = Some Page_fault_handler" "kstack ?s g" "block_of g \<in> used_blocks ?s"
    "entry_esp ?s = g + 4 * of_nat j"
    using assms(1-5) by (simp_all add: stubs_installed_def entry_esp_def ring_def split: if_splits)
  have p: "paging_on ?s" "vm_lookup ?s (cr2 ?s) = None" "demand_fault (cr2 ?s) err" "fault_need (cr2 ?s) ?s \<le> free_blocks ?s"
    using assms(9-12) by (simp_all add: paging_on_def fault_need_def free_blocks_def has_table_def)
  obtain u m f where u: "deliver im 14 (Some err) c ?s = Ret (Resumed c) (back_in c ?s (u\<lparr>mem := m\<rparr>))"
    "kstack u g" "paging_on u" "frame_aligned f" "f \<noteq> 0" "block_of f \<notin> used_blocks ?s"
    "\<And>b. vm_lookup u b = (if vpn b = vpn (cr2 ?s) then Some (f OR 7) else vm_lookup ?s b)"
    "u = t\<lparr>mem := mem u, tlb := tlb u, pmm_st := pmm_st u, console := console u\<rparr>"
    "\<And>b. \<not> (in_frame g b \<and> unat b < unat g + 4 * j) \<Longrightarrow> m b = mem u b"
    "\<And>h b. block_of h \<in> used_blocks ?s \<Longrightarrow> \<not> walk_frame (mem ?s) (current_page_directory ?s) h \<Longrightarrow> in_frame h b \<Longrightarrow>
       \<not> (in_frame g b \<and> unat b < unat g + 4 * j) \<Longrightarrow> mem u b = mem ?s b"
    by (rule page_fault_delivered [OF k assms(6,7) p, where c = c, folded t_def]) (rule that)
  define w where "w = back_in c ?s (u\<lparr>mem := m\<rparr>)"
  have out: "m b = mem u b" if "\<not> in_frame g b" for b using u(9) that by blast
  note um = kstack_same [OF u(2) out] and uw = kstack_write [OF u(2) out]
  have w: "mem w = m" "current_page_directory w = current_page_directory u" "paging_on w" "vm_ok w"
    using uw u(3) by (simp_all add: w_def kstack_def paging_on_def)
  have look: "vm_lookup w b = (if vpn b = vpn a then Some (f OR 7) else vm_lookup s b)" for b
    using um(1) [of b] u(7) [of b] by (simp add: w(1,2))
  have "translate w a = Some (f OR (a AND 0xFFF))"
    using look [of a] u(4) by (simp add: translate_lookup [OF w(4)] w(3) frame_or_flags)
  moreover have "user_access (mem w) (current_page_directory w) a True"
    using u(4) by (simp add: user_access_iff [OF vm_okD(3) [OF w(4)]] look flag_or_frame)
  moreover have "w = s\<lparr>mem := mem w, tlb := tlb w, pmm_st := pmm_st w, console := console w, cr2 := a\<rparr>"
  proof -
    obtain x1 x2 x3 x4 where "u = t\<lparr>mem := x1, tlb := x2, pmm_st := x3, console := x4\<rparr>" using u(8) by blast
    then show ?thesis using assms(8) by (cases s) (simp add: w_def back_in_def t_def entered_def Let_def)
  qed
  moreover have "mem w b = mem s b" if "block_of h \<in> used_blocks s" "\<not> walk_frame (mem s) (current_page_directory s) h" "in_frame h b"
    "\<not> (in_frame g b \<and> unat b < unat g + 4 * j)" for h b
    using u(9) [OF that(4)] u(10) [of h b] that by (simp add: w(1))
  ultimately show ?thesis
    using u(1,4-6) w(4) look unfolding w_def [symmetric] by (intro exI [of _ w] exI [of _ f]) (simp, blast)
qed

theorem faulting_instruction_restarts_witness:
  "\<exists>s t p. vmm_init small_kern = Ret () s \<and>
     deliver demo_stubs 14 (Some 6) demo_cpu ((in_user_mode (with_stubs s))\<lparr>cr2 := 0x40000000\<rparr>) = Ret (Resumed demo_cpu) t \<and>
     translate t 0x40000000 = Some p"
proof -
  obtain s where s: "vmm_init small_kern = Ret () s" "vm_ok s" "paging_on s" "ram_top s = 0x8000" "card (used_blocks s) = 3" "0 \<in> used_blocks s"
    "\<not> walk_frame (mem s) (current_page_directory s) 0" "identity_upto 8 s"
    by (rule small_kern_vm) (rule that)
  let ?u = "in_user_mode (with_stubs s)"
  note u = user_machine [OF s(2) _ s(7)]
  have "demand_fault 0x40000000 6" by (simp add: demand_fault_def)
  moreover have "vm_lookup ?u 0x40000000 = None" using s(4,8) u(7,10) by (simp add: identity_upto_def)
  moreover have "fault_need 0x40000000 ?u \<le> free_blocks ?u"
    using s(4,5) u(9) by (simp add: fault_need_def free_blocks_def)
  ultimately show ?thesis
    using faulting_instruction_restarts [OF u(1) _ u(2) _ u(3), of demo_cpu "0x40000000" 6] s(1,3,4,6)
    by (auto simp: u demo_cpu_def bit_simps)
qed

end
