(* ===== verification/Preempt.thy ===== *)
theory Preempt
  imports Run Stubs
begin

text \<open>
  Preemptive multitasking: any number of tasks, running in ring 0 or ring 3 and in several
  address spaces, that are interrupted by the timer at any moment. The interrupt goes through the stub of
  \<^verbatim>\<open>src/isr.s\<close>, the dispatcher, \<^verbatim>\<open>timer_callback\<close>, \<^verbatim>\<open>schedule\<close> and \<^verbatim>\<open>switch_task\<close>; a task that is switched
  to again goes on in the stub behind the call of its dispatcher. What the tasks do between two
  interrupts is a contract: they keep the page tables in order and stay away from the
  scheduler's data and from the kernel stacks of the other tasks.
\<close>

subsection \<open>Stack pages during an interrupt\<close>

lemma spaces_kstack: "spaces D s \<Longrightarrow> stack_page D s g \<Longrightarrow> kstack s g"
  using spacesD [of D s] stack_page_ram [of D s g] by (auto simp: kstack_def stack_page_def)

lemma entered_spaces:
  fixes s :: "'a kern_scheme" and ret :: u32
  assumes sp: "spaces D s" "stack_page D s g" and n: "length (frame_words r) + 6 \<le> j" "j \<le> 1024"
  defines "e \<equiv> entered ret r g j s"
  shows "spaces D e" "\<And>h. stack_page D e h = stack_page D s h" "on_stack D e g (of_nat (j - length (frame_words r) - 2))"
    "\<And>i f l ws. f \<noteq> g \<Longrightarrow> suspended D s i f l ws \<Longrightarrow> suspended D e i f l ws"
    "\<And>a. \<not> (in_frame g a \<and> unat a < unat g + 4 * j) \<Longrightarrow> mem e a = mem s a"
proof -
  have al: "frame_aligned g" using sp(2) by (simp add: stack_page_def)
  have n2: "length (frame_words r) + 2 \<le> j" using n(1) by simp
  show low: "mem e a = mem s a" if "\<not> (in_frame g a \<and> unat a < unat g + 4 * j)" for a
    unfolding e_def by (rule entered_frame(2) [OF al n2 n(2) that])
  then have out: "\<And>a. \<not> in_frame g a \<Longrightarrow> mem e a = mem s a" by blast
  have "spaces D (s\<lparr>mem := mem e\<rparr>)" using sp out by (rule spaces_write)
  then show "spaces D e" using spaces_cong [of e "s\<lparr>mem := mem e\<rparr>" D] by (simp add: e_def)
  show st: "stack_page D e h = stack_page D s h" for h
    using stack_page_write(1) [OF spacesD(5) [OF sp(1)] sp(2) out] by (simp add: e_def)
  let ?i = "j - length (frame_words r) - 2"
  have "1 \<le> length (frame_words r)" by (simp add: frame_words_def)
  then have "4 \<le> ?i" "?i < 1024" using n by simp_all
  moreover from this have "unat (of_nat ?i :: u32) = ?i" by (intro unat_index) simp
  ultimately show "on_stack D e g (of_nat ?i)" using sp(2) st by (simp add: on_stack_def) (simp add: e_def)
  show "suspended D e i f l ws" if "f \<noteq> g" "suspended D s i f l ws" for i f l ws
    by (rule suspended_write [OF that(2,1) spacesD(5) [OF sp(1)] sp(2) out]) (simp_all add: e_def)
qed

subsection \<open>The timer interrupt of a running task\<close>

text \<open>
  What a preempted task finds again: the words \<^verbatim>\<open>switch_task\<close> has pushed, the return address into
  the stub with its argument, and the register frame.
\<close>

definition preempted_words :: "stub_image \<Rightarrow> u32 \<Rightarrow> nat \<Rightarrow> cpu \<Rightarrow> 'a kern_scheme \<Rightarrow> u32 list" where
  "preempted_words im g j c s =
     (let r = trap_frame 32 0 c s
      in [reg_edi s, reg_esi s, reg_ebx s, reg_ebp s, si_irq_ret im, g + 4 * of_nat (j - length (frame_words r))] @ frame_words r)"

definition frame_size :: "'a kern_scheme \<Rightarrow> nat" where
  "frame_size s = (if ring s = 0 then 14 else 16)"

lemma tick_switches:
  fixes s :: "'a kern_scheme"
  assumes im: "stubs_installed im s" and sp: "spaces D s" "stack_page D s g"
    and e: "entry_esp s = g + 4 * of_nat j" "22 \<le> j" "j \<le> 1024"
    and inv: "sched_inv xs s" and k: "k < length xs" "current_task s = Some (xs ! k)" "t_page_directory (task_table s ! (xs ! k)) \<in> D"
    and nxt: "next_ready xs k s = Some n" and su: "suspended D s n f l ws" "f \<noteq> g"
    and irq: "handlers (idt_st s) ! 32 = Some Timer_callback"
  obtains t where "deliver im 32 None c s = Ret (Elsewhere (ws ! 4)) t" "spaces D t" "sched_inv xs t" "current_task t = Some n"
    "reg_esp t = f + 4 * (l + 5)" "cr3 t = t_page_directory (task_table s ! n)"
    "t_esp (task_table t ! (xs ! k)) = g + 4 * of_nat (j - frame_size s - 6)"
    "entries (mem t) g (j - frame_size s - 6) (preempted_words im g j c s)"
    "\<exists>ws'. suspended D t (xs ! k) g (of_nat (j - frame_size s - 6)) ws'"
    "\<And>i h l' ws'. i \<noteq> xs ! k \<Longrightarrow> h \<noteq> g \<Longrightarrow> suspended D s i h l' ws' \<Longrightarrow> suspended D t i h l' ws'"
    "\<And>i. i < 32 \<Longrightarrow> t_state (task_table t ! i) =
       (if i = n then 1 else if i = xs ! k \<and> t_state (task_table s ! i) = 1 then 0 else t_state (task_table s ! i))"
    "\<And>i. t_page_directory (task_table t ! i) = t_page_directory (task_table s ! i)"
    "\<And>h. stack_page D t h = stack_page D s h" "\<And>a. \<not> in_frame g a \<Longrightarrow> mem t a = mem s a" "idt_st t = idt_st s"
    "\<exists>k. gdt_st t = tss_set_kernel_stack k (kernel_segments s)"
    "\<And>x. j \<le> x \<Longrightarrow> x < 1024 \<Longrightarrow> rd32 (mem t) (g + 4 * of_nat x) = rd32 (mem s) (g + 4 * of_nat x)"
proof -
  define r where "r = trap_frame 32 0 c s"
  have fr: "length (frame_words r) = frame_size s" by (simp add: r_def frame_words_length frame_size_def)
  have fs: "14 \<le> frame_size s" "frame_size s \<le> 16" by (simp_all add: frame_size_def)
  have n6: "length (frame_words r) + 6 \<le> j" "length (frame_words r) + 2 \<le> j" using e(2) fr fs by simp_all
  define z where "z = entered (si_irq_ret im) r g j s"
  note zs = entered_spaces [OF sp n6(1) e(3), where ret = "si_irq_ret im", folded z_def]
  have al: "frame_aligned g" using sp(2) by (simp add: stack_page_def)
  define i where "i = j - frame_size s - 6"
  have ij: "j - length (frame_words r) - 2 = i + 4" "j - frame_size s = i + 6" "i + 6 + frame_size s = j"
    using n6(1) by (simp_all add: i_def fr)
  have on: "on_stack D z g (of_nat (i + 4))" using zs(3) unfolding ij(1) .
  have ef: "entries (mem z) g (i + 4) ([si_irq_ret im, g + 4 * of_nat (j - length (frame_words r))] @ frame_words r)"
    using entered_frame(1) [OF al n6(2) e(3), of "si_irq_ret im" s] unfolding ij(1) z_def .
  have zi: "sched_inv xs z" by (rule sched_inv_view [OF inv]) (simp add: z_def)
  have z: "current_task z = Some (xs ! k)" "t_page_directory (task_table z ! (xs ! k)) \<in> D" "next_ready xs k z = Some n"
    "handlers (idt_st z) ! 32 = Some Timer_callback" "r_int_no r = 32"
    using k(2,3) nxt irq by (simp_all add: z_def) (simp add: r_def)
  have j4: "of_nat (i + 4) - 4 = (of_nat i :: u32)" by simp
  have i4: "unat (of_nat (i + 4) :: u32) = i + 4" using ij(3) e(3) by (intro unat_index) simp
  obtain t where t: "irq_dispatch call_handler r z = Ret (Switched (ws ! 4)) t" "spaces D t" "sched_inv xs t" "current_task t = Some n"
    "reg_esp t = f + 4 * (l + 5)" "cr3 t = t_page_directory (task_table z ! n)"
    "suspended D t (xs ! k) g (of_nat (i + 4) - 4) [reg_edi z, reg_esi z, reg_ebx z, reg_ebp z, rd32 (mem z) (reg_esp z)]"
    "\<And>n h l' ws'. n \<noteq> xs ! k \<Longrightarrow> h \<noteq> g \<Longrightarrow> suspended D z n h l' ws' \<Longrightarrow> suspended D t n h l' ws'"
    "\<And>i. i < 32 \<Longrightarrow> t_state (task_table t ! i) =
       (if i = n then 1 else if i = xs ! k \<and> t_state (task_table z ! i) = 1 then 0 else t_state (task_table z ! i))"
    "\<And>n. t_page_directory (task_table t ! n) = t_page_directory (task_table z ! n)"
    "\<And>h. stack_page D t h = stack_page D z h" "\<And>a. \<not> in_frame g a \<Longrightarrow> mem t a = mem z a" "idt_st t = idt_st z"
    "\<And>x. unat (of_nat (i + 4) :: u32) \<le> unat x \<Longrightarrow> unat x < 1024 \<Longrightarrow> rd32 (mem t) (g + 4 * x) = rd32 (mem z) (g + 4 * x)"
    "\<exists>k. gdt_st t = tss_set_kernel_stack k (gdt_st z)"
    by (rule timer_tick_suspended [OF zs(1) on zi k(1) z(1-3) zs(4) [OF su(2,1)] su(2) z(4,5)]) (rule that)
  have "deliver im 32 None c s = obind (stub_dispatch (stub_of 32) r z) (after_call (g + 4 * of_nat (j - length (frame_words r))))"
    using deliver_at(1) [OF im _ _ spaces_kstack [OF sp] e(1) _ e(3), of 32 None 0 c] e(2)
    by (simp add: pushed_error_def isr_err_def stub_of_def r_def z_def)
  then have run: "deliver im 32 None c s = Ret (Elsewhere (ws ! 4)) t" using t(1) by (simp add: stub_of_def after_call_def)
  have esp: "t_esp (task_table t ! (xs ! k)) = g + 4 * of_nat i"
    and five: "entries (mem t) g i [reg_edi s, reg_esi s, reg_ebx s, reg_ebp s]"
    using t(7) unfolding j4 by (auto simp: suspended_def entries_def z_def numeral_eq_Suc less_Suc_eq)
  have up: "rd32 (mem t) (g + 4 * of_nat x) = rd32 (mem z) (g + 4 * of_nat x)" if "i + 4 \<le> x" "x < 1024" for x
    using t(14) [of "of_nat x"] i4 that unat_index [of x] by simp
  have ab: "rd32 (mem t) (g + 4 * of_nat x) = rd32 (mem s) (g + 4 * of_nat x)" if "j \<le> x" "x < 1024" for x
  proof -
    have "entries (mem z) g x [rd32 (mem s) (g + 4 * of_nat x)] = entries (mem s) g x [rd32 (mem s) (g + 4 * of_nat x)]"
      using that zs(5) by (intro entries_cong [OF al]) auto
    then show ?thesis using up [of x] that ij(3) by simp
  qed
  have "rd32 (mem t) (g + 4 * of_nat (i + 4 + x)) = rd32 (mem z) (g + 4 * of_nat (i + 4 + x))" if "i + 4 + x < 1024" for x
    using that by (intro up) simp_all
  then have "entries (mem t) g (i + 4) ([si_irq_ret im, g + 4 * of_nat (j - length (frame_words r))] @ frame_words r)"
    using ef ij(3) e(3) fr unfolding entries_def by simp
  moreover have l4: "i + length [reg_edi s, reg_esi s, reg_ebx s, reg_ebp s] = i + 4" by simp
  ultimately have "entries (mem t) g i ([reg_edi s, reg_esi s, reg_ebx s, reg_ebp s] @
      [si_irq_ret im, g + 4 * of_nat (j - length (frame_words r))] @ frame_words r)"
    unfolding entries_append [of _ _ i] l4 using five by (intro conjI)
  then have words: "entries (mem t) g i (preempted_words im g j c s)"
    by (simp add: preempted_words_def Let_def r_def)
  have keep: "suspended D t i' h l' ws'" if "i' \<noteq> xs ! k" "h \<noteq> g" "suspended D s i' h l' ws'" for i' h l' ws'
    using t(8) [OF that(1,2) zs(4) [OF that(2,3)]] .
  have mm: "mem t a = mem s a" if "\<not> in_frame g a" for a using t(12) [OF that] zs(5) [of a] that by simp
  have zt: "task_table z = task_table s" by (simp add: z_def)
  have sus: "\<exists>ws'. suspended D t (xs ! k) g (of_nat i) ws'" using t(7) unfolding j4 by blast
  have st: "t_state (task_table t ! x) =
      (if x = n then 1 else if x = xs ! k \<and> t_state (task_table s ! x) = 1 then 0 else t_state (task_table s ! x))" if "x < 32" for x
    by (rule t(9) [OF that, unfolded zt])
  show thesis
    by (rule that [OF run t(2-5) _ esp [unfolded i_def] words [unfolded i_def] sus [unfolded i_def] keep st])
      (use t(15) mm ab zs(2) in \<open>simp_all add: t(6,10,11,13)\<close>, simp_all add: z_def)
qed

text \<open>Without another READY task the interrupted one goes on.\<close>

lemma tick_stays:
  fixes s :: "'a kern_scheme"
  assumes im: "stubs_installed im s" and sp: "spaces D s" "stack_page D s g"
    and e: "entry_esp s = g + 4 * of_nat j" "22 \<le> j" "j \<le> 1024" "iflag s = bit (c_eflags c) 9"
    and inv: "sched_inv xs s" and k: "k < length xs" "current_task s = Some (xs ! k)" "next_ready xs k s = None"
    and irq: "handlers (idt_st s) ! 32 = Some Timer_callback"
  obtains m con where "deliver im 32 None c s = Ret (Resumed c)
      (s\<lparr>mem := m, console := con, ports := ports s @ [(0x20, 0x20)], tick := tick s + 1\<rparr>)"
    "\<And>a. \<not> (in_frame g a \<and> unat a < unat g + 4 * j) \<Longrightarrow> m a = mem s a"
proof -
  define r where "r = trap_frame 32 0 c s"
  define z where "z = entered (si_irq_ret im) r g j s"
  have st: "stub_of 32 = Irq 0" "stub_ret im (stub_of 32) = si_irq_ret im" by (simp_all add: stub_of_def)
  have pe: "pushed_error 32 None 0" by (simp add: pushed_error_def isr_err_def)
  have n6: "length (frame_words r) + 6 \<le> j" using e(2) by (simp add: r_def frame_words_length)
  note zs = entered_spaces [OF sp n6 e(3), where ret = "si_irq_ret im", folded z_def]
  let ?o = "outb 0x20 0x20 z"
  define w where "w = (if (tick ?o + 1) mod 100 = 0
      then print (puts ''\<newline>'') (print (terminal_writedec (tick ?o + 1)) (print (puts ''[Timer] Tick: '') (?o\<lparr>tick := tick ?o + 1\<rparr>)))
      else ?o\<lparr>tick := tick ?o + 1\<rparr>)"
  have "w = z\<lparr>console := console w, ports := ports z @ [(0x20, 0x20)], tick := tick z + 1\<rparr>"
    by (cases z) (simp add: w_def outb_def print_def)
  then have wz: "w = z\<lparr>console := console w, ports := ports s @ [(0x20, 0x20)], tick := tick s + 1\<rparr>" by (simp add: z_def)
  have wf: "mem w = mem z" "cr0 w = cr0 z" "cr3 w = cr3 z" "tlb w = tlb z" "pmm_st w = pmm_st z"
    "current_page_directory w = current_page_directory z" "reg_esp w = reg_esp z" "gdt_st w = kernel_segments s"
    "sched_view w = sched_view s" "current_task w = Some (xs ! k)" "task_table w = task_table s"
    using k(2) by (subst wz, simp add: z_def sched_view_def)+
  have "sched_inv xs w" by (rule sched_inv_view [OF inv wf(9)])
  then have "schedule w = Ret None w"
    using schedule_eq [OF _ wf(10) k(1)] k(3) by (simp add: wf(11) others_def)
  moreover have "irq_dispatch call_handler r z = timer_callback r (outb 0x20 0x20 z)"
    using irq by (simp add: irq_dispatch_def call_handler_def) (simp add: r_def z_def call_handler_def)
  moreover have "r\<lparr>r_eax := c_eax c\<rparr> = r" by (simp add: r_def trap_frame_def)
  ultimately have run: "stub_dispatch (stub_of 32) r z = Ret (Iret (r\<lparr>r_eax := c_eax c\<rparr>)) w"
    unfolding timer_callback_eq w_def [symmetric] Let_def by (simp add: st)
  have kw: "kstack w g" using kstack_cong [OF wf(1-6)] spaces_kstack [OF zs(1)] zs(2) sp(2) by simp
  obtain m where m: "deliver im 32 None c s = Ret (Resumed (c\<lparr>c_eax := c_eax c\<rparr>)) (back_in c s (w\<lparr>mem := m\<rparr>))"
    "\<And>a. \<not> (in_frame g a \<and> unat a < unat g + 4 * j) \<Longrightarrow> m a = mem w a"
    by (rule deliver_returns [OF im _ pe spaces_kstack [OF sp] e(1) _ e(3) run [unfolded z_def r_def, folded st(2)] kw])
       (use e(2) in \<open>simp_all add: wf st, simp_all add: z_def r_def\<close>)
  have "back_in c s (w\<lparr>mem := m\<rparr>) = s\<lparr>mem := m, console := console w, ports := ports s @ [(0x20, 0x20)], tick := tick s + 1\<rparr>"
    by (subst wz) (use e(4) in \<open>cases s, simp add: back_in_def z_def entered_def Let_def\<close>)
  then show thesis using m zs(5) wf(1) by (intro that [of "console w" m]) simp_all
qed

subsection \<open>Switching back to a preempted task\<close>

text \<open>All a program can see of the processor, beside the record of the other registers.\<close>

definition program_view :: "'a kern_scheme \<Rightarrow> u32 \<times> u32 \<times> u32 \<times> u32 \<times> u32 \<times> u16 \<times> u16 \<times> u16 \<times> bool" where
  "program_view s = (reg_esp s, reg_ebp s, reg_ebx s, reg_esi s, reg_edi s, seg_cs (gdt_st s), seg_data (gdt_st s),
     seg_ss (gdt_st s), iflag s)"

lemma stub_exit_restores:
  fixes s u :: "'a kern_scheme"
  assumes "kstack u g" "22 \<le> j" "j \<le> 1024" "entry_esp s = g + 4 * of_nat j" "iflag s = bit (c_eflags c) 9"
    and "reg_esp u = g + 4 * of_nat (j - frame_size s - 1)"
    and "entries (mem u) g (j - frame_size s - 6) (preempted_words im g j c s)"
    and "ring s = 0 \<longrightarrow> seg_ss (gdt_st u) = seg_ss (gdt_st s)"
  obtains w where "stub_exit u = Ret c w" "program_view w = program_view s" "mem w = mem u" "cr3 w = cr3 u"
proof -
  let ?r = "trap_frame 32 0 c s" and ?i = "j - frame_size s - 1"
  have fs: "14 \<le> frame_size s" "frame_size s \<le> 16" by (simp_all add: frame_size_def)
  have r0: "r_cs ?r AND 3 = 0 \<longleftrightarrow> ring s = 0" by (simp add: ring_def)
  have l: "length (frame_words ?r) = frame_size s" by (simp add: frame_words_length frame_size_def)
  have si: "Suc ?i = Suc (Suc (Suc (Suc (Suc (Suc (j - frame_size s - 6))))))" "Suc ?i + length (frame_words ?r) = j" using assms(2) fs l by simp_all
  have "entries (mem u) g (Suc ?i) (frame_words ?r)"
    using assms(7) unfolding preempted_words_def Let_def entries_append si(1) by simp
  then have ex: "stub_exit u = Ret (cpu_of ?r) (returned ?r (g + 4 * of_nat (?i + 15)) u)"
    using si(2) assms(3) by (intro stub_exit_at [OF assms(1,6)]) simp_all
  have c: "cpu_of ?r = c" by (cases c) (simp add: cpu_of_def trap_frame_def)
  have "(if ring s = 0 then g + 4 * of_nat (?i + 15) else reg_esp s) = reg_esp s"
  proof (cases "ring s = 0")
    case True
    then have "?i + 15 = j" using assms(2) by (simp add: frame_size_def)
    then show ?thesis using assms(4) True by (simp add: entry_esp_def)
  qed simp
  then have pv: "program_view (returned ?r (g + 4 * of_nat (?i + 15)) u) = program_view s"
    using assms(5,8) r0 by (cases "ring s = 0") (simp_all add: program_view_def returned_def trap_frame_def)
  show thesis by (rule that [OF ex [unfolded c] pv]) (simp_all add: returned_def)
qed

subsection \<open>The system as a transition system\<close>

text \<open>Where the processor is: in the code of the current task, or at the address a switch has led to.\<close>

datatype place = Runs cpu | At u32

definition segments_ok :: "'a sys_scheme \<Rightarrow> bool" where
  "segments_ok s \<longleftrightarrow> ucast (ss0 (tss (gdt_st s))) = (0x10 :: u16) \<and> (ring s = 0 \<longrightarrow> seg_ss (gdt_st s) = 0x10)"

text \<open>What a task may do while it runs; \<open>stk i\<close> is the page of the kernel stack of task \<open>i\<close>.\<close>

definition works :: "u32 set \<Rightarrow> nat list \<Rightarrow> (nat \<Rightarrow> u32) \<Rightarrow> 'a kern_scheme \<Rightarrow> 'a kern_scheme \<Rightarrow> bool" where
  "works D xs stk s t \<longleftrightarrow> spaces D t \<and> segments_ok t \<and> task_table t = task_table s \<and> task_list t = task_list s \<and>
     current_task t = current_task s \<and> cr3 t = cr3 s \<and> idt_st t = idt_st s \<and>
     (\<forall>i \<in> set xs. stack_page D t (stk i) \<and>
        (current_task s \<noteq> Some i \<longrightarrow> (\<forall>a. in_frame (stk i) a \<longrightarrow> mem t a = mem s a)))"

text \<open>The kernel stack of the running task has room for an interrupt.\<close>

definition has_entry :: "(nat \<Rightarrow> u32) \<Rightarrow> 'a kern_scheme \<Rightarrow> nat \<Rightarrow> bool" where
  "has_entry stk s j \<longleftrightarrow> 22 \<le> j \<and> j \<le> 1024 \<and>
     (case current_task s of None \<Rightarrow> False | Some i \<Rightarrow> entry_esp s = stk i + 4 * of_nat j)"

text \<open>
  A step: the task works; a task that starts, or that comes back from its interrupt; the timer; a
  kernel task that ends.
\<close>

inductive pstep ::
  "stub_image \<Rightarrow> u32 set \<Rightarrow> nat list \<Rightarrow> (nat \<Rightarrow> u32) \<Rightarrow> place \<times> 'a kern_scheme \<Rightarrow> place \<times> 'a kern_scheme \<Rightarrow> bool"
  for im D xs stk where
  Works: "works D xs stk s t \<Longrightarrow> pstep im D xs stk (Runs c, s) (Runs c', t)"
| Starts: "a \<noteq> si_irq_ret im \<Longrightarrow> works D xs stk s t \<Longrightarrow> pstep im D xs stk (At a, s) (Runs c, t)"
| Resumes: "stub_exit s = Ret c t \<Longrightarrow> pstep im D xs stk (At (si_irq_ret im), s) (Runs c, t)"
| Ticks: "iflag s \<Longrightarrow> bit (c_eflags c) 9 \<Longrightarrow> has_entry stk s j \<Longrightarrow> deliver im 32 None c s = Ret (Elsewhere a) t \<Longrightarrow>
    pstep im D xs stk (Runs c, s) (At a, t)"
| Stays: "iflag s \<Longrightarrow> bit (c_eflags c) 9 \<Longrightarrow> has_entry stk s j \<Longrightarrow> deliver im 32 None c s = Ret (Resumed c') t \<Longrightarrow>
    pstep im D xs stk (Runs c, s) (Runs c', t)"
| Exits: "ring s = 0 \<Longrightarrow> current_task s = Some i \<Longrightarrow> reg_esp s = stk i + 4 * of_nat j \<Longrightarrow> 4 \<le> j \<Longrightarrow> j < 1024 \<Longrightarrow>
    task_exit s = Ret a t \<Longrightarrow> pstep im D xs stk (Runs c, s) (At a, t)"

inductive_cases pstep_RunsE [elim!]: "pstep im D xs stk (Runs c, s) (p, t)"
inductive_cases pstep_AtE [elim!]: "pstep im D xs stk (At a, s) (p, t)"

text \<open>The invariant: every READY task waits on its own stack page with a frame \<^verbatim>\<open>switch_task\<close> can pop.\<close>

definition system_ok :: "stub_image \<Rightarrow> u32 set \<Rightarrow> nat list \<Rightarrow> (nat \<Rightarrow> u32) \<Rightarrow> 'a kern_scheme \<Rightarrow> bool" where
  "system_ok im D xs stk s \<longleftrightarrow> stubs_installed im s \<and> handlers (idt_st s) ! 32 = Some Timer_callback \<and>
     spaces D s \<and> sched_inv xs s \<and> segments_ok s \<and> inj_on stk (set xs) \<and>
     (\<forall>i \<in> set xs. stack_page D s (stk i) \<and> t_page_directory (task_table s ! i) \<in> D \<and>
        (ready (task_table s) i \<longrightarrow> (\<exists>l ws. suspended D s i (stk i) l ws))) \<and>
     (\<exists>i \<in> set xs. current_task s = Some i \<and> t_state (task_table s ! i) = TASK_STATE_RUNNING \<and>
        cr3 s = t_page_directory (task_table s ! i))"

definition conf_ok :: "stub_image \<Rightarrow> u32 set \<Rightarrow> nat list \<Rightarrow> (nat \<Rightarrow> u32) \<Rightarrow> place \<times> 'a kern_scheme \<Rightarrow> bool" where
  "conf_ok im D xs stk x \<longleftrightarrow> system_ok im D xs stk (snd x) \<and> (case fst x of Runs c \<Rightarrow> True | At a \<Rightarrow> ring (snd x) = 0)"

lemma system_okD:
  assumes "system_ok im D xs stk s"
  shows "stubs_installed im s" "handlers (idt_st s) ! 32 = Some Timer_callback" "spaces D s" "sched_inv xs s" "segments_ok s"
    "\<And>i. i \<in> set xs \<Longrightarrow> stack_page D s (stk i)" "\<And>i. i \<in> set xs \<Longrightarrow> t_page_directory (task_table s ! i) \<in> D"
    "\<And>i i'. i \<in> set xs \<Longrightarrow> i' \<in> set xs \<Longrightarrow> stk i = stk i' \<Longrightarrow> i = i'"
  using assms by (auto simp: system_ok_def dest: inj_onD)

lemma system_ok_current:
  assumes "system_ok im D xs stk s"
  obtains k where "k < length xs" "current_task s = Some (xs ! k)" "t_state (task_table s ! (xs ! k)) = TASK_STATE_RUNNING"
    "cr3 s = t_page_directory (task_table s ! (xs ! k))"
  using assms by (auto simp: system_ok_def in_set_conv_nth)

lemma system_ok_waiting:
  assumes "system_ok im D xs stk s" "i \<in> set xs" "ready (task_table s) i"
  obtains l ws where "suspended D s i (stk i) l ws"
  using assms by (auto simp: system_ok_def)

text \<open>The task the scheduler picks waits on a page of its own.\<close>

lemma next_waiting:
  assumes ok: "system_ok im D xs stk s" and k: "k < length xs" "current_task s = Some (xs ! k)" and n: "next_ready xs k s = Some n"
  obtains l ws where "n \<in> set xs" "ready (task_table s) n" "n \<noteq> xs ! k" "suspended D s n (stk n) l ws" "stk n \<noteq> stk (xs ! k)"
proof -
  have m: "n \<in> set xs" "ready (task_table s) n" using find_others [of "ready (task_table s)" xs k n] n by (simp_all add: others_def)
  have "t_state (task_table s ! (xs ! k)) \<noteq> 0"
    using system_ok_current [OF ok] k(2) by (metis option.inject zero_neq_one)
  then have ne: "n \<noteq> xs ! k" using m(2) by auto
  have "stk n \<noteq> stk (xs ! k)" using system_okD(8) [OF ok m(1), of "xs ! k"] ne k(1) by auto
  then show thesis using system_ok_waiting [OF ok m] m ne that by metis
qed

lemma next_ready_exists:
  assumes "sched_inv xs s" "k < length xs" "i \<in> set xs" "i \<noteq> xs ! k" "ready (task_table s) i"
  obtains n where "next_ready xs k s = Some n"
proof -
  have "i \<in> set (drop (Suc k) xs @ take k xs)"
  proof -
    have "set xs = set (take k xs) \<union> set (drop k xs)" by (metis append_take_drop_id set_append)
    moreover have "drop k xs = xs ! k # drop (Suc k) xs" using assms(2) by (simp add: Cons_nth_drop_Suc)
    ultimately show ?thesis using assms(3,4) by auto
  qed
  then have "next_ready xs k s \<noteq> None" using assms(5) by (auto simp: find_None_iff)
  then show thesis using that by auto
qed

subsection \<open>Steps keep the invariant\<close>

lemma system_ok_works:
  assumes ok: "system_ok im D xs stk s" and w: "works D xs stk s t"
  shows "system_ok im D xs stk t"
proof -
  have f: "spaces D t" "segments_ok t" "task_table t = task_table s" "task_list t = task_list s" "current_task t = current_task s"
    "cr3 t = cr3 s" "idt_st t = idt_st s" "\<And>i. i \<in> set xs \<Longrightarrow> stack_page D t (stk i)"
    "\<And>i a. i \<in> set xs \<Longrightarrow> current_task s \<noteq> Some i \<Longrightarrow> in_frame (stk i) a \<Longrightarrow> mem t a = mem s a"
    using w by (auto simp: works_def)
  have si: "sched_inv xs t" by (rule sched_inv_view [OF system_okD(4) [OF ok]]) (simp add: sched_view_def f)
  have "\<exists>l ws. suspended D t i (stk i) l ws" if i: "i \<in> set xs" "ready (task_table s) i" for i
  proof -
    obtain l ws where su: "suspended D s i (stk i) l ws" by (rule system_ok_waiting [OF ok i]) (rule that)
    have "current_task s \<noteq> Some i" using ok i(2) by (auto simp: system_ok_def)
    then have "suspended D t i (stk i) l ws" using f i(1) by (intro suspended_kept [OF su]) auto
    then show ?thesis by blast
  qed
  then show ?thesis
    using ok si f by (simp add: system_ok_def stubs_installed_def)
qed

lemma stack_write_works:
  fixes s t :: "'a kern_scheme"
  assumes ok: "system_ok im D xs stk s" and i: "current_task s = Some i" "i \<in> set xs"
    and out: "\<And>a. \<not> in_frame (stk i) a \<Longrightarrow> mem t a = mem s a"
    and same: "pmm_st t = pmm_st s" "cr0 t = cr0 s" "cr3 t = cr3 s" "tlb t = tlb s" "current_page_directory t = current_page_directory s"
      "task_table t = task_table s" "task_list t = task_list s" "current_task t = current_task s" "idt_st t = idt_st s" "segments_ok t"
  shows "works D xs stk s t"
proof -
  note d = system_okD [OF ok]
  have "spaces D (s\<lparr>mem := mem t\<rparr>)" using d(3) d(6) [OF i(2)] out by (rule spaces_write)
  then have "spaces D t" using spaces_cong [of t "s\<lparr>mem := mem t\<rparr>" D] same by simp
  moreover have "stack_page D t (stk n)" if "n \<in> set xs" for n
    using stack_page_write(1) [OF spacesD(5) [OF d(3)] d(6) [OF i(2)] out same(1), of "stk n"] d(6) [OF that] by simp
  moreover have "mem t a = mem s a" if "n \<in> set xs" "current_task s \<noteq> Some n" "in_frame (stk n) a" for n a
  proof (rule out)
    have "stk n \<noteq> stk i" using d(8) [OF that(1) i(2)] that(2) i(1) by auto
    then show "\<not> in_frame (stk i) a" using that(3) in_frame_unique by blast
  qed
  ultimately show ?thesis using same by (simp add: works_def)
qed

text \<open>A system call \<^verbatim>\<open>write\<close> is within the contract of the tasks.\<close>

lemma write_works:
  fixes s :: "'a kern_scheme"
  assumes ok: "system_ok im D xs stk s" and i: "current_task s = Some i" "i \<in> set xs" and e: "has_entry stk s j"
    and h: "handlers (idt_st s) ! 128 = Some Syscall_dispatch" and c: "iflag s = bit (c_eflags c) 9" "c_eax c = 0"
    and buf: "\<And>k. k < unat (c_edx c) \<Longrightarrow> translate s (c_ecx c + of_nat k) = Some (p k) \<and> \<not> in_frame (stk i) (p k)"
  obtains t where "int_instruction im 128 c s = Ret (Resumed (c\<lparr>c_eax := c_edx c, c_eip := c_eip c + 2\<rparr>)) t" "works D xs stk s t"
proof -
  note d = system_okD [OF ok]
  have en: "entry_esp s = stk i + 4 * of_nat j" "18 \<le> j" "j \<le> 1024" using e i(1) by (simp_all add: has_entry_def)
  have k: "kstack s (stk i)" by (rule spaces_kstack [OF d(3) d(6) [OF i(2)]])
  let ?t = "\<lambda>m. s\<lparr>mem := m, console := fold terminal_putchar (map (\<lambda>i. mem s (p i)) [0..<unat (c_edx c)]) (console s)\<rparr>"
  obtain m where m: "int_instruction im 128 c s = Ret (Resumed (c\<lparr>c_eax := c_edx c, c_eip := c_eip c + 2\<rparr>)) (?t m)"
    "\<forall>a. \<not> (in_frame (stk i) a \<and> unat a < unat (stk i) + 4 * j) \<longrightarrow> m a = mem s a"
    using int80_write_serves [OF d(1) h k en c, of p] buf by blast
  have "works D xs stk s (?t m)"
    using m(2) d(5) by (intro stack_write_works [OF ok i]) (simp_all add: segments_ok_def ring_def)
  with m(1) show thesis by (rule that)
qed

lemma pops_same: "pops n s = Ret ws t \<Longrightarrow> \<exists>e. t = s\<lparr>reg_esp := e\<rparr>"
proof (induction n arbitrary: s ws)
  case 0
  then show ?case by (intro exI [of _ "reg_esp s"]) simp
next
  case (Suc n)
  then obtain v u vs where u: "pop s = Ret v u" "pops n u = Ret vs t" by (auto elim!: obind_RetE)
  have "\<exists>e. u = s\<lparr>reg_esp := e\<rparr>" using u(1) by (auto simp: pop_def elim!: obind_RetE dest!: load32_fields)
  then show ?case using Suc.IH [OF u(2)] by auto
qed

lemma pop_same: "pop s = Ret v t \<Longrightarrow> \<exists>e. t = s\<lparr>reg_esp := e\<rparr>"
  using pops_same [of 1 s "[v]" t] by simp

lemma iret_same:
  assumes "iret eax ecx edx s = Ret c t"
  obtains e f g where "t = s\<lparr>reg_esp := e, iflag := f, gdt_st := g\<rparr>" "tss g = tss (gdt_st s)"
    "seg_cs g AND 3 = 0 \<Longrightarrow> seg_ss g = seg_ss (gdt_st s)"
proof -
  obtain ws u where u: "pops 3 s = Ret ws u"
    and run: "(let c = \<lparr>c_eax = eax, c_ecx = ecx, c_edx = edx, c_eip = ws ! 0, c_eflags = ws ! 2\<rparr>;
           s = u\<lparr>gdt_st := (gdt_st u)\<lparr>seg_cs := ucast (ws ! 1)\<rparr>, iflag := bit (ws ! 2) 9\<rparr>
       in if ring s = 0 then Ret c s
          else obind (pops 2 s) (\<lambda>us s.
            Ret c (s\<lparr>reg_esp := us ! 0, gdt_st := (gdt_st s)\<lparr>seg_ss := ucast (us ! 1)\<rparr>\<rparr>))) = Ret c t"
    using assms unfolding iret_def by (rule obind_RetE)
  obtain e where e: "u = s\<lparr>reg_esp := e\<rparr>" using pops_same [OF u] by blast
  let ?v = "u\<lparr>gdt_st := (gdt_st u)\<lparr>seg_cs := ucast (ws ! 1)\<rparr>, iflag := bit (ws ! 2) 9\<rparr>"
  show thesis
  proof (cases "ring ?v = 0")
    case True
    then have "t = ?v" using run by (simp add: Let_def)
    then show thesis using e by (intro that [of "(gdt_st s)\<lparr>seg_cs := ucast (ws ! 1)\<rparr>" "bit (ws ! 2) 9" e]) (cases s, simp_all)
  next
    case False
    then obtain us v where v: "pops 2 ?v = Ret us v" "t = v\<lparr>reg_esp := us ! 0, gdt_st := (gdt_st v)\<lparr>seg_ss := ucast (us ! 1)\<rparr>\<rparr>"
      using run by (auto simp: Let_def elim!: obind_RetE)
    obtain e' where "v = ?v\<lparr>reg_esp := e'\<rparr>" using pops_same [OF v(1)] by blast
    then show thesis
      using v(2) e False
      by (intro that [of "(gdt_st s)\<lparr>seg_cs := ucast (ws ! 1), seg_ss := ucast (us ! 1)\<rparr>" "bit (ws ! 2) 9" "us ! 0"])
        (cases s, simp_all add: ring_def)
  qed
qed

lemma stub_exit_same:
  assumes "stub_exit s = Ret c t"
  obtains e1 e2 e3 e4 e5 f g where "t = s\<lparr>reg_esp := e1, reg_ebp := e2, reg_ebx := e3, reg_esi := e4, reg_edi := e5, iflag := f, gdt_st := g\<rparr>"
    "tss g = tss (gdt_st s)" "seg_cs g AND 3 = 0 \<Longrightarrow> seg_ss g = seg_ss (gdt_st s)"
proof -
  obtain d u where u: "pop (s\<lparr>reg_esp := reg_esp s + 4\<rparr>) = Ret d u"
    and 1: "(let s = set_data_segments (ucast d) u in
      obind (pops 8 s) (\<lambda>ws s.
      let s = s\<lparr>reg_edi := ws ! 0, reg_esi := ws ! 1, reg_ebp := ws ! 2, reg_ebx := ws ! 4, reg_esp := reg_esp s + 8\<rparr>
      in iret (ws ! 7) (ws ! 6) (ws ! 5) s)) = Ret c t"
    using assms unfolding stub_exit_def Let_def by (rule obind_RetE)
  obtain ws v where v: "pops 8 (set_data_segments (ucast d) u) = Ret ws v"
    and 2: "iret (ws ! 7) (ws ! 6) (ws ! 5) (v\<lparr>reg_edi := ws ! 0, reg_esi := ws ! 1, reg_ebp := ws ! 2, reg_ebx := ws ! 4,
      reg_esp := reg_esp v + 8\<rparr>) = Ret c t"
    using 1 unfolding Let_def by (rule obind_RetE)
  obtain e e' where e: "u = s\<lparr>reg_esp := e\<rparr>" "v = (set_data_segments (ucast d) u)\<lparr>reg_esp := e'\<rparr>"
    using pop_same [OF u] pops_same [OF v] by auto
  show thesis
  proof (rule iret_same [OF 2])
    fix e1 f g
    assume "t = v\<lparr>reg_edi := ws ! 0, reg_esi := ws ! 1, reg_ebp := ws ! 2, reg_ebx := ws ! 4, reg_esp := reg_esp v + 8,
        reg_esp := e1, iflag := f, gdt_st := g\<rparr>"
      "tss g = tss (gdt_st (v\<lparr>reg_edi := ws ! 0, reg_esi := ws ! 1, reg_ebp := ws ! 2, reg_ebx := ws ! 4, reg_esp := reg_esp v + 8\<rparr>))"
      "seg_cs g AND 3 = 0 \<Longrightarrow> seg_ss g = seg_ss (gdt_st (v\<lparr>reg_edi := ws ! 0, reg_esi := ws ! 1, reg_ebp := ws ! 2, reg_ebx := ws ! 4,
        reg_esp := reg_esp v + 8\<rparr>))"
    then show thesis
      using e by (intro that [of g f "ws ! 0" "ws ! 1" "ws ! 4" "ws ! 2" e1]) (cases s, simp_all add: set_data_segments_def)
  qed
qed

text \<open>A switch from the task at position \<open>k\<close> to the suspended task \<open>n\<close>, as the other tasks see it.\<close>

definition switched :: "u32 set \<Rightarrow> nat list \<Rightarrow> (nat \<Rightarrow> u32) \<Rightarrow> 'a kern_scheme \<Rightarrow> nat \<Rightarrow> u32 \<Rightarrow> 'a kern_scheme \<Rightarrow> bool" where
  "switched D xs stk s k a t \<longleftrightarrow>
     (\<exists>n l ws. next_ready xs k s = Some n \<and> suspended D s n (stk n) l ws \<and> a = ws ! 4 \<and> current_task t = Some n \<and>
        reg_esp t = stk n + 4 * (l + 5) \<and> cr3 t = t_page_directory (task_table s ! n)) \<and>
     ring t = 0 \<and> seg_ss (gdt_st t) = 0x10 \<and>
     (\<forall>i h l ws. i \<noteq> xs ! k \<longrightarrow> h \<noteq> stk (xs ! k) \<longrightarrow> suspended D s i h l ws \<longrightarrow> suspended D t i h l ws) \<and>
     (\<forall>i. i \<noteq> xs ! k \<longrightarrow> i < 32 \<longrightarrow> current_task t \<noteq> Some i \<longrightarrow> t_state (task_table t ! i) = t_state (task_table s ! i)) \<and>
     (\<forall>i. t_page_directory (task_table t ! i) = t_page_directory (task_table s ! i)) \<and>
     (\<forall>a. \<not> in_frame (stk (xs ! k)) a \<longrightarrow> mem t a = mem s a)"

lemma kernel_gdt:
  assumes "segments_ok s" "gdt_st t = tss_set_kernel_stack x (kernel_segments s)"
  shows "segments_ok t" "ring t = 0" "seg_ss (gdt_st t) = 0x10"
  using assms by (auto simp: segments_ok_def ring_def kernel_segments_def tss_set_kernel_stack_def)

lemma system_ok_switched:
  assumes ok: "system_ok im D xs stk s" and k: "k < length xs" "current_task s = Some (xs ! k)" and n: "next_ready xs k s = Some n"
    and t: "spaces D t" "sched_inv xs t" "current_task t = Some n" "cr3 t = t_page_directory (task_table s ! n)"
      "\<And>i h l ws. i \<noteq> xs ! k \<Longrightarrow> h \<noteq> stk (xs ! k) \<Longrightarrow> suspended D s i h l ws \<Longrightarrow> suspended D t i h l ws"
      "ready (task_table t) (xs ! k) \<Longrightarrow> \<exists>l ws. suspended D t (xs ! k) (stk (xs ! k)) l ws"
      "t_state (task_table t ! n) = 1"
      "\<And>i. i \<noteq> xs ! k \<Longrightarrow> i \<noteq> n \<Longrightarrow> i < 32 \<Longrightarrow> t_state (task_table t ! i) = t_state (task_table s ! i)"
      "\<And>i. t_page_directory (task_table t ! i) = t_page_directory (task_table s ! i)"
      "\<And>h. stack_page D t h = stack_page D s h" "idt_st t = idt_st s" "segments_ok t"
  shows "system_ok im D xs stk t"
proof -
  note d = system_okD [OF ok]
  obtain l ws where nw: "n \<in> set xs" "n \<noteq> xs ! k" using next_waiting [OF ok k n] by metis
  have "\<exists>l ws. suspended D t i (stk i) l ws" if i: "i \<in> set xs" "ready (task_table t) i" for i
  proof (cases "i = xs ! k")
    case True
    then show ?thesis using t(6) i(2) by simp
  next
    case False
    have "i \<noteq> n" "i < 32" using i(2) t(7) sched_inv_bound [OF d(4) i(1)] by auto
    then have "ready (task_table s) i" using t(8) [OF False] i(2) by simp
    then obtain l ws where "suspended D s i (stk i) l ws" by (rule system_ok_waiting [OF ok i(1)]) (rule that)
    moreover have "stk i \<noteq> stk (xs ! k)" using d(8) [OF i(1), of "xs ! k"] False k(1) by auto
    ultimately show ?thesis using t(5) [OF False] by blast
  qed
  then show ?thesis
    using ok t nw(1) by (simp add: system_ok_def stubs_installed_def)
qed

lemma system_tick:
  fixes s :: "'a kern_scheme"
  assumes ok: "system_ok im D xs stk s" and k: "k < length xs" "current_task s = Some (xs ! k)" and e: "has_entry stk s j"
    and n: "next_ready xs k s = Some n"
  obtains a t ws where "deliver im 32 None c s = Ret (Elsewhere a) t" "system_ok im D xs stk t" "switched D xs stk s k a t" "current_task t = Some n"
    "entries (mem t) (stk (xs ! k)) (j - frame_size s - 6) (preempted_words im (stk (xs ! k)) j c s)"
    "suspended D t (xs ! k) (stk (xs ! k)) (of_nat (j - frame_size s - 6)) ws" "ready (task_table t) (xs ! k)"
    "\<And>x. j \<le> x \<Longrightarrow> x < 1024 \<Longrightarrow> rd32 (mem t) (stk (xs ! k) + 4 * of_nat x) = rd32 (mem s) (stk (xs ! k) + 4 * of_nat x)"
proof -
  note d = system_okD [OF ok]
  have xk: "xs ! k \<in> set xs" using k(1) by simp
  have en: "entry_esp s = stk (xs ! k) + 4 * of_nat j" "22 \<le> j" "j \<le> 1024" using e k(2) by (simp_all add: has_entry_def)
  obtain l ws where nw: "n \<in> set xs" "ready (task_table s) n" "n \<noteq> xs ! k" "suspended D s n (stk n) l ws" "stk n \<noteq> stk (xs ! k)"
    by (rule next_waiting [OF ok k n]) (rule that)
  have run: "t_state (task_table s ! (xs ! k)) = 1" using ok k(2) by (auto simp: system_ok_def)
  obtain t where t: "deliver im 32 None c s = Ret (Elsewhere (ws ! 4)) t" "spaces D t" "sched_inv xs t" "current_task t = Some n"
    "reg_esp t = stk n + 4 * (l + 5)" "cr3 t = t_page_directory (task_table s ! n)"
    "entries (mem t) (stk (xs ! k)) (j - frame_size s - 6) (preempted_words im (stk (xs ! k)) j c s)"
    "\<exists>ws'. suspended D t (xs ! k) (stk (xs ! k)) (of_nat (j - frame_size s - 6)) ws'"
    "\<And>i h l' ws'. i \<noteq> xs ! k \<Longrightarrow> h \<noteq> stk (xs ! k) \<Longrightarrow> suspended D s i h l' ws' \<Longrightarrow> suspended D t i h l' ws'"
    "\<And>i. i < 32 \<Longrightarrow> t_state (task_table t ! i) =
       (if i = n then 1 else if i = xs ! k \<and> t_state (task_table s ! i) = 1 then 0 else t_state (task_table s ! i))"
    "\<And>i. t_page_directory (task_table t ! i) = t_page_directory (task_table s ! i)"
    "\<And>h. stack_page D t h = stack_page D s h" "\<And>a. \<not> in_frame (stk (xs ! k)) a \<Longrightarrow> mem t a = mem s a" "idt_st t = idt_st s"
    "\<exists>k. gdt_st t = tss_set_kernel_stack k (kernel_segments s)"
    "\<And>x. j \<le> x \<Longrightarrow> x < 1024 \<Longrightarrow> rd32 (mem t) (stk (xs ! k) + 4 * of_nat x) = rd32 (mem s) (stk (xs ! k) + 4 * of_nat x)"
    by (rule tick_switches [OF d(1,3) d(6) [OF xk] en d(4) k d(7) [OF xk] n nw(4,5) d(2)]) (rule that)
  obtain g where "gdt_st t = tss_set_kernel_stack g (kernel_segments s)" using t(15) by blast
  note seg = kernel_gdt [OF d(5) this]
  have b: "n < 32" "xs ! k < 32" using sched_inv_bound [OF d(4)] nw(1) xk by simp_all
  have st: "t_state (task_table t ! n) = 1" "ready (task_table t) (xs ! k)"
    "\<And>i. i \<noteq> xs ! k \<Longrightarrow> i \<noteq> n \<Longrightarrow> i < 32 \<Longrightarrow> t_state (task_table t ! i) = t_state (task_table s ! i)"
    using t(10) b run nw(3) by auto
  obtain ws' where me: "suspended D t (xs ! k) (stk (xs ! k)) (of_nat (j - frame_size s - 6)) ws'" using t(8) by blast
  then have sus: "\<exists>l ws. suspended D t (xs ! k) (stk (xs ! k)) l ws" by (intro exI)
  have sy: "system_ok im D xs stk t"
    by (rule system_ok_switched [OF ok k n t(2-4,6,9) _ st(1,3) t(11,12,14) seg(1)]) (simp_all add: sus)
  have "switched D xs stk s k (ws ! 4) t"
    using n nw(4) t(4-6,9,11,13) seg(2,3) st(3) unfolding switched_def by auto
  then show thesis using that [OF t(1) sy _ t(4,7) me st(2) t(16)] by blast
qed

lemma system_exit:
  fixes s :: "'a kern_scheme"
  assumes ok: "system_ok im D xs stk s" and k: "k < length xs" "current_task s = Some (xs ! k)" and r: "ring s = 0"
    and e: "reg_esp s = stk (xs ! k) + 4 * of_nat j" "4 \<le> j" "j < 1024" and n: "next_ready xs k s = Some n"
  obtains a t where "task_exit s = Ret a t" "system_ok im D xs stk t" "switched D xs stk s k a t" "current_task t = Some n"
proof -
  note d = system_okD [OF ok]
  have xk: "xs ! k \<in> set xs" using k(1) by simp
  obtain l ws where nw: "n \<in> set xs" "n \<noteq> xs ! k" "suspended D s n (stk n) l ws" "stk n \<noteq> stk (xs ! k)"
    by (rule next_waiting [OF ok k n]) (rule that)
  have on: "on_stack D s (stk (xs ! k)) (of_nat j)" using d(6) [OF xk] e unat_index [of j] by (simp add: on_stack_def)
  obtain t where t: "task_exit s = Ret (ws ! 4) t" "spaces D t" "sched_inv xs t" "current_task t = Some n"
    "reg_esp t = stk n + 4 * (l + 5)" "cr3 t = t_page_directory (task_table s ! n)" "dev_view t = dev_view s"
    "\<And>i h l' ws'. i \<noteq> xs ! k \<Longrightarrow> h \<noteq> stk (xs ! k) \<Longrightarrow> suspended D s i h l' ws' \<Longrightarrow> suspended D t i h l' ws'"
    "\<And>i. i < 32 \<Longrightarrow> t_state (task_table t ! i) = (if i = n then 1 else if i = xs ! k then 3 else t_state (task_table s ! i))"
    "\<And>i. t_page_directory (task_table t ! i) = t_page_directory (task_table s ! i)"
    "\<And>h. stack_page D t h = stack_page D s h" "\<And>a. \<not> in_frame (stk (xs ! k)) a \<Longrightarrow> mem t a = mem s a"
    "\<exists>k. gdt_st t = tss_set_kernel_stack k (gdt_st s)"
    by (rule task_exit_suspended [OF d(3) on d(4) k d(7) [OF xk] n nw(3,4)]) (rule that)
  have b: "n < 32" "xs ! k < 32" using sched_inv_bound [OF d(4)] nw(1) xk by simp_all
  have seg: "segments_ok t" "ring t = 0" "seg_ss (gdt_st t) = 0x10"
    using t(13) d(5) r by (auto simp: segments_ok_def ring_def tss_set_kernel_stack_def)
  have st: "t_state (task_table t ! n) = 1" "\<not> ready (task_table t) (xs ! k)"
    "\<And>i. i \<noteq> xs ! k \<Longrightarrow> i \<noteq> n \<Longrightarrow> i < 32 \<Longrightarrow> t_state (task_table t ! i) = t_state (task_table s ! i)"
    using t(9) b nw(2) by auto
  have idt: "idt_st t = idt_st s" using t(7) by (simp add: dev_view_def)
  have sy: "system_ok im D xs stk t"
    by (rule system_ok_switched [OF ok k n t(2-4,6,8) _ st(1,3) t(10,11) idt seg(1)]) (use st(2) in simp_all)
  have "switched D xs stk s k (ws ! 4) t"
    using n nw(3) t(4-6,8,10,12) seg(2,3) st(3) unfolding switched_def by auto
  then show thesis by (rule that [OF t(1) sy _ t(4)])
qed

lemma system_stays:
  fixes s :: "'a kern_scheme"
  assumes ok: "system_ok im D xs stk s" and k: "k < length xs" "current_task s = Some (xs ! k)" and e: "has_entry stk s j"
    and f: "iflag s = bit (c_eflags c) 9" and n: "next_ready xs k s = None"
  obtains t where "deliver im 32 None c s = Ret (Resumed c) t" "works D xs stk s t"
proof -
  note d = system_okD [OF ok]
  have xk: "xs ! k \<in> set xs" using k(1) by simp
  have en: "entry_esp s = stk (xs ! k) + 4 * of_nat j" "22 \<le> j" "j \<le> 1024" using e k(2) by (simp_all add: has_entry_def)
  obtain m con where m: "deliver im 32 None c s = Ret (Resumed c)
      (s\<lparr>mem := m, console := con, ports := ports s @ [(0x20, 0x20)], tick := tick s + 1\<rparr>)"
    "\<And>a. \<not> (in_frame (stk (xs ! k)) a \<and> unat a < unat (stk (xs ! k)) + 4 * j) \<Longrightarrow> m a = mem s a"
    by (rule tick_stays [OF d(1,3) d(6) [OF xk] en f d(4) k n d(2)]) (rule that)
  have "works D xs stk s (s\<lparr>mem := m, console := con, ports := ports s @ [(0x20, 0x20)], tick := tick s + 1\<rparr>)"
    by (rule stack_write_works [OF ok k(2) xk]) (use m(2) d(5) in \<open>simp_all add: segments_ok_def ring_def\<close>)
  then show thesis using m(1) by (intro that)
qed

lemma stub_exit_works:
  assumes ok: "system_ok im D xs stk s" "ring s = 0" and ex: "stub_exit s = Ret c t"
  shows "works D xs stk s t"
proof -
  obtain i where i: "current_task s = Some i" "i \<in> set xs" using ok(1) by (auto simp: system_ok_def)
  obtain e1 e2 e3 e4 e5 f g where t: "t = s\<lparr>reg_esp := e1, reg_ebp := e2, reg_ebx := e3, reg_esi := e4, reg_edi := e5, iflag := f, gdt_st := g\<rparr>"
    "tss g = tss (gdt_st s)" "seg_cs g AND 3 = 0 \<Longrightarrow> seg_ss g = seg_ss (gdt_st s)"
    by (rule stub_exit_same [OF ex]) (rule that)
  have "segments_ok t" using t system_okD(5) [OF ok(1)] ok(2) by (auto simp: segments_ok_def ring_def)
  then show ?thesis by (intro stack_write_works [OF ok(1) i]) (simp_all add: t(1))
qed

text \<open>A step lets the current task work, or it is a switch.\<close>

lemma pstep_kinds:
  assumes ok: "conf_ok im D xs stk x" and st: "pstep im D xs stk x y"
  shows "(\<exists>c. fst y = Runs c) \<and> works D xs stk (snd x) (snd y) \<or>
    (\<exists>k a. k < length xs \<and> current_task (snd x) = Some (xs ! k) \<and> fst y = At a \<and>
       switched D xs stk (snd x) k a (snd y) \<and> system_ok im D xs stk (snd y))"
  using st
proof cases
  case (Works s t c c')
  then show ?thesis by auto
next
  case (Starts a s t c)
  then show ?thesis by auto
next
  case (Resumes s c t)
  then show ?thesis using ok stub_exit_works [of im D xs stk s c t] by (auto simp: conf_ok_def)
next
  case (Ticks s c j a t)
  have sy: "system_ok im D xs stk s" using ok Ticks(1) by (simp add: conf_ok_def)
  obtain k where k: "k < length xs" "current_task s = Some (xs ! k)" using system_ok_current [OF sy] by metis
  have "next_ready xs k s \<noteq> None"
  proof
    assume n: "next_ready xs k s = None"
    show False by (rule system_stays [OF sy k Ticks(5) _ n, of c]) (use Ticks(3,4,6) in simp_all)
  qed
  then obtain n where n: "next_ready xs k s = Some n" by auto
  have "switched D xs stk s k a t \<and> system_ok im D xs stk t"
    by (rule system_tick [OF sy k Ticks(5) n, of c]) (use Ticks(6) in simp)
  then show ?thesis using k Ticks(1,2) by auto
next
  case (Stays s c j c' t)
  have sy: "system_ok im D xs stk s" using ok Stays(1) by (simp add: conf_ok_def)
  obtain k where k: "k < length xs" "current_task s = Some (xs ! k)" using system_ok_current [OF sy] by metis
  have n: "next_ready xs k s = None"
  proof (rule ccontr)
    assume "next_ready xs k s \<noteq> None"
    then obtain n where n: "next_ready xs k s = Some n" by auto
    show False by (rule system_tick [OF sy k Stays(5) n, of c]) (use Stays(6) in simp)
  qed
  have f: "iflag s = bit (c_eflags c) 9" using Stays(3,4) by simp
  obtain u where "deliver im 32 None c s = Ret (Resumed c) u" "works D xs stk s u"
    by (rule system_stays [OF sy k Stays(5) f n]) (rule that)
  then have "works D xs stk s t" using Stays(6) by simp
  then show ?thesis using Stays(1,2) by auto
next
  case (Exits s i j a t c)
  have sy: "system_ok im D xs stk s" using ok Exits(1) by (simp add: conf_ok_def)
  obtain k where k: "k < length xs" "current_task s = Some (xs ! k)" using system_ok_current [OF sy] by metis
  have e: "reg_esp s = stk (xs ! k) + 4 * of_nat j" using Exits(4,5) k(2) by simp
  have "next_ready xs k s \<noteq> None"
  proof
    assume "next_ready xs k s = None"
    then have "\<exists>u. task_exit s = Hang u" using task_exit_outcome [OF system_okD(4) [OF sy] k] by auto
    then show False using Exits(8) by auto
  qed
  then obtain n where n: "next_ready xs k s = Some n" by auto
  have "switched D xs stk s k a t \<and> system_ok im D xs stk t"
    by (rule system_exit [OF sy k Exits(3) e Exits(6,7) n]) (use Exits(8) in simp)
  then show ?thesis using k Exits(1,2) by auto
qed

lemma conf_ok_step:
  assumes "conf_ok im D xs stk x" "pstep im D xs stk x y"
  shows "conf_ok im D xs stk y"
  using pstep_kinds [OF assms] system_ok_works [of im D xs stk "snd x" "snd y"] assms(1)
  by (auto simp: conf_ok_def switched_def)

lemma conf_ok_steps: "(pstep im D xs stk)\<^sup>*\<^sup>* x y \<Longrightarrow> conf_ok im D xs stk x \<Longrightarrow> conf_ok im D xs stk y"
  by (induction rule: rtranclp_induct) (auto intro: conf_ok_step)

subsection \<open>A task while others run\<close>

lemma suspended_unique:
  assumes "suspended D s i f l ws" "suspended D s i f l' ws'"
  shows "l = l'" "ws ! 4 = ws' ! 4"
proof -
  have b: "unat l < 1024" "unat l' < 1024" and e: "f + 4 * l = f + 4 * l'" and w: "5 \<le> length ws" "5 \<le> length ws'"
    and v: "\<forall>k < length ws. rd32 (mem s) (f + 4 * (l + of_nat k)) = ws ! k"
      "\<forall>k < length ws'. rd32 (mem s) (f + 4 * (l' + of_nat k)) = ws' ! k"
    using assms by (auto simp: suspended_def)
  have "unat (4 * l) = 4 * unat l" "unat (4 * l') = 4 * unat l'" using b by (simp_all add: unat_word_ariths)
  then have "unat l = unat l'" using e by simp
  then show "l = l'" by (simp add: word_unat_eq_iff)
  then show "ws ! 4 = ws' ! 4" using v(1) [THEN spec, of 4] v(2) [THEN spec, of 4] w by simp
qed

text \<open>
  Task \<open>i\<close> waits at entry \<open>l\<close> of its stack page, whose contents are those of \<open>m\<close>, or it has just been switched to.
\<close>

definition parked :: "stub_image \<Rightarrow> u32 set \<Rightarrow> nat list \<Rightarrow> (nat \<Rightarrow> u32) \<Rightarrow> nat \<Rightarrow> u32 \<Rightarrow> u32 list \<Rightarrow> u32 \<Rightarrow> memory \<Rightarrow>
    place \<times> 'a kern_scheme \<Rightarrow> bool" where
  "parked im D xs stk i l ws pd m x \<longleftrightarrow> conf_ok im D xs stk x \<and> (\<forall>a. in_frame (stk i) a \<longrightarrow> mem (snd x) a = m a) \<and>
     t_page_directory (task_table (snd x) ! i) = pd \<and>
     (if current_task (snd x) = Some i
      then fst x = At (ws ! 4) \<and> reg_esp (snd x) = stk i + 4 * (l + 5) \<and> cr3 (snd x) = pd \<and> seg_ss (gdt_st (snd x)) = 0x10
      else ready (task_table (snd x)) i \<and> suspended D (snd x) i (stk i) l ws)"

lemma parked_step:
  assumes pk: "parked im D xs stk i l ws pd m x" and st: "pstep im D xs stk x y" and i: "i \<in> set xs" "current_task (snd x) \<noteq> Some i"
  shows "parked im D xs stk i l ws pd m y"
proof -
  obtain s t where xy: "s = snd x" "t = snd y" by simp
  have ok: "conf_ok im D xs stk x" "system_ok im D xs stk s" and pg: "\<And>a. in_frame (stk i) a \<Longrightarrow> mem s a = m a"
    and pd: "t_page_directory (task_table s ! i) = pd" and rd: "ready (task_table s) i" and su: "suspended D s i (stk i) l ws"
    using pk i(2) by (auto simp: parked_def conf_ok_def xy)
  have oky: "conf_ok im D xs stk y" by (rule conf_ok_step [OF ok(1) st])
  consider "works D xs stk s t" | k a where "k < length xs" "current_task s = Some (xs ! k)" "fst y = At a" "switched D xs stk s k a t"
    using pstep_kinds [OF ok(1) st] by (auto simp: xy)
  then show ?thesis
  proof cases
    case 1
    then have w: "task_table t = task_table s" "current_task t = current_task s" "\<And>a. in_frame (stk i) a \<Longrightarrow> mem t a = mem s a"
      "stack_page D t (stk i)"
      using i by (auto simp: works_def xy)
    have "suspended D t i (stk i) l ws" using w by (intro suspended_kept [OF su]) auto
    then show ?thesis using oky w pg pd rd i(2) by (simp add: parked_def xy [symmetric])
  next
    case 2
    have ne: "i \<noteq> xs ! k" using 2(2) i(2) xy by auto
    have sne: "stk i \<noteq> stk (xs ! k)" using system_okD(8) [OF ok(2) i(1), of "xs ! k"] ne 2(1) by auto
    then have mt: "mem t a = m a" if "in_frame (stk i) a" for a
      using 2(4) that pg [OF that] in_frame_unique [of "stk i" a] unfolding switched_def by metis
    have pdt: "t_page_directory (task_table t ! i) = pd" and ss: "seg_ss (gdt_st t) = 0x10"
      and sut: "suspended D t i (stk i) l ws"
      using 2(4) pd ne sne su by (auto simp: switched_def)
    obtain n l' ws' where n: "suspended D s n (stk n) l' ws'" "a = ws' ! 4" "current_task t = Some n" "reg_esp t = stk n + 4 * (l' + 5)"
      "cr3 t = t_page_directory (task_table s ! n)"
      using 2(4) by (auto simp: switched_def)
    have i32: "i < 32" using sched_inv_bound [OF system_okD(4) [OF ok(2)] i(1)] .
    show ?thesis
    proof (cases "n = i")
      case True
      then have "l = l'" "ws ! 4 = ws' ! 4" using suspended_unique [OF su] n(1) by auto
      then show ?thesis using oky mt pdt ss n True pd 2(3) by (simp add: parked_def xy [symmetric])
    next
      case False
      then have "ready (task_table t) i" using 2(4) ne i32 rd n(3) by (auto simp: switched_def)
      then show ?thesis using oky mt pdt sut n(3) False by (simp add: parked_def xy [symmetric])
    qed
  qed
qed

text \<open>The steps of the other tasks.\<close>

definition others_run :: "stub_image \<Rightarrow> u32 set \<Rightarrow> nat list \<Rightarrow> (nat \<Rightarrow> u32) \<Rightarrow> nat \<Rightarrow> place \<times> 'a kern_scheme \<Rightarrow> place \<times> 'a kern_scheme \<Rightarrow> bool" where
  "others_run im D xs stk i = (\<lambda>x y. pstep im D xs stk x y \<and> current_task (snd x) \<noteq> Some i)\<^sup>*\<^sup>*"

lemma others_run_parked:
  assumes "others_run im D xs stk i x y" "parked im D xs stk i l ws pd m x" "i \<in> set xs"
  shows "parked im D xs stk i l ws pd m y"
  using assms(1,2) unfolding others_run_def
  by (induction rule: rtranclp_induct) (auto intro: parked_step [OF _ _ assms(3)])

lemma preempted_return:
  assumes "suspended D t i g (of_nat l) ws" "entries (mem t) g l (preempted_words im g j c s)"
  shows "ws ! 4 = si_irq_ret im"
proof -
  have "5 \<le> length ws" and v: "\<forall>k < length ws. rd32 (mem t) (g + 4 * (of_nat l + of_nat k)) = ws ! k"
    using assms(1) by (auto simp: suspended_def)
  then have "ws ! 4 = rd32 (mem t) (g + 4 * of_nat (l + 4))" using v [THEN spec, of 4] by simp
  also have "\<dots> = preempted_words im g j c s ! 4" by (rule entries_nth [OF assms(2)]) (simp add: preempted_words_def Let_def)
  finally show ?thesis by (simp add: preempted_words_def Let_def)
qed

text \<open>A task that is switched to again finds the frame of its interrupt and leaves through the stub.\<close>

lemma parked_resumes:
  fixes s t u :: "'a kern_scheme"
  assumes run: "others_run im D xs stk i (At a, t) (p, u)" "current_task u = Some i" and i: "i \<in> set xs" "frame_aligned (stk i)"
    and pk: "parked im D xs stk i (of_nat (j - frame_size s - 6)) ws pd (mem t) (At a, t)"
    and e: "entry_esp s = stk i + 4 * of_nat j" "22 \<le> j" "j \<le> 1024" "iflag s = bit (c_eflags c) 9" "segments_ok s"
    and en: "entries (mem t) (stk i) (j - frame_size s - 6) (preempted_words im (stk i) j c s)"
  obtains w where "p = At (ws ! 4)" "stub_exit u = Ret c w" "program_view w = program_view s" "cr3 w = pd"
    "\<And>x. in_frame (stk i) x \<Longrightarrow> mem w x = mem t x"
proof -
  let ?g = "stk i" and ?l = "j - frame_size s - 6"
  have fs: "14 \<le> frame_size s" "frame_size s \<le> 16" by (simp_all add: frame_size_def)
  have u: "system_ok im D xs stk u" "\<And>x. in_frame ?g x \<Longrightarrow> mem u x = mem t x" "p = At (ws ! 4)" "reg_esp u = ?g + 4 * (of_nat ?l + 5)"
    "cr3 u = pd" "seg_ss (gdt_st u) = 0x10"
    using others_run_parked [OF run(1) pk i(1)] run(2) by (auto simp: parked_def conf_ok_def)
  have "?l + length (preempted_words im ?g j c s) \<le> 1024"
    using e(2,3) fs by (simp add: preempted_words_def Let_def frame_words_length frame_size_def)
  then have eu: "entries (mem u) ?g ?l (preempted_words im ?g j c s)" using en u(2) entries_cong [OF i(2), of ?l _ "mem u" "mem t"] by simp
  have "?l + 5 = j - frame_size s - 1" using e(2) fs by simp
  then have esp: "reg_esp u = ?g + 4 * of_nat (j - frame_size s - 1)" using u(4) by (metis of_nat_add of_nat_numeral)
  have ku: "kstack u ?g" using system_okD(3) [OF u(1)] system_okD(6) [OF u(1) i(1)] by (rule spaces_kstack)
  have ss: "ring s = 0 \<longrightarrow> seg_ss (gdt_st u) = seg_ss (gdt_st s)" using u(6) e(5) by (simp add: segments_ok_def)
  obtain w where w: "stub_exit u = Ret c w" "program_view w = program_view s" "mem w = mem u" "cr3 w = cr3 u"
    by (rule stub_exit_restores [OF ku e(2,3,1,4) esp eu ss]) (rule that)
  show thesis by (rule that [OF u(3) w(1,2)]) (simp_all add: w u(2,5))
qed

subsection \<open>Properties of the preemptive system\<close>

text \<open>
  C3 Preemption is transparent. A task is interrupted by the timer at an arbitrary point, in ring 0
  or ring 3, while another task is READY: the processor passes to the next READY task. However
  long the others then run, are preempted themselves and end, when the task is switched to
  again it goes on in the stub behind the call of the dispatcher, and from there the stub returns to
  the interrupted instruction with all its registers, flags, segments and stack pointer, in its
  own address space, with its kernel stack above the interrupt unchanged.
\<close>

theorem preempted_task_resumes:
  fixes s :: "'a kern_scheme"
  assumes "system_ok im D xs stk s" "k < length xs" "current_task s = Some (xs ! k)"
    and "has_entry stk s j" "iflag s" "bit (c_eflags c) 9" "next_ready xs k s = Some n"
  shows "\<exists>a t. deliver im 32 None c s = Ret (Elsewhere a) t \<and> current_task t = Some n \<and> system_ok im D xs stk t \<and>
    (\<forall>p u. others_run im D xs stk (xs ! k) (At a, t) (p, u) \<and> current_task u = Some (xs ! k) \<longrightarrow>
      p = At (si_irq_ret im) \<and>
      (\<exists>w. stub_exit u = Ret c w \<and> program_view w = program_view s \<and> cr3 w = cr3 s \<and>
        (\<forall>i. j \<le> i \<and> i < 1024 \<longrightarrow> rd32 (mem w) (stk (xs ! k) + 4 * of_nat i) = rd32 (mem s) (stk (xs ! k) + 4 * of_nat i))))"
proof -
  let ?i = "xs ! k" and ?g = "stk (xs ! k)" and ?l = "j - frame_size s - 6"
  have xk: "?i \<in> set xs" using assms(2) by simp
  note d = system_okD [OF assms(1)]
  have en: "entry_esp s = ?g + 4 * of_nat j" "22 \<le> j" "j \<le> 1024" "iflag s = bit (c_eflags c) 9"
    using assms(3-6) by (simp_all add: has_entry_def)
  have cr: "cr3 s = t_page_directory (task_table s ! ?i)" using assms(1,3) by (auto simp: system_ok_def)
  have al: "frame_aligned ?g" using d(6) [OF xk] by (simp add: stack_page_def)
  obtain a t ws where t: "deliver im 32 None c s = Ret (Elsewhere a) t" "system_ok im D xs stk t" "switched D xs stk s k a t"
    "current_task t = Some n" "entries (mem t) ?g ?l (preempted_words im ?g j c s)" "suspended D t ?i ?g (of_nat ?l) ws"
    "ready (task_table t) ?i"
    "\<And>x. j \<le> x \<Longrightarrow> x < 1024 \<Longrightarrow> rd32 (mem t) (?g + 4 * of_nat x) = rd32 (mem s) (?g + 4 * of_nat x)"
    by (rule system_tick [OF assms(1-4,7), of c]) (rule that)
  have ne: "n \<noteq> ?i" using next_waiting [OF assms(1-3,7)] by metis
  have "t_page_directory (task_table t ! ?i) = cr3 s" "ring t = 0" using t(3) cr by (auto simp: switched_def)
  then have pk: "parked im D xs stk ?i (of_nat ?l) ws (cr3 s) (mem t) (At a, t)"
    using t(2,4,6,7) ne by (simp add: parked_def conf_ok_def)
  have resumed: "p = At (si_irq_ret im) \<and> (\<exists>w. stub_exit u = Ret c w \<and> program_view w = program_view s \<and> cr3 w = cr3 s \<and>
      (\<forall>i. j \<le> i \<and> i < 1024 \<longrightarrow> rd32 (mem w) (?g + 4 * of_nat i) = rd32 (mem s) (?g + 4 * of_nat i)))"
    if ot: "others_run im D xs stk ?i (At a, t) (p, u)" "current_task u = Some ?i" for p u
  proof -
    obtain w where w: "p = At (ws ! 4)" "stub_exit u = Ret c w" "program_view w = program_view s" "cr3 w = cr3 s"
      "\<And>x. in_frame ?g x \<Longrightarrow> mem w x = mem t x"
      by (rule parked_resumes [OF ot xk al pk en d(5) t(5)]) (rule that)
    have "rd32 (mem w) (?g + 4 * of_nat i) = rd32 (mem s) (?g + 4 * of_nat i)" if "j \<le> i" "i < 1024" for i
      using entries_cong [OF al, of i "[rd32 (mem s) (?g + 4 * of_nat i)]" "mem w" "mem t"] w(5) t(8) [OF that] that(2) by simp
    then show ?thesis using w(1-4) preempted_return [OF t(6,5)] by blast
  qed
  show ?thesis using t(1,2,4) resumed by (intro exI [of _ a] exI [of _ t]) blast
qed

text \<open>Two tasks: the boot thread of a small machine, interrupted, and a task that has not run yet.\<close>

definition preemptible :: "kern \<Rightarrow> kern" where
  "preemptible s = (with_stubs s)\<lparr>iflag := True, gdt_st := (gdt_st s)\<lparr>seg_cs := 8, seg_data := 0x10, seg_ss := 0x10,
     tss := (tss (gdt_st s))\<lparr>ss0 := 0x10\<rparr>\<rparr>\<rparr>"

lemma preemptible_system:
  obtains s t f where "vmm_init small_kern = Ret () s" "task_create demo_symbols 0x104000 0 False (one_task s) = Ret (Some 1) t"
    "system_ok demo_stubs {cr3 t} [0, 1] (\<lambda>i. if i = 0 then 0 else f) (preemptible t)" "current_task (preemptible t) = Some 0"
    "has_entry (\<lambda>i. if i = 0 then 0 else f) (preemptible t) 0x200" "iflag (preemptible t)"
    "next_ready [0, 1] 0 (preemptible t) = Some 1" "suspended {cr3 t} (preemptible t) 1 f 1017 (first_frame demo_symbols 0x104000)"
proof -
  obtain s t f where t: "vmm_init small_kern = Ret () s" "task_create demo_symbols 0x104000 0 False (one_task s) = Ret (Some 1) t"
    "vm_ok t" "paging_on t" "sched_inv [0, 1] t" "current_task t = Some 0" "stack_at t (cr3 t) 0 0x200" "f \<noteq> 0"
    "frame_aligned f" "unat f + 4096 \<le> ram_top t" "\<not> walk_frame (mem t) (current_page_directory t) f"
    "t_esp (task_table t ! 1) = f + 4096 - 28" "t_page_directory (task_table t ! 1) = cr3 t" "ready (task_table t) 1"
    "t_page_directory (task_table t ! 0) = cr3 t"
    "\<And>k. k < 7 \<Longrightarrow> rd32 (mem t) (f + 4 * (1017 + of_nat k)) = first_frame demo_symbols 0x104000 ! k"
    "block_of f \<in> used_blocks t" "t_state (task_table t ! 0) = TASK_STATE_RUNNING"
    by (rule two_task_boot) (rule that)
  let ?u = "preemptible t" and ?stk = "\<lambda>i :: nat. if i = 0 then 0 else f"
  have u: "mem ?u = mem t" "pmm_st ?u = pmm_st t" "cr0 ?u = cr0 t" "cr3 ?u = cr3 t" "tlb ?u = tlb t" "current_task ?u = current_task t"
    "current_page_directory ?u = current_page_directory t" "task_table ?u = task_table t" "sched_view ?u = sched_view t"
    "handlers (idt_st ?u) ! 32 = Some Timer_callback" "reg_esp ?u = reg_esp t" "ring ?u = 0" "segments_ok ?u" "iflag ?u"
    by (simp_all add: preemptible_def with_stubs_def wired_def sched_view_def ring_def segments_ok_def)
  have im: "stubs_installed demo_stubs ?u"
    unfolding stubs_installed_def
    by (intro conjI demo_stubs_distinct exI [of _ 0] exI [of _ "idt_st t"]) (simp add: preemptible_def with_stubs_def)
  have cr: "current_page_directory t = cr3 t" using vm_okD(5) [OF t(3,4)] by simp
  have sp: "spaces {cr3 t} ?u" using spaces_single [OF t(3,4)] spaces_cong [OF u(1-5,7)] by simp
  have pg: "stack_page {cr3 t} ?u 0" "stack_page {cr3 t} ?u f"
    using t(7,9,11,17) vm_okD(2) [OF t(3)] cr by (simp_all add: stack_page_def stack_at_def u)
  have si: "sched_inv [0, 1] ?u" by (rule sched_inv_view [OF t(5) u(9)])
  have len: "1 < length (task_table t)" using t(5) by (simp add: sched_inv_def)
  have esp: "t_esp (task_table t ! 1) = f + 4 * 1017" using t(12) by simp
  have l7: "length (first_frame demo_symbols 0x104000) = 7" by (simp add: first_frame_def)
  have su: "suspended {cr3 t} ?u 1 f 1017 (first_frame demo_symbols 0x104000)"
    unfolding suspended_def using t(13,16) pg(2) len esp by (simp add: u l7)
  then have "system_ok demo_stubs {cr3 t} [0, 1] ?stk ?u"
    using im sp si pg t(6,8,13,15,18) unfolding system_ok_def by (auto simp: u)
  moreover have "has_entry ?stk ?u 0x200" using t(6,7) u(12) by (simp add: has_entry_def entry_esp_def u(6,11) stack_at_def)
  ultimately show thesis using t(1,2,6,14) su u(14) by (intro that [of s t f]) (simp_all add: u(6,8))
qed

lemma works_refl: "system_ok im D xs stk s \<Longrightarrow> works D xs stk s s"
  using system_okD [of im D xs stk s] by (simp add: works_def)

theorem preempted_task_resumes_witness:
  "\<exists>s t f a v u w. vmm_init small_kern = Ret () s \<and> task_create demo_symbols 0x104000 0 False (one_task s) = Ret (Some 1) t \<and>
     deliver demo_stubs 32 None demo_cpu (preemptible t) = Ret (Elsewhere a) v \<and> current_task v = Some 1 \<and>
     others_run demo_stubs {cr3 t} [0, 1] (\<lambda>i. if i = 0 then 0 else f) 0 (At a, v) (At (si_irq_ret demo_stubs), u) \<and>
     current_task u = Some 0 \<and> stub_exit u = Ret demo_cpu w \<and> program_view w = program_view (preemptible t)"
proof -
  obtain s t f where t: "vmm_init small_kern = Ret () s" "task_create demo_symbols 0x104000 0 False (one_task s) = Ret (Some 1) t"
    "system_ok demo_stubs {cr3 t} [0, 1] (\<lambda>i. if i = 0 then 0 else f) (preemptible t)" "current_task (preemptible t) = Some 0"
    "has_entry (\<lambda>i. if i = 0 then 0 else f) (preemptible t) 0x200" "iflag (preemptible t)"
    "next_ready [0, 1] 0 (preemptible t) = Some 1" "suspended {cr3 t} (preemptible t) 1 f 1017 (first_frame demo_symbols 0x104000)"
    by (rule preemptible_system) (rule that)
  let ?stk = "\<lambda>i :: nat. if i = 0 then 0 else f" and ?D = "{cr3 t}"
  have k: "0 < length [0, 1 :: nat]" "current_task (preemptible t) = Some ([0, 1] ! 0)" "bit (c_eflags demo_cpu) 9"
    using t(4) by (simp_all add: demo_cpu_def bit_simps)
  obtain a v where v: "deliver demo_stubs 32 None demo_cpu (preemptible t) = Ret (Elsewhere a) v" "current_task v = Some 1"
    "system_ok demo_stubs ?D [0, 1] ?stk v"
    and rest: "\<forall>p u. others_run demo_stubs ?D [0, 1] ?stk 0 (At a, v) (p, u) \<and> current_task u = Some 0 \<longrightarrow>
      p = At (si_irq_ret demo_stubs) \<and> (\<exists>w. stub_exit u = Ret demo_cpu w \<and> program_view w = program_view (preemptible t) \<and>
        cr3 w = cr3 (preemptible t) \<and>
        (\<forall>i. 0x200 \<le> i \<and> i < 1024 \<longrightarrow> rd32 (mem w) (4 * of_nat i) = rd32 (mem (preemptible t)) (4 * of_nat i)))"
    using preempted_task_resumes [OF t(3) k(1,2) t(5,6) k(3) t(7)] by (auto simp del: One_nat_def)
  have sw: "switched ?D [0, 1] ?stk (preemptible t) 0 a v" "ready (task_table v) 0"
    by (rule system_tick [OF t(3) k(1,2) t(5,7), of demo_cpu], use v(1) in simp)+
  obtain l ws where l: "suspended ?D (preemptible t) 1 f l ws" "a = ws ! 4" "reg_esp v = f + 4 * (l + 5)" "ring v = 0"
    using sw(1) t(7) by (auto simp: switched_def simp del: One_nat_def)
  note same = suspended_unique [OF t(8) l(1)]
  have a: "a \<noteq> si_irq_ret demo_stubs" using l(2) same(2) by (simp add: first_frame_def demo_symbols_def demo_stubs_def)
  have e: "reg_esp v = ?stk ([0, 1] ! 1) + 4 * of_nat 1022" using l(3) same(1) by simp
  have k1: "1 < length [0, 1 :: nat]" "current_task v = Some ([0, 1] ! 1)" "next_ready [0, 1] 1 v = Some 0"
    using v(2) sw(2) by simp_all
  obtain b u where u: "task_exit v = Ret b u" "current_task u = Some 0"
    by (rule system_exit [OF v(3) k1(1,2) l(4) e _ _ k1(3)]) (simp, simp, rule that)
  have s1: "pstep demo_stubs ?D [0, 1] ?stk (At a, v) (Runs demo_cpu, v)"
    using a works_refl [OF v(3)] by (rule pstep.Starts)
  have s2: "pstep demo_stubs ?D [0, 1] ?stk (Runs demo_cpu, v) (At b, u)"
    by (rule pstep.Exits [where i = 1 and j = 1022]) (use l(4) v(2) e u(1) in simp_all)
  have run: "others_run demo_stubs ?D [0, 1] ?stk 0 (At a, v) (At b, u)"
    unfolding others_run_def
    by (rule converse_rtranclp_into_rtranclp [where b = "(Runs demo_cpu, v)"], use s1 v(2) in simp)
      (rule r_into_rtranclp, use s2 v(2) in simp)
  obtain w where "At b = At (si_irq_ret demo_stubs)" "stub_exit u = Ret demo_cpu w" "program_view w = program_view (preemptible t)"
    using rest run u(2) by blast
  then show ?thesis using t(1,2) v(1,2) run u(2) by blast
qed

lemma system_invariant:
  fixes s :: "'a kern_scheme"
  assumes "conf_ok im D xs stk x" "(pstep im D xs stk)\<^sup>*\<^sup>* x (p, s)"
  shows "system_ok im D xs stk s \<and>
    (\<forall>c j. p = Runs c \<and> iflag s \<and> bit (c_eflags c) 9 \<and> has_entry stk s j \<longrightarrow>
      (\<exists>h t. deliver im 32 None c s = Ret h t \<and> system_ok im D xs stk t))"
proof -
  have sy: "system_ok im D xs stk s" using conf_ok_steps [OF assms(2,1)] by (simp add: conf_ok_def)
  obtain k where k: "k < length xs" "current_task s = Some (xs ! k)" using system_ok_current [OF sy] by metis
  have "\<exists>h t. deliver im 32 None c s = Ret h t \<and> system_ok im D xs stk t" if e: "iflag s" "bit (c_eflags c) 9" "has_entry stk s j" for c j
  proof (cases "next_ready xs k s")
    case None
    have f: "iflag s = bit (c_eflags c) 9" using e(1,2) by simp
    obtain t where "deliver im 32 None c s = Ret (Resumed c) t" "works D xs stk s t"
      by (rule system_stays [OF sy k e(3) f None]) (rule that)
    then show ?thesis using system_ok_works [OF sy] by blast
  next
    case (Some n)
    show ?thesis by (rule system_tick [OF sy k e(3) Some, of c]) blast
  qed
  then show ?thesis using sy by blast
qed

text \<open>
  C6 Whatever the tasks do within their contract, and whenever the timer interrupts them: in every
  state the system reaches the list of tasks is intact, exactly one task is RUNNING, in its own
  address space, every READY task waits on a stack page of its own with a frame that \<^verbatim>\<open>switch_task\<close> can pop, and the
  next timer interrupt is served without a fault and leads to such a state again.
\<close>

theorem preemptive_system_invariant:
  fixes s :: "'a kern_scheme"
  assumes "conf_ok im D xs stk x" "(pstep im D xs stk)\<^sup>*\<^sup>* x (p, s)"
  shows "system_ok im D xs stk s \<and>
    (\<forall>c j. p = Runs c \<and> iflag s \<and> bit (c_eflags c) 9 \<and> has_entry stk s j \<longrightarrow>
      (\<exists>h t. deliver im 32 None c s = Ret h t \<and> system_ok im D xs stk t))"
  by (rule system_invariant [OF assms])

theorem preemptive_system_invariant_witness:
  "\<exists>s t f a v. vmm_init small_kern = Ret () s \<and> task_create demo_symbols 0x104000 0 False (one_task s) = Ret (Some 1) t \<and>
     (pstep demo_stubs {cr3 t} [0, 1] (\<lambda>i. if i = 0 then 0 else f))\<^sup>*\<^sup>* (Runs demo_cpu, preemptible t) (At a, v) \<and>
     system_ok demo_stubs {cr3 t} [0, 1] (\<lambda>i. if i = 0 then 0 else f) v \<and> current_task v = Some 1"
proof -
  obtain s t f where t: "vmm_init small_kern = Ret () s" "task_create demo_symbols 0x104000 0 False (one_task s) = Ret (Some 1) t"
    "system_ok demo_stubs {cr3 t} [0, 1] (\<lambda>i. if i = 0 then 0 else f) (preemptible t)" "current_task (preemptible t) = Some 0"
    "has_entry (\<lambda>i. if i = 0 then 0 else f) (preemptible t) 0x200" "iflag (preemptible t)" "next_ready [0, 1] 0 (preemptible t) = Some 1"
    by (rule preemptible_system) (rule that)
  have k: "0 < length [0, 1 :: nat]" "current_task (preemptible t) = Some ([0, 1] ! 0)" "bit (c_eflags demo_cpu) 9"
    using t(4) by (simp_all add: demo_cpu_def bit_simps)
  let ?stk = "\<lambda>i :: nat. if i = 0 then 0 else f"
  obtain a v where v: "deliver demo_stubs 32 None demo_cpu (preemptible t) = Ret (Elsewhere a) v" "current_task v = Some 1"
    by (rule system_tick [OF t(3) k(1,2) t(5,7), of demo_cpu]) (rule that)
  have "(pstep demo_stubs {cr3 t} [0, 1] ?stk)\<^sup>*\<^sup>* (Runs demo_cpu, preemptible t) (At a, v)"
    using t(6) k(3) t(5) v(1) by (intro r_into_rtranclp pstep.Ticks)
  moreover from this have "system_ok demo_stubs {cr3 t} [0, 1] ?stk v"
    using preemptive_system_invariant [of demo_stubs "{cr3 t}" "[0, 1]" ?stk "(Runs demo_cpu, preemptible t)" "At a" v] t(3)
    by (simp add: conf_ok_def)
  ultimately show ?thesis using t(1,2) v(2) by blast
qed

end
