(* ===== verification/Ramdisk.thy ===== *)
theory Ramdisk
  imports Run
begin

text \<open>
  The boot with a RAM disk: the module the boot loader has put into memory is an archive; it is
  mounted, its file \<^verbatim>\<open>/hello\<close> is loaded into an address space of its own and becomes the third
  task, beside the two demo tasks (\<^verbatim>\<open>kernel_main\<close> in \<^verbatim>\<open>src/kernel.c\<close>, with \<^verbatim>\<open>src/tar.c\<close>, \<^verbatim>\<open>src/vfs.c\<close>,
  \<^verbatim>\<open>src/elf.c\<close> and \<^verbatim>\<open>src/task.c\<close>).
\<close>

subsection \<open>The archive in memory\<close>

text \<open>Where the contents of file \<open>i\<close> lie in the bytes of an archive.\<close>

lemma file_offset:
  assumes "\<forall>e \<in> set es. entry_ok e" "length (archive_bytes es) < 2 ^ 32" "i < length es"
  shows "\<exists>n. header_addr ptr es i + 512 = ptr + of_nat n \<and> n + length (a_data (es ! i)) \<le> length (archive_bytes es)"
  using assms
proof (induction es arbitrary: i ptr)
  case (Cons e es)
  let ?k = "512 + (length (a_data e) + padding (length (a_data e)))"
  have ok: "length (ustar_header e) = 512" using Cons.prems(1) by (auto simp: entry_ok_def length_ustar_header)
  have len: "length (archive_bytes (e # es)) = ?k + length (archive_bytes es)" using ok by simp
  show ?case
  proof (cases i)
    case 0
    then show ?thesis using len by (intro exI [of _ 512]) (simp add: header_addr_def)
  next
    case (Suc j)
    have "length (a_data e) + 512 < 2 ^ 32" "length (archive_bytes es) < 2 ^ 32" using Cons.prems(2) len by linarith+
    then obtain n where n: "header_addr (next_header ptr e) es j + 512 = next_header ptr e + of_nat n"
      "n + length (a_data (es ! j)) \<le> length (archive_bytes es)"
      using Cons.IH [of j "next_header ptr e"] Cons.prems Suc by auto
    have "next_header ptr e = ptr + of_nat ?k"
      using next_header_eq [of e ptr] \<open>length (a_data e) + 512 < 2 ^ 32\<close> by (simp add: add.assoc)
    then have "header_addr ptr (e # es) i + 512 = ptr + of_nat (?k + n)"
      using n(1) Suc by (simp add: header_addr_def add.assoc)
    then show ?thesis using n(2) len Suc by (intro exI [of _ "?k + n"]) simp
  qed
qed simp

text \<open>A boot module that is an archive of the files \<open>aes\<close>, page aligned as the boot loader puts it.\<close>

definition ramdisk :: "memory \<Rightarrow> u32 \<Rightarrow> u32 \<Rightarrow> entry list \<Rightarrow> bool" where
  "ramdisk m start fin aes \<longleftrightarrow> frame_aligned start \<and> start \<noteq> 0 \<and> unat fin = unat start + length (archive_bytes aes) \<and>
     (\<forall>i < length (archive_bytes aes). m (start + of_nat i) = archive_bytes aes ! i) \<and> names_ok aes \<and> length aes \<le> 128"

lemma ramdiskD:
  assumes "ramdisk m start fin aes"
  shows "frame_aligned start" "start \<noteq> 0" "unat fin = unat start + length (archive_bytes aes)"
    "\<And>i. i < length (archive_bytes aes) \<Longrightarrow> m (start + of_nat i) = archive_bytes aes ! i" "names_ok aes" "length aes \<le> 128"
    "unat start + length (archive_bytes aes) < 2 ^ 32" "fin = start + of_nat (length (archive_bytes aes))" "fin - start = of_nat (length (archive_bytes aes))"
    "\<forall>e \<in> set aes. entry_ok e" "\<And>i. i < length (archive_bytes aes) \<Longrightarrow> unat (start + of_nat i) = unat start + i"
proof -
  show d: "frame_aligned start" "start \<noteq> 0" "unat fin = unat start + length (archive_bytes aes)"
    "\<And>i. i < length (archive_bytes aes) \<Longrightarrow> m (start + of_nat i) = archive_bytes aes ! i" "names_ok aes" "length aes \<le> 128"
    using assms by (auto simp: ramdisk_def)
  show l: "unat start + length (archive_bytes aes) < 2 ^ 32" using d(3) unsigned_less [of fin, where 'a = nat] by simp
  show e: "fin = start + of_nat (length (archive_bytes aes))"
    using d(3) unat_add_of_nat [OF l] by (simp add: word_unat_eq_iff)
  then show "fin - start = of_nat (length (archive_bytes aes))" by simp
  show "\<forall>e \<in> set aes. entry_ok e" using d(5) by (simp add: names_ok_def)
  show "unat (start + of_nat i) = unat start + i" if "i < length (archive_bytes aes)" for i
    using that l by (intro unat_add_of_nat) simp
qed

lemma disk_reserved:
  assumes b: "booted mbi_addr es (Some (start, fin)) s" and r: "ramdisk (mem s) start fin aes" and i: "i < length (archive_bytes aes)"
  shows "block_of (start + of_nat i) \<in> reserved_blocks im es (boot_modules mbi_addr s)"
proof -
  let ?mbi = "read_multiboot_info (mem s) mbi_addr" and ?n = "length (archive_bytes aes)"
  note d = ramdiskD [OF r] and f = bootedD(5) [OF b refl]
  have at: "mbi_flags ?mbi AND 8 \<noteq> 0" "mbi_mods_count ?mbi \<noteq> 0" "mod_start (mem s) (mbi_mods_addr ?mbi) 0 = start"
    "mod_end (mem s) (mbi_mods_addr ?mbi) 0 = fin"
    using bootedD(4) [OF b] by (auto simp: initrd_at_def read_multiboot_info_def mod_start_def mod_end_def)
  let ?F = "\<lambda>i. reserved_range (mod_start (mem s) (mbi_mods_addr ?mbi) (of_nat i))
      (mod_end (mem s) (mbi_mods_addr ?mbi) (of_nat i) - mod_start (mem s) (mbi_mods_addr ?mbi) (of_nat i))"
  have "0 \<in> {..<unat (mbi_mods_count ?mbi)}" using at(2) by (simp add: unat_gt_0)
  from UN_upper [OF this, of ?F] have sub: "reserved_range start (fin - start) \<subseteq> boot_modules mbi_addr s"
    using at(1,3,4) by (simp add: module_blocks_def)
  have n: "unat start + ?n \<le> 4096 * ram_blocks es" "ram_blocks es \<le> 0x40000" using d(3) f bootedD(8) [OF b] by simp_all
  then have "?n + 4095 < 2 ^ 32" by simp
  then have "unat (fin - start + 4095) = ?n + 4095"
    using unat_of_nat [of "?n + 4095", where 'a = 32] by (simp add: d(9) take_bit_eq_mod)
  moreover have "(unat start + i) div 4096 = unat start div 4096 + i div 4096"
    by (subst frame_alignedD [OF d(1)]) simp
  moreover have "i div 4096 < (?n + 4095) div 4096"
  proof -
    have "i div 4096 \<le> (?n - 1) div 4096" using i by (intro div_le_mono) simp
    moreover have "?n + 4095 = ?n - 1 + 1 * 4096" using i by simp
    then have "(?n + 4095) div 4096 = (?n - 1) div 4096 + 1" by (simp only: div_mult_self1)
    ultimately show ?thesis by simp
  qed
  ultimately have "block_of (start + of_nat i) \<in> reserved_range start (fin - start)"
    unfolding reserved_range_def d(11) [OF i] by simp
  moreover have "(unat start + i) div 4096 < ram_blocks es"
    using i n(1) by (simp add: less_mult_imp_div_less)
  ultimately show ?thesis using sub d(11) [OF i] by (auto simp: reserved_blocks_def spare_blocks_def)
qed

subsection \<open>Mounting it\<close>

lemma archive_bytes_pos: "0 < length (archive_bytes es)"
  by (induction es) simp_all

lemma mount_disk:
  fixes v :: "'a fs_scheme"
  assumes ok: "vm_ok v" and un: "untouched B m v" and r: "ramdisk m start fin aes"
    and dk: "\<And>i. i < length (archive_bytes aes) \<Longrightarrow> block_of (start + of_nat i) \<in> B" and nd: "length (tar_nodes v) = 128"
  obtains w where "mount_initrd start fin v = Ret () w" "mounted v start aes w"
proof -
  note d = ramdiskD [OF r]
  have tr: "translate v (start + of_nat i) = Some (start + of_nat i)" "mem v (start + of_nat i) = archive_bytes aes ! i"
    if "i < length (archive_bytes aes)" for i
    using used_translate [OF ok] untouchedD(1,3) [OF un dk [OF that]] d(4) [OF that] by simp_all
  define f where "f = puts '' byte[0]=0x'' o (terminal_writedec (fin - start) o (puts '' size='' o (terminal_writehex start o puts ''[DBG] tar_init addr=0x'')))"
  define g where "g = puts ''\<newline>'' o terminal_writehex (ucast (mem v start))"
  let ?s = "print g (print f v)"
  have sys: "same_system v ?s" using same_system_trans [OF same_system_updates(1) same_system_updates(1)] .
  have "reads v start (archive_bytes aes)" using tr by (simp add: reads_def load8_def)
  then have "archive_at v (start + of_nat (length (archive_bytes aes))) start aes"
    using d(7,10) by (intro archive_bytes_at) simp_all
  then have "archive_at ?s (start + (fin - start)) start aes" using archive_at_cong [OF sys] by (simp add: d(8))
  moreover have "\<forall>e \<in> set aes. length (clean_name (a_name e)) < 128" using d(10) entry_ok_clean by blast
  ultimately obtain w where w: "tar_init start (fin - start) ?s = Ret Tar_root w" "mounted ?s start aes w"
    using tar_init_mounted [of ?s start "fin - start" aes] d(6) nd by auto
  have "start < fin" using d(3) archive_bytes_pos [of aes] by (simp add: word_less_nat_alt)
  moreover have "kload8 start (print f v) = Ret (mem v start) (print f v)"
    using tr(1) [of 0] archive_bytes_pos [of aes] by (simp add: kload8_mapped)
  ultimately have "mount_initrd start fin v = Ret () w"
    using d(2) w(1) unfolding mount_initrd_def Let_def by (simp add: f_def g_def comp_assoc)
  moreover have "mounted v start aes w" using w(2) same_system_trans [OF sys] by (auto simp: mounted_def)
  ultimately show thesis by (rule that)
qed

text \<open>Whatever happens to the rest of the system, the files stay found and readable.\<close>

lemma mounted_more:
  assumes "mounted s a aes w" "kern.more t = kern.more w"
  shows "mounted t a aes t"
proof -
  have "tar_nodes t = tar_nodes w \<and> tar_file_count t = tar_file_count w \<and> tar_root t = tar_root w \<and> fs_root t = fs_root w"
    using assms(2) by (cases t; cases w) simp
  then show ?thesis using assms(1) by (simp add: mounted_def)
qed

lemma disk_file:
  fixes t :: "'a fs_scheme"
  assumes m: "mounted t start aes t" and r: "ramdisk m start fin aes" and i: "i < length aes"
    and dk: "\<forall>k < length (archive_bytes aes). data_at t (start + of_nat k) \<and> mem t (start + of_nat k) = m (start + of_nat k)"
  shows "file_at t (node_at (Tar_node i) t) (a_data (aes ! i))"
    "\<And>k. k < length (a_data (aes ! i)) \<Longrightarrow> \<exists>n < length (archive_bytes aes). fs_impl (node_at (Tar_node i) t) + of_nat k = start + of_nat n"
proof -
  note d = ramdiskD [OF r]
  have l32: "length (archive_bytes aes) < 2 ^ 32" using d(7) by simp
  obtain n where n: "header_addr start aes i + 512 = start + of_nat n" "n + length (a_data (aes ! i)) \<le> length (archive_bytes aes)"
    using file_offset [OF d(10) l32 i] by blast
  have node: "node_at (Tar_node i) t = node_of (header_addr start aes i) (aes ! i)"
    using mounted_node [OF m i] by (simp add: node_at_def)
  have "reads (t\<lparr>mem := m, cr0 := 0\<rparr>) start (archive_bytes aes)"
    using d(4) by (simp add: reads_def load8_def translate_off paging_on_def)
  then have "archive_at (t\<lparr>mem := m, cr0 := 0\<rparr>) (start + of_nat (length (archive_bytes aes))) start aes"
    using d(7,10) by (intro archive_bytes_at) simp_all
  from archive_data [OF this i] have bytes: "m (start + of_nat (n + k)) = a_data (aes ! i) ! k" if "k < length (a_data (aes ! i))" for k
    using that unfolding reads_def n(1) by (simp add: load8_def translate_off paging_on_def add.assoc)
  show "\<exists>n < length (archive_bytes aes). fs_impl (node_at (Tar_node i) t) + of_nat k = start + of_nat n"
    if "k < length (a_data (aes ! i))" for k
    using that n by (intro exI [of _ "n + k"]) (simp add: node add.assoc)
  have "data_at t (fs_impl (node_at (Tar_node i) t) + of_nat k) \<and> mem t (fs_impl (node_at (Tar_node i) t) + of_nat k) = a_data (aes ! i) ! k"
    if "k < length (a_data (aes ! i))" for k
    using dk [rule_format, of "n + k"] bytes [OF that] that n by (simp add: node add.assoc)
  then show "file_at t (node_at (Tar_node i) t) (a_data (aes ! i))"
    using n(2) l32 by (simp add: file_at_def node)
qed

subsection \<open>A task beside a loaded program\<close>

text \<open>
  Creating a task maps its stack page \<open>f\<close> onto itself in a table that the directory \<open>pd\<close> of a loaded
  program shares, so \<open>pd\<close> sees the page too and is otherwise as it was.
\<close>

lemma staged_entry:
  fixes t u :: "'a sys_scheme"
  assumes st: "staged old pd t" and u: "vm_ok u" "paging_on u" "current_page_directory u = old"
    and f: "frame_aligned f" "block_of f \<notin> used_blocks t" "used_blocks u = insert (block_of f) (used_blocks t)" "ram_top u = ram_top t"
      "unat f + 4096 \<le> ram_top t"
    and m: "\<forall>a. \<not> in_frame f a \<longrightarrow> mem u a = wr32 (frame_of (pde_of (mem t) old (pdx f)) + 4 * ptx f) (f OR 3) (mem t) a"
  shows "staged old pd u" "page_walk (mem u) pd a = (if vpn a = vpn f then Some (f OR 3) else page_walk (mem t) pd a)"
    "\<And>a. resident old pd t a \<Longrightarrow> resident old pd u a \<and> mem u a = mem t a" "\<not> walk_frame (mem u) pd f"
proof -
  let ?A = "switch_directory pd t"
  define tab where "tab = frame_of (pde_of (mem t) old (pdx f))"
  define m1 where "m1 = wr32 (tab + 4 * ptx f) (f OR 3) (mem t)"
  have d: "dual old ?A" using st by (simp add: staged_def)
  note dd = dualD [OF d, simplified]
  have wfp: "pd_wf (mem t) pd (used_blocks t)" using vm_okD(3) [OF dd(1)] by simp
  have po: "pde_of (mem t) old (pdx f) AND 1 \<noteq> 0" using dd(9) [of f] f(5) by simp
  have pp: "pde_of (mem t) pd (pdx f) = pde_of (mem t) old (pdx f)" using dd(8) [of "pdx f"] po by simp
  note wp = write_pte [OF wfp, where va = f and v = "f OR 3", unfolded pp, OF po, folded tab_def m1_def]
  note wo = write_pte [OF dd(3), where va = f and v = "f OR 3", OF po, folded tab_def m1_def]
  have out: "mem u a = m1 a" if "\<not> in_frame f a" for a using m that by (simp add: m1_def tab_def)
  have alp: "frame_aligned pd" and alo: "frame_aligned old" using pd_wfD(1) [OF wfp] dd(6) by simp_all
  have fw: "\<not> walk_frame m1 pd f" using walk_frame_used [OF wp(2), of f] f(2) by auto
  have fo: "\<not> walk_frame m1 old f" using walk_frame_used [OF wo(2), of f] f(2) by auto
  have same: "mem u a = m1 a" if "walk_frame m1 d g" "in_frame g a" "\<not> walk_frame m1 d f" for d g a
    using that in_frame_unique [of g a f] by (intro out) auto
  have look: "page_walk (mem u) pd a = page_walk m1 pd a" for a by (rule page_walk_same [OF alp same [OF _ _ fw]])
  then show pw: "page_walk (mem u) pd a = (if vpn a = vpn f then Some (f OR 3) else page_walk (mem t) pd a)" for a
    using wp(3) [of a] f(1) by (simp add: flag_or_frame)
  have pdep: "pde_of (mem u) pd i = pde_of (mem t) pd i" if i: "unat i < 1024" for i
    using rd32_entry_cong [OF alp i, of "mem u" m1] same [OF _ _ fw, of pd] wp(1) [OF i] by (simp add: walk_frame_def)
  have pdeo: "pde_of (mem u) old i = pde_of (mem t) old i" if i: "unat i < 1024" for i
    using rd32_entry_cong [OF alo i, of "mem u" m1] same [OF _ _ fo, of old] wo(1) [OF i] by (simp add: walk_frame_def)
  have wfe: "walk_frame (mem u) pd g = walk_frame (mem t) pd g" "walk_frame (mem u) old g = walk_frame (mem t) old g" for g
    using pdep pdeo by (auto simp: walk_frame_def)
  show "\<not> walk_frame (mem u) pd f" using walk_frame_used [OF wfp, of f] f(2) wfe(1) by auto
  have "pd_wf (mem u) pd (used_blocks u)"
    using pd_wf_mono [OF pd_wf_cong [OF wfp pdep], of "used_blocks u"] f(3) by auto
  moreover have "\<exists>pte. page_walk (mem u) pd a = Some pte \<and> frame_of pte = frame_of a" if "unat a < ram_top u" for a
  proof (cases "vpn a = vpn f")
    case True
    then show ?thesis using pw f(1) vpn_iff_frame [of a f] by (simp add: frame_or_flags frame_of_aligned)
  next
    case False
    then show ?thesis using pw vm_okD(6) [OF dd(1)] dd(2) that f(4) by (simp add: ram_window_def)
  qed
  ultimately have "vm_ok (switch_directory pd u)"
    using vm_okD(1,2) [OF u(1)] by (simp add: vm_ok_def ram_window_def tlb_coherent_def)
  moreover have "pde_of (mem u) pd i = pde_of (mem u) old i" if "unat i < 1024" "pde_of (mem u) old i AND 1 \<noteq> 0" for i
    using that dd(8) pdep pdeo by simp
  moreover have "pde_of (mem u) old (pdx a) AND 1 \<noteq> 0" if "unat a < ram_top u" for a using that dd(9) pdeo f(4) by simp
  ultimately have "dual old (switch_directory pd u)"
    using u(2) vm_okD(3) [OF u(1)] u(3) dd(4,5) wfe by (simp add: dual_def)
  then show "staged old pd u" using u by (simp add: staged_def)
  show "resident old pd u a \<and> mem u a = mem t a" if a: "resident old pd t a" for a
  proof -
    have wt: "walk_frame (mem t) pd tab" using po pp by (auto simp: walk_frame_def tab_def intro!: exI [of _ "pdx f"])
    have r: "block_of a \<in> used_blocks t" "\<not> walk_frame (mem t) pd (frame_of a)" "frame_of a \<noteq> old" using a by (auto simp: resident_def)
    have "frame_of a \<noteq> f" using r(1) f(2) block_of_frame [of a] by auto
    moreover have "frame_of a \<noteq> tab" using r(2) wt by auto
    then have "m1 a = mem t a"
      unfolding m1_def by (intro wr32_entry_outside) (simp_all add: in_frame_def tab_def)
    ultimately show ?thesis using out [of a] r wfe f(3) by (simp add: resident_def in_frame_def)
  qed
qed

lemma staged_cong:
  assumes "mem t = mem s" "cr0 t = cr0 s" "cr3 t = cr3 s" "tlb t = tlb s" "pmm_st t = pmm_st s"
    "current_page_directory t = current_page_directory s"
  shows "staged old pd t = staged old pd s"
  using vm_ok_cong [OF assms] dual_cong [of "switch_directory pd t" "switch_directory pd s" old] assms
  by (simp add: staged_def paging_on_def)

lemma staged_spaces:
  assumes "staged old pd t"
  shows "spaces {old, pd} t" "pd \<noteq> old" "cr3 t = old" "current_page_directory t = old"
proof -
  have s: "current_page_directory t = old" "vm_ok t" "paging_on t" "dual old (switch_directory pd t)" using assms by (auto simp: staged_def)
  note dd = dualD [OF s(4), simplified]
  have "space_ok pd t" using vm_ok_space [OF dd(1)] dd(2) space_ok_cong [of "switch_directory pd t" t pd] by simp
  moreover have c: "cr3 t = old" using vm_okD(5) [OF s(2,3)] s(1) by simp
  ultimately show "spaces {old, pd} t" using s vm_ok_space [OF s(2,3)] by (simp add: spaces_def)
  show "pd \<noteq> old" using dd(4) by (auto simp: walk_frame_def)
  show "cr3 t = old" "current_page_directory t = old" using c s(1) .
qed

lemma resident_stack:
  assumes "staged old pd t" "resident old pd t f" "frame_aligned f"
  shows "stack_page {old, pd} t f"
  using assms staged_data [OF assms(1,2)] staged_spaces(4) [OF assms(1)]
  by (auto simp: stack_page_def resident_def data_at_def frame_of_aligned)

text \<open>A task that waits keeps its stack page while a program is loaded.\<close>

lemma fresh_at_data:
  assumes "fresh_at syms s i f dir entry ke" "in_frame f a"
  shows "data_at s a"
  using fresh_atD(7,8) [OF assms(1)] assms(2) block_of_frame [of a] by (auto simp: data_at_def in_frame_def)

lemma fresh_at_loaded:
  assumes fr: "fresh_at syms s i f dir entry ke" and st: "staged old pd t" and tt: "task_table t = task_table s"
    and res: "\<And>a. data_at s a \<Longrightarrow> resident old pd t a" and m: "\<And>a. in_frame f a \<Longrightarrow> mem t a = mem s a"
  shows "fresh_at syms t i f dir entry ke" "resident old pd t f"
proof -
  note d = fresh_atD [OF fr]
  have "in_frame f f" using d(6) by (simp add: in_frame_def frame_of_aligned)
  then show r: "resident old pd t f" using res fresh_at_data [OF fr] by blast
  have df: "data_at t f" using staged_data [OF st r] .
  have "rd32 (mem t) (f + 4 * (1017 + of_nat k)) = rd32 (mem s) (f + 4 * (1017 + of_nat k))" if "k < 7" for k
  proof (rule rd32_entry_cong [OF d(6)])
    show "unat (1017 + of_nat k :: u32) < 1024" using that by (simp add: unat_plus_small unat_of_nat)
  qed (rule m)
  then show "fresh_at syms t i f dir entry ke"
    using d df unfolding fresh_at_def Let_def tt by (simp add: data_at_def frame_of_aligned)
qed

subsection \<open>Spawning the program\<close>

text \<open>An executable that can be loaded above the address \<open>base\<close>, and the pages it needs.\<close>

definition segments_of :: "u8 list \<Rightarrow> Elf32_Phdr list" where
  "segments_of data = load_list data (decode_ehdr (take 52 data)) [0..<unat (e_phnum (decode_ehdr (take 52 data)))]"

definition program_pages :: "u8 list \<Rightarrow> u32 list" where
  "program_pages data = concat (map segment_pages (segments_of data))"

definition program_ok :: "nat \<Rightarrow> u8 list \<Rightarrow> bool" where
  "program_ok base data \<longleftrightarrow> (let ehdr = decode_ehdr (take 52 data) in
     52 \<le> length data \<and> elf_check ehdr = None \<and>
     (\<forall>i \<in> {0..<unat (e_phnum ehdr)}. unat (phdr_off ehdr i) + 32 \<le> length data) \<and>
     (\<forall>ph \<in> set (segments_of data). unat (p_vaddr ph) + unat (p_memsz ph) + 4095 < 2 ^ 32 \<and> unat (p_filesz ph) \<le> unat (p_memsz ph) \<and>
        unat (p_offset ph) + unat (p_filesz ph) \<le> length data \<and> base \<le> unat (frame_of (p_vaddr ph))) \<and>
     distinct (program_pages data))"

text \<open>
  The program is in memory: every byte of its segments is mapped for ring 3 under \<open>pd\<close>, to a byte
  outside the blocks \<open>U\<close> and the page tables that holds what the file says.
\<close>

definition program_loaded :: "u32 \<Rightarrow> u32 \<Rightarrow> nat set \<Rightarrow> u8 list \<Rightarrow> 'a sys_scheme \<Rightarrow> bool" where
  "program_loaded old pd U data s \<longleftrightarrow> (\<forall>ph \<in> set (segments_of data). \<forall>a. frame_of a \<in> set (segment_pages ph) \<longrightarrow>
     has_byte old pd U s a (segment_byte data ph a))"

text \<open>A local variable of \<^verbatim>\<open>elf_load\<close>, in reserved memory beside the archive.\<close>

definition kernel_local :: "nat set \<Rightarrow> u32 \<Rightarrow> u32 \<Rightarrow> u32 \<Rightarrow> nat \<Rightarrow> bool" where
  "kernel_local B start fin a n \<longleftrightarrow> (\<forall>i < n. block_of (a + of_nat i) \<in> B \<and> (a + of_nat i < start \<or> fin \<le> a + of_nat i))"

lemma load_program:
  fixes x :: "'a fs_scheme"
  assumes ok: "vm_ok x" "paging_on x" and un: "untouched B m x" and r: "ramdisk m start fin aes" and mt: "mounted x start aes x"
    and dk: "\<And>k. k < length (archive_bytes aes) \<Longrightarrow> block_of (start + of_nat k) \<in> B"
    and fi: "i < length aes" "strip (clean_name (a_name (aes ! i))) = name" "plain (clean_name (a_name (aes ! i)))"
      "name \<noteq> []" "length name \<le> 127" "\<forall>j < i. strip (clean_name (a_name (aes ! j))) \<noteq> name"
    and lo: "kernel_local B start fin ehdr_addr 52" "kernel_local B start fin phdr_addr 32"
    and pr: "program_ok (ram_top x) (a_data (aes ! i))" and fb: "2 * length (program_pages (a_data (aes ! i))) + 1 \<le> free_blocks x"
  obtains t pd where "elf_load (47 # name @ [0]) ehdr_addr phdr_addr x = Ret (Some (e_entry (decode_ehdr (take 52 (a_data (aes ! i)))), pd)) t"
    "staged (current_page_directory x) pd t"
    "t = x\<lparr>mem := mem t, tlb := tlb t, pmm_st := pmm_st t, iflag := iflag x \<or> segments_of (a_data (aes ! i)) \<noteq> []\<rparr>"
    "program_loaded (current_page_directory x) pd (used_blocks x) (a_data (aes ! i)) t"
    "\<And>a. data_at x a \<Longrightarrow> resident (current_page_directory x) pd t a"
    "\<And>a. data_at x a \<Longrightarrow> block_of a \<notin> B \<Longrightarrow> mem t a = mem x a"
    "pd \<noteq> 0" "used_blocks x \<subseteq> used_blocks t" "ram_top t = ram_top x"
    "free_blocks x \<le> free_blocks t + 2 * length (program_pages (a_data (aes ! i))) + 1"
proof -
  let ?d = "a_data (aes ! i)" and ?nd = "node_at (Tar_node i) x"
  let ?e = "decode_ehdr (take 52 ?d)"
  note d = ramdiskD [OF r]
  have da: "data_at x a" if "block_of a \<in> B" for a using untouchedD(1,2) [OF un that] by (simp add: data_at_def)
  have dm: "data_at x (start + of_nat k) \<and> mem x (start + of_nat k) = m (start + of_nat k)" if "k < length (archive_bytes aes)" for k
    using da [OF dk [OF that]] untouchedD(3) [OF un dk [OF that]] by simp
  then have "\<forall>k < length (archive_bytes aes). data_at x (start + of_nat k) \<and> mem x (start + of_nat k) = m (start + of_nat k)" by blast
  note df = disk_file [OF mt r fi(1) this]
  have inside: "start \<le> fs_impl ?nd + of_nat k \<and> fs_impl ?nd + of_nat k < fin" if "k < length ?d" for k
    using df(2) [OF that] d(3,11) by (auto simp: word_le_nat_alt word_less_nat_alt)
  have loc: "local_at x ?nd ?d a n" if "kernel_local B start fin a n" for a n
    unfolding local_at_def
  proof (intro allI impI conjI)
    fix k assume k: "k < n"
    show "data_at x (a + of_nat k)" using that k da by (simp add: kernel_local_def)
    fix j assume "j < length ?d"
    then show "a + of_nat k \<noteq> fs_impl ?nd + of_nat j" using inside [of j] that k by (auto simp: kernel_local_def)
  qed
  have find: "find_node_by_path call_finddir (47 # name @ [0]) x = Some (Some (Tar_node i))"
    by (rule mounted_find [OF mt d(5) fi])
  have p: "52 \<le> length ?d" "elf_check ?e = None" "\<forall>i \<in> {0..<unat (e_phnum ?e)}. unat (phdr_off ?e i) + 32 \<le> length ?d"
    "\<forall>ph \<in> set (segments_of ?d). segment_ok x ?d ph" "distinct (concat (map segment_pages (segments_of ?d)))"
    "2 * length (concat (map segment_pages (segments_of ?d))) + 1 \<le> free_blocks x"
    using pr fb by (simp_all add: program_ok_def Let_def segment_ok_def program_pages_def)
  obtain t pd where t: "elf_load (47 # name @ [0]) ehdr_addr phdr_addr x = Ret (Some (e_entry ?e, pd)) t"
    "staged (current_page_directory x) pd t"
    "t = x\<lparr>mem := mem t, tlb := tlb t, pmm_st := pmm_st t, iflag := iflag x \<or> segments_of ?d \<noteq> []\<rparr>"
    "\<And>ph a. ph \<in> set (segments_of ?d) \<Longrightarrow> frame_of a \<in> set (segment_pages ph) \<Longrightarrow>
       has_byte (current_page_directory x) pd (used_blocks x) t a (segment_byte ?d ph a)"
    "\<And>a. data_at x a \<Longrightarrow> resident (current_page_directory x) pd t a" "block_of pd \<notin> used_blocks x"
    "\<And>a. data_at x a \<Longrightarrow> a \<notin> (\<lambda>i. ehdr_addr + of_nat i) ` {..<52} \<Longrightarrow> a \<notin> (\<lambda>i. phdr_addr + of_nat i) ` {..<32} \<Longrightarrow> mem t a = mem x a"
    "used_blocks x \<subseteq> used_blocks t" "ram_top t = ram_top x"
    "free_blocks x \<le> free_blocks t + 2 * length (concat (map segment_pages (segments_of ?d))) + 1"
    by (rule elf_load_spec [OF ok find df(1) loc [OF lo(1)] loc [OF lo(2)] p(1) refl p(2,3) segments_of_def p(4-6)]) (rule that)
  have "mem t a = mem x a" if "data_at x a" "block_of a \<notin> B" for a
    using that lo by (intro t(7)) (auto simp: kernel_local_def)
  moreover have "pd \<noteq> 0" using t(6) vm_okD(2) [OF ok(1)] by auto
  ultimately show thesis
    using t(1-5,8-10) by (intro that [of pd t]) (auto simp: program_loaded_def program_pages_def)
qed

text \<open>The file the kernel looks for.\<close>

definition hello_at :: "entry list \<Rightarrow> nat \<Rightarrow> bool" where
  "hello_at aes i \<longleftrightarrow> i < length aes \<and> plain (clean_name (a_name (aes ! i))) \<and>
     strip (clean_name (a_name (aes ! i))) = map of_char ''hello'' \<and>
     (\<forall>j < i. strip (clean_name (a_name (aes ! j))) \<noteq> map of_char ''hello'')"

lemma spawn_spec:
  fixes x :: "'a fs_scheme"
  defines "old \<equiv> current_page_directory x"
  assumes ok: "vm_ok x" "paging_on x" and un: "untouched B m x" and r: "ramdisk m start fin aes" and mt: "mounted x start aes x"
    and dk: "\<And>k. k < length (archive_bytes aes) \<Longrightarrow> block_of (start + of_nat k) \<in> B" and fi: "hello_at aes i"
    and lo: "kernel_local B start fin (im_ehdr im) 52" "kernel_local B start fin (im_phdr im) 32"
    and pr: "program_ok (ram_top x) (a_data (aes ! i))" and fb: "2 * length (program_pages (a_data (aes ! i))) + 2 \<le> free_blocks x"
    and inv: "sched_inv [0, 1, 2] x" and pid: "next_pid x \<noteq> 0"
    and fr: "fresh_at (im_symbols im) x 1 f1 d1 e1 k1" "fresh_at (im_symbols im) x 2 f2 d2 e2 k2" "block_of f1 \<notin> B" "block_of f2 \<notin> B"
  obtains t pd f3 where "spawn_elf im start x = Ret () t" "staged old pd t" "sched_inv [0, 1, 2, 3] t" "current_task t = current_task x"
    "fresh_at (im_symbols im) t 1 f1 d1 e1 k1" "fresh_at (im_symbols im) t 2 f2 d2 e2 k2"
    "fresh_at (im_symbols im) t 3 f3 pd (e_entry (decode_ehdr (take 52 (a_data (aes ! i))))) (sym_task_user_bootstrap (im_symbols im))"
    "stack_page {old, pd} t f1" "stack_page {old, pd} t f2" "stack_page {old, pd} t f3" "block_of f3 \<notin> used_blocks x"
    "program_loaded old pd (used_blocks x) (a_data (aes ! i)) t" "\<And>a. data_at x a \<Longrightarrow> resident old pd t a"
    "\<exists>n. task_table t ! 0 = (task_table x ! 0)\<lparr>t_next := n\<rparr>" "idt_st t = idt_st x" "ram_top t = ram_top x"
    "free_blocks x \<le> free_blocks t + 2 * length (program_pages (a_data (aes ! i))) + 2"
proof -
  let ?d = "a_data (aes ! i)" and ?syms = "im_symbols im"
  let ?e = "e_entry (decode_ehdr (take 52 ?d))"
  have name: "i < length aes" "strip (clean_name (a_name (aes ! i))) = map of_char ''hello''" "plain (clean_name (a_name (aes ! i)))"
    "map of_char ''hello'' \<noteq> ([] :: u8 list)" "length (map of_char ''hello'' :: u8 list) \<le> 127"
    "\<forall>j < i. strip (clean_name (a_name (aes ! j))) \<noteq> map of_char ''hello''"
    using fi by (simp_all add: hello_at_def)
  have fb1: "2 * length (program_pages ?d) + 1 \<le> free_blocks x" using fb by simp
  obtain u pd where u: "elf_load (47 # map of_char ''hello'' @ [0]) (im_ehdr im) (im_phdr im) x = Ret (Some (?e, pd)) u"
    "staged (current_page_directory x) pd u"
    "u = x\<lparr>mem := mem u, tlb := tlb u, pmm_st := pmm_st u, iflag := iflag x \<or> segments_of ?d \<noteq> []\<rparr>"
    "program_loaded (current_page_directory x) pd (used_blocks x) ?d u"
    "\<And>a. data_at x a \<Longrightarrow> resident (current_page_directory x) pd u a" "\<And>a. data_at x a \<Longrightarrow> block_of a \<notin> B \<Longrightarrow> mem u a = mem x a"
    "pd \<noteq> 0" "used_blocks x \<subseteq> used_blocks u" "ram_top u = ram_top x"
    "free_blocks x \<le> free_blocks u + 2 * length (program_pages ?d) + 1"
    by (rule load_program [OF ok un r mt dk name lo pr fb1]) (assumption, rule that)
  define v where "v = print (puts (''[Kernel] Spawning user ELF task '' @ [CHR 0x27] @ ''/hello'' @ [CHR 0x27] @ ''...\<newline>'')) u"
  have uf: "task_table u = task_table x" "sched_view u = sched_view x" "next_pid u = next_pid x" "current_task u = current_task x"
    "idt_st u = idt_st x" "cr3 u = cr3 x"
    by (subst u(3), simp add: sched_view_def)+
  have sv: "staged old pd v" using u(2) staged_cong [of v u old pd] by (simp add: v_def old_def)
  have l3: "[0..<3] = [0, 1, 2 :: nat]" by (simp add: upt_rec numeral_2_eq_2 numeral_3_eq_3)
  have vi: "sched_inv [0..<3] v" unfolding l3 using uf(2) by (intro sched_inv_view [OF inv]) (simp add: v_def)
  have keep: "mem v a = mem x a" if "in_frame f a" "fresh_at ?syms x k f d e ke" "block_of f \<notin> B" for a f k d e ke
  proof -
    have "block_of a \<notin> B" using that(1,3) block_of_frame [of a] by (auto simp: in_frame_def)
    then show ?thesis using u(6) [OF fresh_at_data [OF that(2,1)]] by (simp add: v_def)
  qed
  have res: "resident old pd v a" if "data_at x a" for a using u(5) [OF that] resident_cong [of v u] by (simp add: v_def old_def)
  have tv: "task_table v = task_table x" by (simp add: v_def uf)
  have fv: "fresh_at ?syms v 1 f1 d1 e1 k1" "resident old pd v f1" "fresh_at ?syms v 2 f2 d2 e2 k2" "resident old pd v f2"
    using fresh_at_loaded [OF fr(1) sv tv res keep [OF _ fr(1,3)]] fresh_at_loaded [OF fr(2) sv tv res keep [OF _ fr(2,4)]] by blast+
  have nz: "t_state (task_table v ! k) \<noteq> TASK_STATE_ZOMBIE" if "1 \<le> k" "k < 3" for k
  proof -
    have "k = 1 \<or> k = 2" using that by auto
    then show ?thesis using fresh_atD(1) [OF fv(1)] fresh_atD(1) [OF fv(3)] by (elim disjE) simp_all
  qed
  have sl: "find_slot (task_table v) = Some 3" "t_pid (task_table v ! 3) = 0" using slot_after [OF vi _ _ nz] by simp_all
  have vv: "vm_ok v" "paging_on v" "current_page_directory v = old" "cr3 v = old" using sv staged_spaces(3,4) [OF sv] by (auto simp: staged_def)
  have pv: "next_pid v \<noteq> 0" "1 \<le> free_blocks v" "free_blocks v = free_blocks u" using pid uf(3) u(10) fb by (simp_all add: v_def free_blocks_def)
  have ke: "sym_task_user_bootstrap ?syms = (if True then sym_task_user_bootstrap ?syms else ?e)" and dir: "pd = (if pd \<noteq> 0 then pd else cr3 v)"
    using u(7) by simp_all
  obtain t f3 where t: "task_create ?syms ?e pd True v = Ret (Some 3) t" "vm_ok t" "paging_on t" "sched_inv ([0..<3] @ [3]) t"
    "fresh_at ?syms t 3 f3 pd ?e (sym_task_user_bootstrap ?syms)" "block_of f3 \<notin> used_blocks v"
    "\<And>j. j \<noteq> 3 \<Longrightarrow> \<exists>n. task_table t ! j = (task_table v ! j)\<lparr>t_next := n\<rparr>" "frames_kept v t"
    "current_task t = current_task v" "free_blocks v = free_blocks t + 1" "ram_top t = ram_top v" "idt_st t = idt_st v"
    "\<And>a. \<not> in_frame f3 a \<Longrightarrow>
       mem t a = wr32 (frame_of (pde_of (mem v) (current_page_directory v) (pdx f3)) + 4 * ptx f3) (f3 OR 3) (mem v) a"
    "used_blocks t = insert (block_of f3) (used_blocks v)"
    by (rule start_task [OF vv(1,2) vi sl pv(1,2) ke dir]) (rule that)
  have al: "frame_aligned f3" using fresh_atD(6) [OF t(5)] .
  have ram: "unat f3 + 4096 \<le> ram_top v" using used_in_ram [OF al, of t] t(11,14) by simp
  have cp: "current_page_directory t = old" using t(8) vv(3) by (simp add: frames_kept_def)
  have "\<forall>a. \<not> in_frame f3 a \<longrightarrow> mem t a = wr32 (frame_of (pde_of (mem v) old (pdx f3)) + 4 * ptx f3) (f3 OR 3) (mem v) a"
    using t(13) vv(3) by simp
  note se = staged_entry [OF sv t(2,3) cp al t(6,14,11) ram this]
  have kept3: "resident old pd t f3" using se(4) al fresh_atD(7,8) [OF t(5)] cp by (auto simp: resident_def frame_of_aligned walk_frame_def)
  have loaded: "program_loaded old pd (used_blocks x) ?d t"
    unfolding program_loaded_def
  proof (intro ballI allI impI)
    fix ph a assume ph: "ph \<in> set (segments_of ?d)" and a: "frame_of a \<in> set (segment_pages ph)"
    have "unat (p_vaddr ph) + unat (p_memsz ph) + 4095 < 2 ^ 32" "ram_top x \<le> unat (frame_of (p_vaddr ph))"
      using pr ph by (simp_all add: program_ok_def Let_def)
    then have "ram_top x \<le> unat (frame_of a)" using segment_pages_facts(2) [of ph "frame_of a"] a by (auto intro: order_trans)
    then have "vpn a \<noteq> vpn f3" using ram u(9) al vpn_iff_frame [of a f3] by (auto simp: v_def frame_of_aligned)
    then have pw: "page_walk (mem t) pd a = page_walk (mem v) pd a" using se(2) [of a] by simp
    have "has_byte old pd (used_blocks x) u a (segment_byte ?d ph a)" using u(4) ph a by (simp add: program_loaded_def old_def)
    then have "has_byte old pd (used_blocks x) v a (segment_byte ?d ph a)"
      using resident_cong [of v u] by (simp add: has_byte_def v_def)
    then show "has_byte old pd (used_blocks x) t a (segment_byte ?d ph a)"
      using se(3) pw by (auto simp: has_byte_def Let_def)
  qed
  have stk: "stack_page {old, pd} t f" if "resident old pd v f" "frame_aligned f" for f
    using resident_stack [OF se(1) _ that(2)] se(3) [OF that(1)] by simp
  have run: "spawn_elf im start x = Ret () t"
    using u(1) t(1) ramdiskD(2) [OF r] by (simp add: spawn_elf_def cstr_def v_def)
  have "fresh_at ?syms t 1 f1 d1 e1 k1" "fresh_at ?syms t 2 f2 d2 e2 k2"
    using fresh_at_step [OF fv(1) t(8)] fresh_at_step [OF fv(3) t(8)] t(7) by simp_all
  moreover have "sched_inv [0, 1, 2, 3] t" using t(4) unfolding l3 by simp
  moreover have "block_of f3 \<notin> used_blocks x" using t(6) u(8) by (auto simp: v_def)
  moreover have "resident old pd t a" if "data_at x a" for a using se(3) res [OF that] by blast
  moreover have "\<exists>n. task_table t ! 0 = (task_table x ! 0)\<lparr>t_next := n\<rparr>" using t(7) [of 0] tv by simp
  ultimately show thesis
    using that [OF run se(1) _ _ _ _ t(5) stk [OF fv(2)] stk [OF fv(4)] resident_stack [OF se(1) kept3 al] _ loaded]
      t(9-12) pv(3) u(9,10) uf fresh_atD(6) [OF fv(1)] fresh_atD(6) [OF fv(3)] by (auto simp: v_def)
qed

subsection \<open>The boot with a RAM disk\<close>

lemma program_loaded_mono: "program_loaded old pd U data s \<Longrightarrow> V \<subseteq> U \<Longrightarrow> program_loaded old pd V data s"
  by (fastforce simp: program_loaded_def has_byte_def Let_def)

lemma program_loaded_cong: "mem t = mem s \<Longrightarrow> pmm_st t = pmm_st s \<Longrightarrow> program_loaded old pd U data t = program_loaded old pd U data s"
  using resident_cong [of t s] by (simp add: program_loaded_def has_byte_def)

lemma disk_boot:
  fixes s :: "'a fs_scheme" and mbi_addr :: u32
  defines "R \<equiv> \<lambda>im es. reserved_blocks im es (boot_modules mbi_addr s)"
  assumes b: "booted mbi_addr es (Some (start, fin)) s" and r: "ramdisk (mem s) start fin aes" and fi: "hello_at aes i"
    and lo: "kernel_local (R im es) start fin (im_ehdr im) 52" "kernel_local (R im es) start fin (im_phdr im) 32"
    and pr: "program_ok (4096 * ram_blocks es) (a_data (aes ! i))" and nd: "length (tar_nodes s) = 128"
    and room: "10 + (ram_blocks es + 1023) div 1024 + 2 * length (program_pages (a_data (aes ! i))) \<le> card (spare_blocks im es (boot_modules mbi_addr s))"
  obtains t pd fa fb fc where "kernel_main im 0x2BADB002 mbi_addr s = Ret () t" "iflag t" "staged (cr3 t) pd t"
    "demo_ready im fa fb {cr3 t, pd} [3] t" "fc \<noteq> fa" "fc \<noteq> fb"
    "fresh_at (im_symbols im) t 3 fc pd (e_entry (decode_ehdr (take 52 (a_data (aes ! i))))) (sym_task_user_bootstrap (im_symbols im))"
    "suspended {cr3 t, pd} t 3 fc 1017 (first_frame (im_symbols im) (sym_task_user_bootstrap (im_symbols im)))"
    "program_loaded (cr3 t) pd (insert (block_of fa) (insert (block_of fb) (R im es))) (a_data (aes ! i)) t"
    "\<forall>g. frame_aligned g \<longrightarrow> block_of g \<in> R im es \<longrightarrow> stack_page {cr3 t, pd} t g \<and> g \<notin> {fa, fb, fc}"
    "handlers (idt_st t) = (replicate 256 None)[128 := Some Syscall_dispatch, 14 := Some Page_fault_handler, 32 := Some Timer_callback]"
    "ram_top t = 4096 * ram_blocks es"
    "card (spare_blocks im es (boot_modules mbi_addr s)) \<le> free_blocks t + 10 + (ram_blocks es + 1023) div 1024 + 2 * length (program_pages (a_data (aes ! i)))"
    "t_page_directory (task_table t ! 0) = cr3 t"
proof -
  let ?R = "R im es" and ?d = "a_data (aes ! i)" and ?syms = "im_symbols im"
  define g where "g = puts ''[Kernel] Initializing Virtual File System & RAM Disk...\<newline>''"
  have room8: "8 + (ram_blocks es + 1023) div 1024 \<le> card (spare_blocks im es (boot_modules mbi_addr s))" using room by simp
  obtain v f where v: "kernel_main im 0x2BADB002 mbi_addr s = obind (boot_tasks im mbi_addr v) (\<lambda>_. start_timer)"
    "vm_ok v" "paging_on v" "card (spare_blocks im es (boot_modules mbi_addr s)) \<le> free_blocks v + 6 + (ram_blocks es + 1023) div 1024"
    "handlers (idt_st v) = (replicate 256 None)[128 := Some Syscall_dispatch, 14 := Some Page_fault_handler]"
    "ram_top v = 4096 * ram_blocks es" "untouched (reserved_blocks im es (boot_modules mbi_addr s)) (mem s) v" "sys.more v = sys.more s"
    "find_initrd mbi_addr (print g v) = Ret (case Some (start, fin) of None \<Rightarrow> (0, 0) | Some x \<Rightarrow> x) (print g v)"
    by (rule boot_core [OF b room8, of g]) (rule that)
  have unv: "untouched ?R (mem s) (print g v)" using v(7) untouched_cong [of "print g v" v] by (simp add: R_def)
  have tn: "length (tar_nodes (print g v)) = 128"
  proof -
    have "kern.more v = kern.more s" using v(8) by (cases v; cases s) simp
    then have "tar_nodes v = tar_nodes s" by (cases v; cases s) simp
    then show ?thesis using nd by simp
  qed
  have dk: "block_of (start + of_nat k) \<in> ?R" if "k < length (archive_bytes aes)" for k
    unfolding R_def by (rule disk_reserved [OF b r that])
  have okv: "vm_ok (print g v)" using v(2) by simp
  obtain w where w: "mount_initrd start fin (print g v) = Ret () w" "mounted (print g v) start aes w"
    by (rule mount_disk [OF okv unv r dk tn]) (assumption, rule that)
  have "same_system (print g v) w" using w(2) by (simp add: mounted_def)
  note sw = same_system_fields [OF this]
  have we: "vm_ok w" "paging_on w" "free_blocks w = free_blocks v" "untouched ?R (mem s) w" "idt_st w = idt_st v" "ram_top w = ram_top v"
    using v(2,3) vm_ok_cong [OF sw(1,2,3,8,4,6)] sw untouched_cong [OF sw(1,4,6)] unv by (simp_all add: paging_on_def free_blocks_def)
  have w2: "2 \<le> free_blocks w" using we(3) v(4) room by simp
  obtain x fa fb where x: "start_tasks im w = Ret () x" "vm_ok x" "paging_on x" "sched_inv [0, 1, 2] x" "current_task x = Some 0"
    "fresh_at ?syms x 1 fa (cr3 w) (im_task_a im) (im_task_a im)" "fresh_at ?syms x 2 fb (cr3 w) (im_task_b im) (im_task_b im)"
    "fa \<noteq> fb" "block_of fa \<notin> used_blocks w" "block_of fb \<notin> used_blocks w" "frames_kept w x" "free_blocks w = free_blocks x + 2"
    "ram_top x = ram_top w" "idt_st x = idt_st w" "cr3 x = cr3 w" "kern.more x = kern.more w" "next_pid x = 4"
    "t_page_directory (task_table x ! 0) = cr3 w" "t_state (task_table x ! 0) = TASK_STATE_RUNNING"
    by (rule start_tasks_spec [OF we(1,2) w2]) (rule that)
  have unx: "untouched ?R (mem s) x" using untouched_step [OF we(4) x(11)] .
  have mt: "mounted x start aes x" using mounted_more [OF w(2) x(16)] .
  have nR: "block_of fa \<notin> ?R" "block_of fb \<notin> ?R" using x(9,10) we(4) by (auto simp: untouched_def)
  have prx: "program_ok (ram_top x) ?d" using pr x(13) we(6) v(6) by simp
  have fbx: "2 * length (program_pages ?d) + 2 \<le> free_blocks x" using x(12) we(3) v(4) room by simp
  have pid: "next_pid x \<noteq> 0" using x(17) by simp
  have cr: "current_page_directory x = cr3 x" using vm_okD(5) [OF x(2,3)] by simp
  obtain y pd fc where y: "spawn_elf im start x = Ret () y" "staged (current_page_directory x) pd y" "sched_inv [0, 1, 2, 3] y" "current_task y = current_task x"
    "fresh_at ?syms y 1 fa (cr3 w) (im_task_a im) (im_task_a im)" "fresh_at ?syms y 2 fb (cr3 w) (im_task_b im) (im_task_b im)"
    "fresh_at ?syms y 3 fc pd (e_entry (decode_ehdr (take 52 ?d))) (sym_task_user_bootstrap ?syms)"
    "stack_page {current_page_directory x, pd} y fa" "stack_page {current_page_directory x, pd} y fb" "stack_page {current_page_directory x, pd} y fc"
    "block_of fc \<notin> used_blocks x" "program_loaded (current_page_directory x) pd (used_blocks x) ?d y"
    "\<And>a. data_at x a \<Longrightarrow> resident (current_page_directory x) pd y a"
    "\<exists>n. task_table y ! 0 = (task_table x ! 0)\<lparr>t_next := n\<rparr>" "idt_st y = idt_st x" "ram_top y = ram_top x"
    "free_blocks x \<le> free_blocks y + 2 * length (program_pages ?d) + 2"
    by (rule spawn_spec [OF x(2,3) unx r mt dk fi lo prx fbx x(4) pid x(6,7) nR]) (assumption, rule that)
  have tasks: "boot_tasks im mbi_addr v = Ret () y"
    using x(1) y(1) w(1) v(9) unfolding boot_tasks_def Let_def g_def by simp
  obtain t where t: "start_timer y = Ret () t" "iflag t" "handlers (idt_st t) = (handlers (idt_st y))[32 := Some Timer_callback]"
    "mem t = mem y" "pmm_st t = pmm_st y" "cr3 t = cr3 y" "current_page_directory t = current_page_directory y"
    "vm_ok t = vm_ok y" "paging_on t = paging_on y" "task_table t = task_table y" "current_task t = current_task y"
    "sched_view t = sched_view y" "kern.more t = kern.more y" "cr0 t = cr0 y" "tlb t = tlb y"
    by (rule start_timer_keeps) (rule that)
  have old: "cr3 t = cr3 x" "current_page_directory x = cr3 t" using staged_spaces(3) [OF y(2)] cr t(6) by simp_all
  have st: "staged (cr3 t) pd t"
  proof -
    have "dual (cr3 t) (switch_directory pd t) = dual (cr3 t) (switch_directory pd y)"
      using t(4,5,14,15) by (intro dual_cong) simp_all
    then show ?thesis using y(2) t(7-9) old by (simp add: staged_def)
  qed
  have fr: "fresh_at ?syms t 1 fa (cr3 t) (im_task_a im) (im_task_a im)" "fresh_at ?syms t 2 fb (cr3 t) (im_task_b im) (im_task_b im)"
    "fresh_at ?syms t 3 fc pd (e_entry (decode_ehdr (take 52 ?d))) (sym_task_user_bootstrap ?syms)"
    using y(5-7) fresh_at_cong [of t _ y] t(4,5,7,10) x(15) old by simp_all
  have len: "1 < length (task_table t)" "2 < length (task_table t)" "3 < length (task_table t)" using y(3) t(10) by (simp_all add: sched_inv_def)
  have sp: "stack_page {cr3 t, pd} t h" if "stack_page {current_page_directory x, pd} y h" for h
    using that stack_page_cong [OF t(4,5)] old by simp
  have nw: "\<not> walk_frame (mem t) d h" if "stack_page {current_page_directory x, pd} y h" "d \<in> {cr3 t, pd}" for d h
    using sp [OF that(1)] that(2) unfolding stack_page_def by blast
  have su: "suspended {cr3 t, pd} t 1 fa 1017 (first_frame ?syms (im_task_a im))" "suspended {cr3 t, pd} t 2 fb 1017 (first_frame ?syms (im_task_b im))"
    "suspended {cr3 t, pd} t 3 fc 1017 (first_frame ?syms (sym_task_user_bootstrap ?syms))"
    using fresh_suspended [OF fr(1) len(1) _ nw [OF y(8)], of "{cr3 t, pd}"] fresh_suspended [OF fr(2) len(2) _ nw [OF y(9)], of "{cr3 t, pd}"]
      fresh_suspended [OF fr(3) len(3) _ nw [OF y(10)], of "{cr3 t, pd}"] by auto
  have h: "handlers (idt_st t) = (replicate 256 None)[128 := Some Syscall_dispatch, 14 := Some Page_fault_handler, 32 := Some Timer_callback]"
    using t(3) y(15) x(14) we(5) v(5) by simp
  have t0: "t_state (task_table t ! 0) = TASK_STATE_RUNNING" "t_page_directory (task_table t ! 0) = cr3 t"
    using y(14) x(15,18,19) t(10) old by auto
  moreover have "sched_inv ([0, 1, 2] @ [3]) t" using sched_inv_view [OF y(3) t(12)] by simp
  ultimately have ready: "demo_ready im fa fb {cr3 t, pd} [3] t"
    using staged_spaces(1) [OF st] su(1,2) fresh_atD(1) [OF fr(1)] fresh_atD(1) [OF fr(2)] x(5,8) y(4) t(11) h by (simp add: demo_ready_def)
  have sub: "?R \<subseteq> used_blocks x" using unx by (simp add: untouched_def)
  have sub': "insert (block_of fa) (insert (block_of fb) ?R) \<subseteq> used_blocks x" using sub fresh_atD(7) [OF x(6)] fresh_atD(7) [OF x(7)] by simp
  have pl: "program_loaded (cr3 t) pd (insert (block_of fa) (insert (block_of fb) ?R)) ?d t"
    using program_loaded_mono [OF y(12) sub'] program_loaded_cong [OF t(4,5)] old by simp
  have ne: "fc \<noteq> fa" "fc \<noteq> fb" using y(11) fresh_atD(7) [OF x(6)] fresh_atD(7) [OF x(7)] by auto
  have gs: "stack_page {cr3 t, pd} t g \<and> g \<notin> {fa, fb, fc}" if "frame_aligned g" "block_of g \<in> ?R" for g
  proof -
    have "data_at x g" using untouchedD(1,2) [OF unx that(2)] by (simp add: data_at_def)
    from y(13) [OF this] have "stack_page {current_page_directory x, pd} y g" by (rule resident_stack [OF y(2) _ that(1)])
    then show ?thesis using sp nR y(11) sub that(2) by auto
  qed
  have run: "kernel_main im 0x2BADB002 mbi_addr s = Ret () t" using v(1) tasks t(1) by simp
  have gs': "\<forall>g. frame_aligned g \<longrightarrow> block_of g \<in> ?R \<longrightarrow> stack_page {cr3 t, pd} t g \<and> g \<notin> {fa, fb, fc}" using gs by blast
  have fin: "ram_top t = 4096 * ram_blocks es" using y(16) x(13) we(6) v(6) t(5) by simp
  have "free_blocks t = free_blocks y" using t(5) by (simp add: free_blocks_def)
  then have "card (spare_blocks im es (boot_modules mbi_addr s)) \<le>
      free_blocks t + 10 + (ram_blocks es + 1023) div 1024 + 2 * length (program_pages ?d)"
    using y(17) x(12) we(3) v(4) by linarith
  then show thesis by (rule that [OF run t(2) st ready ne fr(3) su(3) pl gs' h fin _ t0(2)])
qed

end
