(* ===== verification/Process.thy ===== *)
theory Process
  imports Ramdisk
begin

text \<open>
  The process of the RAM disk: after the demo tasks the third task is switched to, enters ring 3 in
  its own address space (\<^verbatim>\<open>task_user_bootstrap\<close> in \<^verbatim>\<open>src/task.c\<close>) with its program in memory as the
  file has it, and by its system call \<^verbatim>\<open>exit\<close> hands the processor back to the boot thread.
\<close>

subsection \<open>Into ring 3\<close>

text \<open>
  \<^verbatim>\<open>task_user_bootstrap\<close> of a task that already runs in its own address space: it gives the process
  a stack page of its own and drops to ring 3 at the entry point.
\<close>

lemma user_entry:
  fixes c :: "'a kern_scheme"
  assumes d: "dual old c" and i: "current_task c = Some i" "t_page_directory (task_table c ! i) = current_page_directory c"
    and top: "ram_top c \<le> 0xBFFF0000" and fb: "2 \<le> free_blocks c"
  obtains e f where "task_user_bootstrap c = Ret (t_eip (task_table c ! i)) e" "dual old e" "current_page_directory e = current_page_directory c"
    "cr3 e = cr3 c" "seg_cs (gdt_st e) = 0x1B" "seg_ss (gdt_st e) = 0x23" "seg_data (gdt_st e) = 0x23" "reg_esp e = 0xBFFF1000" "iflag e"
    "esp0 (tss (gdt_st e)) = t_kstack (task_table c ! i)"
    "sched_view e = sched_view c" "task_table e = task_table c" "idt_st e = idt_st c" "console e = console c"
    "frame_aligned f" "block_of f \<notin> used_blocks c" "resident old (current_page_directory c) e f"
    "\<And>b. vm_lookup e b = (if vpn b = vpn 0xBFFF0000 then Some (f OR 7) else vm_lookup c b)"
    "\<And>a. resident old (current_page_directory c) c a \<Longrightarrow> resident old (current_page_directory c) e a \<and> mem e a = mem c a"
    "ram_top e = ram_top c" "used_blocks c \<subseteq> used_blocks e" "block_of f \<in> used_blocks e"
proof -
  let ?va = "0xBFFF0000 :: u32"
  note ok = dualD(1) [OF d]
  have room0: "used_blocks c \<noteq> all_blocks (pmm_st c)" using fb free_blocks_0 [of c] by auto
  obtain f q where al: "pmm_alloc_block (pmm_st c) = (f, q)" by (metis surj_pair)
  have f: "f \<noteq> 0" using fa.alloc_null_iff [OF vm_okD(1,2) [OF ok]] al room0 by (simp add: all_blocks_def)
  note fr = fresh_frame [OF ok al f]
  let ?c = "c\<lparr>pmm_st := q\<rparr>"
  have d1: "dual old ?c" by (rule dual_alloc [OF d al f])
  have free1: "free_blocks c = free_blocks ?c + 1" by (rule free_blocks_alloc [OF ok al f])
  have room: "has_room ?c ?va" using fb free1 free_blocks_0 [of ?c] by (auto simp: has_room_def)
  have win: "window_safe ?va (f OR 7) ?c" using top fr(6) by (simp add: window_safe_def)
  obtain u where u: "vmm_map_page f ?va 7 ?c = Ret () u" "vm_ok u" "extends ?c u"
    "\<And>b. vm_lookup u b = (if vpn b = vpn ?va then (if (f OR 7) AND 1 = 0 then None else Some (f OR 7)) else vm_lookup ?c b)"
    using vm.map_law [OF dualD(1) [OF d1] win room] by blast
  have du: "dual old u" by (rule dual_map [OF d1 u(1-3)])
  note ef = extends_fields [OF u(3)]
  have f7: "(f OR 7) AND 1 = 1" using fr(1) by (simp add: flag_or_frame)
  have more: "sys.more u = sys.more c" using ef(10) by simp
  have kf: "task_table u = task_table c" "sched_view u = sched_view c" "current_task u = current_task c"
    using more by (cases u; cases c; simp add: sched_view_def)+
  define e where "e = (set_kernel_stack (t_kstack (task_table c ! i)) u)
    \<lparr>gdt_st := (gdt_st (set_kernel_stack (t_kstack (task_table c ! i)) u))\<lparr>seg_data := 0x23, seg_ss := 0x23, seg_cs := 0x1B\<rparr>,
     reg_esp := 0xBFFF1000, iflag := True\<rparr>"
  have run: "task_user_bootstrap c = Ret (t_eip (task_table c ! i)) e"
    using i al u(1) by (simp add: task_user_bootstrap_def get_current_task_def task_at_def alloc_block_def enter_user_mode_def cli_def e_def or.assoc Let_def)
  have ee: "mem e = mem u" "cr0 e = cr0 u" "cr3 e = cr3 u" "tlb e = tlb u" "pmm_st e = pmm_st u"
    "current_page_directory e = current_page_directory u" "task_table e = task_table u" "sched_view e = sched_view u"
    "idt_st e = idt_st u" "console e = console u"
    by (simp_all add: e_def set_kernel_stack_def sched_view_def)
  have dd: "dual old e" using du dual_cong [OF ee(1-6)] by simp
  have fu: "block_of f \<in> used_blocks e" using ef(13) fr(4) by (auto simp: ee)
  have ex1: "extends c ?c" using fr(4,6) by (auto simp: extends_def)
  have res: "resident old (current_page_directory c) e a \<and> mem e a = mem c a" if "resident old (current_page_directory c) c a" for a
    using resident_extends [OF that extends_trans [OF ex1 u(3)]] resident_cong [of e u] ee by simp
  have rf: "resident old (current_page_directory c) e f"
  proof -
    have "resident old (current_page_directory ?c) ?c f" using fr(1,4,7) dualD(7) [OF d] fr(2) by (auto simp: resident_def frame_of_aligned)
    from resident_extends(1) [OF this u(3)] show ?thesis using resident_cong [of e u] ee by simp
  qed
  show thesis
    by (rule that [OF run dd _ _ _ _ _ _ _ _ _ _ _ _ fr(1,2) rf _ res])
      (use u(4) f7 ef fr(4,6) fu in \<open>auto simp: ee kf, auto simp: e_def set_kernel_stack_def tss_set_kernel_stack_def\<close>)
qed

lemma dual_moved:
  assumes "dual old s" "mem t = mem s" "pmm_st t = pmm_st s" "current_page_directory t = current_page_directory s" "vm_ok t" "paging_on t"
  shows "dual old t"
  using assms by (simp add: dual_def)

lemma dual_spaces:
  assumes "dual old s"
  shows "spaces {old, current_page_directory s} s"
proof -
  note dd = dualD [OF assms]
  have "space_ok old s" using dd(3,9) vm_okD(6) [OF dd(1,2)] dual_walk [OF assms] by (simp add: space_ok_def ram_window_def)
  then show ?thesis using dd(1,2) vm_ok_space [OF dd(1,2)] vm_okD(5) [OF dd(1,2)] by (simp add: spaces_def)
qed

text \<open>While other tasks run on their stack pages \<open>H\<close>, a loaded program stays loaded.\<close>

lemma loaded_while:
  assumes st: "staged old pd t" and H': "\<forall>h \<in> H. stack_page {old, pd} t h \<and> block_of h \<in> U"
    and m: "\<forall>a. (\<forall>h \<in> H. \<not> in_frame h a) \<longrightarrow> mem c a = mem t a"
    and c: "vm_ok c" "paging_on c" "pmm_st c = pmm_st t" "current_page_directory c = pd"
    and pl: "program_loaded old pd U data t"
  shows "dual old c" "program_loaded old pd U data c" "\<And>f. walk_frame (mem c) pd f = walk_frame (mem t) pd f"
proof -
  let ?A = "switch_directory pd t"
  note H = bspec [OF H']
  have d: "dual old ?A" using st by (simp add: staged_def)
  have same: "mem c a = mem ?A a" if "walk_frame (mem ?A) (current_page_directory ?A) f \<or> f = old" "in_frame f a" for f a
  proof -
    have "f \<notin> H" using H [of f] that(1) by (auto simp: stack_page_def walk_frame_def)
    then show ?thesis using m that(2) by (metis in_frame_unique switch_directory_simps(1))
  qed
  note dd = dual_data [OF d same]
  show "dual old c" by (rule dual_moved [OF dd(1)]) (simp_all add: c)
  show wf: "walk_frame (mem c) pd f = walk_frame (mem t) pd f" for f using dd(3) by simp
  have "has_byte old pd U c a b" if h: "has_byte old pd U t a b" for a b
  proof -
    obtain pte where pte: "page_walk (mem t) pd a = Some pte" "pte AND 7 = 7" "block_of (frame_of pte OR (a AND 0xFFF)) \<notin> U"
      "resident old pd t (frame_of pte OR (a AND 0xFFF))" "mem t (frame_of pte OR (a AND 0xFFF)) = b"
      using h by (auto simp: has_byte_def Let_def)
    have "\<not> in_frame h (frame_of pte OR (a AND 0xFFF))" if "h \<in> H" for h
      using H [OF that] pte(3) block_of_frame [of "frame_of pte OR (a AND 0xFFF)"] by (auto simp: in_frame_def simp del: block_of_frame)
    then have "mem c (frame_of pte OR (a AND 0xFFF)) = b" using m pte(5) by simp
    then show ?thesis using pte dd(2) wf c(3) by (simp add: has_byte_def Let_def resident_def)
  qed
  then show "program_loaded old pd U data c" using pl by (simp add: program_loaded_def)
qed

text \<open>Entering ring 3 leaves the program as it is, when it has no page where the stack goes.\<close>

lemma loaded_entered:
  assumes "program_loaded old pd U data c" "0xBFFF0000 \<notin> set (program_pages data)"
    "\<And>b. vpn b \<noteq> vpn 0xBFFF0000 \<Longrightarrow> page_walk (mem e) pd b = page_walk (mem c) pd b"
    "\<And>a. resident old pd c a \<Longrightarrow> resident old pd e a \<and> mem e a = mem c a"
  shows "program_loaded old pd U data e"
  unfolding program_loaded_def
proof (intro ballI allI impI)
  fix ph a assume ph: "ph \<in> set (segments_of data)" and a: "frame_of a \<in> set (segment_pages ph)"
  have "frame_of a \<in> set (program_pages data)" using ph a by (auto simp: program_pages_def)
  then have "vpn a \<noteq> vpn 0xBFFF0000" using assms(2) vpn_iff_frame [of a "0xBFFF0000"] by auto
  moreover have "has_byte old pd U c a (segment_byte data ph a)" using assms(1) ph a by (simp add: program_loaded_def)
  ultimately show "has_byte old pd U e a (segment_byte data ph a)"
    using assms(3) [of a] assms(4) by (auto simp: has_byte_def Let_def)
qed

text \<open>What ring 3 reads there.\<close>

lemma loaded_readable:
  assumes "program_loaded old pd U data e" "vm_ok e" "paging_on e" "current_page_directory e = pd"
    and "ph \<in> set (segments_of data)" "frame_of a \<in> set (segment_pages ph)"
  shows "user_access (mem e) (cr3 e) a True" "load8 a e = Ret (segment_byte data ph a) e"
proof -
  obtain pte where pte: "page_walk (mem e) pd a = Some pte" "pte AND 7 = 7" "mem e (frame_of pte OR (a AND 0xFFF)) = segment_byte data ph a"
    using assms(1,5,6) by (auto simp: program_loaded_def has_byte_def Let_def)
  have cr: "cr3 e = current_page_directory e" by (rule vm_okD(5) [OF assms(2,3)])
  have "pte AND 4 = (pte AND 7) AND 4" "pte AND 2 = (pte AND 7) AND 2" by (simp_all add: and.assoc)
  then have "pte AND 4 \<noteq> 0" "pte AND 2 \<noteq> 0" unfolding pte(2) by simp_all
  then show "user_access (mem e) (cr3 e) a True"
    unfolding cr using pte(1) assms(4) by (subst user_access_iff [OF vm_okD(3) [OF assms(2)]]) simp
  have "translate e a = Some (frame_of pte OR (a AND 0xFFF))"
    using translate_lookup [OF assms(2)] assms(3,4) pte(1) by simp
  then show "load8 a e = Ret (segment_byte data ph a) e" using pte(3) by (simp add: load8_def)
qed

lemma resident_pages:
  assumes "dual old e" "current_page_directory e = pd"
  shows "resident old pd e f \<Longrightarrow> frame_aligned f \<Longrightarrow> stack_page {old, pd} e f" "stack_page {old, pd} e f \<Longrightarrow> resident old pd e f"
  using dual_frames [OF assms(1)] assms(2) by (auto simp: stack_page_def resident_def frame_of_aligned walk_frame_def)

lemma resident_frame: "resident old pd s f \<Longrightarrow> in_frame f a \<Longrightarrow> frame_aligned f \<Longrightarrow> resident old pd s a"
  using block_of_frame [of a] by (auto simp: resident_def in_frame_def frame_of_aligned)

subsection \<open>The end of the process\<close>

text \<open>
  The program has run in ring 3 and written only to its own pages \<open>vs\<close>; a system call brings it back
  into the kernel, with the kernel's segments, on its kernel stack page \<open>g\<close>.
\<close>

definition trapped :: "u32 list \<Rightarrow> 'a kern_scheme \<Rightarrow> u32 \<Rightarrow> u32 \<Rightarrow> 'a kern_scheme \<Rightarrow> bool" where
  "trapped vs e g k x \<longleftrightarrow> (\<exists>m. (\<forall>a. (\<forall>v \<in> set vs. translate e v \<noteq> Some (frame_of a)) \<longrightarrow> m a = mem e a) \<and>
     interrupted (e\<lparr>mem := m, gdt_st := (gdt_st e)\<lparr>seg_data := 0x10, seg_ss := 0x10, seg_cs := 8\<rparr>\<rparr>) g k x)"

lemma process_exits:
  fixes e :: "'a kern_scheme"
  defines "D \<equiv> \<lambda>old. {old, current_page_directory e}"
  assumes d: "dual old e" and own: "\<forall>v \<in> set vs. \<forall>p. translate e v = Some p \<longrightarrow> resident old (current_page_directory e) e p \<and> p \<noteq> g"
    and inv: "sched_inv [0, 1, 2, 3] e" and cur: "current_task e = Some 3" "t_page_directory (task_table e ! 3) = current_page_directory e"
    and su: "suspended (D old) e 0 g l ws" "t_state (task_table e ! 0) = TASK_STATE_READY" and fc: "stack_page (D old) e fc" "fc \<noteq> g"
    and h: "handlers (idt_st e) ! 128 = Some Syscall_dispatch" and x: "trapped vs e fc k x" and k: "4 \<le> unat k" "unat k < 1024"
  obtains z where "int80 1 status 0 0 x = Ret (Switched (ws ! 4)) z" "spaces (D old) z" "sched_inv [0, 1, 2, 3] z" "current_task z = Some 0"
    "reg_esp z = g + 4 * (l + 5)" "reg_edi z = ws ! 0" "reg_esi z = ws ! 1" "reg_ebx z = ws ! 2" "reg_ebp z = ws ! 3"
    "cr3 z = t_page_directory (task_table e ! 0)" "t_state (task_table z ! 3) = TASK_STATE_ZOMBIE"
    "t_state (task_table z ! 0) = TASK_STATE_RUNNING"
proof -
  let ?pd = "current_page_directory e" and ?xs = "[0, 1, 2, 3] :: nat list" and ?D = "D old"
  obtain m where m: "\<And>a. (\<forall>v \<in> set vs. translate e v \<noteq> Some (frame_of a)) \<Longrightarrow> m a = mem e a"
    "interrupted (e\<lparr>mem := m, gdt_st := (gdt_st e)\<lparr>seg_data := 0x10, seg_ss := 0x10, seg_cs := 8\<rparr>\<rparr>) fc k x"
    using x unfolding trapped_def by blast
  define y where "y = e\<lparr>mem := m, gdt_st := (gdt_st e)\<lparr>seg_data := 0x10, seg_ss := 0x10, seg_cs := 8\<rparr>\<rparr>"
  have page: "m a = mem e a" if "\<not> resident old ?pd e (frame_of a) \<or> frame_of a = g" for a
    using own that by (intro m(1)) blast
  have same: "m a = mem e a" if "walk_frame (mem e) ?pd f \<or> f = old" "in_frame f a" for f a
    using that by (intro page) (auto simp: in_frame_def resident_def)
  note dd = dual_data [OF d same]
  have ym: "mem y = m" "pmm_st y = pmm_st e" "cr0 y = cr0 e" "cr3 y = cr3 e" "tlb y = tlb e" "current_page_directory y = ?pd"
    "task_table y = task_table e" "sched_view y = sched_view e" "idt_st y = idt_st e" "current_task y = current_task e"
    by (simp_all add: y_def sched_view_def)
  have dy: "dual old y" using dd(1) dual_cong [of y "e\<lparr>mem := m\<rparr>"] by (simp add: ym)
  have sy: "spaces ?D y" using dual_spaces [OF dy] by (simp add: ym D_def)
  have st: "stack_page ?D y f" if "stack_page ?D e f" for f
  proof -
    have al: "frame_aligned f" using that by (simp add: stack_page_def)
    have "resident old ?pd e f" using resident_pages(2) [OF d refl] that by (simp add: D_def)
    then have "resident old ?pd y f" using dd(3) by (simp add: resident_def ym)
    then show ?thesis using resident_pages(1) [OF dy ym(6) _ al] by (simp add: D_def)
  qed
  have ga: "frame_aligned g" "stack_page ?D e g" using su(1) by (simp_all add: suspended_def stack_page_def)
  have suy: "suspended ?D y 0 g l ws"
    by (rule suspended_kept [OF su(1) st [OF ga(2)]]) (simp_all add: ym page in_frame_def)
  note i = interruptedD [OF m(2) [folded y_def]] and isp = interrupted_spaces [OF m(2) [folded y_def] sy st [OF fc(1)] k]
  define w where "w = print (puts ''.\<newline>'') (print (terminal_putchar (48 + ucast (status mod 10)))
      (print (puts ''\<newline>[Kernel] Process exited with status '') x))"
  have run: "int80 1 status 0 0 x = obind (task_exit w) (\<lambda>a s. Ret (Switched a) s)"
    using h i(10) ym(9) by (simp add: int80_def isr_dispatch_def call_handler_def syscall_dispatch_def sys_exit_def w_def Let_def comp_assoc fault_frame_def)
  have wm: "mem w = mem x" "pmm_st w = pmm_st x" "cr0 w = cr0 x" "cr3 w = cr3 x" "tlb w = tlb x" "current_page_directory w = current_page_directory x"
    "reg_esp w = reg_esp x" "task_table w = task_table e" "sched_view w = sched_view e" "current_task w = Some 3"
    using i(8,9,11) ym cur(1) by (simp_all add: w_def)
  have wsp: "spaces ?D w" "on_stack ?D w fc k" "suspended ?D w 0 g l ws"
  proof -
    show "spaces ?D w" using isp(1) spaces_cong [OF wm(1-6)] by simp
    show "on_stack ?D w fc k" using isp(2) stack_page_cong [OF wm(1,2)] wm(7) by (simp add: on_stack_def)
    have "suspended ?D x 0 g l ws" using isp(4) [OF _ suy] fc(2) by simp
    then show "suspended ?D w 0 g l ws" using suspended_cong [of w x] wm i(8) ym(7) by simp
  qed
  have wi: "sched_inv ?xs w" by (rule sched_inv_view [OF inv wm(9)])
  have w3: "3 < length ?xs" "current_task w = Some (?xs ! 3)" "t_page_directory (task_table w ! (?xs ! 3)) \<in> ?D" "next_ready ?xs 3 w = Some 0"
    using cur su(2) wm(8,10) by (simp_all add: D_def numeral_3_eq_3)
  obtain z where z: "task_exit w = Ret (ws ! 4) z" "spaces ?D z" "sched_inv ?xs z" "current_task z = Some 0"
    "reg_esp z = g + 4 * (l + 5)" "reg_edi z = ws ! 0" "reg_esi z = ws ! 1" "reg_ebx z = ws ! 2" "reg_ebp z = ws ! 3"
    "pmm_st z = pmm_st w" "cr3 z = t_page_directory (task_table w ! 0)"
    "\<And>n. n < 32 \<Longrightarrow> t_state (task_table z ! n) = (if n = 0 then 1 else if n = ?xs ! 3 then 3 else t_state (task_table w ! n))"
    by (rule task_exit_suspended [OF wsp(1,2) wi w3 wsp(3) fc(2) [symmetric]]) (rule that)
  have "int80 1 status 0 0 x = Ret (Switched (ws ! 4)) z" using run z(1) by simp
  moreover have "t_state (task_table z ! 3) = 3" "t_state (task_table z ! 0) = 1" using z(12) [of 3] z(12) [of 0] by (simp_all add: numeral_3_eq_3)
  ultimately show thesis using z(2-9,11) wm(8) by (intro that [of z]) simp_all
qed

subsection \<open>The third task\<close>

lemma third_task_enters:
  fixes t :: "'a kern_scheme"
  assumes ready: "demo_ready im fa fb {cr3 t, pd} [3] t" and st: "staged (cr3 t) pd t" and ne: "fc \<noteq> fa" "fc \<noteq> fb"
    and fr: "fresh_at (im_symbols im) t 3 fc pd entry (sym_task_user_bootstrap (im_symbols im))"
    and su: "suspended {cr3 t, pd} t 3 fc 1017 (first_frame (im_symbols im) (sym_task_user_bootstrap (im_symbols im)))"
    and pl: "program_loaded (cr3 t) pd U data t" and U: "block_of fa \<in> U" "block_of fb \<in> U" "block_of g \<in> U"
    and g: "stack_page {cr3 t, pd} t g" "g \<noteq> fa" "g \<noteq> fb" "g \<noteq> fc" and j: "4 \<le> unat j" "unat j < 1024"
    and u: "interrupted t g j u" and irq: "r_int_no regs = 32" and ab: "im_task_a im \<noteq> im_task_b im"
    and pg: "0xBFFF0000 \<notin> set (program_pages data)" and top: "ram_top t \<le> 0xBFFF0000" and fb: "2 \<le> free_blocks t"
  obtains a b c e f where "irq_dispatch call_handler regs u = Ret (Switched (sym_task_kernel_bootstrap (im_symbols im))) a"
    "enter_bootstrap im a = Ret (sym_task_kernel_bootstrap (im_symbols im)) b" "console b = console (task_a a)"
    "enter_bootstrap im b = Ret (sym_task_kernel_bootstrap (im_symbols im)) c" "console c = console (task_b b)" "current_task c = Some 3"
    "load32 (reg_esp c + 4) c = Ret (sym_task_user_bootstrap (im_symbols im)) c" "task_user_bootstrap (sti c) = Ret entry e"
    "dual (cr3 t) e" "current_page_directory e = pd" "seg_cs (gdt_st e) = 0x1B" "reg_esp e = 0xBFFF1000" "iflag e"
    "esp0 (tss (gdt_st e)) = fc + 4096" "program_loaded (cr3 t) pd U data e"
    "vm_lookup e 0xBFFF0000 = Some (f OR 7)" "resident (cr3 t) pd e f" "frame_aligned f" "f \<noteq> g"
    "sched_inv [0, 1, 2, 3] e" "current_task e = Some 3" "t_page_directory (task_table e ! 3) = pd"
    "suspended {cr3 t, pd} e 0 g (j - 4) [reg_edi u, reg_esi u, reg_ebx u, reg_ebp u, rd32 (mem u) (reg_esp u)]"
    "t_state (task_table e ! 0) = TASK_STATE_READY" "stack_page {cr3 t, pd} e fc" "idt_st e = idt_st t"
    "t_page_directory (task_table e ! 0) = t_page_directory (task_table t ! 0)"
    "t_state (task_table e ! 1) = TASK_STATE_ZOMBIE" "t_state (task_table e ! 2) = TASK_STATE_ZOMBIE"
proof -
  let ?D = "{cr3 t, pd}" and ?xs = "[0, 1, 2] @ [3] :: nat list" and ?kb = "sym_task_kernel_bootstrap (im_symbols im)"
    and ?ub = "sym_task_user_bootstrap (im_symbols im)" and ?old = "cr3 t"
    and ?ws = "[reg_edi u, reg_esi u, reg_ebx u, reg_ebp u, rd32 (mem u) (reg_esp u)]"
  note fd = fresh_atD [OF fr]
  obtain a b where b: "irq_dispatch call_handler regs u = Ret (Switched ?kb) a"
    "enter_bootstrap im a = Ret ?kb b" "current_task b = Some 2" "console b = console (task_a a)" "spaces ?D b" "sched_inv ?xs b"
    "reg_esp b = fb + 4 * 1022" "suspended ?D b 2 fb 1017 (first_frame (im_symbols im) (im_task_b im))" "suspended ?D b 0 g (j - 4) ?ws"
    "t_state (task_table b ! 0) = TASK_STATE_READY" "t_state (task_table b ! 1) = TASK_STATE_ZOMBIE"
    "\<And>n. 2 < n \<Longrightarrow> n < 32 \<Longrightarrow> t_state (task_table b ! n) = t_state (task_table t ! n)"
    "\<And>n h l ws. 2 < n \<Longrightarrow> h \<noteq> g \<Longrightarrow> h \<noteq> fa \<Longrightarrow> suspended ?D t n h l ws \<Longrightarrow> suspended ?D b n h l ws"
    "\<And>n. t_page_directory (task_table b ! n) = t_page_directory (task_table t ! n)" "\<And>h. stack_page ?D b h = stack_page ?D t h"
    "\<And>n. t_eip (task_table b ! n) = t_eip (task_table t ! n)" "\<And>n. t_kstack (task_table b ! n) = t_kstack (task_table t ! n)"
    "pmm_st b = pmm_st t" "idt_st b = idt_st t" "\<And>x. \<not> in_frame g x \<Longrightarrow> \<not> in_frame fa x \<Longrightarrow> mem b x = mem t x"
    by (rule demo_tasks_run [OF ready g(1-3) j u irq]) (rule that)
  obtain p where p: "\<And>s :: 'a kern_scheme. demo_call im (im_task_b im) s = Ret () (print p s)" "\<And>s :: 'a kern_scheme. console (task_b s) = p (console s)"
    using demo_calls(2) [OF ab] by blast
  have s3: "suspended ?D b 3 fc 1017 (first_frame (im_symbols im) ?ub)" using b(13) [OF _ _ ne(1) su] g(4) by simp
  have b2: "suspended ?D b (?xs ! 2) fb 1017 (first_frame (im_symbols im) (im_task_b im))" "2 < length ?xs"
    "current_task b = Some (?xs ! 2)" "next_ready ?xs 2 b = Some 3"
    using b(3,8) b(12) [of 3] fd(1) by (simp_all add: numeral_2_eq_2)
  obtain c where c: "enter_bootstrap im b = Ret (first_frame (im_symbols im) ?ub ! 4) c" "spaces ?D c" "sched_inv ?xs c" "current_task c = Some 3"
    "reg_esp c = fc + 4 * (1017 + 5)" "pmm_st c = pmm_st b" "cr3 c = t_page_directory (task_table b ! 3)" "console c = p (console b)" "idt_st c = idt_st b"
    "\<And>n h l' ws'. n \<noteq> ?xs ! 2 \<Longrightarrow> h \<noteq> fb \<Longrightarrow> suspended ?D b n h l' ws' \<Longrightarrow> suspended ?D c n h l' ws'"
    "\<And>n. n < 32 \<Longrightarrow> t_state (task_table c ! n) = (if n = 3 then 1 else if n = ?xs ! 2 then 3 else t_state (task_table b ! n))"
    "\<And>n. t_page_directory (task_table c ! n) = t_page_directory (task_table b ! n)"
    "\<And>n. t_eip (task_table c ! n) = t_eip (task_table b ! n)" "\<And>n. t_kstack (task_table c ! n) = t_kstack (task_table b ! n)"
    "\<And>h. stack_page ?D c h = stack_page ?D b h" "\<And>x. \<not> in_frame fb x \<Longrightarrow> mem c x = mem b x"
    by (rule task_ends [OF b(5) b2(1) b(7,6) b2(2,3) p(1) b2(4) s3 ne(2)]) (rule that)
  note cs = spacesD [OF c(2)]
  have cpd: "current_page_directory c = pd" using cs(4) c(7) b(14) fd(3) by simp
  have sc: "suspended ?D c 3 fc 1017 (first_frame (im_symbols im) ?ub)" "suspended ?D c 0 g (j - 4) ?ws"
    using c(10) [OF _ ne(2) s3] c(10) [OF _ g(3) b(9)] by simp_all
  have pages: "\<forall>h \<in> {g, fa, fb}. stack_page ?D t h \<and> block_of h \<in> U"
    using g(1) U ready by (auto simp: demo_ready_def suspended_def)
  have mc: "\<forall>x. (\<forall>h \<in> {g, fa, fb}. \<not> in_frame h x) \<longrightarrow> mem c x = mem t x" using b(20) c(16) by simp
  have pc: "pmm_st c = pmm_st t" using b(18) c(6) by simp
  note lw = loaded_while [OF st pages mc cs(1,2) pc cpd pl]
  have w6: "rd32 (mem c) (fc + 4 * 1023) = ?ub"
    using sc(1) by (auto simp: suspended_def first_frame_def dest: spec [of _ "6 :: nat"])
  have "load32 (fc + 4 * 1023) c = Ret (rd32 (mem c) (fc + 4 * 1023)) c"
    using sc(1) by (intro frame_load32 [OF cs(1) fd(6) stack_page_ram [of ?D]]) (simp_all add: suspended_def)
  moreover have "reg_esp c + 4 = fc + 4 * 1023" using c(5) by simp
  ultimately have ld: "load32 (reg_esp c + 4) c = Ret ?ub c" using w6 by (simp only:)
  have dc: "dual ?old (sti c)" using lw(1) dual_cong [of "sti c" c ?old] by (simp add: sti_def)
  have c3: "current_task (sti c) = Some 3" "t_page_directory (task_table (sti c) ! 3) = current_page_directory (sti c)"
    using c(4,12) b(14) fd(3) cpd by (simp_all add: sti_def)
  have ce: "ram_top (sti c) \<le> 0xBFFF0000" "2 \<le> free_blocks (sti c)" using top fb pc by (simp_all add: sti_def free_blocks_def)
  obtain e f where e: "task_user_bootstrap (sti c) = Ret (t_eip (task_table (sti c) ! 3)) e" "dual ?old e"
    "current_page_directory e = current_page_directory (sti c)" "seg_cs (gdt_st e) = 0x1B" "reg_esp e = 0xBFFF1000" "iflag e"
    "esp0 (tss (gdt_st e)) = t_kstack (task_table (sti c) ! 3)"
    "sched_view e = sched_view (sti c)" "task_table e = task_table (sti c)" "idt_st e = idt_st (sti c)"
    "frame_aligned f" "block_of f \<notin> used_blocks (sti c)" "resident ?old (current_page_directory (sti c)) e f"
    "\<And>b. vm_lookup e b = (if vpn b = vpn 0xBFFF0000 then Some (f OR 7) else vm_lookup (sti c) b)"
    "\<And>a. resident ?old (current_page_directory (sti c)) (sti c) a \<Longrightarrow> resident ?old (current_page_directory (sti c)) e a \<and> mem e a = mem (sti c) a"
    by (rule user_entry [OF dc c3 ce]) (rule that)
  have sf: "mem (sti c) = mem c" "current_page_directory (sti c) = pd" "task_table (sti c) = task_table c" "pmm_st (sti c) = pmm_st c"
    "sched_view (sti c) = sched_view c" "idt_st (sti c) = idt_st c"
    using cpd by (simp_all add: sti_def sched_view_def)
  have epd: "current_page_directory e = pd" using e(3) sf(2) by simp
  have rese: "resident ?old pd e x \<and> mem e x = mem c x" if "resident ?old pd c x" for x
    using e(15) [of x] that resident_cong [of "sti c" c] sf by simp
  have ple: "program_loaded ?old pd U data e"
    using e(14) epd sf by (intro loaded_entered [OF lw(2) pg _ rese]) simp
  have stk: "stack_page ?D e h" if "stack_page ?D c h" for h
    using resident_pages(1) [OF e(2) epd] resident_pages(2) [OF lw(1) cpd that] rese that by (simp add: stack_page_def [of ?D c])
  have sg: "stack_page ?D c g" "stack_page ?D c fc" using sc by (simp_all add: suspended_def)
  have ga: "frame_aligned g" using g(1) by (simp add: stack_page_def)
  have te: "task_table e = task_table c" using e(9) sf(3) by simp
  have s0: "suspended ?D e 0 g (j - 4) ?ws"
  proof (rule suspended_kept [OF sc(2) stk [OF sg(1)]])
    show "mem e x = mem c x" if "in_frame g x" for x
      using rese resident_frame [OF resident_pages(2) [OF lw(1) cpd sg(1)] that ga] by blast
  qed (simp_all add: te)
  have ie: "sched_inv ?xs e" by (rule sched_inv_view [OF c(3)]) (simp add: e(8) sf(5))
  have fg: "f \<noteq> g" using e(12) sf(4) sg(1) by (auto simp: stack_page_def)
  have ce3: "current_task e = Some 3" using e(8) sf(5) c(4) by (auto simp: sched_view_def)
  have kc: "console c = console (task_b b)" using c(8) p(2) by simp
  have ent: "task_user_bootstrap (sti c) = Ret entry e" using e(1) sf(3) c(13) b(16) fd(2) by simp
  have ks: "esp0 (tss (gdt_st e)) = fc + 4096" using e(7) sf(3) c(14) b(17) fd(4) by simp
  have stt: "t_state (task_table e ! 0) = 0" "t_state (task_table e ! 1) = 3" "t_state (task_table e ! 2) = 3"
    using c(11) [of 0] c(11) [of 1] c(11) [of 2] b(10,11) te by (simp_all add: numeral_2_eq_2)
  show thesis
    by (rule that [OF b(1,2,4) c(1) [unfolded first_frame_nth] kc c(4) ld ent e(2) epd e(4-6) ks ple _ _ e(11) fg _ ce3 _ s0 stt(1) stk [OF sg(2)] _ _ stt(2,3)])
      (use e(13,14,10) sf ie te c(9,12) b(14,19) fd(3) in simp_all)
qed

subsection \<open>From the boot loader to the end of the process\<close>

text \<open>
  A machine whose boot module is an archive with a program \<^verbatim>\<open>/hello\<close>: the program lies above RAM and
  away from the page of the user stack, and there are blocks enough for it.
\<close>

definition disk_machine :: "kernel_image \<Rightarrow> u32 \<Rightarrow> multiboot_mmap_entry list \<Rightarrow> u32 \<Rightarrow> u32 \<Rightarrow> entry list \<Rightarrow> nat \<Rightarrow> 'a fs_scheme \<Rightarrow> bool" where
  "disk_machine im mbi_addr es start fin aes i s \<longleftrightarrow>
     (let data = a_data (aes ! i); R = reserved_blocks im es (boot_modules mbi_addr s) in
      booted mbi_addr es (Some (start, fin)) s \<and> ramdisk (mem s) start fin aes \<and> hello_at aes i \<and>
      kernel_local R start fin (im_ehdr im) 52 \<and> kernel_local R start fin (im_phdr im) 32 \<and>
      program_ok (4096 * ram_blocks es) data \<and> 0xBFFF0000 \<notin> set (program_pages data) \<and> length (tar_nodes s) = 128 \<and>
      12 + (ram_blocks es + 1023) div 1024 + 2 * length (program_pages data) \<le> card (spare_blocks im es (boot_modules mbi_addr s)))"

text \<open>The pages a process can write to without harm.\<close>

abbreviation process_pages :: "u8 list \<Rightarrow> u32 list" where
  "process_pages data \<equiv> 0xBFFF0000 # program_pages data"

lemma process_frames:
  assumes pl: "program_loaded old pd U data e" and ok: "vm_ok e" "paging_on e" "current_page_directory e = pd" and pr: "program_ok base data"
    and st: "vm_lookup e 0xBFFF0000 = Some (f OR 7)" "resident old pd e f" "frame_aligned f" "f \<noteq> g" and g: "block_of g \<in> U"
    and v: "v \<in> set (process_pages data)" "translate e v = Some p"
  shows "resident old pd e p \<and> p \<noteq> g"
proof (cases "v = 0xBFFF0000")
  case True
  then have "p = f" using v(2) st(1,3) ok by (simp add: translate_lookup [OF ok(1)] frame_or_flags)
  then show ?thesis using st by simp
next
  case False
  then obtain ph where ph: "ph \<in> set (segments_of data)" "v \<in> set (segment_pages ph)" using v(1) by (auto simp: program_pages_def)
  then have "unat (p_vaddr ph) + unat (p_memsz ph) + 4095 < 2 ^ 32" using pr by (simp add: program_ok_def Let_def)
  from segment_pages_facts(2) [OF this ph(2)] have "frame_of v = v" by (simp add: frame_of_aligned)
  then have "has_byte old pd U e v (segment_byte data ph v)" using pl ph by (simp add: program_loaded_def)
  then obtain pte where "page_walk (mem e) pd v = Some pte" "block_of (frame_of pte OR (v AND 0xFFF)) \<notin> U"
    "resident old pd e (frame_of pte OR (v AND 0xFFF))"
    by (auto simp: has_byte_def Let_def)
  moreover from this(1) have "p = frame_of pte OR (v AND 0xFFF)" using v(2) ok by (simp add: translate_lookup [OF ok(1)])
  ultimately show ?thesis using g by auto
qed

text \<open>
  What follows the first timer interrupt, in the state \<open>u\<close>: both demo tasks, the process in ring 3 with
  the program \<open>data\<close>, and after its system call \<^verbatim>\<open>exit\<close> the boot thread again.
\<close>

definition process_runs :: "kernel_image \<Rightarrow> u8 list \<Rightarrow> registers \<Rightarrow> 'a kern_scheme \<Rightarrow> bool" where
  "process_runs im data regs u \<longleftrightarrow> (\<exists>a b c e.
     irq_dispatch call_handler regs u = Ret (Switched (sym_task_kernel_bootstrap (im_symbols im))) a \<and>
     enter_bootstrap im a = Ret (sym_task_kernel_bootstrap (im_symbols im)) b \<and> console b = console (task_a a) \<and>
     enter_bootstrap im b = Ret (sym_task_kernel_bootstrap (im_symbols im)) c \<and> console c = console (task_b b) \<and>
     load32 (reg_esp c + 4) c = Ret (sym_task_user_bootstrap (im_symbols im)) c \<and>
     task_user_bootstrap (sti c) = Ret (e_entry (decode_ehdr (take 52 data))) e \<and>
     current_task e = Some 3 \<and> seg_cs (gdt_st e) = 0x1B \<and> reg_esp e = 0xBFFF1000 \<and> iflag e \<and>
     (\<forall>ph \<in> set (segments_of data). \<forall>a. frame_of a \<in> set (segment_pages ph) \<longrightarrow>
        user_access (mem e) (cr3 e) a True \<and> load8 a e = Ret (segment_byte data ph a) e) \<and>
     (\<forall>a. frame_of a = 0xBFFF0000 \<longrightarrow> user_access (mem e) (cr3 e) a True) \<and>
     (\<forall>k x status. 4 \<le> unat k \<and> unat k < 1024 \<and> trapped (process_pages data) e (esp0 (tss (gdt_st e)) - 4096) k x \<longrightarrow>
        (\<exists>z. int80 1 status 0 0 x = Ret (Switched (rd32 (mem u) (reg_esp u))) z \<and> current_task z = Some 0 \<and>
           vm_ok z \<and> paging_on z \<and> sched_inv [0, 1, 2, 3] z \<and> t_state (task_table z ! 3) = TASK_STATE_ZOMBIE \<and>
           reg_esp z = reg_esp u + 4 \<and> reg_ebp z = reg_ebp u \<and> reg_ebx z = reg_ebx u \<and> reg_esi z = reg_esi u \<and> reg_edi z = reg_edi u)))"

lemma stack_writable:
  assumes "vm_ok e" "paging_on e" "vm_lookup e 0xBFFF0000 = Some (f OR 7)" "frame_aligned f" "frame_of a = 0xBFFF0000"
  shows "user_access (mem e) (cr3 e) a True"
proof -
  have "vpn a = vpn 0xBFFF0000" using assms(5) vpn_iff_frame [of a "0xBFFF0000"] by simp
  from page_walk_vpn [OF this] have l: "vm_lookup e a = Some (f OR 7)" using assms(3) by simp
  have cr: "cr3 e = current_page_directory e" by (rule vm_okD(5) [OF assms(1,2)])
  show ?thesis unfolding cr using l assms(4) by (subst user_access_iff [OF vm_okD(3) [OF assms(1)]]) (simp add: flag_or_frame)
qed

lemma loaded_process_runs:
  fixes t :: "'a kern_scheme"
  assumes ready: "demo_ready im fa fb {cr3 t, pd} [3] t" and st: "staged (cr3 t) pd t" and ne: "fc \<noteq> fa" "fc \<noteq> fb"
    and fr: "fresh_at (im_symbols im) t 3 fc pd (e_entry (decode_ehdr (take 52 data))) (sym_task_user_bootstrap (im_symbols im))"
    and su: "suspended {cr3 t, pd} t 3 fc 1017 (first_frame (im_symbols im) (sym_task_user_bootstrap (im_symbols im)))"
    and pl: "program_loaded (cr3 t) pd U data t" and U: "block_of fa \<in> U" "block_of fb \<in> U" "block_of g \<in> U"
    and g: "stack_page {cr3 t, pd} t g" "g \<noteq> fa" "g \<noteq> fb" "g \<noteq> fc" and j: "4 \<le> unat j" "unat j < 1024"
    and u: "interrupted t g j u" and irq: "r_int_no regs = 32" and ab: "im_task_a im \<noteq> im_task_b im"
    and pg: "0xBFFF0000 \<notin> set (program_pages data)" and top: "ram_top t \<le> 0xBFFF0000" and fb: "2 \<le> free_blocks t"
    and pr: "program_ok base data" and h: "handlers (idt_st t) ! 128 = Some Syscall_dispatch"
  shows "process_runs im data regs u"
proof -
  let ?syms = "im_symbols im" and ?ws = "[reg_edi u, reg_esi u, reg_ebx u, reg_ebp u, rd32 (mem u) (reg_esp u)]"
  obtain a b c e f where e: "irq_dispatch call_handler regs u = Ret (Switched (sym_task_kernel_bootstrap ?syms)) a"
    "enter_bootstrap im a = Ret (sym_task_kernel_bootstrap ?syms) b" "console b = console (task_a a)"
    "enter_bootstrap im b = Ret (sym_task_kernel_bootstrap ?syms) c" "console c = console (task_b b)"
    "load32 (reg_esp c + 4) c = Ret (sym_task_user_bootstrap ?syms) c"
    "task_user_bootstrap (sti c) = Ret (e_entry (decode_ehdr (take 52 data))) e"
    "dual (cr3 t) e" "current_page_directory e = pd" "seg_cs (gdt_st e) = 0x1B" "reg_esp e = 0xBFFF1000" "iflag e"
    "esp0 (tss (gdt_st e)) = fc + 4096" "program_loaded (cr3 t) pd U data e"
    "vm_lookup e 0xBFFF0000 = Some (f OR 7)" "resident (cr3 t) pd e f" "frame_aligned f" "f \<noteq> g"
    "sched_inv [0, 1, 2, 3] e" "current_task e = Some 3" "t_page_directory (task_table e ! 3) = pd"
    "suspended {cr3 t, pd} e 0 g (j - 4) ?ws" "t_state (task_table e ! 0) = TASK_STATE_READY" "stack_page {cr3 t, pd} e fc" "idt_st e = idt_st t"
    by (rule third_task_enters [OF ready st ne fr su pl U g j u irq ab pg top fb]) (rule that)
  note ok = dualD(1,2) [OF e(8)]
  have own: "\<forall>v \<in> set (process_pages data). \<forall>p. translate e v = Some p \<longrightarrow> resident (cr3 t) (current_page_directory e) e p \<and> p \<noteq> g"
    using process_frames [OF e(14) ok e(9) pr e(15-18) U(3)] e(9) by simp
  have dir: "t_page_directory (task_table e ! 3) = current_page_directory e" and he: "handlers (idt_st e) ! 128 = Some Syscall_dispatch"
    using e(9,21,25) h by simp_all
  have ex: "\<exists>z. int80 1 status 0 0 x = Ret (Switched (rd32 (mem u) (reg_esp u))) z \<and> current_task z = Some 0 \<and>
      vm_ok z \<and> paging_on z \<and> sched_inv [0, 1, 2, 3] z \<and> t_state (task_table z ! 3) = TASK_STATE_ZOMBIE \<and>
      reg_esp z = reg_esp u + 4 \<and> reg_ebp z = reg_ebp u \<and> reg_ebx z = reg_ebx u \<and> reg_esi z = reg_esi u \<and> reg_edi z = reg_edi u"
    if x: "trapped (process_pages data) e (esp0 (tss (gdt_st e)) - 4096) k x" and k: "4 \<le> unat k" "unat k < 1024" for k x status
  proof -
    have xt: "trapped (process_pages data) e fc k x" using x e(13) by simp
    obtain z where z: "int80 1 status 0 0 x = Ret (Switched (?ws ! 4)) z" "spaces {cr3 t, pd} z" "sched_inv [0, 1, 2, 3] z"
      "current_task z = Some 0" "reg_esp z = g + 4 * (j - 4 + 5)" "reg_edi z = ?ws ! 0" "reg_esi z = ?ws ! 1" "reg_ebx z = ?ws ! 2"
      "reg_ebp z = ?ws ! 3" "t_state (task_table z ! 3) = TASK_STATE_ZOMBIE"
      by (rule process_exits [OF e(8) own e(19,20) dir, unfolded e(9), OF e(22,23,24) g(4) [symmetric] he xt k]) (rule that)
    have "reg_esp z = reg_esp u + 4" using z(5) interruptedD(7) [OF u] by (simp add: algebra_simps)
    then show ?thesis using z spacesD(1,2) [OF z(2)] by simp
  qed
  note seg = loaded_readable [OF e(14) ok e(9)] and stk = stack_writable [OF ok e(15,17)]
  show ?thesis
    unfolding process_runs_def
    by (intro exI conjI) (rule e(1) e(2) e(3) e(4) e(5) e(6) e(7) e(20) e(10) e(11) e(12) | use seg stk ex in blast)+
qed

lemma disk_run:
  fixes s :: "'a fs_scheme" and mbi_addr :: u32
  assumes dm: "disk_machine im mbi_addr es start fin aes i s" and ab: "im_task_a im \<noteq> im_task_b im"
    and g: "frame_aligned g" "block_of g \<in> reserved_blocks im es (boot_modules mbi_addr s)"
    and j: "4 \<le> unat j" "unat j < 1024" and irq: "r_int_no regs = 32"
  obtains t where "kernel_main im 0x2BADB002 mbi_addr s = Ret () t" "\<forall>u. interrupted t g j u \<longrightarrow> process_runs im (a_data (aes ! i)) regs u"
proof -
  let ?d = "a_data (aes ! i)" and ?R = "reserved_blocks im es (boot_modules mbi_addr s)" and ?syms = "im_symbols im"
  have m: "booted mbi_addr es (Some (start, fin)) s" "ramdisk (mem s) start fin aes" "hello_at aes i"
    "kernel_local ?R start fin (im_ehdr im) 52" "kernel_local ?R start fin (im_phdr im) 32" "program_ok (4096 * ram_blocks es) ?d"
    "length (tar_nodes s) = 128" "0xBFFF0000 \<notin> set (program_pages ?d)"
    "12 + (ram_blocks es + 1023) div 1024 + 2 * length (program_pages ?d) \<le> card (spare_blocks im es (boot_modules mbi_addr s))"
    using dm by (simp_all add: disk_machine_def Let_def)
  have room: "10 + (ram_blocks es + 1023) div 1024 + 2 * length (program_pages ?d) \<le> card (spare_blocks im es (boot_modules mbi_addr s))"
    using m(9) by simp
  obtain t pd fa fb fc where t: "kernel_main im 0x2BADB002 mbi_addr s = Ret () t" "staged (cr3 t) pd t"
    "demo_ready im fa fb {cr3 t, pd} [3] t" "fc \<noteq> fa" "fc \<noteq> fb"
    "fresh_at ?syms t 3 fc pd (e_entry (decode_ehdr (take 52 ?d))) (sym_task_user_bootstrap ?syms)"
    "suspended {cr3 t, pd} t 3 fc 1017 (first_frame ?syms (sym_task_user_bootstrap ?syms))"
    "program_loaded (cr3 t) pd (insert (block_of fa) (insert (block_of fb) ?R)) ?d t"
    "\<forall>g. frame_aligned g \<longrightarrow> block_of g \<in> ?R \<longrightarrow> stack_page {cr3 t, pd} t g \<and> g \<notin> {fa, fb, fc}"
    "handlers (idt_st t) = (replicate 256 None)[128 := Some Syscall_dispatch, 14 := Some Page_fault_handler, 32 := Some Timer_callback]"
    "ram_top t = 4096 * ram_blocks es"
    "card (spare_blocks im es (boot_modules mbi_addr s)) \<le> free_blocks t + 10 + (ram_blocks es + 1023) div 1024 + 2 * length (program_pages ?d)"
    by (rule disk_boot [OF m(1-7) room]) (rule that)
  let ?U = "insert (block_of fa) (insert (block_of fb) ?R)"
  have gs: "stack_page {cr3 t, pd} t g" "g \<noteq> fa" "g \<noteq> fb" "g \<noteq> fc" using t(9) g by auto
  have U: "block_of fa \<in> ?U" "block_of fb \<in> ?U" "block_of g \<in> ?U" using g(2) by simp_all
  have res: "ram_top t \<le> 0xBFFF0000" "2 \<le> free_blocks t" using t(11,12) m(9) bootedD(8) [OF m(1)] by simp_all
  have h: "handlers (idt_st t) ! 128 = Some Syscall_dispatch" using t(10) by simp
  from loaded_process_runs [OF t(3,2,4-8) U gs j _ irq ab m(8) res m(6) h] t(1) show thesis by (intro that) blast+
qed

subsection \<open>A machine with a RAM disk\<close>

text \<open>The machine of \<^const>\<open>demo_machine\<close> with a boot module at \<^verbatim>\<open>0x1C0000\<close> that holds the small program as \<^verbatim>\<open>hello\<close>.\<close>

definition disk_files :: "entry list" where
  "disk_files = [\<lparr>a_name = map of_char ''hello'', a_type = 48, a_data = tiny_elf\<rparr>]"

definition disk_low :: memory where
  "disk_low = boot_memory(0x902C := 0x30, 0x9000 := 0x48, 0x9014 := 1, 0x9019 := 0x92,
     0x9202 := 0x1C, 0x9205 := 0x8, 0x9206 := 0x1C)"

definition disk_fs :: fs where
  "disk_fs = small_fs\<lparr>mem := (\<lambda>a. if 0x1C0000 \<le> unat a \<and> unat a < 0x1C0800
     then archive_bytes disk_files ! (unat a - 0x1C0000) else disk_low a)\<rparr>"

lemma disk_length: "length (archive_bytes disk_files) = 2048"
  by (simp add: disk_files_def length_ustar_header tiny_headers padding_def)

lemma disk_program:
  "segments_of tiny_elf = [tiny_phdr]" "program_pages tiny_elf = [0x08048000]" "program_ok 0x200000 tiny_elf"
proof -
  have po: "phdr_off tiny_ehdr 0 = 52" by (simp add: phdr_off_def tiny_headers)
  then show sg: "segments_of tiny_elf = [tiny_phdr]"
    using tiny_headers(7) by (simp add: segments_of_def load_list_def phdr_of_def tiny_ehdr_def [symmetric] tiny_headers(3) tiny_phdr_def [symmetric] upt_rec)
  show pp: "program_pages tiny_elf = [0x08048000]" by (simp add: program_pages_def sg tiny_segment)
  show "program_ok 0x200000 tiny_elf"
    using po pp sg by (simp add: program_ok_def Let_def tiny_ehdr_def [symmetric] tiny_headers)
qed

lemma disk_words:
  "mbi_flags (read_multiboot_info (mem disk_fs) 0x9000) = 0x48" "mbi_mmap_addr (read_multiboot_info (mem disk_fs) 0x9000) = 0x9100"
  "mbi_mmap_length (read_multiboot_info (mem disk_fs) 0x9000) = 48" "mbi_mods_count (read_multiboot_info (mem disk_fs) 0x9000) = 1"
  "mbi_mods_addr (read_multiboot_info (mem disk_fs) 0x9000) = 0x9200" "entries_at (mem disk_fs) 0x9100 0x9130 demo_entries"
  "rd32 (mem disk_fs) 0x9000 = 0x48" "rd32 (mem disk_fs) 0x9014 = 1" "rd32 (mem disk_fs) 0x9018 = 0x9200"
  "rd32 (mem disk_fs) 0x9200 = 0x1C0000" "rd32 (mem disk_fs) 0x9204 = 0x1C0800"
  by (simp_all add: disk_fs_def disk_low_def boot_memory_def boot_bytes_def demo_entries_def boot_entries_def read_multiboot_info_def
      read_mmap_entry_def rd32_def rd64_def)

lemma disk_booted: "booted 0x9000 demo_entries (Some (0x1C0000, 0x1C0800)) disk_fs" "boot_modules 0x9000 disk_fs = {448}"
proof -
  have "\<not> paging_on disk_fs" by (simp add: disk_fs_def small_fs_def paging_on_def)
  then show "booted 0x9000 demo_entries (Some (0x1C0000, 0x1C0800)) disk_fs"
    unfolding booted_def Let_def disk_words using disk_words(6) by (simp add: initrd_at_def disk_words demo_booted(2))
  show "boot_modules 0x9000 disk_fs = {448}"
    by (auto simp: module_blocks_def disk_words mod_start_def mod_end_def reserved_range_def lessThan_Suc)
qed

lemma disk_spare: "spare_blocks demo_image demo_entries {448} = {385..<512} - {448}"
proof -
  have "spare_blocks demo_image demo_entries {448} = spare_blocks demo_image demo_entries {} - {448}" by (auto simp: spare_blocks_def)
  then show ?thesis by (simp only: demo_spare)
qed

lemma disk_disk: "ramdisk (mem disk_fs) 0x1C0000 0x1C0800 disk_files" "hello_at disk_files 0"
proof -
  have "mem disk_fs (0x1C0000 + of_nat i) = archive_bytes disk_files ! i" if "i < 2048" for i
  proof -
    have "unat (0x1C0000 + of_nat i :: u32) = 0x1C0000 + i" using that unat_add_of_nat [of "0x1C0000 :: u32" i] by simp
    then show ?thesis using that by (simp add: disk_fs_def)
  qed
  moreover have "names_ok disk_files" by (simp add: names_ok_def entry_ok_def disk_files_def clean_name_def)
  moreover have "length disk_files = 1" by (simp add: disk_files_def)
  ultimately show "ramdisk (mem disk_fs) 0x1C0000 0x1C0800 disk_files"
    by (simp add: ramdisk_def disk_length frame_aligned_def)
  show "hello_at disk_files 0" by (simp add: hello_at_def disk_files_def plain_def clean_name_def strip_def)
qed

lemma disk_local:
  assumes "unat a + n \<le> 0x108000" "0x100000 \<le> unat a"
  shows "kernel_local (reserved_blocks demo_image demo_entries {448}) 0x1C0000 0x1C0800 a n"
  unfolding kernel_local_def reserved_blocks_def disk_spare demo_booted(2)
proof (intro allI impI)
  fix i assume i: "i < n"
  have u: "unat (a + of_nat i) = unat a + i" using assms i by (intro unat_add_of_nat) simp
  then have "block_of (a + of_nat i) < 385" using assms i by simp
  moreover have "a + of_nat i < 0x1C0000" using u assms i by (simp add: word_less_nat_alt)
  ultimately show "block_of (a + of_nat i) \<in> {..<unat (0x200000 :: u32) div 4096} - ({385..<512} - {448}) \<and>
      (a + of_nat i < 0x1C0000 \<or> 0x1C0800 \<le> a + of_nat i)" by simp
qed

lemma disk_fs_machine: "disk_machine demo_image 0x9000 demo_entries 0x1C0000 0x1C0800 disk_files 0 disk_fs"
proof -
  have d: "a_data (disk_files ! 0) = tiny_elf" by (simp add: disk_files_def)
  have "length (tar_nodes disk_fs) = 128" by (simp add: disk_fs_def small_fs_def)
  moreover have "im_ehdr demo_image = 0x107F00" "im_phdr demo_image = 0x107F40" by (simp_all add: demo_image_def)
  moreover have "card (spare_blocks demo_image demo_entries {448}) = 126" unfolding disk_spare by simp
  ultimately show ?thesis
    using disk_booted(1) disk_disk disk_local [of "0x107F00" 52] disk_local [of "0x107F40" 32] disk_program
    by (simp add: disk_machine_def d disk_booted(2) demo_booted(2) del: One_nat_def)
qed

end
