(* ===== verification/Startup.thy ===== *)
theory Startup
  imports Preempt Process
begin

text \<open>
  The entry code of \<^verbatim>\<open>src/boot.s\<close> and the way from it to the preemptive system: the descriptor tables
  that the boot installs are the ones the first timer interrupt meets, so the system the boot leaves
  behind satisfies the invariant of \<open>Preempt\<close>.
\<close>

subsection \<open>The entry code\<close>

text \<open>The three words of the Multiboot header.\<close>

definition multiboot_header :: "u32 list" where
  "multiboot_header = (let magic = 0x1BADB002; flags = 1 OR 2 in [magic, flags, - (magic + flags)])"

lemma multiboot_checksum: "sum_list multiboot_header = 0"
  by (simp add: multiboot_header_def Let_def)

text \<open>
  \<^verbatim>\<open>_start\<close>, entered with the magic number in EAX and the address of the boot information in EBX;
  \<open>ret\<close> is the address behind the call. \<^verbatim>\<open>kernel_main\<close> finds its arguments above the return address. It
  ends in its idle loop, so the loop on \<^verbatim>\<open>hlt\<close> behind the call is not reached.
\<close>

definition start_code :: "kernel_image \<Rightarrow> u32 \<Rightarrow> u32 \<Rightarrow> u32 \<Rightarrow> 'a fs_scheme \<Rightarrow> (unit, 'a fs_scheme) outcome" where
  "start_code im stack_top ret eax s =
     (let s = s\<lparr>reg_esp := stack_top\<rparr> in
      obind (push (reg_ebx s) s) (\<lambda>_ s.
      obind (push eax s) (\<lambda>_ s.
      obind (push ret s) (\<lambda>_ s.
      obind (load32 (reg_esp s + 4) s) (\<lambda>magic s.
      obind (load32 (reg_esp s + 8) s) (\<lambda>mbi_addr s.
      kernel_main im magic mbi_addr s))))))"

text \<open>The state in which \<^verbatim>\<open>kernel_main\<close> is entered.\<close>

definition called :: "u32 \<Rightarrow> u32 \<Rightarrow> u32 \<Rightarrow> 'a kern_scheme \<Rightarrow> 'a kern_scheme" where
  "called stack_top ret eax s =
     s\<lparr>mem := wr32 (stack_top - 12) ret (wr32 (stack_top - 8) eax (wr32 (stack_top - 4) (reg_ebx s) (mem s))),
       reg_esp := stack_top - 12\<rparr>"

lemma rd32_wr32_apart:
  assumes "4 \<le> unat d" "unat d + 4 < 2 ^ 32"
  shows "rd32 (wr32 a v m) (a + d) = rd32 m (a + d)"
proof (intro rd32_cong wr32_outside)
  fix k l :: nat assume "k < 4" "l < 4"
  then have "unat (d + of_nat k) = unat d + k" "unat (of_nat l :: u32) = l"
    using assms(2) by (simp_all add: unat_plus_small unat_index)
  then have "d + of_nat k \<noteq> of_nat l" using assms(1) \<open>l < 4\<close> by auto
  then show "a + d + of_nat k \<noteq> a + of_nat l" by (simp add: add.assoc)
qed

lemma start_code_calls:
  fixes s :: "'a fs_scheme"
  assumes "\<not> paging_on s"
  shows "start_code im stack_top ret eax s = kernel_main im eax (reg_ebx s) (called stack_top ret eax s)"
proof -
  define b where "b = stack_top - 12"
  have t: "stack_top = b + 12" by (simp add: b_def)
  have off: "\<And>u :: 'a fs_scheme. cr0 u = cr0 s \<Longrightarrow> translate u a = Some a" for a
    using assms by (simp add: translate_def paging_on_def)
  note ap = rd32_wr32_apart [of 4 "b + 4", unfolded add.assoc, simplified] rd32_wr32_apart [of 4 b] rd32_wr32_apart [of 8 b]
  have "rd32 (wr32 b x m) (b + 4) = rd32 m (b + 4)" "rd32 (wr32 b x m) (b + 8) = rd32 m (b + 8)"
    "rd32 (wr32 (4 + b) x m) (b + 8) = rd32 m (b + 8)" "rd32 (wr32 (4 + b) x m) (b + 4) = x" "rd32 (wr32 (8 + b) x m) (b + 8) = x" for x m
    using ap(2,3) by (simp_all add: ap(1) add.commute [of 4 b] add.commute [of 8 b] del: add.commute)
  then show ?thesis by (simp add: start_code_def called_def push_def Let_def store32_def load32_def off t)
qed

subsection \<open>What the boot leaves alone\<close>

text \<open>
  A view of the state that has none of the memory, the console, the ports, the handler table, the paging
  registers and the variables of the file system is the same after the boot as after \<open>boot_tables\<close>.
\<close>

locale boot_view = kern_view view for view :: "'a fs_scheme \<Rightarrow> 'v" +
  assumes view_print [simp]: "view (print f s) = view s"
    and view_outb [simp]: "view (outb p v s) = view s"
    and view_handler [simp]: "view (register_handler n h s) = view s"
    and view_cr0 [simp]: "view (s\<lparr>cr0 := x\<rparr>) = view s"
    and view_cr2 [simp]: "view (s\<lparr>cr2 := x\<rparr>) = view s"
    and view_cr3 [simp]: "view (write_cr3 x s) = view s"
    and view_directory [simp]: "view (s\<lparr>current_page_directory := x\<rparr>) = view s"
    and view_nodes [simp]: "view (s\<lparr>tar_nodes := ns\<rparr>) = view s"
    and view_count [simp]: "view (s\<lparr>tar_file_count := k\<rparr>) = view s"
    and view_tar_root [simp]: "view (s\<lparr>tar_root := nd\<rparr>) = view s"
    and view_fs_root [simp]: "view (s\<lparr>fs_root := r\<rparr>) = view s"
begin

lemma free_block_same [simp]: "view (free_block b s) = view s"
  by (simp add: free_block_def)

lemma sti_same [simp]: "view (sti s) = view s"
  by (simp add: sti_def)

lemma unmap_page_same: "vmm_unmap_page a s = Ret r t \<Longrightarrow> view t = view s"
  unfolding vmm_unmap_page_def Let_def by (auto split: if_splits elim!: obind_RetE dest!: load32_same store32_same)

lemma fault_handler_same: "page_fault_handler regs s = Ret r t \<Longrightarrow> view t = view s"
  unfolding page_fault_handler_def Let_def
  by (auto simp: fault_report_def split: if_splits prod.splits elim!: obind_RetE dest!: alloc_block_same map_page_same)

lemma page_fault_same: "page_fault err a s = Ret u t \<Longrightarrow> view t = view s"
  unfolding page_fault_def isr_dispatch_def
  by (auto split: option.splits isr_handler.splits elim!: obind_RetE dest!: fault_handler_same)

lemma retry_same:
  assumes "retry err m s = Ret v t" "\<And>s v t. m s = Ret v t \<Longrightarrow> view t = view s" "\<And>s a t. m s = Trap a t \<Longrightarrow> t = s"
  shows "view t = view s"
  using assms unfolding retry_def by (auto split: outcome.splits elim!: obind_RetE dest!: page_fault_same) metis+

lemma access_same:
  "kload8 a s = Ret b t \<Longrightarrow> view t = view s" "kload32 a s = Ret v t \<Longrightarrow> view t = view s" "kstore32 a v s = Ret u t \<Longrightarrow> view t = view s"
  unfolding kload8_def kload32_def kstore32_def
  by (erule retry_same; auto simp: load8_def load32_def store32_def split: option.splits)+

lemma boot_pmm_same: "boot_pmm im mbi s = Ret u t \<Longrightarrow> view t = view s"
  by (auto simp: boot_pmm_def report_memory_def Let_def split: option.splits)

lemma pmm_selftest_same: "pmm_selftest n s = Ret u t \<Longrightarrow> view t = view s"
  unfolding pmm_selftest_def Let_def
  by (auto simp: report_block_def stop_def split: prod.splits if_splits dest!: alloc_block_same)

lemma vmm_init_same: "vmm_init s = Ret u t \<Longrightarrow> view t = view s"
  unfolding vmm_init_def Let_def
  by (auto simp: vmm_report_def write_cr0_def split: prod.splits if_splits elim!: obind_RetE
      dest!: alloc_block_same memset_same) (auto dest!: foreach_same map_page_same)

lemma module_list_same: "module_list mbi s = Ret r t \<Longrightarrow> view t = view s"
  unfolding module_list_def by (auto split: if_splits elim!: obind_RetE dest!: access_same)

lemma probes_same: "pre_vmm_probe mbi s = Ret u t \<Longrightarrow> view t = view s" "post_vmm_probe mbi s = Ret u t \<Longrightarrow> view t = view s"
  unfolding pre_vmm_probe_def post_vmm_probe_def Let_def
  by (auto split: option.splits elim!: obind_RetE dest!: access_same module_list_same)

lemma vmm_tests_same:
  "vmm_test_a s = Ret u t \<Longrightarrow> view t = view s" "vmm_test_b s = Ret u t \<Longrightarrow> view t = view s" "security_page s = Ret u t \<Longrightarrow> view t = view s"
  unfolding vmm_test_a_def vmm_test_b_def security_page_def Let_def
  by (auto simp: stop_def split: prod.splits if_splits elim!: obind_RetE
      dest!: access_same alloc_block_same map_page_same unmap_page_same)

lemma boot_vmm_same: "boot_vmm mbi s = Ret u t \<Longrightarrow> view t = view s"
  unfolding boot_vmm_def Let_def
  by (auto elim!: obind_RetE dest!: probes_same vmm_init_same vmm_tests_same)

lemma load_bytes_same: "load_bytes a n s = Ret bs t \<Longrightarrow> view t = view s"
  by (induction n arbitrary: a s bs) (auto simp: load8_def split: option.splits elim!: obind_RetE)

lemma memcpy_same: "memcpy d a n s = Ret r t \<Longrightarrow> view t = view s"
  unfolding memcpy_def
  by (auto elim!: obind_RetE dest!: foreach_same) (auto simp: load8_def split: option.splits dest!: store8_same)

lemma read_fs_same: "read_fs call_read nd off n buf s = Ret r t \<Longrightarrow> view t = view s"
  by (auto simp: read_fs_def call_read_def tar_read_def Let_def split: option.splits read_type_t.splits if_splits
      elim!: obind_RetE dest!: memcpy_same)

lemma tar_step_same:
  "tar_step limit ptr s = Inl (p, t) \<Longrightarrow> view t = view s" "tar_step limit ptr s = Inr (Ret u t) \<Longrightarrow> view t = view s"
  by (auto simp: tar_step_def tar_debug_def tar_add_node_def Let_def split: if_splits option.splits outcome.splits dest!: load_bytes_same)

lemma tar_loop_same:
  assumes "tar_loop limit ptr s = Ret u t"
  shows "view t = view s"
proof -
  let ?body = "\<lambda>st. case projl st of (ptr, s) \<Rightarrow> tar_step limit ptr s"
  define P where "P = (\<lambda>st :: u32 \<times> 'a fs_scheme + (unit, 'a fs_scheme) outcome.
    case st of Inl (p, x) \<Rightarrow> view x = view s | Inr r \<Rightarrow> (\<forall>v x. r = Ret v x \<longrightarrow> view x = view s))"
  have run: "while_option isl ?body (Inl (ptr, s)) = Some (Inr (Ret u t))"
    using assms by (auto simp: tar_loop_def split: option.splits sum.splits)
  have "P (?body st)" if st: "P st" "isl st" for st
  proof -
    obtain p x where "st = Inl (p, x)" "view x = view s" using st by (cases st) (auto simp: P_def)
    then show ?thesis using tar_step_same [of limit p x] by (auto simp: P_def split: sum.splits)
  qed
  then have "P (Inr (Ret u t))" by (rule while_option_rule [OF _ run]) (simp_all add: P_def)
  then show ?thesis by (simp add: P_def)
qed

lemma mount_initrd_same: "mount_initrd a e s = Ret u t \<Longrightarrow> view t = view s"
  unfolding mount_initrd_def tar_init_def Let_def
  by (auto split: if_splits elim!: obind_RetE dest!: access_same tar_loop_same)

lemma switch_directory_same [simp]: "view (switch_directory pd s) = view s"
  by (simp add: switch_directory_def)

lemma map_segment_same: "map_segment vs bs s = Ret r t \<Longrightarrow> view t = view s"
  by (induction vs arbitrary: bs s)
    (auto simp: Let_def split: prod.splits if_splits elim!: obind_RetE dest!: alloc_block_same map_page_same memset_same)

lemma load_segment_same: "load_segment nd ph pd bs s = Ret r t \<Longrightarrow> view t = view s"
  unfolding load_segment_def Let_def
  by (auto split: prod.splits if_splits elim!: obind_RetE dest!: map_segment_same read_fs_same)

lemma load_headers_same: "load_headers nd eh a pd is bs s = Ret r t \<Longrightarrow> view t = view s"
proof (induction "is" arbitrary: bs s)
  case (Cons i "is")
  from Cons.prems show ?case
    by (auto simp: Let_def split: prod.splits if_splits elim!: obind_RetE
        dest!: Cons.IH load_segment_same load_bytes_same read_fs_same)
qed simp

lemma elf_cleanup_same [simp]: "view (elf_cleanup bs pd s) = view s"
proof -
  have "view (fold free_block bs x) = view x" for x by (induction bs arbitrary: x) simp_all
  then show ?thesis by (simp add: elf_cleanup_def Let_def)
qed

lemma elf_load_same: "elf_load path a b s = Ret r t \<Longrightarrow> view t = view s"
  unfolding elf_load_def elf_build_def elf_error_def Let_def
  by (auto split: option.splits prod.splits if_splits elim!: obind_RetE
      dest!: read_fs_same load_bytes_same alloc_block_same memcpy_same load_headers_same)

lemma boot_tasks_same: "boot_tasks im mbi s = Ret u t \<Longrightarrow> view t = view s"
  unfolding boot_tasks_def find_initrd_def start_tasks_def spawn_elf_def Let_def
  by (auto simp: scheduler_init_same split: prod.splits option.splits if_splits elim!: obind_RetE
      dest!: module_list_same access_same mount_initrd_same task_create_same elf_load_same)

lemma start_timer_same:
  assumes "start_timer s = Ret u t"
  shows "view t = view s"
proof -
  have "view (fold (\<lambda>(p, v). outb p v) xs x) = view x" for xs x by (induction xs arbitrary: x) auto
  then show ?thesis using assms by (auto simp: start_timer_def timer_init_def Let_def elim!: obind_RetE)
qed

lemma kernel_main_same:
  assumes "kernel_main im magic mbi s = Ret u t"
  obtains f where "view t = view (boot_tables im (print f s))"
  using assms unfolding kernel_main_def Let_def
  by (auto simp: stop_def print_print split: if_splits elim!: obind_RetE
      dest!: boot_pmm_same pmm_selftest_same boot_vmm_same boot_tasks_same start_timer_same)

end

text \<open>The segment registers with the task state segment, and the gates.\<close>

definition tables :: "'a sys_scheme \<Rightarrow> gdt_state \<times> idt_entry list" where
  "tables s = (gdt_st s, idt (idt_st s))"

interpretation tab: boot_view tables
  by unfold_locales (simp_all add: tables_def invlpg_def print_def outb_def register_handler_def idt_register_handler_def write_cr3_def)

text \<open>The stubs of an image, with the addresses behind the calls of the dispatchers.\<close>

definition image_stubs :: "kernel_image \<Rightarrow> u32 \<Rightarrow> u32 \<Rightarrow> stub_image" where
  "image_stubs im a b = \<lparr>si_isr = im_isr im, si_irq = im_irq im, si_isr_ret = a, si_irq_ret = b\<rparr>"

lemma booted_tables:
  fixes s :: "'a fs_scheme"
  assumes "kernel_main im magic mbi s = Ret u t" "distinct (map (stub_addr (image_stubs im a b)) stubs)"
  shows "stubs_installed (image_stubs im a b) t" "segments_ok t" "ring t = 0"
proof -
  obtain f where "tables t = tables (boot_tables im (print f s))" by (rule tab.kernel_main_same [OF assms(1)]) (rule that)
  then have t: "gdt_st t = gdt_init (im_gdt im) (im_gdtp im) (im_tss im) (im_tss_stack im) (gdt_st s)"
    "idt (idt_st t) = idt (idt_init (im_isr im) (im_irq im) (im_idt im) (im_idtp im) (idt_st s))"
    by (simp_all add: tables_def boot_tables_def Let_def print_def syscall_init_def register_handler_def idt_register_handler_def)
  show "stubs_installed (image_stubs im a b) t"
    using assms(2) t(2) by (auto simp: stubs_installed_def image_stubs_def)
  have g: "seg_cs (gdt_st t) = 8" "seg_ss (gdt_st t) = 0x10" "ss0 (tss (gdt_st t)) = 0x10"
    by (simp_all add: t(1) gdt_init_def tss_write_def gdt_flush_def tss_flush_def gdt_set_entry_def Let_def)
  then show "segments_ok t" "ring t = 0" by (simp_all add: segments_ok_def ring_def)
qed

subsection \<open>The preemptive system behind the boot\<close>

text \<open>The boot thread in its idle loop, on entry \<open>j\<close> of its stack page \<open>g\<close>.\<close>

definition idles :: "'a kern_scheme \<Rightarrow> u32 \<Rightarrow> nat \<Rightarrow> 'a kern_scheme \<Rightarrow> bool" where
  "idles t g j u \<longleftrightarrow> iflag u \<and> gdt_st u = gdt_st t \<and> interrupted t g (of_nat j) (u\<lparr>iflag := False\<rparr>)"

lemma demo_ready_system:
  fixes t u :: "'a kern_scheme"
  assumes "demo_ready im fa fb D xs t" "stack_page D t g" "g \<notin> {fa, fb}" "t_page_directory (task_table t ! 0) = cr3 t"
    and "stubs_installed si t" "segments_ok t" "ring t = 0" "idles t g j u" "22 \<le> j" "j \<le> 1024"
    and stk: "stk 0 = g" "stk 1 = fa" "stk 2 = fb" "inj_on stk (set ([0, 1, 2] @ xs))"
    and rest: "\<forall>i \<in> set xs. i \<noteq> 0 \<and> (\<exists>l ws. suspended D t i (stk i) l ws)"
  shows "system_ok si D ([0, 1, 2] @ xs) stk u" "has_entry stk u j" "current_task u = Some 0" "iflag u"
proof -
  let ?xs = "[0, 1, 2] @ xs" and ?v = "u\<lparr>iflag := False\<rparr>"
  have i: "interrupted t g (of_nat j) ?v" and iu: "iflag u" "gdt_st u = gdt_st t" using assms(8) by (simp_all add: idles_def)
  note f = interruptedD [OF i, simplified]
  have d: "spaces D t" "sched_inv ?xs t" "current_task t = Some 0" "t_state (task_table t ! 0) = TASK_STATE_RUNNING"
    "suspended D t 1 fa 1017 (first_frame (im_symbols im) (im_task_a im))"
    "suspended D t 2 fb 1017 (first_frame (im_symbols im) (im_task_b im))" "handlers (idt_st t) ! 32 = Some Timer_callback"
    using assms(1) by (simp_all add: demo_ready_def)
  have "spaces D (t\<lparr>mem := mem u\<rparr>)" using d(1) assms(2) f(1) by (rule spaces_write)
  then have sp: "spaces D u" using spaces_cong [of u "t\<lparr>mem := mem u\<rparr>" D] f by simp
  have st: "stack_page D u h = stack_page D t h" for h
    by (rule stack_page_write(1) [OF spacesD(5) [OF d(1)] assms(2) f(1,2)])
  have su: "suspended D u n h l ws" if "h \<noteq> g" "suspended D t n h l ws" for n h l ws
    by (rule suspended_write [OF that(2,1) spacesD(5) [OF d(1)] assms(2) f(1,2)]) (simp_all add: f)
  have waits: "\<exists>l ws. suspended D u n (stk n) l ws" if n: "n \<in> set ?xs" "n \<noteq> 0" for n
  proof -
    have "stk n \<noteq> g" using stk(1) inj_onD [OF stk(4), of n 0] n by auto
    moreover have "\<exists>l ws. suspended D t n (stk n) l ws" using n d(5,6) stk(2,3) rest by auto
    ultimately show ?thesis using su by blast
  qed
  have si: "sched_inv ?xs u" using sched_inv_view [OF d(2), of u] f(9) by (simp add: sched_view_def)
  have pg: "stack_page D u (stk n) \<and> t_page_directory (task_table u ! n) \<in> D \<and>
      (ready (task_table u) n \<longrightarrow> (\<exists>l ws. suspended D u n (stk n) l ws))" if n: "n \<in> set ?xs" for n
  proof (cases "n = 0")
    case True
    then show ?thesis using assms(2,4) st stk(1) spacesD(3) [OF d(1)] d(4) by (simp add: f)
  next
    case False
    then show ?thesis using waits [OF n] by (auto simp: suspended_def)
  qed
  have "segments_ok u" using assms(6) iu(2) by (simp add: segments_ok_def ring_def)
  then show "system_ok si D ?xs stk u"
    using assms(4,5) sp si stk(4) pg d(3,4,7) unfolding system_ok_def
    by (intro conjI ballI bexI [of _ 0]) (simp_all add: stubs_installed_def f)
  show "has_entry stk u j" using assms(7,9,10) d(3) stk(1) iu(2) by (simp add: has_entry_def entry_esp_def ring_def f)
  show "current_task u = Some 0" "iflag u" using d(3) iu(1) f by simp_all
qed

lemma first_tick:
  fixes t u :: "'a kern_scheme"
  assumes "demo_ready im fa fb D xs t" "idles t g j u" "stack_page D t g" "g \<noteq> fa" and ok: "system_ok si D ([0, 1, 2] @ xs) stk u" "has_entry stk u j"
    and "stk 1 = fa"
  obtains v where "deliver si 32 None c u = Ret (Elsewhere (sym_task_kernel_bootstrap (im_symbols im))) v" "current_task v = Some 1"
proof -
  let ?xs = "[0, 1, 2] @ xs"
  have i: "interrupted t g (of_nat j) (u\<lparr>iflag := False\<rparr>)" using assms(2) by (simp add: idles_def)
  note f = interruptedD [OF i, simplified]
  have d: "spaces D t" "current_task t = Some 0" "t_state (task_table t ! 1) = TASK_STATE_READY"
    "suspended D t 1 fa 1017 (first_frame (im_symbols im) (im_task_a im))" using assms(1) by (simp_all add: demo_ready_def)
  have su: "suspended D u 1 fa 1017 (first_frame (im_symbols im) (im_task_a im))"
    by (rule suspended_write [OF d(4) assms(4) [symmetric] spacesD(5) [OF d(1)] assms(3) f(1,2)]) (simp_all add: f)
  have k: "0 < length ?xs" "current_task u = Some (?xs ! 0)" "next_ready ?xs 0 u = Some 1" using d(2,3) f by simp_all
  obtain a v where v: "deliver si 32 None c u = Ret (Elsewhere a) v" "switched D ?xs stk u 0 a v" "current_task v = Some 1"
    by (rule system_tick [OF ok(1) k(1,2) ok(2) k(3), of c]) (rule that)
  obtain l ws where l: "suspended D u 1 fa l ws" "a = ws ! 4"
    using v(2) k(3) assms(7) by (auto simp: switched_def simp del: One_nat_def)
  show thesis using v(1,3) l(2) suspended_unique(2) [OF su l(1)] by (intro that [of v]) (simp_all add: first_frame_nth)
qed


text \<open>The machine with the RAM disk, as the boot loader leaves it, and a kernel stack that ends at \<^verbatim>\<open>0x171000\<close>.\<close>

definition loaded_fs :: fs where
  "loaded_fs = disk_fs\<lparr>reg_ebx := 0x9000\<rparr>"

abbreviation called_fs :: fs where
  "called_fs \<equiv> called 0x171000 0x100020 0x2BADB002 loaded_fs"

lemma called_memory:
  assumes "\<not> (0x170FF4 \<le> unat a \<and> unat a < 0x171000)"
  shows "mem called_fs a = mem disk_fs a"
proof -
  have "wr32 b v m a = m a" if "unat b \<in> {0x170FF4, 0x170FF8, 0x170FFC}" for b :: u32 and v m
  proof (rule wr32_outside)
    fix k :: nat assume "k < 4"
    then have "unat (b + of_nat k) = unat b + k" using that by (intro unat_add_of_nat) auto
    then show "a \<noteq> b + of_nat k" using assms that \<open>k < 4\<close> by auto
  qed
  then show ?thesis by (simp add: called_def loaded_fs_def)
qed

lemma called_rd32: "unat a + 4 \<le> 0x100000 \<Longrightarrow> rd32 (mem called_fs) a = rd32 (mem disk_fs) a"
  using rd32_low [of "mem called_fs" "mem disk_fs" a 0] called_memory by simp

lemma called_booted: "booted 0x9000 demo_entries (Some (0x1C0000, 0x1C0800)) called_fs" "boot_modules 0x9000 called_fs = {448}"
proof -
  have mb: "read_multiboot_info (mem called_fs) 0x9000 = read_multiboot_info (mem disk_fs) 0x9000"
    by (simp add: read_multiboot_info_def called_rd32)
  have "read_mmap_entry (mem disk_fs) 0x9100 = demo_entries ! 0" "read_mmap_entry (mem disk_fs) 0x9118 = demo_entries ! 1"
    using disk_words(6) by (simp_all add: demo_entries_def boot_entries_def)
  then have "read_mmap_entry (mem called_fs) 0x9100 = demo_entries ! 0" "read_mmap_entry (mem called_fs) 0x9118 = demo_entries ! 1"
    by (simp_all add: read_mmap_entry_def rd64_def called_rd32)
  then have en: "entries_at (mem called_fs) 0x9100 0x9130 demo_entries" by (simp add: demo_entries_def boot_entries_def)
  have "initrd_at (mem called_fs) 0x9000 (Some (0x1C0000, 0x1C0800)) = initrd_at (mem disk_fs) 0x9000 (Some (0x1C0000, 0x1C0800))"
    by (rule initrd_at_low) (simp add: called_memory)
  moreover have "paging_on called_fs = paging_on disk_fs" by (simp add: called_def loaded_fs_def paging_on_def)
  ultimately show "booted 0x9000 demo_entries (Some (0x1C0000, 0x1C0800)) called_fs"
    using disk_booted(1) en unfolding booted_def Let_def mb by (simp add: disk_words)
  have "mod_start (mem called_fs) 0x9200 0 = mod_start (mem disk_fs) 0x9200 0" "mod_end (mem called_fs) 0x9200 0 = mod_end (mem disk_fs) 0x9200 0"
    by (simp_all add: mod_start_def mod_end_def called_rd32)
  then show "boot_modules 0x9000 called_fs = {448}"
    using disk_booted(2) unfolding module_blocks_def mb by (simp add: disk_words lessThan_Suc)
qed

lemma called_machine: "disk_machine demo_image 0x9000 demo_entries 0x1C0000 0x1C0800 disk_files 0 called_fs"
proof -
  have "mem called_fs (0x1C0000 + of_nat k) = mem disk_fs (0x1C0000 + of_nat k)" if "k < 2048" for k
  proof (rule called_memory)
    have "unat (0x1C0000 + of_nat k :: u32) = 0x1C0000 + k" using that unat_add_of_nat [of "0x1C0000 :: u32" k] by simp
    then show "\<not> (0x170FF4 \<le> unat (0x1C0000 + of_nat k :: u32) \<and> unat (0x1C0000 + of_nat k :: u32) < 0x171000)" by simp
  qed
  then have "ramdisk (mem called_fs) 0x1C0000 0x1C0800 disk_files" using disk_disk(1) by (simp add: ramdisk_def disk_length)
  moreover have "tar_nodes called_fs = tar_nodes disk_fs" by (simp add: called_def loaded_fs_def)
  ultimately show ?thesis
    using disk_fs_machine called_booted(1) unfolding disk_machine_def Let_def called_booted(2) disk_booted(2) by simp
qed

lemma demo_image_stubs: "distinct (map (stub_addr (image_stubs demo_image a b)) stubs)"
  by (simp add: stubs_def image_stubs_def demo_image_def upt_rec)


end
