(* ===== verification/ElfMemory.thy ===== *)
theory ElfMemory
  imports Elf
begin

text \<open>
  \<^verbatim>\<open>elf_load\<close> of \<^verbatim>\<open>src/elf.c\<close> when physical memory runs out in the middle of a segment: what the clean-up
  behind the label \<^verbatim>\<open>cleanup\<close> gives back, and what it does not.
\<close>

subsection \<open>A segment that does not fit\<close>

abbreviation no_memory :: "'a sys_scheme \<Rightarrow> 'a sys_scheme" where
  "no_memory \<equiv> print (puts ''[ELF] Error: Out of physical memory for segment\<newline>'')"

text \<open>The blocks \<open>fs\<close> were taken between \<open>s\<close> and \<open>t\<close> for data.\<close>

definition taken :: "'a sys_scheme \<Rightarrow> 'a sys_scheme \<Rightarrow> u32 list \<Rightarrow> bool" where
  "taken s t fs \<longleftrightarrow> distinct fs \<and> (\<forall>f \<in> set fs. frame_aligned f \<and> f \<noteq> 0 \<and> block_of f \<notin> used_blocks s \<and> block_of f \<in> used_blocks t \<and>
     \<not> walk_frame (mem t) (current_page_directory t) f)"

definition missing_tables :: "u32 \<Rightarrow> 'a sys_scheme \<Rightarrow> nat" where
  "missing_tables q s = (if has_table s q then 0 else 1)"

text \<open>
  Pages under one page table: the table costs a block when it is missing, every page costs one; the
  pages mapped before memory runs out are all on the list that \<^verbatim>\<open>elf_load\<close> frees, the table is not.
\<close>

lemma map_segment_full:
  assumes "dual old s" "distinct vs" "\<forall>v \<in> set vs. frame_aligned v \<and> ram_top s \<le> unat v \<and> pdx v = q"
    "has_table s q \<or> 2 \<le> free_blocks s" "free_blocks s < length vs + missing_tables q s" "length segs + free_blocks s \<le> 64 + missing_tables q s"
  shows "\<exists>fs t. map_segment vs segs s = Ret (segs @ fs, False) (no_memory t) \<and> dual old t \<and> extends s t \<and> taken s t fs \<and>
    free_blocks t = 0 \<and> length fs + missing_tables q s = free_blocks s \<and> (\<forall>b. frame_of b \<notin> set vs \<longrightarrow> vm_lookup t b = vm_lookup s b)"
  using assms
proof (induction vs arbitrary: s segs)
  case (Cons va vs)
  note ok = dualD(1) [OF Cons.prems(1)]
  show ?case
  proof (cases "free_blocks s = 0")
    case True
    then have "pmm_alloc_block (pmm_st s) = (0, pmm_st s)"
      using free_blocks_0 [of s] fa.alloc_full [OF vm_okD(1) [OF ok]] by (simp add: all_blocks_def)
    then have "map_segment (va # vs) segs s = Ret (segs, False) (no_memory s)" by (simp add: alloc_block_def)
    then show ?thesis
      using Cons.prems(1,4) True by (intro exI [of _ "[]"] exI [of _ s]) (simp add: taken_def missing_tables_def)
  next
    case False
    have va: "frame_aligned va" "ram_top s \<le> unat va" "pdx va = q" "va \<notin> set vs" using Cons.prems(2,3) by auto
    have need: "fault_need va s = 1 + missing_tables q s" using va(3) by (simp add: fault_need_def missing_tables_def)
    then have fn: "fault_need va s \<le> free_blocks s" using False Cons.prems(4) by (auto simp: missing_tables_def)
    obtain f t1 where run: "map_segment (va # vs) segs s = map_segment vs (if length segs < 64 then segs @ [f] else segs) t1"
      and t1: "dual old t1" "extends s t1" "frame_aligned f" "block_of f \<notin> used_blocks s" "block_of f \<in> used_blocks t1"
      "\<not> walk_frame (mem t1) (current_page_directory t1) f"
      "\<And>b. vm_lookup t1 b = (if vpn b = vpn va then Some (f OR 7) else vm_lookup s b)"
      "free_blocks s = free_blocks t1 + fault_need va s" "\<And>j. unat j < 1024 \<Longrightarrow> has_table t1 j \<longleftrightarrow> j = pdx va \<or> has_table s j"
      by (rule map_one_page [OF Cons.prems(1) va(1,2) fn]) (rule that)
    have run1: "map_segment (va # vs) segs s = map_segment vs (segs @ [f]) t1" using run Cons.prems(6) t1(8) need by simp
    have tab: "has_table t1 q" "missing_tables q t1 = 0" using t1(9) [of q] va(3) by (auto simp: missing_tables_def)
    have "\<forall>v \<in> set vs. frame_aligned v \<and> ram_top t1 \<le> unat v \<and> pdx v = q" "distinct vs" "free_blocks t1 < length vs + missing_tables q t1"
      "length (segs @ [f]) + free_blocks t1 \<le> 64 + missing_tables q t1" "has_table t1 q \<or> 2 \<le> free_blocks t1"
      using Cons.prems t1(8) need tab extends_fields(12) [OF t1(2)] by auto
    from Cons.IH [OF t1(1) this(2,1,5,3,4)] obtain fs t where
      t: "map_segment vs (segs @ [f]) t1 = Ret ((segs @ [f]) @ fs, False) (no_memory t)" "dual old t" "extends t1 t" "taken t1 t fs"
        "free_blocks t = 0" "length fs + missing_tables q t1 = free_blocks t1" "\<forall>b. frame_of b \<notin> set vs \<longrightarrow> vm_lookup t b = vm_lookup t1 b"
      by blast
    note ef = extends_fields [OF t1(2)] and eg = extends_fields [OF t(3)]
    have f0: "f \<noteq> 0" using t1(4) vm_okD(2) [OF ok] by auto
    have fw: "block_of f \<in> used_blocks t" "\<not> walk_frame (mem t) (current_page_directory t) f"
      using t(3) t1(5,6) eg(9) by (auto simp: extends_def)
    have "taken s t (f # fs)"
      using t(4) t1(3-5) f0 fw ef(13) by (auto simp: taken_def)
    moreover have "vm_lookup t b = vm_lookup s b" if "frame_of b \<notin> set (va # vs)" for b
    proof -
      have "vpn b \<noteq> vpn va" using that va(1) vpn_iff_frame [of b va] by (simp add: frame_of_aligned)
      then show ?thesis using t(7) t1(7) [of b] that by simp
    qed
    ultimately show ?thesis
      using run1 t(1,2,5,6) t1(8) need tab(2) extends_trans [OF t1(2) t(3)] by (intro exI [of _ "f # fs"] exI [of _ t]) auto
  qed
qed (auto simp: missing_tables_def split: if_splits)

subsection \<open>Handing blocks back\<close>

lemma free_taken:
  assumes "vm_ok s" "\<forall>f \<in> set fs. frame_aligned f \<and> f \<noteq> 0 \<and> \<not> walk_frame (mem s) (current_page_directory s) f"
  shows "vm_ok (fold free_block fs s) \<and> used_blocks (fold free_block fs s) = used_blocks s - block_of ` set fs \<and>
    ram_top (fold free_block fs s) = ram_top s \<and> fold free_block fs s = s\<lparr>pmm_st := pmm_st (fold free_block fs s)\<rparr>"
  using assms
proof (induction fs arbitrary: s)
  case (Cons f fs)
  have f: "frame_aligned f" "f \<noteq> 0" "\<not> walk_frame (mem s) (current_page_directory s) f" using Cons.prems(2) by auto
  note v = vm_ok_free [OF Cons.prems(1) f]
  have e: "mem (free_block f s) = mem s" "current_page_directory (free_block f s) = current_page_directory s" by (simp_all add: free_block_def)
  have "fold free_block fs (free_block f s) = (free_block f s)\<lparr>pmm_st := pmm_st (fold free_block fs (free_block f s))\<rparr>"
    and "vm_ok (fold free_block fs (free_block f s)) \<and> used_blocks (fold free_block fs (free_block f s)) = used_blocks (free_block f s) - block_of ` set fs \<and>
      ram_top (fold free_block fs (free_block f s)) = ram_top (free_block f s)"
    using Cons.IH [OF v(1)] Cons.prems(2) e by auto
  moreover from this(1) have "fold free_block fs (free_block f s) = s\<lparr>pmm_st := pmm_st (fold free_block fs (free_block f s))\<rparr>"
    by (subst (asm) (2) free_block_def) simp
  ultimately show ?case using v(2,3) by auto
qed simp

subsection \<open>The loader without memory\<close>

text \<open>A segment under one page table that the new directory does not have yet, with too few blocks for its pages.\<close>

definition too_large :: "'a sys_scheme \<Rightarrow> Elf32_Phdr \<Rightarrow> nat \<Rightarrow> bool" where
  "too_large s ph n \<longleftrightarrow> unat (p_vaddr ph) + unat (p_memsz ph) + 4095 < 2 ^ 32 \<and> ram_top s \<le> unat (frame_of (p_vaddr ph)) \<and>
     (\<forall>v \<in> set (segment_pages ph). pdx v = pdx (p_vaddr ph)) \<and> 2 \<le> n \<and> n \<le> length (segment_pages ph) \<and> n \<le> 65"

lemma load_segment_full:
  fixes s :: "'a fs_scheme"
  assumes st: "staged old pd s" and big: "too_large s ph (free_blocks s)" and no: "pde_of (mem s) pd (pdx (p_vaddr ph)) AND 1 = 0"
  obtains t fs where "load_segment r ph pd [] s = Ret (fs, False) t" "staged old pd t" "kept old pd s t" "taken s (switch_directory pd t) fs"
    "t = s\<lparr>mem := mem t, tlb := tlb t, pmm_st := pmm_st t, iflag := True, console := console t\<rparr>"
    "free_blocks t = 0" "Suc (length fs) = free_blocks s" "\<And>b. page_walk (mem t) old b = page_walk (mem s) old b"
proof -
  let ?vs = "segment_pages ph" and ?q = "pdx (p_vaddr ph)" and ?A = "switch_directory pd (cli s)"
  have so: "current_page_directory s = old" "vm_ok s" "paging_on s" "dual old (switch_directory pd s)"
    using st by (auto simp: staged_def)
  have A: "mem ?A = mem s" "pmm_st ?A = pmm_st s" "cr0 ?A = cr0 s" "current_page_directory ?A = pd" by (simp_all add: cli_def)
  have dA: "dual old ?A" using so(4) dual_cong [of ?A "switch_directory pd s" old] by (simp add: cli_def)
  have sg: "unat (p_vaddr ph) + unat (p_memsz ph) + 4095 < 2 ^ 32" "ram_top s \<le> unat (frame_of (p_vaddr ph))"
    "\<And>v. v \<in> set ?vs \<Longrightarrow> pdx v = ?q" "2 \<le> free_blocks s" "free_blocks s \<le> length ?vs" "free_blocks s \<le> 65"
    using big by (auto simp: too_large_def)
  note pg = segment_pages_facts [OF sg(1)]
  have al: "\<forall>v \<in> set ?vs. frame_aligned v \<and> ram_top ?A \<le> unat v \<and> pdx v = ?q" using pg(2) sg(2,3) A(2) by (auto intro: order_trans)
  have nt: "\<not> has_table ?A ?q" "missing_tables ?q ?A = 1" using no A by (simp_all add: has_table_def missing_tables_def)
  have fA: "free_blocks ?A = free_blocks s" using A(2) by (simp add: free_blocks_def)
  have pre: "has_table ?A ?q \<or> 2 \<le> free_blocks ?A" "free_blocks ?A < length ?vs + missing_tables ?q ?A"
    "length ([] :: u32 list) + free_blocks ?A \<le> 64 + missing_tables ?q ?A"
    unfolding fA nt(2) using sg(4-6) by simp_all
  obtain fs u where u: "map_segment ?vs [] ?A = Ret (fs, False) (no_memory u)" "dual old u" "extends ?A u" "taken ?A u fs"
    "free_blocks u = 0" "length fs + missing_tables ?q ?A = free_blocks ?A" "\<And>b. frame_of b \<notin> set ?vs \<Longrightarrow> vm_lookup u b = vm_lookup ?A b"
    using map_segment_full [OF dA pg(1) al pre] by auto
  note ef = extends_fields [OF u(3)]
  have cpd: "current_page_directory u = pd" using ef(9) A(4) by simp
  let ?t = "sti (switch_directory old (no_memory u))"
  have t: "mem ?t = mem u" "pmm_st ?t = pmm_st u" "cr0 ?t = cr0 u" "current_page_directory ?t = old" by (simp_all add: sti_def)
  have run: "load_segment r ph pd [] s = Ret (fs, False) ?t"
    using u(1) so(1) by (simp add: load_segment_def Let_def cli_def)
  have "vm_ok ?t" using dual_back [OF u(2)] vm_ok_cong [of ?t "switch_directory old u"] by (simp add: sti_def)
  moreover have "dual old (switch_directory pd ?t)"
    using dual_reset [OF u(2), where u = ?t] cpd by (simp add: t)
  moreover have "paging_on ?t" using dualD(2) [OF u(2)] by (simp add: sti_def paging_on_def)
  ultimately have stt: "staged old pd ?t" by (simp add: staged_def t)
  have "kept old pd s ?t"
    using resident_extends [of old ?A _ u] u(3) resident_cong [OF A(1,2)] A(1,2,4) ef(12,13) by (auto simp: kept_def resident_def t)
  moreover have "taken s (switch_directory pd ?t) fs" using u(4) cpd A(2) by (simp add: taken_def t)
  moreover have "?t = s\<lparr>mem := mem ?t, tlb := tlb ?t, pmm_st := pmm_st ?t, iflag := True, console := console ?t\<rparr>"
  proof -
    obtain m l p where "u = ?A\<lparr>mem := m, tlb := l, pmm_st := p\<rparr>" using u(3) by (auto simp: extends_def)
    then show ?thesis using so(1) by (simp add: sti_def cli_def switch_directory_def write_cr3_def print_def vm_okD(5) [OF so(2,3)])
  qed
  moreover have "free_blocks ?t = 0" using u(5) t(2) by (simp add: free_blocks_def)
  moreover have "Suc (length fs) = free_blocks s" using u(6) nt(2) fA by simp
  moreover have "page_walk (mem ?t) old b = page_walk (mem s) old b" for b
  proof -
    note dd = dualD [OF dA, unfolded A]
    have "mem u a = mem s a" if "in_frame old a" for a
      using extends_frame [OF u(3) _ _ that] dd(4,7) A by simp
    then have pde: "pde_of (mem u) old i = pde_of (mem s) old i" if "unat i < 1024" for i
      using rd32_entry_cong [OF dd(6) that] by blast
    show ?thesis
    proof (cases "pde_of (mem s) old (pdx b) AND 1 = 0")
      case True
      then show ?thesis using pde [of "pdx b"] by (simp add: page_walk_def t)
    next
      case False
      then have "pdx b \<noteq> ?q" using dd(8) [of "pdx b"] no by auto
      then have "frame_of b \<notin> set ?vs" using sg(3) [of "frame_of b"] frame_same_page(2) [of b] by auto
      then have "vm_lookup u b = vm_lookup ?A b" by (rule u(7))
      then show ?thesis using dual_walk [OF u(2), of b] dual_walk [OF dA, of b] False pde [of "pdx b"] A(1) by (simp add: t)
    qed
  qed
  ultimately show thesis using run stt by (intro that)
qed

text \<open>The first program header names such a segment.\<close>

lemma load_headers_full:
  fixes s :: "'a fs_scheme"
  assumes ld: "loading U old pd walk data r buf [] s" and off: "unat (phdr_off ehdr 0) + 32 \<le> length data"
    and ph: "p_type (phdr_of data ehdr 0) = PT_LOAD" "too_large s (phdr_of data ehdr 0) (free_blocks s)"
      "pde_of (mem s) pd (pdx (p_vaddr (phdr_of data ehdr 0))) AND 1 = 0"
  obtains t fs where "load_headers r ehdr buf pd (0 # is) [] s = Ret (fs, False) t" "staged old pd t"
    "kept_but ((\<lambda>i. buf + of_nat i) ` {..<32}) old pd s t" "taken s (switch_directory pd t) fs"
    "t = s\<lparr>mem := mem t, tlb := tlb t, pmm_st := pmm_st t, iflag := True, console := console t\<rparr>"
    "free_blocks t = 0" "Suc (length fs) = free_blocks s" "\<And>b. page_walk (mem t) old b = page_walk (mem s) old b"
proof -
  let ?ph = "phdr_of data ehdr 0" and ?P = "(\<lambda>i. buf + of_nat i) ` {..<32}"
  obtain m where m: "read_fs call_read (Some r) (phdr_off ehdr 0) 32 buf s = Ret 32 (s\<lparr>mem := m\<rparr>)"
    "load_bytes buf 32 (s\<lparr>mem := m\<rparr>) = Ret (file_part (unat (phdr_off ehdr 0)) 32 data) (s\<lparr>mem := m\<rparr>)"
    "loading U old pd walk data r buf [] (s\<lparr>mem := m\<rparr>)" "kept_but ?P old pd s (s\<lparr>mem := m\<rparr>)"
    "\<And>a. a \<notin> ?P \<Longrightarrow> m a = mem s a"
    by (rule loading_header [OF ld off]) (rule that)
  let ?s = "s\<lparr>mem := m\<rparr>"
  have st: "staged old pd s" "staged old pd ?s" using ld m(3) by (simp_all add: loading_def)
  have dd: "dual old (switch_directory pd s)" using st(1) by (simp add: staged_def)
  have res: "resident old pd s a" if "a \<in> ?P" for a using that ld by (auto simp: loading_def)
  have same: "m a = mem s a" if "walk_frame (mem s) pd f \<or> walk_frame (mem s) old f" "in_frame f a" for f a
  proof (rule m(5))
    have "walk_frame (mem s) pd f \<or> f = old" using that(1) dual_frames [OF dd, of f] by auto
    then show "a \<notin> ?P" using res [of a] that(2) by (auto simp: resident_def in_frame_def)
  qed
  have al: "frame_aligned pd" "frame_aligned old" using vm_okD(4) [OF dualD(1) [OF dd]] dualD(6) [OF dd] by simp_all
  have old: "page_walk m old b = page_walk (mem s) old b" for b by (rule page_walk_same [OF al(2)]) (rule same, blast, assumption)
  have "pde_of m pd i = pde_of (mem s) pd i" if "unat i < 1024" for i
    by (rule rd32_entry_cong [OF al(1) that]) (rule same, auto simp: walk_frame_def)
  then have no: "pde_of (mem ?s) pd (pdx (p_vaddr ?ph)) AND 1 = 0" using ph(3) by simp
  have fb: "free_blocks ?s = free_blocks s" by (simp add: free_blocks_def)
  have big: "too_large ?s ?ph (free_blocks ?s)" using ph(2) unfolding fb by (simp add: too_large_def)
  obtain t fs where t: "load_segment r ?ph pd [] ?s = Ret (fs, False) t" "staged old pd t" "kept old pd ?s t" "taken ?s (switch_directory pd t) fs"
    "t = ?s\<lparr>mem := mem t, tlb := tlb t, pmm_st := pmm_st t, iflag := True, console := console t\<rparr>"
    "free_blocks t = 0" "Suc (length fs) = free_blocks ?s" "\<And>b. page_walk (mem t) old b = page_walk (mem ?s) old b"
    by (rule load_segment_full [OF st(2) big no, of r]) (rule that)
  have run: "load_headers r ehdr buf pd (0 # is) [] s = Ret (fs, False) t"
    using m(1,2) ph(1) t(1) by (simp add: phdr_off_def phdr_of_def)
  have ke: "kept_but ?P old pd s t" using kept_but_trans [OF m(4) kept_kept_but [OF t(3)]] .
  have tk: "taken s (switch_directory pd t) fs" using t(4) by (simp add: taken_def)
  have eq: "t = s\<lparr>mem := mem t, tlb := tlb t, pmm_st := pmm_st t, iflag := True, console := console t\<rparr>" using t(5) by simp
  show thesis by (rule that [OF run t(2) ke tk eq t(6)]) (use t(7,8) old fb in simp_all)
qed

subsection \<open>The clean-up\<close>

lemma card_blocks: "distinct fs \<Longrightarrow> \<forall>f \<in> set fs. frame_aligned f \<Longrightarrow> card (block_of ` set fs) = length fs"
proof -
  assume d: "distinct fs" and al: "\<forall>f \<in> set fs. frame_aligned f"
  have "f = g" if "f \<in> set fs" "g \<in> set fs" "block_of f = block_of g" for f g
    using that al frame_alignedD [of f] frame_alignedD [of g] by (simp add: word_unat_eq_iff)
  then have "inj_on block_of (set fs)" by (rule inj_onI)
  then show ?thesis using d by (simp add: card_image distinct_card)
qed

lemma cleanup_spec:
  fixes s t :: "'a fs_scheme"
  assumes st: "staged old pd t" and tk: "taken s (switch_directory pd t) fs" and full: "free_blocks t = 0"
    and pd: "block_of pd \<in> used_blocks s" "pd \<noteq> 0" "block_of old \<in> used_blocks s"
  defines "u \<equiv> elf_cleanup fs pd t"
  shows "vm_ok u" "used_blocks u = used_blocks t - block_of ` set (fs @ [pd])" "free_blocks u = Suc (length fs)"
    "u = t\<lparr>pmm_st := pmm_st u, console := console u\<rparr>"
proof -
  let ?t = "print (puts ''[ELF] Cleaning up allocated segment blocks after failure...\<newline>'') t" and ?L = "fs @ [pd]"
  have so: "current_page_directory t = old" "vm_ok t" "dual old (switch_directory pd t)" using st by (auto simp: staged_def)
  note dd = dualD [OF so(3), simplified] and pw = pd_wfD(1,2) [OF vm_okD(3) [OF dualD(1) [OF so(3)]], simplified]
  have f: "distinct fs" "\<And>f. f \<in> set fs \<Longrightarrow> frame_aligned f \<and> f \<noteq> 0 \<and> block_of f \<notin> used_blocks s \<and> block_of f \<in> used_blocks t \<and> \<not> walk_frame (mem t) pd f"
    using tk by (auto simp: taken_def)
  have nw: "frame_aligned g \<and> g \<noteq> 0 \<and> \<not> walk_frame (mem t) old g \<and> block_of g \<in> used_blocks t" if "g \<in> set ?L" for g
  proof (cases "g = pd")
    case False
    then show ?thesis using that f(2) [of g] pd(3) dual_frames [OF so(3), of g] by auto
  qed (use pw pd(2) dd(5) in simp)
  then have pre: "\<forall>g \<in> set ?L. frame_aligned g \<and> g \<noteq> 0 \<and> \<not> walk_frame (mem ?t) (current_page_directory ?t) g" using so(1) by simp
  have ue: "u = fold free_block ?L ?t" by (simp add: u_def elf_cleanup_def)
  have "vm_ok ?t" using so(2) by simp
  note fr = free_taken [OF this pre, folded ue]
  show ub: "vm_ok u" "used_blocks u = used_blocks t - block_of ` set ?L" using fr by simp_all
  have ur: "pmm_total_blocks (pmm_st u) = pmm_total_blocks (pmm_st t)" using fr by (simp add: word_unat_eq_iff)
  have "\<exists>p. u = ?t\<lparr>pmm_st := p\<rparr>" using fr by blast
  then obtain p where "u = ?t\<lparr>pmm_st := p\<rparr>" ..
  then show "u = t\<lparr>pmm_st := pmm_st u, console := console u\<rparr>" by (simp add: print_def)
  have dl: "distinct ?L" using f pd(1) by auto
  have sub: "block_of ` set ?L \<subseteq> used_blocks t" using nw by blast
  have fin: "finite (used_blocks t)" by (rule finite_subset [OF blocks_in_use_subset]) (simp add: all_blocks_def)
  have "card (used_blocks u) = card (used_blocks t) - length ?L"
    using card_blocks [OF dl] nw card_Diff_subset [OF finite_subset [OF sub fin] sub] unfolding ub(2) by simp
  moreover have "length ?L \<le> card (used_blocks t)" using card_blocks [OF dl] nw card_mono [OF fin sub] by simp
  moreover have "card (used_blocks t) \<le> unat (pmm_total_blocks (pmm_st t))"
    using card_mono [OF _ blocks_in_use_subset [of "pmm_st t"]] by (simp add: all_blocks_def)
  ultimately show "free_blocks u = Suc (length fs)" using full ur by (simp add: free_blocks_def)
qed

subsection \<open>The property\<close>

text \<open>
  C23 A load that runs out of memory: when the first segment needs a new page table and more pages than
  there are blocks (up to 64 of them), \<^verbatim>\<open>elf_load\<close> returns -1, the kernel is back on its own directory with every
  address mapped as before, and of the memory in use only the two local variables are written. The
  segment's blocks and the new directory are free again; but one block, the page table, is lost.
\<close>

theorem elf_load_out_of_memory:
  fixes s :: "'a fs_scheme"
  assumes "vm_ok s" "paging_on s" "find_node_by_path call_finddir path s = Some (Some r)" "file_at s (node_at r s) data"
    and "local_at s (node_at r s) data ehdr_addr 52" "local_at s (node_at r s) data phdr_addr 32"
    and "52 \<le> length data" "ehdr = decode_ehdr (take 52 data)" "elf_check ehdr = None" "e_phnum ehdr \<noteq> 0"
    and "unat (phdr_off ehdr 0) + 32 \<le> length data" "ph = phdr_of data ehdr 0" "p_type ph = PT_LOAD"
    and "too_large s ph (free_blocks s - 1)" "\<not> has_table s (pdx (p_vaddr ph))"
  shows "\<exists>t. elf_load path ehdr_addr phdr_addr s = Ret None t \<and> vm_ok t \<and> paging_on t \<and>
    current_page_directory t = current_page_directory s \<and> (\<forall>b. vm_lookup t b = vm_lookup s b) \<and>
    used_blocks s \<subseteq> used_blocks t \<and> free_blocks s = free_blocks t + 1 \<and>
    (\<forall>a. data_at s a \<and> a \<notin> (\<lambda>i. ehdr_addr + of_nat i) ` {..<52} \<and> a \<notin> (\<lambda>i. phdr_addr + of_nat i) ` {..<32} \<longrightarrow> mem t a = mem s a)"
proof -
  let ?old = "current_page_directory s" and ?P = "(\<lambda>i. phdr_addr + of_nat i) ` {..<32}"
  have pos: "0 < free_blocks s" using assms(14) by (auto simp: too_large_def)
  obtain u pd where u: "elf_load path ehdr_addr phdr_addr s =
      obind (load_headers r ehdr phdr_addr pd [0..<unat (e_phnum ehdr)] [] u) (\<lambda>(segs, ok) s.
        if ok then Ret (Some (e_entry ehdr, pd)) s else Ret None (elf_cleanup segs pd s))"
    "loading (used_blocks s) ?old pd (vm_lookup s) data r phdr_addr [] u"
    "u = s\<lparr>mem := mem u, pmm_st := pmm_st u\<rparr>" "free_blocks s = free_blocks u + 1" "ram_top u = ram_top s" "block_of pd \<notin> used_blocks s"
    "\<And>a. block_of a \<in> used_blocks s \<Longrightarrow> a \<notin> (\<lambda>i. ehdr_addr + of_nat i) ` {..<52} \<Longrightarrow> mem u a = mem s a"
    "\<And>a. data_at s a \<Longrightarrow> resident ?old pd u a" "\<And>i. unat i < 1024 \<Longrightarrow> pde_of (mem u) pd i = pde_of (mem s) ?old i"
    "\<And>b. page_walk (mem u) ?old b = vm_lookup s b"
    by (rule elf_load_start [OF assms(1-9) pos]) (rule that)
  have no: "pde_of (mem u) pd (pdx (p_vaddr ph)) AND 1 = 0" using u(9) [of "pdx (p_vaddr ph)"] assms(15) by (simp add: has_table_def)
  have big: "too_large u ph (free_blocks u)" using assms(14) u(4,5) by (simp add: too_large_def)
  have hs: "[0..<unat (e_phnum ehdr)] = 0 # [1..<unat (e_phnum ehdr)]" using assms(10) by (simp add: upt_rec unat_gt_0)
  obtain t fs where t: "load_headers r ehdr phdr_addr pd (0 # [1..<unat (e_phnum ehdr)]) [] u = Ret (fs, False) t" "staged ?old pd t"
    "kept_but ?P ?old pd u t" "taken u (switch_directory pd t) fs"
    "free_blocks t = 0" "Suc (length fs) = free_blocks u" "\<And>b. page_walk (mem t) ?old b = page_walk (mem u) ?old b"
    by (rule load_headers_full [OF u(2) assms(11,13) [unfolded assms(12)] big [unfolded assms(12)] no [unfolded assms(12)]]) (rule that)
  have l: "staged ?old pd u" "used_blocks s \<subseteq> used_blocks u" using u(2) by (simp_all add: loading_def)
  have du: "dual ?old (switch_directory pd u)" using l(1) by (simp add: staged_def)
  have pb: "block_of pd \<in> used_blocks u" "pd \<noteq> 0" "block_of ?old \<in> used_blocks u"
    using pd_wfD(2) [OF vm_okD(3) [OF dualD(1) [OF du]]] u(6) vm_okD(2) [OF assms(1)] dualD(7) [OF du] by auto
  let ?t = "elf_cleanup fs pd t"
  note cl = cleanup_spec [OF t(2,4,5) pb]
  have tm: "mem ?t = mem t" "current_page_directory ?t = ?old" "paging_on ?t"
    using t(2) by (subst cl(4), simp add: staged_def paging_on_def)+
  have ub: "used_blocks s \<subseteq> used_blocks ?t"
    using l(2) t(3,4) u(6) unfolding cl(2) by (auto simp: kept_but_def taken_def)
  have same: "mem ?t a = mem s a" if "data_at s a" "a \<notin> (\<lambda>i. ehdr_addr + of_nat i) ` {..<52}" "a \<notin> ?P" for a
    using u(7,8) [of a] t(3) that tm(1) by (simp add: kept_but_def data_at_def)
  have "elf_load path ehdr_addr phdr_addr s = Ret None ?t" unfolding u(1) hs t(1) by simp
  then show ?thesis using cl(1,3) t(6,7) u(4,10) tm ub same by (intro exI [of _ ?t]) auto
qed

text \<open>The small program with a segment of five pages, on a machine with five free blocks.\<close>

definition big_elf :: "u8 list" where
  "big_elf = tiny_elf[73 := 0x40]"

lemma big_headers:
  defines "ehdr \<equiv> decode_ehdr (take 52 big_elf)" and "ph \<equiv> phdr_of big_elf (decode_ehdr (take 52 big_elf)) 0"
  shows "length big_elf = 88" "elf_check ehdr = None" "e_phnum ehdr = 1" "phdr_off ehdr 0 = 52"
    "p_type ph = 1" "p_vaddr ph = 0x08048000" "p_memsz ph = 0x4008"
    "segment_pages ph = [0x08048000, 0x08049000, 0x0804A000, 0x0804B000, 0x0804C000]"
proof -
  have e: "ehdr = tiny_ehdr" by (simp add: ehdr_def big_elf_def tiny_ehdr_def)
  show "length big_elf = 88" "elf_check ehdr = None" "e_phnum ehdr = 1" by (simp_all add: e tiny_headers big_elf_def)
  show po: "phdr_off ehdr 0 = 52" by (simp add: e phdr_off_def tiny_headers)
  have ph: "ph = decode_phdr (file_part 52 32 big_elf)" using po unfolding ph_def phdr_of_def ehdr_def by simp
  show p: "p_type ph = 1" "p_vaddr ph = 0x08048000" "p_memsz ph = 0x4008"
    unfolding ph by (simp_all add: big_elf_def tiny_elf_def decode_phdr_def le32_def file_part_def push_bit_eq_mult)
  show "segment_pages ph = [0x08048000, 0x08049000, 0x0804A000, 0x0804B000, 0x0804C000]"
    by (simp add: segment_pages_def p upt_rec)
qed

theorem elf_load_out_of_memory_witness:
  "\<exists>s t. vmm_init (tiny_fs big_elf) = Ret () s \<and> elf_load (cstr ''/a'') 0x200 0x300 (tiny_mount s) = Ret None t \<and>
     free_blocks (tiny_mount s) = 5 \<and> free_blocks t = 4"
proof -
  obtain s where s: "vmm_init (tiny_fs big_elf) = Ret () s" "vm_ok (tiny_mount s)" "paging_on (tiny_mount s)" "ram_top (tiny_mount s) = 0x8000"
    "free_blocks (tiny_mount s) = 5" "node_at (Tar_node 0) (tiny_mount s) = tiny_node" "file_at (tiny_mount s) tiny_node big_elf"
    "local_at (tiny_mount s) tiny_node big_elf 0x200 52" "local_at (tiny_mount s) tiny_node big_elf 0x300 32"
    "find_node_by_path call_finddir (cstr ''/a'') (tiny_mount s) = Some (Some (Tar_node 0))"
    "\<And>j. unat j < 1024 \<Longrightarrow> has_table (tiny_mount s) j \<longleftrightarrow> j = 0"
    by (rule tiny_disk [OF big_headers(1)]) (rule that)
  let ?ph = "phdr_of big_elf (decode_ehdr (take 52 big_elf)) 0"
  have "too_large (tiny_mount s) ?ph (free_blocks (tiny_mount s) - 1)"
    using s(4,5) by (simp add: too_large_def big_headers)
  moreover have "\<not> has_table (tiny_mount s) (pdx (p_vaddr ?ph))" using s(11) [of "pdx (p_vaddr ?ph)"] by (simp add: big_headers)
  ultimately have "\<exists>t. elf_load (cstr ''/a'') 0x200 0x300 (tiny_mount s) = Ret None t \<and> free_blocks (tiny_mount s) = free_blocks t + 1"
    using elf_load_out_of_memory [OF s(2,3,10), unfolded s(6), OF s(7-9) _ refl _ _ _ refl] by (auto simp: big_headers)
  then show ?thesis using s(1,5) by auto
qed

end
