(* ===== verification/Spec2Isabelle.thy ===== *)
theory Spec2Isabelle
  imports Startup ElfMemory
begin

text \<open>
  \<^bold>\<open>A verification library for a small 32-bit x86 kernel\<close>

  The program under \<^verbatim>\<open>src/\<close> is a Multiboot kernel in C: a VGA console and the boot sequence
  (\<^verbatim>\<open>kernel.c\<close>), descriptor tables (\<^verbatim>\<open>gdt.c\<close>, \<^verbatim>\<open>idt.c\<close>), a bitmap allocator for physical memory
  (\<^verbatim>\<open>pmm.c\<close>), paging with demand allocation (\<^verbatim>\<open>vmm.c\<close>), preemptive round-robin tasks (\<^verbatim>\<open>task.c\<close>,
  \<^verbatim>\<open>switch.s\<close>, \<^verbatim>\<open>timer.c\<close>), the interrupt stubs (\<^verbatim>\<open>isr.s\<close>), two system calls (\<^verbatim>\<open>syscall.c\<close>), ring 3 programs (\<^verbatim>\<open>user_mode.c\<close>,
  \<^verbatim>\<open>test_program.c\<close>), a file system layer over a TAR archive in memory (\<^verbatim>\<open>vfs.c\<close>, \<^verbatim>\<open>tar.c\<close>) and an
  ELF loader (\<^verbatim>\<open>elf.c\<close>). The entry code \<^verbatim>\<open>boot.s\<close> calls \<^verbatim>\<open>kernel_main\<close>. The boot calls the parts in this order; afterwards interrupts drive the
  kernel: the stubs of \<^verbatim>\<open>isr.s\<close> call the dispatchers of \<^verbatim>\<open>idt.c\<close>, which call the page fault handler of \<^verbatim>\<open>vmm.c\<close>, the timer of \<^verbatim>\<open>timer.c\<close>,
  which calls the scheduler, and the system call dispatcher.

  \<^bold>\<open>State.\<close> The machine (\<open>machine\<close> in \<open>Machine\<close>) has byte-addressed physical memory, the control
  registers, the interrupt flag and a TLB that is only emptied by \<^verbatim>\<open>invlpg\<close> and writes to \<^verbatim>\<open>cr3\<close>.
  Every access goes through \<open>translate\<close>, the page walk of the processor. The records extend each
  other along the calls: \<open>sys\<close> (\<open>Sys\<close>) adds the console, the allocator, the descriptor tables, the
  port writes and \<^verbatim>\<open>current_page_directory\<close>; \<open>kern\<close> (\<open>Task\<close>) adds the variables of \<^verbatim>\<open>task.c\<close> and
  \<^verbatim>\<open>timer.c\<close> and the registers a switch saves; \<open>fs\<close> (\<open>Vfs\<close>) adds those of \<^verbatim>\<open>vfs.c\<close> and \<^verbatim>\<open>tar.c\<close>. An
  operation takes and returns the state. Its \<open>outcome\<close> is \<open>Ret\<close> with a value, \<open>Trap\<close> for an access
  to an address that is not mapped, or \<open>Hang\<close> for a loop on \<^verbatim>\<open>hlt\<close> or an endless loop. Integers are
  words of the width the C code gives them, so they wrap around as the code does.

  \<^bold>\<open>Theories.\<close>
  \<^item> \<open>Prelude\<close>: types, the simp collection for page arithmetic, words, frames, C strings.
  \<^item> \<open>Machine\<close>: memory, registers, MMU, outcomes, loops. \<open>KString\<close>: \<^verbatim>\<open>string.c\<close>; \<^verbatim>\<open>memset\<close> and \<^verbatim>\<open>memcpy\<close>
    on memory, the string functions on byte lists.
  \<^item> \<open>Terminal\<close>: the console of \<^verbatim>\<open>kernel.c\<close>. Refinement: the screen shows the last 25 lines of
    everything printed; invariant of cursor and buffer; the digits printed denote the number.
  \<^item> \<open>Pmm\<close>: \<^verbatim>\<open>pmm.c\<close> and the structures of \<^verbatim>\<open>multiboot.h\<close>. The bitmap is abstracted to the set of blocks
    in use; the locale \<open>frame_allocator\<close> states what clients rely on (first fit, freshness, reuse)
    and is interpreted on the bitmap code; \<^verbatim>\<open>pmm_init\<close> terminates on a well-formed map and marks
    exactly the blocks it must.
  \<^item> \<open>Gdt\<close>, \<open>Idt\<close>: descriptors and gates as the processor reads them. \<open>Sys\<close>: the shared state and the
    dispatchers \<^verbatim>\<open>isr_dispatch\<close> and \<^verbatim>\<open>irq_dispatch\<close>.
  \<^item> \<open>Vmm\<close>: \<^verbatim>\<open>vmm.c\<close> on page tables in memory. The invariant \<open>vm_ok\<close> (tables well formed and in use,
    RAM mapped one to one, no stale TLB entry) is kept by mapping, unmapping and the page fault
    handler; the locale \<open>address_space\<close> states their effect on look-ups. \<open>Traps\<close>: accesses with
    the page faults they raise, for ring 0 and ring 3.
  \<^item> \<open>Task\<close>: \<^verbatim>\<open>task.c\<close>, \<^verbatim>\<open>switch.s\<close>, \<^verbatim>\<open>user_switch.s\<close>. The list invariant \<open>sched_inv\<close> over every history of
    events (inductive \<open>sched_reach\<close>), round robin, absence of starvation, the stack frames of the
    context switch in memory. The locales \<open>machine_view\<close> and
    \<open>kern_view\<close> collect what memory and task operations leave alone.
  \<^item> \<open>Timer\<close>, \<open>Syscall\<close>, \<open>UserMode\<close>: \<^verbatim>\<open>timer.c\<close>, \<^verbatim>\<open>syscall.c\<close>, \<^verbatim>\<open>user_mode.c\<close> and \<^verbatim>\<open>test_program.c\<close>:
    preemption through the interrupt table, the system calls with the page faults of the buffer,
    the ring 3 programs with the privilege checks of the processor.
  \<^item> \<open>Vfs\<close>, \<open>Tar\<close>: \<^verbatim>\<open>vfs.c\<close>, \<^verbatim>\<open>tar.c\<close>. The locale \<open>directory_tree\<close> is what path lookup needs of a file
    system; its interpretation on \<^verbatim>\<open>tar_finddir\<close> makes lookup a walk in the tree the archive
    describes. Mounting the bytes of an archive and reading a file back returns its contents.
  \<^item> \<open>Elf\<close>: \<^verbatim>\<open>elf.c\<close>. Two page directories that share tables; a loaded program's pages hold the bytes of
    the file; a refused file costs no block. \<open>ElfMemory\<close>: a load that runs out of memory gives back its
    blocks, except for the page table.
  \<^item> \<open>Kernel\<close>: \<^verbatim>\<open>kernel_main\<close> and its phases; the self tests pass. \<open>Boot\<close>: the phases composed; the
    boot reaches the idle loop with paging, handlers and tasks in place. \<open>Run\<close>: switches between
    suspended tasks in several address spaces; the demo tasks from the first tick to their end.
  \<^item> \<open>Ramdisk\<close>: the boot with an archive as its boot module: mounting, loading \<^verbatim>\<open>/hello\<close>, the third task.
    \<open>Process\<close>: that task from the first switch to ring 3 and from its system call back.
  \<^item> \<open>Stubs\<close>: \<^verbatim>\<open>isr.s\<close> instruction by instruction, between the processor's interrupt delivery and its \<^verbatim>\<open>iret\<close>, on
    a stack page in memory. A system call and a resolved page fault return to the program with its registers;
    ring 3 can use no gate but the one for system calls.
  \<^item> \<open>Preempt\<close>: tasks that are interrupted at any moment, as a step relation \<open>pstep\<close> over the stubs, the
    timer and the scheduler. What a task does between interrupts is a contract (\<open>works\<close>), which the system call
    \<^verbatim>\<open>write\<close> keeps. The invariant \<open>system_ok\<close> holds in every reachable state, and a preempted task goes on as if
    nothing had happened.
  \<^item> \<open>Startup\<close>: \<^verbatim>\<open>boot.s\<close>. The locale \<open>boot_view\<close> collects what the whole boot leaves alone; its
    interpretation on the descriptor tables shows that the boot ends in a state with \<open>system_ok\<close>.

  \<^bold>\<open>Loops and fuel.\<close> Bounded loops are recursion or \<open>foreach\<close> over their index list. Loops that
  may not end are \<open>partial_function (option)\<close> (memory map, list walks) or \<open>while_option\<close> (the
  archive scan), and not ending is \<open>Hang\<close>. The scan of a C string in memory has \<open>2 ^ 32\<close> steps of
  fuel, one per address, after which it would repeat.

  \<^bold>\<open>Parameters.\<close> Addresses the linker chooses (objects, stubs, entry points, stack slots of the
  local variables of \<^verbatim>\<open>elf_load\<close>) are arguments (\<open>symbols\<close>, \<open>kernel_image\<close>); properties hold for all
  of them, with the separation they need as hypotheses.

  \<^bold>\<open>Not modelled.\<close> The static objects of the kernel are kept as records beside memory: the bitmap, the
  task table, the descriptor tables and the VGA buffer are not overwritten by stray stores and do not
  fault. A page fault inside \<^verbatim>\<open>memcpy\<close>, \<^verbatim>\<open>memset\<close> or the archive scan ends in \<open>Trap\<close> instead of being
  resolved; the properties show that it does not occur. Interrupts arrive only where an interrupt is
  stated: the boot runs without one. What the C compiler pushes between a stub and \<^verbatim>\<open>switch_task\<close> or an access
  that faults is not modelled: the stack pointer of an interrupted task is any that leaves room.
  Not translated are \<^verbatim>\<open>inb\<close>, \<^verbatim>\<open>inw\<close> and \<^verbatim>\<open>outw\<close> of \<^verbatim>\<open>ports.h\<close>, which have no caller,
  the build files and the Python scripts, which are not part of the kernel.
\<close>

subsection \<open>Properties of the whole kernel\<close>





end
